(* ===== verification/Prelude.thy ===== *)
theory Prelude
  imports Main "HOL-Library.Word" "HOL-Library.Monad_Syntax"
begin

text \<open>
  Shared vocabulary of the development: the machine-integer types of the Rust sources, the
  convention for calls that may panic, and the generic facts about lists, options, division and
  big-endian byte strings that the component theories use.

  Conventions.
  \<^item> \<open>u8\<close> \<dots> \<open>u128\<close> are machine words. A \<open>usize\<close> that counts elements of an in-memory container is a
    \<open>nat\<close>; a \<open>usize\<close> that is read from the wire or tested with \<open>checked_add\<close> is a \<open>nat\<close> compared
    with \<open>usize_max\<close> explicitly.
  \<^item> A Rust call that may panic returns a \<open>'a run\<close>: \<open>None\<close> is a call that does not return (it
    panics, or, for the one loop that could spin on an ill-formed value, runs forever), and
    \<open>Some x\<close> is the call that returns \<open>x\<close>. Theorems about such calls prove that they return.
  \<^item> A Rust \<open>Result<T, E>\<close> is a sum \<open>'e + 't\<close> with \<open>Inl\<close> for \<open>Err\<close> and \<open>Inr\<close> for \<open>Ok\<close>.
  \<^item> A method taking \<open>&mut self\<close> returns its result paired with the new state; the state of an
    \<open>Err\<close> return is kept, because the Rust caller can still observe it.
\<close>

section \<open>Machine integers and the shape of results\<close>

type_synonym u8 = "8 word"
type_synonym u16 = "16 word"
type_synonym u32 = "32 word"
type_synonym u64 = "64 word"
type_synonym u128 = "128 word"

type_synonym 'a run = "'a option"

abbreviation returns :: "'a run \<Rightarrow> bool" where
  "returns r \<equiv> r \<noteq> None"

definition usize_max :: nat where
  "usize_max = 18446744073709551615"

definition u32_max :: nat where
  "u32_max = 4294967295"

definition u16_max :: nat where
  "u16_max = 65535"

definition checked_add :: "nat \<Rightarrow> nat \<Rightarrow> nat option" where
  "checked_add a b = (if a + b \<le> usize_max then Some (a + b) else None)"

definition div_ceil :: "nat \<Rightarrow> nat \<Rightarrow> nat" where
  "div_ceil a b = (a + b - 1) div b"

definition assert_run :: "bool \<Rightarrow> unit run" where
  "assert_run b = (if b then Some () else None)"

definition index_run :: "'a list \<Rightarrow> nat \<Rightarrow> 'a run" where
  "index_run xs i = (if i < length xs then Some (xs ! i) else None)"

section \<open>Collections of the development\<close>

named_theorems run_simps \<open>how calls that return unfold\<close>
named_theorems inv_intros \<open>an operation keeps its component's invariant\<close>
named_theorems abs_simps \<open>what an operation does to the abstract value of its state\<close>

lemma bind_Some_iff [run_simps]:
  "(Option.bind r f = Some y) = (\<exists>x. r = Some x \<and> f x = Some y)"
  by (cases r) auto

lemma assert_run_Some [simp]: "(assert_run b = Some u) = b"
  by (simp add: assert_run_def)

lemma assert_run_True [simp]: "assert_run True = Some ()"
  by simp

section \<open>Division and lists\<close>

lemma div_ceil_eq: "0 < b \<Longrightarrow> div_ceil a b = a div b + (if b dvd a then 0 else 1)"
proof -
  assume b: "0 < b"
  show ?thesis
  proof (cases "b dvd a")
    case True
    then obtain k where k: "a = b * k" by (elim dvdE)
    have "(b * k + (b - 1)) div b = k"
      using b by (simp only: div_mult_self4) simp
    moreover have "a + b - 1 = b * k + (b - 1)" using b k by simp
    ultimately show ?thesis using True b k by (simp add: div_ceil_def)
  next
    case False
    define q r where "q = a div b" and "r = a mod b"
    have r: "0 < r" "r < b" using False b by (auto simp: r_def mod_greater_zero_iff_not_dvd)
    have a: "a = b * q + r" by (simp add: q_def r_def)
    have "a + b - 1 = b * Suc q + (r - 1)" using a r by simp
    moreover have "(b * Suc q + (r - 1)) div b = Suc q"
      using r b by (metis Suc_pred' add.right_neutral div_less div_mult_self4 less_SucI
          less_imp_Suc_add not_less_eq not_less_zero)
    ultimately have "div_ceil a b = Suc q" by (simp add: div_ceil_def)
    then show ?thesis using False by (simp add: q_def)
  qed
qed

lemma div_ceil_mult [simp]: "0 < b \<Longrightarrow> div_ceil (k * b) b = k"
  by (simp add: div_ceil_eq)

lemma div_ceil_mono: "a \<le> a' \<Longrightarrow> div_ceil a b \<le> div_ceil a' b"
  by (auto simp: div_ceil_def intro: div_le_mono)

lemma div_ceil_le_iff: "0 < b \<Longrightarrow> (div_ceil a b \<le> k) = (a \<le> k * b)"
proof -
  assume b: "0 < b"
  have "(div_ceil a b \<le> k) = (a + b - 1 < Suc k * b)"
    using b by (simp only: div_ceil_def less_Suc_eq_le [symmetric] div_less_iff_less_mult)
  then show ?thesis using b by auto
qed

lemma last_concat: "xss \<noteq> [] \<Longrightarrow> last xss \<noteq> [] \<Longrightarrow> last (concat xss) = last (last xss)"
  by (induction xss rule: rev_induct) auto

lemma length_concat_same:
  assumes "\<And>xs. xs \<in> set xss \<Longrightarrow> length xs = n"
  shows "length (concat xss) = length xss * n"
  using assms by (induction xss) auto

lemma concat_nth_same:
  assumes len: "\<And>xs. xs \<in> set xss \<Longrightarrow> length xs = n" and i: "i < length xss * n"
  shows "concat xss ! i = xss ! (i div n) ! (i mod n)"
  using len i
proof (induction xss arbitrary: i)
  case Nil
  then show ?case by simp
next
  case (Cons xs xss)
  have n: "length xs = n" using Cons.prems(1) by simp
  show ?case
  proof (cases "i < n")
    case True
    then show ?thesis using n by (simp add: nth_append)
  next
    case False
    then have pos: "0 < n" using Cons.prems(2) by (cases n) auto
    have "concat xss ! (i - n) = xss ! ((i - n) div n) ! ((i - n) mod n)"
      using Cons.prems False by (intro Cons.IH) auto
    then show ?thesis
      using False n pos by (simp add: nth_append le_div_geq le_mod_geq)
  qed
qed

lemma take_concat_same:
  assumes "\<And>xs. xs \<in> set xss \<Longrightarrow> length xs = n" and "k \<le> length xss"
  shows "take (k * n) (concat xss) = concat (take k xss)"
  using assms
proof (induction xss arbitrary: k)
  case Nil
  then show ?case by simp
next
  case (Cons xs xss)
  then show ?case by (cases k) auto
qed

lemma word_of_nat_less: "pos < k \<Longrightarrow> k < 2 ^ 64 \<Longrightarrow> (word_of_nat pos :: u64) < word_of_nat k"
  by (simp add: word_less_nat_alt unat_of_nat)

section \<open>Exact chunks of a slice\<close>

text \<open>
  \<open>slice::chunks_exact\<close> and its \<open>remainder\<close>: the list is cut into chunks of exactly \<open>n\<close>
  elements, the elements that do not fill a chunk are the remainder. The Rust iterator panics for
  \<open>n = 0\<close>; every caller in the sources asserts \<open>0 < n\<close> first.
\<close>

function chunks_exact :: "nat \<Rightarrow> 'a list \<Rightarrow> 'a list list" where
  "chunks_exact n xs =
     (if n = 0 \<or> length xs < n then [] else take n xs # chunks_exact n (drop n xs))"
  by pat_completeness auto
termination
  by (relation "measure (\<lambda>(n, xs). length xs)") auto

declare chunks_exact.simps [simp del]

definition chunks_remainder :: "nat \<Rightarrow> 'a list \<Rightarrow> 'a list" where
  "chunks_remainder n xs = drop (n * (length xs div n)) xs"

lemma chunks_exact_short: "length xs < n \<Longrightarrow> chunks_exact n xs = []"
  by (subst chunks_exact.simps) simp

lemma chunks_exact_append:
  assumes "0 < n" and "length xs = n"
  shows "chunks_exact n (xs @ ys) = xs # chunks_exact n ys"
  using assms by (subst chunks_exact.simps) simp

lemma chunks_exact_concat:
  assumes "0 < n" and "\<And>xs. xs \<in> set xss \<Longrightarrow> length xs = n" and "length ys < n"
  shows "chunks_exact n (concat xss @ ys) = xss"
  using assms(2)
proof (induction xss)
  case Nil
  then show ?case using assms(3) by (simp add: chunks_exact_short)
next
  case (Cons xs xss)
  then show ?case using assms(1) by (simp add: chunks_exact_append)
qed

lemma chunks_remainder_concat:
  assumes "0 < n" and "\<And>xs. xs \<in> set xss \<Longrightarrow> length xs = n" and "length ys < n"
  shows "chunks_remainder n (concat xss @ ys) = ys"
proof -
  have len: "length (concat xss) = length xss * n"
    using assms(2) by (rule length_concat_same)
  then have "(length xss * n + length ys) div n = length xss"
    using assms(1,3) by simp
  with len show ?thesis by (simp add: chunks_remainder_def mult.commute)
qed

lemma chunks_exact_parts:
  "0 < n \<Longrightarrow> concat (chunks_exact n xs) @ chunks_remainder n xs = xs \<and>
    (\<forall>c \<in> set (chunks_exact n xs). length c = n) \<and>
    length (chunks_exact n xs) = length xs div n"
proof (induction n xs rule: chunks_exact.induct)
  case (1 n xs)
  show ?case
  proof (cases "length xs < n")
    case True
    then show ?thesis by (simp add: chunks_exact_short chunks_remainder_def)
  next
    case False
    have go: "\<not> (n = 0 \<or> length xs < n)" using False "1.prems" by simp
    note IH = "1.IH" [OF go "1.prems"]
    have div: "length xs div n = Suc ((length xs - n) div n)"
      using False "1.prems" by (simp add: le_div_geq)
    have rem: "chunks_remainder n xs = chunks_remainder n (drop n xs)"
      by (simp add: chunks_remainder_def div add.commute)
    have "chunks_exact n xs = take n xs # chunks_exact n (drop n xs)"
      using False "1.prems" by (subst chunks_exact.simps) simp
    with IH div rem False show ?thesis
      by (metis append.assoc append_take_drop_id concat.simps(2) length_Cons length_drop
          length_take min.absorb2 not_less set_ConsD)
  qed
qed

lemma length_chunks_exact [simp]: "0 < n \<Longrightarrow> length (chunks_exact n xs) = length xs div n"
  using chunks_exact_parts by blast

lemma concat_chunks_exact: "0 < n \<Longrightarrow> concat (chunks_exact n xs) @ chunks_remainder n xs = xs"
  using chunks_exact_parts by blast

lemma chunks_exact_lengths: "0 < n \<Longrightarrow> c \<in> set (chunks_exact n xs) \<Longrightarrow> length c = n"
  using chunks_exact_parts by blast

lemma length_chunks_remainder [simp]: "0 < n \<Longrightarrow> length (chunks_remainder n xs) = length xs mod n"
  by (simp add: chunks_remainder_def minus_mult_div_eq_mod)

lemma chunks_exact_append_any:
  "0 < n \<Longrightarrow> chunks_exact n (xs @ ys) = chunks_exact n xs @ chunks_exact n (chunks_remainder n xs @ ys)"
proof (induction n xs rule: chunks_exact.induct)
  case (1 n xs)
  show ?case
  proof (cases "length xs < n")
    case True
    then show ?thesis by (simp add: chunks_exact_short chunks_remainder_def)
  next
    case False
    have "length xs div n = Suc ((length xs - n) div n)" using False "1.prems" by (simp add: le_div_geq)
    then have "chunks_remainder n xs = chunks_remainder n (drop n xs)"
      by (simp add: chunks_remainder_def add.commute)
    then show ?thesis
      using False "1.IH" "1.prems" by (subst (1 2) chunks_exact.simps) simp
  qed
qed

section \<open>Big-endian byte strings\<close>

text \<open>
  \<open>to_be_bytes\<close>, \<open>from_be_bytes\<close> and the \<open>put_uN\<close>/\<open>get_uN\<close> methods of the wire code: the value
  of an unsigned integer as \<open>n\<close> bytes, most significant first, and back.
\<close>

fun be_bytes :: "nat \<Rightarrow> nat \<Rightarrow> u8 list" where
  "be_bytes 0 v = []"
| "be_bytes (Suc n) v = be_bytes n (v div 256) @ [word_of_nat (v mod 256)]"

definition be_value :: "u8 list \<Rightarrow> nat" where
  "be_value bs = foldl (\<lambda>acc b. 256 * acc + unat b) 0 bs"

lemma length_be_bytes [simp]: "length (be_bytes n v) = n"
  by (induction n arbitrary: v) auto

lemma be_value_snoc [simp]: "be_value (bs @ [b]) = 256 * be_value bs + unat b"
  by (simp add: be_value_def)

lemma be_value_Nil [simp]: "be_value [] = 0"
  by (simp add: be_value_def)

lemma unat_byte_mod: "unat (word_of_nat (v mod 256) :: u8) = v mod 256"
  by (simp add: unat_of_nat)

lemma be_value_be_bytes: "v < 256 ^ n \<Longrightarrow> be_value (be_bytes n v) = v"
proof (induction n arbitrary: v)
  case 0
  then show ?case by simp
next
  case (Suc n)
  then have "v div 256 < 256 ^ n" by (simp add: div_less_iff_less_mult mult.commute)
  then have "be_value (be_bytes n (v div 256)) = v div 256" by (rule Suc.IH)
  then show ?case by (simp add: unat_byte_mod)
qed

lemma be_value_bound: "be_value bs < 256 ^ length bs"
proof (induction bs rule: rev_induct)
  case Nil
  then show ?case by simp
next
  case (snoc b bs)
  have "unat b < 256" using unsigned_less [of b] by simp
  then have "256 * be_value bs + unat b < 256 * Suc (be_value bs)" by simp
  also have "\<dots> \<le> 256 * 256 ^ length bs"
    using snoc.IH by (intro mult_le_mono2) simp
  finally show ?case by simp
qed

lemma be_bytes_be_value: "be_bytes (length bs) (be_value bs) = bs"
proof (induction bs rule: rev_induct)
  case Nil
  then show ?case by simp
next
  case (snoc b bs)
  have b: "unat b < 256" using unsigned_less [of b] by simp
  have "(256 * be_value bs + unat b) div 256 = be_value bs"
    "(256 * be_value bs + unat b) mod 256 = unat b"
    using b by simp_all
  then show ?case using snoc.IH by simp
qed

end
