(* ===== verification/PositionalHash.thy ===== *)
theory PositionalHash
  imports Prelude
begin

unbundle bit_operations_syntax

text \<open>
  The position-aware 128-bit hashes of \<open>lib/tokens/src/lib.rs\<close>: \<open>PositionalSequenceHash\<close> (a
  64-bit sequence hash, a position and a fragment of the block hash in one word) and
  \<open>PositionalLineageHash\<close> (a position, a fragment of the parent's and of the block's sequence
  hash), their bit layouts, accessors, ordering and byte encoding. The lemmas show that packing
  loses nothing but the bits the layout drops, that a child's parent fragment is always its
  parent's current fragment, and that the ordering is a total order.
\<close>

section \<open>Bit helpers and the byte codec of \<open>u128\<close>\<close>

definition low_mask_u64 :: "nat \<Rightarrow> u64" where
  "low_mask_u64 bits = push_bit bits 1 - 1"

definition low_mask_u128 :: "nat \<Rightarrow> u128" where
  "low_mask_u128 bits = push_bit bits 1 - 1"

datatype codec_error = InvalidLength nat

definition serialize_u128 :: "u128 \<Rightarrow> u8 list" where
  "serialize_u128 v = be_bytes 16 (unat v)"

definition visit_bytes :: "u8 list \<Rightarrow> codec_error + u8 list" where
  "visit_bytes v = (if length v = 16 then Inr v else Inl (InvalidLength (length v)))"

fun visit_seq_from :: "nat \<Rightarrow> u8 list \<Rightarrow> codec_error + u8 list" where
  "visit_seq_from i s =
     (if i < 16
      then (case s of [] \<Rightarrow> Inl (InvalidLength i)
            | b # s' \<Rightarrow> (case visit_seq_from (Suc i) s' of Inl e \<Rightarrow> Inl e | Inr arr \<Rightarrow> Inr (b # arr)))
      else Inr [])"

declare visit_seq_from.simps [simp del]

definition visit_seq :: "u8 list \<Rightarrow> codec_error + u8 list" where
  "visit_seq s = visit_seq_from 0 s"

definition deserialize_u128 :: "(u8 list \<Rightarrow> codec_error + u8 list) \<Rightarrow> u8 list \<Rightarrow> codec_error + u128" where
  "deserialize_u128 visitor v =
     (case visitor v of Inl e \<Rightarrow> Inl e | Inr arr \<Rightarrow> Inr (word_of_nat (be_value arr)))"

section \<open>\<open>PositionalSequenceHash\<close>\<close>

datatype PositionalSequenceHash = PositionalSequenceHash (psh_u128: u128)

definition psh_layout :: "(nat \<times> nat) list" where
  "psh_layout = [(8, 54), (16, 46), (24, 38), (31, 31)]"

fun psh_select_from :: "nat \<Rightarrow> (nat \<times> nat) list \<Rightarrow> u64 \<Rightarrow> u8 run" where
  "psh_select_from mode [] position = None"
| "psh_select_from mode ((position_bits, lbh_bits) # rest) position =
     (if position < push_bit position_bits 1 then Some (word_of_nat mode)
      else psh_select_from (Suc mode) rest position)"

definition psh_select_mode :: "u64 \<Rightarrow> u8 run" where
  "psh_select_mode position = psh_select_from 0 psh_layout position"

definition psh_pack_upper :: "u8 \<Rightarrow> u64 \<Rightarrow> u64 \<Rightarrow> u64 run" where
  "psh_pack_upper mode position local_block_hash = do {
     (position_bits, lbh_bits) \<leftarrow> index_run psh_layout (unat mode);
     let position_part = push_bit lbh_bits (position AND low_mask_u64 position_bits);
     let lbh_part = local_block_hash AND low_mask_u64 lbh_bits;
     Some (push_bit 62 (ucast mode) OR position_part OR lbh_part)
   }"

definition psh_unpack_upper :: "PositionalSequenceHash \<Rightarrow> (u8 \<times> u64 \<times> u64) run" where
  "psh_unpack_upper h = do {
     let upper = (ucast (drop_bit 64 (psh_u128 h)) :: u64);
     let mode = (ucast (drop_bit 62 upper) :: u8);
     (position_bits, lbh_bits) \<leftarrow> index_run psh_layout (unat mode);
     let lbh = upper AND low_mask_u64 lbh_bits;
     let position = drop_bit lbh_bits upper AND low_mask_u64 position_bits;
     Some (mode, position, lbh)
   }"

definition psh_new :: "u64 \<Rightarrow> u64 \<Rightarrow> u64 \<Rightarrow> PositionalSequenceHash run" where
  "psh_new sequence_hash position local_block_hash = do {
     mode \<leftarrow> psh_select_mode position;
     upper \<leftarrow> psh_pack_upper mode position local_block_hash;
     Some (PositionalSequenceHash (push_bit 64 (ucast upper) OR ucast sequence_hash))
   }"

definition psh_sequence_hash :: "PositionalSequenceHash \<Rightarrow> u64" where
  "psh_sequence_hash h = ucast (psh_u128 h)"

definition psh_position :: "PositionalSequenceHash \<Rightarrow> u64 run" where
  "psh_position h = map_option (\<lambda>(mode, position, lbh). position) (psh_unpack_upper h)"

definition psh_local_block_hash :: "PositionalSequenceHash \<Rightarrow> u64 run" where
  "psh_local_block_hash h = map_option (\<lambda>(mode, position, lbh). lbh) (psh_unpack_upper h)"

definition psh_mode :: "PositionalSequenceHash \<Rightarrow> u8 run" where
  "psh_mode h = map_option (\<lambda>(mode, position, lbh). mode) (psh_unpack_upper h)"

section \<open>\<open>PositionalLineageHash\<close>\<close>

datatype PositionalLineageHash = PositionalLineageHash (plh_u128: u128)

definition plh_layout :: "(nat \<times> nat \<times> nat) list" where
  "plh_layout = [(8, 59, 59), (16, 55, 55), (24, 51, 51)]"

definition plh_select_mode :: "u64 \<Rightarrow> u8" where
  "plh_select_mode position =
     (if position < push_bit 8 1 then 0 else if position < push_bit 16 1 then 1 else 2)"

definition plh_new :: "u64 \<Rightarrow> u64 option \<Rightarrow> u64 \<Rightarrow> PositionalLineageHash run" where
  "plh_new current_seq_hash parent_seq_hash position =
     (if push_bit 24 1 \<le> position then None
      else do {
        let mode = plh_select_mode position;
        (position_bits, parent_bits, current_bits) \<leftarrow> index_run plh_layout (unat mode);
        let next_mode = plh_select_mode (position + 1);
        (_, next_parent_bits, _) \<leftarrow> index_run plh_layout (unat next_mode);
        let aligned_current_bits = min current_bits next_parent_bits;
        let position_part = (ucast position :: u128) AND low_mask_u128 position_bits;
        let parent_part =
          (ucast (case parent_seq_hash of None \<Rightarrow> 0 | Some p \<Rightarrow> p) :: u128) AND low_mask_u128 parent_bits;
        let current_part = (ucast current_seq_hash :: u128) AND low_mask_u128 aligned_current_bits;
        Some (PositionalLineageHash
          (push_bit 126 (ucast mode) OR push_bit (parent_bits + current_bits) position_part
            OR push_bit current_bits parent_part OR current_part))
      })"

definition plh_mode :: "PositionalLineageHash \<Rightarrow> u8" where
  "plh_mode h = ucast (drop_bit 126 (plh_u128 h))"

definition plh_position :: "PositionalLineageHash \<Rightarrow> u64 run" where
  "plh_position h = do {
     (position_bits, parent_bits, current_bits) \<leftarrow> index_run plh_layout (unat (plh_mode h));
     Some (ucast (drop_bit (parent_bits + current_bits) (plh_u128 h) AND low_mask_u128 position_bits))
   }"

definition plh_current_hash_fragment :: "PositionalLineageHash \<Rightarrow> u64 run" where
  "plh_current_hash_fragment h = do {
     (_, _, current_bits) \<leftarrow> index_run plh_layout (unat (plh_mode h));
     Some (ucast (plh_u128 h AND low_mask_u128 current_bits))
   }"

definition plh_parent_hash_fragment :: "PositionalLineageHash \<Rightarrow> u64 run" where
  "plh_parent_hash_fragment h = do {
     (_, parent_bits, current_bits) \<leftarrow> index_run plh_layout (unat (plh_mode h));
     Some (ucast (drop_bit current_bits (plh_u128 h) AND low_mask_u128 parent_bits))
   }"

datatype ordering = Less | Equal | Greater

definition compare_with :: "'a::linorder \<Rightarrow> 'a \<Rightarrow> ordering" where
  "compare_with a b = (if a < b then Less else if a = b then Equal else Greater)"

fun then_with :: "ordering \<Rightarrow> ordering \<Rightarrow> ordering" where
  "then_with Equal r = r"
| "then_with r _ = r"

definition plh_cmp :: "PositionalLineageHash \<Rightarrow> PositionalLineageHash \<Rightarrow> ordering run" where
  "plh_cmp a b = do {
     pa \<leftarrow> plh_position a;
     pb \<leftarrow> plh_position b;
     if compare_with pa pb \<noteq> Equal then Some (compare_with pa pb)
     else do {
       ca \<leftarrow> plh_current_hash_fragment a;
       cb \<leftarrow> plh_current_hash_fragment b;
       Some (then_with (compare_with ca cb) (compare_with (plh_u128 a) (plh_u128 b)))
     }
   }"

section \<open>Masks and fields\<close>

lemma low_mask_u64_eq [simp]: "low_mask_u64 n = mask n"
  by (simp add: low_mask_u64_def mask_eq_exp_minus_1)

lemma low_mask_u128_eq [simp]: "low_mask_u128 n = mask n"
  by (simp add: low_mask_u128_def mask_eq_exp_minus_1)

lemma push_bit_one: "push_bit k 1 = (2 :: 'a::len word) ^ k"
  by (simp add: push_bit_eq_mult)

lemma bit_less_power: "(p :: 'a::len word) < 2 ^ k \<Longrightarrow> bit p i \<Longrightarrow> i < k"
  by (metis bit_and_iff bit_mask_iff less_mask_eq)

lemma word_halves:
  fixes u s :: u64
  shows "(ucast (drop_bit 64 (push_bit 64 (ucast u) OR ucast s :: u128)) :: u64) = u"
    "(ucast (push_bit 64 (ucast u) OR ucast s :: u128) :: u64) = s"
   by (intro bit_word_eqI; auto simp: bit_simps dest: bit_imp_le_length)+

section \<open>Packing and unpacking\<close>

lemma psh_fields:
  fixes m p l :: u64
  assumes "pb + lb = 62" "m < 4" "p < 2 ^ pb"
  defines "u \<equiv> push_bit 62 m OR push_bit lb (p AND mask pb) OR (l AND mask lb)"
  shows "drop_bit 62 u = m" "u AND mask lb = l AND mask lb" "drop_bit lb u AND mask pb = p"
proof -
  have bits: "\<forall>i. bit m i \<longrightarrow> i < 2" "\<forall>i. bit p i \<longrightarrow> i < pb"
    using assms(3) bit_less_power [of m 2] assms(2) by (auto dest: bit_less_power)
  show "drop_bit 62 u = m" using assms(1) bits unfolding u_def
    by (intro bit_word_eqI) (auto simp: bit_simps)
  show "u AND mask lb = l AND mask lb" using assms(1) bits unfolding u_def
    by (intro bit_word_eqI) (auto simp: bit_simps)
  show "drop_bit lb u AND mask pb = p" using assms(1) bits unfolding u_def
    by (intro bit_word_eqI) (auto simp: bit_simps)
qed

text \<open>The mode a position gets, as a number: the specification of \<open>psh_select_mode\<close>.\<close>

definition psh_mode_of :: "u64 \<Rightarrow> nat" where
  "psh_mode_of p = (if p < 256 then 0 else if p < 65536 then 1 else if p < 16777216 then 2 else 3)"

lemma psh_select_mode_eq:
  "psh_select_mode p = (if p < 2147483648 then Some (word_of_nat (psh_mode_of p)) else None)"
  by (auto simp: psh_select_mode_def psh_layout_def psh_mode_of_def push_bit_one word_less_nat_alt)

lemma psh_mode_of_layout:
  assumes "p < 2147483648"
  obtains pb lb where "psh_layout ! psh_mode_of p = (pb, lb)" "pb + lb = 62" "p < 2 ^ pb"
    "psh_mode_of p \<in> {0, 1, 2, 3}"
proof -
  consider "psh_mode_of p = 0" "p < 256" | "psh_mode_of p = 1" "p < 65536"
    | "psh_mode_of p = 2" "p < 16777216" | "psh_mode_of p = 3"
    by (metis psh_mode_of_def)
  then show thesis
  proof cases
    case 1
    then show ?thesis by (intro that [of 8 54]) (simp_all add: psh_layout_def)
  next
    case 2
    then show ?thesis by (intro that [of 16 46]) (simp_all add: psh_layout_def)
  next
    case 3
    then show ?thesis by (intro that [of 24 38]) (simp_all add: psh_layout_def)
  next
    case 4
    then show ?thesis using assms by (intro that [of 31 31]) (simp_all add: psh_layout_def)
  qed
qed

lemma psh_new_unpack:
  assumes p: "p < 2147483648"
  shows "\<exists>h. psh_new s p l = Some h \<and> psh_sequence_hash h = s \<and>
    psh_unpack_upper h = Some (word_of_nat (psh_mode_of p), p,
      l AND mask (snd (psh_layout ! psh_mode_of p)))"
proof -
  obtain pb lb where lay: "psh_layout ! psh_mode_of p = (pb, lb)" and w: "pb + lb = 62"
    and pb: "p < 2 ^ pb" and m: "psh_mode_of p \<in> {0, 1, 2, 3}"
    using psh_mode_of_layout [OF p] .
  let ?m = "word_of_nat (psh_mode_of p) :: u8"
  have um: "unat ?m = psh_mode_of p" and m4: "(ucast ?m :: u64) < 4"
    and ix: "index_run psh_layout (unat ?m) = Some (pb, lb)"
    and um': "(ucast (ucast ?m :: u64) :: u8) = ?m"
    using m lay by (auto simp: index_run_def psh_layout_def)
  define u where
    "u = push_bit 62 (ucast ?m) OR push_bit lb (p AND mask pb) OR (l AND mask lb)"
  note f = psh_fields [OF w m4 pb, of l, folded u_def]
  have pack: "psh_pack_upper ?m p l = Some u"
    by (simp only: psh_pack_upper_def ix u_def low_mask_u64_eq Let_def bind.bind_lunit prod.case)
  show ?thesis
    using p lay pack by (simp add: psh_new_def psh_select_mode_eq psh_sequence_hash_def
        psh_unpack_upper_def word_halves Let_def f um' ix del: drop_bit_or)
qed


lemma plh_fields:
  fixes m P Q C :: u128
  assumes "pb + qb + cb = 126" "m < 4" "\<forall>i. bit P i \<longrightarrow> i < pb" "ab \<le> cb"
  defines "v \<equiv> push_bit 126 m OR push_bit (qb + cb) (P AND mask pb)
    OR push_bit cb (Q AND mask qb) OR (C AND mask ab)"
  shows "drop_bit 126 v = m" "drop_bit (qb + cb) v AND mask pb = P"
    "drop_bit cb v AND mask qb = Q AND mask qb" "v AND mask cb = C AND mask ab"
proof -
  have bits: "\<forall>i. bit m i \<longrightarrow> i < 2" "\<forall>i. bit P i \<longrightarrow> i < pb"
    using assms(3) bit_less_power [of m 2] assms(2) by auto
  show "drop_bit 126 v = m" using assms(1) bits assms(4) unfolding v_def
    by (intro bit_word_eqI) (auto simp: bit_simps)
  show "drop_bit (qb + cb) v AND mask pb = P" using assms(1) bits assms(4) unfolding v_def
    by (intro bit_word_eqI) (auto simp: bit_simps)
  show "drop_bit cb v AND mask qb = Q AND mask qb" using assms(1) bits assms(4) unfolding v_def
    by (intro bit_word_eqI) (auto simp: bit_simps)
  show "v AND mask cb = C AND mask ab" using assms(1) bits assms(4) unfolding v_def
    by (intro bit_word_eqI) (auto simp: bit_simps)
qed

lemma ucast_mask: "(ucast ((ucast (x :: u64) :: u128) AND mask n) :: u64) = x AND mask n"
  by (intro bit_word_eqI) (auto simp: bit_simps)

text \<open>The width of both hash fragments at a position.\<close>

definition plh_bits :: "u64 \<Rightarrow> nat" where
  "plh_bits p = (if p < 256 then 59 else if p < 65536 then 55 else 51)"

lemma ucast_u128_u64 [simp]: "(ucast (ucast (x :: u64) :: u128) :: u64) = x"
  by (intro bit_word_eqI) (auto simp: bit_simps)

lemma plh_select_mode_eq:
  "plh_select_mode p = (if p < 256 then 0 else if p < 65536 then 1 else 2)"
  by (simp add: plh_select_mode_def push_bit_one)

lemma plh_select_mode_layout:
  assumes p: "p < 16777216"
  obtains pb where "index_run plh_layout (unat (plh_select_mode p)) = Some (pb, plh_bits p, plh_bits p)"
    "pb + plh_bits p + plh_bits p = 126" "p < 2 ^ pb" "plh_select_mode p \<in> {0, 1, 2}"
proof -
  consider "plh_select_mode p = 0" "p < 256" "plh_bits p = 59"
    | "plh_select_mode p = 1" "p < 65536" "plh_bits p = 55"
    | "plh_select_mode p = 2" "plh_bits p = 51"
    by (metis plh_select_mode_eq plh_bits_def)
  then show thesis
  proof cases
    case 1
    then show ?thesis by (intro that [of 8]) (simp_all add: plh_layout_def index_run_def)
  next
    case 2
    then show ?thesis by (intro that [of 16]) (simp_all add: plh_layout_def index_run_def)
  next
    case 3
    then show ?thesis using p by (intro that [of 24]) (simp_all add: plh_layout_def index_run_def)
  qed
qed

lemma plh_layout_next:
  "\<exists>pb. index_run plh_layout (unat (plh_select_mode p)) = Some (pb, plh_bits p, plh_bits p)"
  by (simp add: plh_select_mode_def plh_bits_def push_bit_one plh_layout_def index_run_def)


lemma plh_new_fields:
  assumes p: "p < 16777216"
  shows "\<exists>h. plh_new c par p = Some h \<and> plh_mode h = plh_select_mode p \<and> plh_position h = Some p \<and>
    plh_parent_hash_fragment h
      = Some ((case par of None \<Rightarrow> 0 | Some q \<Rightarrow> q) AND mask (plh_bits p)) \<and>
    plh_current_hash_fragment h = Some (c AND mask (min (plh_bits p) (plh_bits (p + 1))))"
proof -
  obtain pb where ix: "index_run plh_layout (unat (plh_select_mode p)) = Some (pb, plh_bits p, plh_bits p)"
    and w: "pb + plh_bits p + plh_bits p = 126" and pb: "p < 2 ^ pb"
    and m: "plh_select_mode p \<in> {0, 1, 2}"
    using plh_select_mode_layout [OF p] .
  obtain pb' where ix': "index_run plh_layout (unat (plh_select_mode (p + 1)))
      = Some (pb', plh_bits (p + 1), plh_bits (p + 1))"
    using plh_layout_next by blast
  let ?ab = "min (plh_bits p) (plh_bits (p + 1))"
  define q where "q = (case par of None \<Rightarrow> 0 | Some q \<Rightarrow> q)"
  have m4: "(ucast (plh_select_mode p) :: u128) < 4"
    and um: "(ucast (ucast (plh_select_mode p) :: u128) :: u8) = plh_select_mode p"
    using m by auto
  have pb128: "\<forall>i. bit (ucast p :: u128) i \<longrightarrow> i < pb"
    using pb by (auto simp: bit_simps dest: bit_less_power)
  have ab: "?ab \<le> plh_bits p" by simp
  define v where "v = push_bit 126 (ucast (plh_select_mode p)) OR
     push_bit (plh_bits p + plh_bits p) (ucast p AND mask pb) OR
     push_bit (plh_bits p) ((ucast q :: u128) AND mask (plh_bits p)) OR
     ((ucast c :: u128) AND mask ?ab)"
  note f = plh_fields [OF w m4 pb128 ab, of "ucast q" "ucast c", folded v_def]
  have nle: "\<not> push_bit 24 1 \<le> p" using p by (simp add: push_bit_one not_le)
  have new: "plh_new c par p = Some (PositionalLineageHash v)"
    using nle by (simp only: plh_new_def if_False ix ix' v_def q_def low_mask_u128_eq Let_def
        bind.bind_lunit prod.case)
  have mode: "plh_mode (PositionalLineageHash v) = plh_select_mode p"
    by (simp add: plh_mode_def f um)
  show ?thesis
    using new mode by (simp add: plh_position_def plh_parent_hash_fragment_def
        plh_current_hash_fragment_def ix f ucast_mask q_def)
qed

text \<open>A lineage hash whose two mode bits name an entry of the layout table.\<close>

definition plh_wf :: "PositionalLineageHash \<Rightarrow> bool" where
  "plh_wf h = (plh_mode h < 3)"

lemma plh_mode_less: "plh_mode h < 4"
proof -
  have "plh_mode h AND mask 2 = plh_mode h"
    unfolding plh_mode_def
    by (intro bit_word_eqI) (auto simp: bit_simps dest: bit_imp_le_length)
  then show ?thesis using and_mask_less' [of 2 "plh_mode h"] by simp
qed

lemma plh_mode_3: "(plh_mode h = 3) = (drop_bit 126 (plh_u128 h) = 3)"
proof -
  have "drop_bit 126 (plh_u128 h) = ucast (plh_mode h)"
    unfolding plh_mode_def
    by (intro bit_word_eqI) (auto simp: bit_simps dest: bit_imp_le_length)
  then show ?thesis by (auto simp: plh_mode_def)
qed

lemma plh_wf_iff: "plh_wf h = (plh_mode h \<noteq> 3)"
proof -
  have "plh_mode h = 3" if "unat (plh_mode h) = 3"
    using that by (simp add: word_unat_eq_iff)
  then show ?thesis
    using plh_mode_less [of h] by (fastforce simp: plh_wf_def word_less_nat_alt)
qed

lemma plh_index_run:
  "index_run plh_layout (unat (plh_mode h)) =
    (if plh_wf h then Some (plh_layout ! unat (plh_mode h)) else None)"
  by (auto simp: index_run_def plh_layout_def plh_wf_def word_less_nat_alt)

lemma plh_accessors_return:
  "returns (plh_position h) = plh_wf h" "returns (plh_current_hash_fragment h) = plh_wf h"
  "returns (plh_parent_hash_fragment h) = plh_wf h"
  by (auto simp: plh_position_def plh_current_hash_fragment_def plh_parent_hash_fragment_def
      plh_index_run split: prod.splits)

lemma compare_with_Equal [simp]: "(compare_with a b = Equal) = (a = b)"
  by (simp add: compare_with_def)

lemma compare_with_Less [simp]: "(compare_with a b = Less) = (a < b)"
  by (simp add: compare_with_def)

lemma compare_with_Greater [simp]: "(compare_with a b = Greater) = (b < a)"
  by (auto simp: compare_with_def)

lemma then_with_Less: "(then_with a b = Less) = (a = Less \<or> a = Equal \<and> b = Less)"
  by (cases a) auto

lemma then_with_Equal: "(then_with a b = Equal) = (a = Equal \<and> b = Equal)"
  by (cases a) auto

lemma then_with_Greater: "(then_with a b = Greater) = (a = Greater \<or> a = Equal \<and> b = Greater)"
  by (cases a) auto

lemma plh_cmp_eq:
  assumes "plh_wf a" and "plh_wf b"
  shows "plh_cmp a b = Some
    (then_with (compare_with (the (plh_position a)) (the (plh_position b)))
      (then_with (compare_with (the (plh_current_hash_fragment a)) (the (plh_current_hash_fragment b)))
        (compare_with (plh_u128 a) (plh_u128 b))))"
proof -
  obtain pa pb ca cb where h: "plh_position a = Some pa" "plh_position b = Some pb"
    "plh_current_hash_fragment a = Some ca" "plh_current_hash_fragment b = Some cb"
    using assms plh_accessors_return by (metis not_None_eq)
  then show ?thesis
    by (cases "compare_with pa pb") (simp_all add: plh_cmp_def compare_with_def split: if_splits)
qed

lemmas ordering_iffs = then_with_Less then_with_Equal then_with_Greater

lemma plh_cmp_Less_trans:
  assumes "plh_wf a" "plh_wf b" "plh_wf c" "plh_cmp a b = Some Less" "plh_cmp b c = Some Less"
  shows "plh_cmp a c = Some Less"
  using assms by (auto simp: plh_cmp_eq ordering_iffs)

lemma visit_seq_from_enough:
  "i \<le> 16 \<Longrightarrow> 16 - i \<le> length s \<Longrightarrow> visit_seq_from i s = Inr (take (16 - i) s)"
proof (induction i s rule: visit_seq_from.induct)
  case (1 i s)
  show ?case
  proof (cases "i < 16")
    case True
    then obtain b s' where s: "s = b # s'" using "1.prems" by (cases s) auto
    have "visit_seq_from (Suc i) s' = Inr (take (16 - Suc i) s')"
      using True "1.prems" s by (intro "1.IH") auto
    moreover have "16 - i = Suc (16 - Suc i)" using True by simp
    ultimately show ?thesis using True s by (subst visit_seq_from.simps) simp
  next
    case False
    then show ?thesis using "1.prems" by (subst visit_seq_from.simps) simp
  qed
qed

lemma u128_of_be_value: "length bs = 16 \<Longrightarrow> unat (word_of_nat (be_value bs) :: u128) = be_value bs"
  using be_value_bound [of bs] by (simp add: unat_of_nat)

lemma u128_be_value_be_bytes: "word_of_nat (be_value (be_bytes 16 (unat (v :: u128)))) = v"
proof -
  have "unat v < 2 ^ LENGTH(128)" by (rule unsigned_less)
  then have "be_value (be_bytes 16 (unat v)) = unat v" by (intro be_value_be_bytes) simp
  then show ?thesis by simp
qed

lemma deserialize_visit_bytes: "deserialize_u128 visit_bytes (serialize_u128 v) = Inr v"
  by (simp add: deserialize_u128_def visit_bytes_def serialize_u128_def u128_be_value_be_bytes)

section \<open>Properties\<close>

text \<open>
  The byte codec of the 128-bit hashes loses nothing: decoding the 16
  big-endian bytes of a value gives the value back, from a byte string and from a sequence of
  bytes alike, and a byte string decodes to a value only if it is exactly that value's encoding.
\<close>

lemma u128_serde_roundtrip:
  "deserialize_u128 visit_bytes (serialize_u128 v) = Inr v \<and>
   deserialize_u128 visit_seq (serialize_u128 v) = Inr v \<and>
   (deserialize_u128 visit_bytes bs = Inr v \<longleftrightarrow> bs = serialize_u128 v)"
proof -
  have b: "deserialize_u128 visit_seq (serialize_u128 v) = Inr v"
    by (simp add: deserialize_u128_def visit_seq_def visit_seq_from_enough serialize_u128_def
        u128_be_value_be_bytes)
  have "bs = serialize_u128 v" if "deserialize_u128 visit_bytes bs = Inr v"
    using that be_bytes_be_value [of bs]
    by (auto simp: deserialize_u128_def visit_bytes_def serialize_u128_def u128_of_be_value
        split: if_splits sum.splits)
  with b show ?thesis using deserialize_visit_bytes by blast
qed

text \<open>
  The function \<open>PositionalSequenceHash::new\<close> panics exactly for positions of at least
  \<open>2^31\<close>; otherwise the sequence hash and the position are read back unchanged, the mode is the
  smallest one that holds the position, and the local block hash is read back up to the bits that
  mode keeps (54, 46, 38 or 31).
\<close>

lemma psh_new_roundtrip:
  "case psh_new s p l of
     None \<Rightarrow> 2147483648 \<le> p
   | Some h \<Rightarrow> p < 2147483648 \<and> psh_sequence_hash h = s \<and> psh_position h = Some p \<and>
       psh_mode h = Some (if p < 256 then 0 else if p < 65536 then 1 else if p < 16777216 then 2 else 3) \<and>
       psh_local_block_hash h = Some (l AND mask
         (if p < 256 then 54 else if p < 65536 then 46 else if p < 16777216 then 38 else 31))"
proof (cases "p < 2147483648")
  case True
  then show ?thesis
    using psh_new_unpack [OF True, of s l]
    by (auto simp: psh_position_def psh_mode_def psh_local_block_hash_def psh_mode_of_def
        psh_layout_def)
next
  case False
  then show ?thesis by (simp add: psh_new_def psh_select_mode_eq)
qed

lemma plh_bits_antimono: "p < 16777215 \<Longrightarrow> min (plh_bits p) (plh_bits (p + 1)) = plh_bits (p + 1)"
proof -
  assume "p < 16777215"
  then have "p \<le> p + 1" by (simp add: word_le_nat_alt word_less_nat_alt unat_word_ariths)
  then show ?thesis by (auto simp: plh_bits_def min_def)
qed

text \<open>
  C28 (plh_lineage_link). Walking a lineage backwards works at every position, across the mode
  boundaries too: the parent fragment stored in the hash of position \<open>p + 1\<close> is exactly the current
  fragment stored in the hash of its parent at position \<open>p\<close>, and both hashes know their position.
\<close>

theorem plh_lineage_link:
  assumes "p < 16777215"
  shows "\<exists>a b. plh_new c par p = Some a \<and> plh_new c' (Some c) (p + 1) = Some b \<and>
    plh_position a = Some p \<and> plh_position b = Some (p + 1) \<and>
    returns (plh_current_hash_fragment a) \<and>
    plh_parent_hash_fragment b = plh_current_hash_fragment a"
proof -
  have "p < 16777216" "p + 1 < 16777216"
    using assms by (auto simp: word_less_nat_alt unat_word_ariths)
  then show ?thesis
    using plh_new_fields [of p c par] plh_new_fields [of "p + 1" c' "Some c"]
      plh_bits_antimono [OF assms]
    by auto
qed

theorem plh_lineage_link_witness:
  "(255 :: u64) < 16777215 \<and>
   (\<exists>a b. plh_new 18446744073709551615 None 255 = Some a \<and>
     plh_new 7 (Some 18446744073709551615) (255 + 1) = Some b \<and>
     plh_position a = Some 255 \<and> plh_position b = Some (255 + 1) \<and>
     returns (plh_current_hash_fragment a) \<and>
     plh_parent_hash_fragment b = plh_current_hash_fragment a)"
proof -
  have h: "(255 :: u64) < 16777215" by simp
  show ?thesis using h plh_lineage_link [OF h, of "18446744073709551615" None 7] by blast
qed

text \<open>
  On lineage hashes with a valid mode (every hash \<open>new\<close> builds) the
  \<open>Ord\<close> implementation never panics and is a total order that agrees with equality.
\<close>

lemma plh_cmp_total_order:
  assumes "plh_wf a" "plh_wf b" "plh_wf c"
  shows "(plh_cmp a b = Some Equal \<longleftrightarrow> a = b) \<and>
    (plh_cmp a b = Some Less \<longleftrightarrow> plh_cmp b a = Some Greater) \<and>
    returns (plh_cmp a b) \<and>
    (plh_cmp a b = Some Less \<longrightarrow> plh_cmp b c = Some Less \<longrightarrow> plh_cmp a c = Some Less)"
  using assms plh_cmp_Less_trans [OF assms]
  by (auto simp: plh_cmp_eq ordering_iffs PositionalLineageHash.expand)

text \<open>
  Deserialising a lineage hash accepts every 128-bit value, but
  the accessors of a value whose two mode bits are both set index past the layout table and
  panic: the only values whose position can be read are those with mode 0, 1 or 2.
\<close>

lemma plh_deserialize_unchecked:
  "deserialize_u128 visit_bytes (serialize_u128 v) = Inr v \<and>
   (plh_position (PositionalLineageHash v) = None \<longleftrightarrow> drop_bit 126 v = 3)"
  using plh_accessors_return(1) [of "PositionalLineageHash v"] plh_mode_3 [of "PositionalLineageHash v"]
  by (simp add: deserialize_visit_bytes plh_wf_iff) (metis not_None_eq)

end
