(* ===== verification/TokenBlocks.thy ===== *)
theory TokenBlocks
  imports PositionalHash
begin

text \<open>
  The block-structured token sequences of \<open>lib/tokens/src/lib.rs\<close>: \<open>PartialTokenBlock\<close> (the block
  being filled), \<open>TokenBlockChunk\<close> and \<open>TokenBlock\<close> (a full block with its hashes) and
  \<open>TokenBlockSequence\<close> with all its operations. The hash function (crate \<open>xxhash_rust\<close>) and the byte
  view of integer slices (crate \<open>bytemuck\<close>) are parameters, collected in the record \<open>build_env\<close>
  together with the build's \<open>debug_assertions\<close> flag.

  The lemmas show that a sequence is at every moment the canonical block structure of the list of
  tokens it stands for: \<open>append\<close> and \<open>extend\<close> add to that list, \<open>truncate\<close>, \<open>unwind\<close> and \<open>pop\<close>
  shorten it, \<open>tokens_at\<close> reads it, none of them panics while there are at most \<open>2^24\<close> full blocks,
  and the state, hashes included, depends on the tokens alone and not on the operations that
  produced them.
\<close>

section \<open>Parameters and basic types\<close>

record build_env =
  xxh3_64_with_seed :: "u8 list \<Rightarrow> u64 \<Rightarrow> u64"
  cast_u32s :: "u32 list \<Rightarrow> u8 list"
  cast_u64s :: "u64 list \<Rightarrow> u8 list"
  debug_assertions :: bool

type_synonym Token = u32
type_synonym Tokens = "u32 list"

definition compute_hash_v2 :: "build_env \<Rightarrow> u8 list \<Rightarrow> u64 \<Rightarrow> u64" where
  "compute_hash_v2 E data seed = xxh3_64_with_seed E data seed"

datatype TokenBlockError = Full | Incomplete | Empty | InsufficientTokens

fun tokens_of_usizes :: "nat list \<Rightarrow> Tokens run" where
  "tokens_of_usizes [] = Some []"
| "tokens_of_usizes (t # ts) = (if u32_max < t then None
     else do { rest \<leftarrow> tokens_of_usizes ts; Some (word_of_nat t # rest) })"

definition tokens_of_i32s :: "32 word list \<Rightarrow> Tokens" where
  "tokens_of_i32s ts = map (\<lambda>t. word_of_int (sint t)) ts"

section \<open>Partial blocks, chunks and full blocks\<close>

record PartialTokenBlock =
  p_tokens :: Tokens
  p_block_size :: u32
  p_salt_hash :: u64
  p_parent_sequence_hash :: "u64 option"
  p_position :: nat

record TokenBlockChunk =
  c_tokens :: Tokens
  c_salt_hash :: u64
  c_block_hash :: u64

record TokenBlock =
  b_tokens :: Tokens
  b_salt_hash :: u64
  b_block_hash :: u64
  b_sequence_hash :: u64
  b_parent_sequence_hash :: "u64 option"
  b_positional_sequence_hash :: PositionalSequenceHash
  b_positional_lineage_hash :: PositionalLineageHash

definition create_sequence_root :: "u32 \<Rightarrow> u64 \<Rightarrow> PartialTokenBlock" where
  "create_sequence_root block_size salt_hash =
     \<lparr>p_tokens = [], p_block_size = block_size, p_salt_hash = salt_hash,
      p_parent_sequence_hash = None, p_position = 0\<rparr>"

definition remaining :: "PartialTokenBlock \<Rightarrow> nat" where
  "remaining p = unat (p_block_size p) - length (p_tokens p)"

definition push_tokens :: "PartialTokenBlock \<Rightarrow> Tokens \<Rightarrow> Tokens \<times> PartialTokenBlock" where
  "push_tokens p tokens =
     (let remaining_space = remaining p in
      if remaining_space = 0 then (tokens, p)
      else if length tokens \<le> remaining_space
      then ([], p\<lparr>p_tokens := p_tokens p @ tokens\<rparr>)
      else (drop remaining_space tokens,
            p\<lparr>p_tokens := p_tokens p @ take remaining_space tokens\<rparr>))"

definition push_token :: "PartialTokenBlock \<Rightarrow> Token \<Rightarrow> (TokenBlockError + unit) \<times> PartialTokenBlock" where
  "push_token p token =
     (if unat (p_block_size p) \<le> length (p_tokens p) then (Inl Full, p)
      else (Inr (), p\<lparr>p_tokens := p_tokens p @ [token]\<rparr>))"

definition pop_tokens :: "PartialTokenBlock \<Rightarrow> nat \<Rightarrow> (TokenBlockError + unit) \<times> PartialTokenBlock" where
  "pop_tokens p count =
     (if length (p_tokens p) < count then (Inl InsufficientTokens, p)
      else (Inr (), p\<lparr>p_tokens := take (length (p_tokens p) - count) (p_tokens p)\<rparr>))"

definition chunk_new :: "build_env \<Rightarrow> Tokens \<Rightarrow> u64 \<Rightarrow> TokenBlockChunk" where
  "chunk_new E tokens salt_hash =
     \<lparr>c_tokens = tokens, c_salt_hash = salt_hash,
      c_block_hash = compute_hash_v2 E (cast_u32s E tokens) salt_hash\<rparr>"

definition chunk_from_tokens :: "build_env \<Rightarrow> Tokens \<Rightarrow> u64 \<Rightarrow> TokenBlockChunk" where
  "chunk_from_tokens E tokens salt_hash =
     \<lparr>c_tokens = tokens, c_salt_hash = salt_hash,
      c_block_hash = compute_hash_v2 E (cast_u32s E tokens) salt_hash\<rparr>"

definition from_chunk :: "build_env \<Rightarrow> TokenBlockChunk \<Rightarrow> u64 option \<Rightarrow> nat \<Rightarrow> TokenBlock run" where
  "from_chunk E chunk parent_sequence_hash position = do {
     let sequence_hash =
       (case parent_sequence_hash of
          Some parent \<Rightarrow> compute_hash_v2 E (cast_u64s E [parent, c_block_hash chunk]) (c_salt_hash chunk)
        | None \<Rightarrow> c_block_hash chunk);
     positional_sequence_hash \<leftarrow> psh_new sequence_hash (word_of_nat position) (c_block_hash chunk);
     positional_lineage_hash \<leftarrow> plh_new sequence_hash parent_sequence_hash (word_of_nat position);
     Some \<lparr>b_tokens = c_tokens chunk, b_salt_hash = c_salt_hash chunk,
       b_block_hash = c_block_hash chunk, b_sequence_hash = sequence_hash,
       b_parent_sequence_hash = parent_sequence_hash,
       b_positional_sequence_hash = positional_sequence_hash,
       b_positional_lineage_hash = positional_lineage_hash\<rparr>
   }"

definition b_position :: "TokenBlock \<Rightarrow> u64 run" where
  "b_position b = psh_position (b_positional_sequence_hash b)"

definition next_block :: "TokenBlock \<Rightarrow> PartialTokenBlock run" where
  "next_block b = do {
     position \<leftarrow> b_position b;
     Some \<lparr>p_tokens = [], p_block_size = word_of_nat (length (b_tokens b)),
       p_salt_hash = b_salt_hash b, p_parent_sequence_hash = Some (b_sequence_hash b),
       p_position = unat position + 1\<rparr>
   }"

definition commit ::
  "build_env \<Rightarrow> PartialTokenBlock \<Rightarrow> ((TokenBlockError + TokenBlock) \<times> PartialTokenBlock) run" where
  "commit E p =
     (if length (p_tokens p) \<noteq> unat (p_block_size p) then Some (Inl Incomplete, p)
      else do {
        let chunk = chunk_new E (p_tokens p) (p_salt_hash p);
        block \<leftarrow> from_chunk E chunk (p_parent_sequence_hash p) (p_position p);
        Some (Inr block,
          p\<lparr>p_tokens := [], p_parent_sequence_hash := Some (b_sequence_hash block),
            p_position := p_position p + 1\<rparr>)
      })"

section \<open>Token sequences\<close>

record TokenBlockSequence =
  s_blocks :: "TokenBlock list"
  s_current_block :: PartialTokenBlock
  s_salt_hash :: u64
  s_block_size :: nat

text \<open>The loop of \<open>split_tokens\<close> over the enumerated chunks, with the last sequence hash.\<close>

fun link_chunks :: "build_env \<Rightarrow> nat \<Rightarrow> u64 option \<Rightarrow> TokenBlockChunk list \<Rightarrow>
    (TokenBlock list \<times> u64 option) run" where
  "link_chunks E position last_sequence_hash [] = Some ([], last_sequence_hash)"
| "link_chunks E position last_sequence_hash (chunk # chunks) = do {
     new_block \<leftarrow> from_chunk E chunk last_sequence_hash position;
     (blocks, h) \<leftarrow> link_chunks E (Suc position) (Some (b_sequence_hash new_block)) chunks;
     Some (new_block # blocks, h)
   }"

definition split_tokens :: "build_env \<Rightarrow> Tokens \<Rightarrow> u32 \<Rightarrow> u64 \<Rightarrow> (TokenBlock list \<times> PartialTokenBlock) run" where
  "split_tokens E tokens block_size salt_hash = do {
     assert_run (0 < block_size);
     let chunks = map (\<lambda>chunk. chunk_from_tokens E chunk salt_hash)
       (chunks_exact (unat block_size) tokens);
     (result_blocks, last_sequence_hash) \<leftarrow> link_chunks E 0 None chunks;
     let remainder = chunks_remainder (unat block_size) tokens;
     Some (result_blocks,
       \<lparr>p_tokens = remainder, p_block_size = block_size, p_salt_hash = salt_hash,
        p_parent_sequence_hash = last_sequence_hash, p_position = length result_blocks\<rparr>)
   }"

definition tbs_new :: "build_env \<Rightarrow> Tokens \<Rightarrow> u32 \<Rightarrow> u64 option \<Rightarrow> TokenBlockSequence run" where
  "tbs_new E tokens block_size salt_hash = do {
     assert_run (0 < block_size);
     let salt_hash = (case salt_hash of None \<Rightarrow> 0 | Some s \<Rightarrow> s);
     (blocks, current_block) \<leftarrow> split_tokens E tokens block_size salt_hash;
     Some \<lparr>s_blocks = blocks, s_current_block = current_block, s_salt_hash = salt_hash,
       s_block_size = unat block_size\<rparr>
   }"

definition tbs_from_slice :: "build_env \<Rightarrow> Tokens \<Rightarrow> u32 \<Rightarrow> u64 option \<Rightarrow> TokenBlockSequence run" where
  "tbs_from_slice E tokens block_size salt_hash = do {
     assert_run (0 < block_size);
     let salt_hash = (case salt_hash of None \<Rightarrow> 0 | Some s \<Rightarrow> s);
     (blocks, current_block) \<leftarrow> split_tokens E tokens block_size salt_hash;
     Some \<lparr>s_blocks = blocks, s_current_block = current_block, s_salt_hash = salt_hash,
       s_block_size = unat block_size\<rparr>
   }"

definition into_sequence :: "build_env \<Rightarrow> Tokens \<Rightarrow> u32 \<Rightarrow> u64 option \<Rightarrow> TokenBlockSequence run" where
  "into_sequence E tokens block_size salt_hash = tbs_new E tokens block_size salt_hash"

text \<open>
  \<open>let new_block = self.current_block.commit()?; self.blocks.push(new_block);\<close>, the step that
  \<open>extend\<close> and \<open>append\<close> share. The \<open>?\<close> leaves the sequence as the failed \<open>commit\<close> left it.
\<close>

definition commit_current ::
  "build_env \<Rightarrow> TokenBlockSequence \<Rightarrow> ((TokenBlockError + unit) \<times> TokenBlockSequence) run" where
  "commit_current E s = do {
     (r, p) \<leftarrow> commit E (s_current_block s);
     Some (case r of
         Inl e \<Rightarrow> (Inl e, s\<lparr>s_current_block := p\<rparr>)
       | Inr new_block \<Rightarrow>
           (Inr (), s\<lparr>s_current_block := p, s_blocks := s_blocks s @ [new_block]\<rparr>))
   }"

partial_function (option) extend_loop ::
  "build_env \<Rightarrow> TokenBlockSequence \<Rightarrow> Tokens \<Rightarrow> ((TokenBlockError + unit) \<times> TokenBlockSequence) run" where
  "extend_loop E s tokens_to_append =
     (if tokens_to_append = [] then Some (Inr (), s)
      else do {
        (r1, s1) \<leftarrow> (if remaining (s_current_block s) = 0 then commit_current E s else Some (Inr (), s));
        (case r1 of
           Inl e \<Rightarrow> Some (Inl e, s1)
         | Inr _ \<Rightarrow> (case push_tokens (s_current_block s1) tokens_to_append of (rest, p) \<Rightarrow> do {
             let s2 = s1\<lparr>s_current_block := p\<rparr>;
             (r3, s3) \<leftarrow> (if remaining (s_current_block s2) = 0 then commit_current E s2
                         else Some (Inr (), s2));
             (case r3 of Inl e \<Rightarrow> Some (Inl e, s3) | Inr _ \<Rightarrow> extend_loop E s3 rest)
           }))
      })"

definition tbs_extend :: "build_env \<Rightarrow> TokenBlockSequence \<Rightarrow> Tokens \<Rightarrow>
    ((TokenBlockError + (nat \<times> nat) option) \<times> TokenBlockSequence) run" where
  "tbs_extend E s tokens = do {
     let start_block_index = length (s_blocks s);
     (r, s') \<leftarrow> extend_loop E s tokens;
     let end_block_index = length (s_blocks s');
     Some (case r of
         Inl e \<Rightarrow> (Inl e, s')
       | Inr _ \<Rightarrow> (Inr (if start_block_index = end_block_index then None
                        else Some (start_block_index, end_block_index)), s'))
   }"

definition tbs_append :: "build_env \<Rightarrow> TokenBlockSequence \<Rightarrow> Token \<Rightarrow>
    ((TokenBlockError + nat option) \<times> TokenBlockSequence) run" where
  "tbs_append E s token = do {
     (r1, s1) \<leftarrow> (if remaining (s_current_block s) = 0 then commit_current E s else Some (Inr (), s));
     (case r1 of
        Inl e \<Rightarrow> Some (Inl e, s1)
      | Inr _ \<Rightarrow> (case push_token (s_current_block s1) token of
          (Inl e, p) \<Rightarrow> Some (Inl e, s1\<lparr>s_current_block := p\<rparr>)
        | (Inr _, p) \<Rightarrow> do {
            let s2 = s1\<lparr>s_current_block := p\<rparr>;
            if remaining (s_current_block s2) \<noteq> 0 then Some (Inr None, s2)
            else do {
              let completed_idx = length (s_blocks s2);
              (r3, s3) \<leftarrow> commit_current E s2;
              Some (case r3 of Inl e \<Rightarrow> (Inl e, s3) | Inr _ \<Rightarrow> (Inr (Some completed_idx), s3))
            }
          }))
   }"

definition tbs_total_tokens :: "TokenBlockSequence \<Rightarrow> nat" where
  "tbs_total_tokens s =
     length (s_blocks s) * unat (p_block_size (s_current_block s)) + length (p_tokens (s_current_block s))"

definition tbs_truncate :: "build_env \<Rightarrow> TokenBlockSequence \<Rightarrow> nat \<Rightarrow>
    ((TokenBlockError + unit) \<times> TokenBlockSequence) run" where
  "tbs_truncate E s len =
     (let current_total_len = tbs_total_tokens s in
      if current_total_len \<le> len then Some (Inr (), s)
      else
        let n = current_total_len - len;
            p = s_current_block s;
            current_len = length (p_tokens p);
            block_size = max (unat (p_block_size p)) 1
        in if n \<le> current_len
           then (case pop_tokens p n of (r, p') \<Rightarrow> Some (r, s\<lparr>s_current_block := p'\<rparr>))
           else
             let tokens_to_pop_from_blocks = n - current_len;
                 num_blocks_to_affect = div_ceil tokens_to_pop_from_blocks block_size
             in if length (s_blocks s) < num_blocks_to_affect
                then (if debug_assertions E then None else Some (Inl InsufficientTokens, s))
                else do {
                  let source_block_index = length (s_blocks s) - num_blocks_to_affect;
                  let num_full_blocks_completely_popped = num_blocks_to_affect - 1;
                  let num_tokens_to_pop_from_source_block =
                    tokens_to_pop_from_blocks - num_full_blocks_completely_popped * block_size;
                  let num_tokens_to_keep_in_new_partial =
                    block_size - num_tokens_to_pop_from_source_block;
                  new_partial_tokens \<leftarrow>
                    (if 0 < num_tokens_to_keep_in_new_partial
                     then do {
                       source \<leftarrow> index_run (s_blocks s) source_block_index;
                       if num_tokens_to_keep_in_new_partial \<le> length (b_tokens source)
                       then Some (take num_tokens_to_keep_in_new_partial (b_tokens source)) else None
                     }
                     else Some []);
                  let blocks = take source_block_index (s_blocks s);
                  Some (Inr (), s\<lparr>s_blocks := blocks,
                    s_current_block := p\<lparr>p_tokens := new_partial_tokens,
                      p_parent_sequence_hash :=
                        (if blocks = [] then None else Some (b_sequence_hash (last blocks))),
                      p_position := length blocks\<rparr>\<rparr>)
                })"

definition tbs_unwind :: "build_env \<Rightarrow> TokenBlockSequence \<Rightarrow> nat \<Rightarrow>
    ((TokenBlockError + unit) \<times> TokenBlockSequence) run" where
  "tbs_unwind E s count =
     (let current_total_len = tbs_total_tokens s in
      if current_total_len < count then Some (Inl InsufficientTokens, s)
      else tbs_truncate E s (current_total_len - count))"

definition tbs_reset :: "TokenBlockSequence \<Rightarrow> TokenBlockSequence" where
  "tbs_reset s = s\<lparr>s_blocks := [],
     s_current_block := create_sequence_root (word_of_nat (s_block_size s)) (s_salt_hash s)\<rparr>"

definition tbs_pop :: "build_env \<Rightarrow> TokenBlockSequence \<Rightarrow> (Token option \<times> TokenBlockSequence) run" where
  "tbs_pop E s =
     (let current_total_len = tbs_total_tokens s in
      if current_total_len = 0 then Some (None, s)
      else do {
        last_token \<leftarrow>
          (if p_tokens (s_current_block s) \<noteq> [] then Some (last (p_tokens (s_current_block s)))
           else if s_blocks s = [] then None
           else if b_tokens (last (s_blocks s)) = [] then None
           else Some (last (b_tokens (last (s_blocks s)))));
        (r, s') \<leftarrow> tbs_truncate E s (current_total_len - 1);
        (case r of
           Inr _ \<Rightarrow> Some (Some last_token, s')
         | Inl _ \<Rightarrow> (if debug_assertions E then None else Some (None, s')))
      })"

definition last_complete_block :: "TokenBlockSequence \<Rightarrow> TokenBlock option" where
  "last_complete_block s = (if s_blocks s = [] then None else Some (last (s_blocks s)))"

definition token_at :: "TokenBlockSequence \<Rightarrow> nat \<Rightarrow> Token run" where
  "token_at s i =
     (if i < length (s_blocks s) * s_block_size s
      then do {
        block \<leftarrow> index_run (s_blocks s) (i div s_block_size s);
        index_run (b_tokens block) (i mod s_block_size s)
      }
      else index_run (p_tokens (s_current_block s)) (i - length (s_blocks s) * s_block_size s))"

fun collect_run :: "('a \<Rightarrow> 'b run) \<Rightarrow> 'a list \<Rightarrow> 'b list run" where
  "collect_run f [] = Some []"
| "collect_run f (x # xs) = do { y \<leftarrow> f x; ys \<leftarrow> collect_run f xs; Some (y # ys) }"

definition tokens_at :: "TokenBlockSequence \<Rightarrow> nat \<Rightarrow> nat \<Rightarrow> Tokens run" where
  "tokens_at s range_start range_end =
     (let total = tbs_total_tokens s in
      if range_end < range_start \<or> total < range_end then Some []
      else if range_end \<le> range_start then Some []
      else collect_run (token_at s) [range_start..<range_end])"

section \<open>Blocks and chains of blocks\<close>

lemma chunk_from_tokens_eq [simp]: "chunk_from_tokens E ts salt = chunk_new E ts salt"
  by (simp add: chunk_from_tokens_def chunk_new_def)

lemma chunk_new_simps [simp]: "c_tokens (chunk_new E ts salt) = ts" "c_salt_hash (chunk_new E ts salt) = salt"
  by (simp_all add: chunk_new_def)

lemma from_chunk_Some:
  assumes "from_chunk E c h pos = Some b"
  shows "b_tokens b = c_tokens c" "b_salt_hash b = c_salt_hash c"
    "b_parent_sequence_hash b = h" "b_block_hash b = c_block_hash c"
  using assms by (auto simp: from_chunk_def Let_def run_simps)

lemma from_chunk_returns:
  assumes "pos < 16777216"
  shows "\<exists>b. from_chunk E c h pos = Some b"
proof -
  have "(word_of_nat pos :: u64) < 16777216" "(word_of_nat pos :: u64) < 2147483648"
    using word_of_nat_less [of pos 16777216] word_of_nat_less [of pos 2147483648] assms by simp_all
  then show ?thesis
    using psh_new_unpack plh_new_fields unfolding from_chunk_def Let_def
    by (metis (no_types, lifting) bind.bind_lunit)
qed

lemma from_chunk_panics:
  assumes "16777216 \<le> pos" "pos < 2 ^ 64"
  shows "from_chunk E c h pos = None"
proof -
  have "push_bit 24 1 \<le> (word_of_nat pos :: u64)"
    using assms by (simp add: push_bit_one word_le_nat_alt unat_of_nat)
  then show ?thesis by (simp add: from_chunk_def plh_new_def Let_def bind_eq_None_conv)
qed

lemma link_chunks_append:
  "link_chunks E pos h (cs @ ds) = do {
     (bs, h') \<leftarrow> link_chunks E pos h cs;
     (bs', h'') \<leftarrow> link_chunks E (pos + length cs) h' ds;
     Some (bs @ bs', h'')
   }"
proof (induction cs arbitrary: pos h)
  case Nil
  then show ?case by (cases "link_chunks E pos h ds") auto
next
  case (Cons c cs)
  show ?case
    by (auto simp: Cons.IH split: Option.bind_splits)
qed

lemma link_chunks_Some:
  assumes "link_chunks E pos h cs = Some (bs, h')"
  shows "map b_tokens bs = map c_tokens cs"
    and "h' = (if bs = [] then h else Some (b_sequence_hash (last bs)))"
  using assms
  by (induction cs arbitrary: pos h bs) (fastforce simp: run_simps dest: from_chunk_Some split: if_splits)+

lemma link_chunks_length: "link_chunks E pos h cs = Some (bs, h') \<Longrightarrow> length bs = length cs"
  using link_chunks_Some(1) map_eq_imp_length_eq by blast

lemma link_chunks_returns:
  "pos + length cs \<le> 16777216 \<Longrightarrow> \<exists>bs h'. link_chunks E pos h cs = Some (bs, h')"
proof (induction cs arbitrary: pos h)
  case Nil
  then show ?case by simp
next
  case (Cons c cs)
  obtain b where b: "from_chunk E c h pos = Some b"
    using from_chunk_returns Cons.prems by (metis add.commute add_Suc_right le_add1 length_Cons less_eq_Suc_le order_trans)
  obtain bs h' where "link_chunks E (Suc pos) (Some (b_sequence_hash b)) cs = Some (bs, h')"
    using Cons.IH [of "Suc pos" "Some (b_sequence_hash b)"] Cons.prems by auto
  with b show ?case by simp
qed

lemma link_chunks_take:
  assumes "link_chunks E pos h cs = Some (bs, h')"
  shows "link_chunks E pos h (take k cs)
    = Some (take k bs, if take k bs = [] then h else Some (b_sequence_hash (last (take k bs))))"
proof -
  have split: "link_chunks E pos h (take k cs @ drop k cs) = Some (bs, h')" using assms by simp
  obtain bs1 h1 bs2 where l: "link_chunks E pos h (take k cs) = Some (bs1, h1)" and bs: "bs = bs1 @ bs2"
    using split unfolding link_chunks_append by (auto simp: run_simps)
  have "length bs1 = length (take k cs)" "length bs = length cs"
    using l assms link_chunks_length by blast+
  then have "take k bs = bs1" using bs by (cases "k \<le> length cs") auto
  then show ?thesis using l link_chunks_Some(2) [OF l] by simp
qed

section \<open>The canonical form of a sequence\<close>

text \<open>The tokens a sequence stands for.\<close>

definition seq_tokens :: "TokenBlockSequence \<Rightarrow> Tokens" where
  "seq_tokens s = concat (map b_tokens (s_blocks s)) @ p_tokens (s_current_block s)"

text \<open>The chunks of the full blocks of a sequence.\<close>

abbreviation block_chunks :: "build_env \<Rightarrow> u64 \<Rightarrow> TokenBlock list \<Rightarrow> TokenBlockChunk list" where
  "block_chunks E salt blocks \<equiv> map (\<lambda>b. chunk_new E (b_tokens b) salt) blocks"

text \<open>
  The core of the invariant holds inside an operation too; between operations the current block is
  never full, since an operation that fills it commits it.
\<close>

definition seq_core :: "build_env \<Rightarrow> TokenBlockSequence \<Rightarrow> bool" where
  "seq_core E s = (0 < s_block_size s \<and>
     unat (p_block_size (s_current_block s)) = s_block_size s \<and>
     p_salt_hash (s_current_block s) = s_salt_hash s \<and>
     (\<forall>b \<in> set (s_blocks s). length (b_tokens b) = s_block_size s) \<and>
     p_position (s_current_block s) = length (s_blocks s) \<and>
     link_chunks E 0 None (block_chunks E (s_salt_hash s) (s_blocks s))
       = Some (s_blocks s, p_parent_sequence_hash (s_current_block s)))"

definition seq_inv :: "build_env \<Rightarrow> TokenBlockSequence \<Rightarrow> bool" where
  "seq_inv E s = (seq_core E s \<and> length (p_tokens (s_current_block s)) < s_block_size s)"

text \<open>What no operation changes: the block size and the salt.\<close>

definition seq_shape :: "TokenBlockSequence \<Rightarrow> u32 \<times> u64 \<times> nat" where
  "seq_shape s = (p_block_size (s_current_block s), s_salt_hash s, s_block_size s)"

text \<open>A sequence of \<open>n\<close> tokens has at most \<open>2^24\<close> full blocks, so no block hash panics.\<close>

definition fits :: "TokenBlockSequence \<Rightarrow> nat \<Rightarrow> bool" where
  "fits s n = (n div s_block_size s \<le> 16777216)"

lemma seq_tokens_length:
  assumes "seq_inv E s"
  shows "length (seq_tokens s) = length (s_blocks s) * s_block_size s + length (p_tokens (s_current_block s))"
proof -
  have "length (concat (map b_tokens (s_blocks s))) = length (map b_tokens (s_blocks s)) * s_block_size s"
    using assms by (intro length_concat_same) (auto simp: seq_inv_def seq_core_def)
  then show ?thesis by (simp add: seq_tokens_def)
qed

lemma tbs_total_tokens_eq: "seq_inv E s \<Longrightarrow> tbs_total_tokens s = length (seq_tokens s)"
  by (simp add: seq_tokens_length tbs_total_tokens_def) (simp add: seq_inv_def seq_core_def)

lemma seq_inv_blocks:
  assumes "seq_inv E s"
  shows "length (s_blocks s) = length (seq_tokens s) div s_block_size s"
    and "length (p_tokens (s_current_block s)) = length (seq_tokens s) mod s_block_size s"
  using assms seq_tokens_length [OF assms] by (auto simp: seq_inv_def seq_core_def)

lemma seq_inv_split:
  assumes "seq_inv E s"
  shows "split_tokens E (seq_tokens s) (p_block_size (s_current_block s)) (s_salt_hash s)
    = Some (s_blocks s, s_current_block s)"
proof -
  let ?n = "s_block_size s" and ?p = "s_current_block s"
  have inv: "0 < ?n" "unat (p_block_size ?p) = ?n" "length (p_tokens ?p) < ?n"
    "\<And>xs. xs \<in> set (map b_tokens (s_blocks s)) \<Longrightarrow> length xs = ?n"
    using assms by (auto simp: seq_inv_def seq_core_def)
  have "chunks_exact ?n (seq_tokens s) = map b_tokens (s_blocks s)"
    "chunks_remainder ?n (seq_tokens s) = p_tokens ?p"
    unfolding seq_tokens_def using inv
    by (auto intro!: chunks_exact_concat chunks_remainder_concat)
  moreover have "0 < p_block_size ?p" using inv by (metis unat_gt_0 word_gt_0)
  ultimately show ?thesis
    using assms inv by (simp add: split_tokens_def seq_inv_def seq_core_def comp_def)
qed

lemma split_tokens_inv:
  assumes "split_tokens E ts n salt = Some (bs, p)"
  defines "s \<equiv> \<lparr>s_blocks = bs, s_current_block = p, s_salt_hash = salt, s_block_size = unat n\<rparr>"
  shows "seq_inv E s" and "seq_tokens s = ts" and "p_block_size p = n"
proof -
  let ?cs = "chunks_exact (unat n) ts"
  obtain h where n: "0 < n" and link: "link_chunks E 0 None (map (\<lambda>c. chunk_new E c salt) ?cs) = Some (bs, h)"
    and p: "p = \<lparr>p_tokens = chunks_remainder (unat n) ts, p_block_size = n, p_salt_hash = salt,
        p_parent_sequence_hash = h, p_position = length bs\<rparr>"
    using assms(1) by (auto simp: split_tokens_def run_simps)
  have n': "0 < unat n" using n by (simp add: unat_gt_0 word_gt_0)
  have toks: "map b_tokens bs = ?cs"
    using link_chunks_Some(1) [OF link] by (simp add: comp_def)
  then have chunks: "block_chunks E salt bs = map (\<lambda>c. chunk_new E c salt) ?cs"
    by (metis (no_types, lifting) comp_def list.map_comp map_eq_conv)
  have "length (b_tokens b) = unat n" if "b \<in> set bs" for b
    using that toks chunks_exact_lengths [OF n'] by (metis image_eqI list.set_map)
  then show "seq_inv E s"
    using n' link p chunks by (simp add: seq_inv_def seq_core_def s_def)
  show "seq_tokens s = ts"
    using toks p n' by (simp add: seq_tokens_def s_def concat_chunks_exact)
  show "p_block_size p = n" using p by simp
qed

lemma split_tokens_returns:
  assumes "0 < n" and "length ts div unat n \<le> 16777216"
  shows "\<exists>bs p. split_tokens E ts n salt = Some (bs, p)"
proof -
  have n': "0 < unat n" using assms(1) by (simp add: unat_gt_0 word_gt_0)
  have "\<exists>bs h. link_chunks E 0 None (map (\<lambda>c. chunk_new E c salt) (chunks_exact (unat n) ts)) = Some (bs, h)"
    using assms n' by (intro link_chunks_returns) simp
  then show ?thesis using assms(1) by (auto simp: split_tokens_def)
qed

lemma seq_inv_unique:
  assumes "seq_inv E s" "seq_inv E s'" "seq_tokens s = seq_tokens s'"
    "p_block_size (s_current_block s) = p_block_size (s_current_block s')" "s_salt_hash s = s_salt_hash s'"
  shows "s = s'"
proof -
  have "(s_blocks s, s_current_block s) = (s_blocks s', s_current_block s')"
    using seq_inv_split [OF assms(1)] seq_inv_split [OF assms(2)] unfolding assms(3-5)
    by (metis option.inject)
  moreover have "s_block_size s = s_block_size s'"
    using assms(1,2,4) unfolding seq_inv_def seq_core_def by metis
  ultimately show ?thesis
    using assms(5) by (intro TokenBlockSequence.equality) auto
qed


section \<open>Operations on a sequence\<close>

lemma seq_core_set_tokens [simp]:
  "seq_core E (s\<lparr>s_current_block := (s_current_block s)\<lparr>p_tokens := ts\<rparr>\<rparr>) = seq_core E s"
  by (simp add: seq_core_def)

lemma seq_shape_set_tokens [simp]:
  "seq_shape (s\<lparr>s_current_block := (s_current_block s)\<lparr>p_tokens := ts\<rparr>\<rparr>) = seq_shape s"
  by (simp add: seq_shape_def)

lemma seq_shape_fits: "seq_shape s' = seq_shape s \<Longrightarrow> fits s' = fits s"
  by (simp add: seq_shape_def fits_def fun_eq_iff)

lemma remaining_eq: "seq_core E s \<Longrightarrow>
  remaining (s_current_block s) = s_block_size s - length (p_tokens (s_current_block s))"
  by (simp add: remaining_def seq_core_def)

lemma commit_current_ok:
  assumes core: "seq_core E s" and full: "length (p_tokens (s_current_block s)) = s_block_size s"
    and room: "length (s_blocks s) < 16777216"
  shows "\<exists>s'. commit_current E s = Some (Inr (), s') \<and> seq_inv E s' \<and> seq_tokens s' = seq_tokens s \<and>
    seq_shape s' = seq_shape s \<and> length (s_blocks s') = Suc (length (s_blocks s))"
proof -
  let ?p = "s_current_block s"
  let ?c = "chunk_new E (p_tokens ?p) (s_salt_hash s)"
  obtain b where b: "from_chunk E ?c (p_parent_sequence_hash ?p) (length (s_blocks s)) = Some b"
    using from_chunk_returns [OF room] by blast
  have bt: "b_tokens b = p_tokens ?p" using from_chunk_Some(1) [OF b] by simp
  define s' where "s' = s\<lparr>s_current_block := ?p\<lparr>p_tokens := [],
      p_parent_sequence_hash := Some (b_sequence_hash b), p_position := p_position ?p + 1\<rparr>,
    s_blocks := s_blocks s @ [b]\<rparr>"
  have com: "commit_current E s = Some (Inr (), s')"
    using core full b by (simp add: commit_current_def commit_def seq_core_def s'_def)
  have "link_chunks E 0 None (block_chunks E (s_salt_hash s) (s_blocks s @ [b]))
      = Some (s_blocks s @ [b], Some (b_sequence_hash b))"
    using core b bt by (simp add: link_chunks_append seq_core_def)
  then have "seq_inv E s'"
    using core full bt by (auto simp: seq_inv_def seq_core_def s'_def)
  with com bt show ?thesis
    by (auto simp: s'_def seq_tokens_def seq_shape_def)
qed

lemma seq_inv_has_room: "seq_inv E s \<Longrightarrow> 0 < remaining (s_current_block s)"
  using remaining_eq by (auto simp: seq_inv_def)

lemma tbs_append_ok:
  assumes inv: "seq_inv E s" and room: "fits s (length (seq_tokens s) + 1)"
  shows "\<exists>s'. tbs_append E s t = Some (Inr (if s_block_size s dvd length (seq_tokens s) + 1
        then Some (length (s_blocks s)) else None), s') \<and>
      seq_inv E s' \<and> seq_tokens s' = seq_tokens s @ [t] \<and> seq_shape s' = seq_shape s"
proof -
  let ?p = "s_current_block s" and ?n = "s_block_size s"
  have core: "seq_core E s" and len: "length (p_tokens ?p) < ?n" "unat (p_block_size ?p) = ?n"
    using inv by (auto simp: seq_inv_def seq_core_def)
  define s2 where "s2 = s\<lparr>s_current_block := ?p\<lparr>p_tokens := p_tokens ?p @ [t]\<rparr>\<rparr>"
  have core2: "seq_core E s2" and shape2: "seq_shape s2 = seq_shape s"
    using core by (simp_all add: s2_def)
  have toks2: "seq_tokens s2 = seq_tokens s @ [t]" by (simp add: s2_def seq_tokens_def)
  have total: "length (seq_tokens s) = length (s_blocks s) * ?n + length (p_tokens ?p)"
    using seq_tokens_length [OF inv] .
  have push: "push_token ?p t = (Inr (), s_current_block s2)"
    using len by (simp add: push_token_def s2_def)
  have s2': "s\<lparr>s_current_block := s_current_block s2\<rparr> = s2" by (simp add: s2_def)
  note unfold = tbs_append_def seq_inv_has_room [OF inv] push s2' Let_def
  show ?thesis
  proof (cases "Suc (length (p_tokens ?p)) = ?n")
    case True
    then have len1: "length (seq_tokens s) + 1 = Suc (length (s_blocks s)) * ?n"
      unfolding total True [symmetric] by simp
    then have dvd: "?n dvd length (seq_tokens s) + 1" by simp
    have "(length (seq_tokens s) + 1) div ?n = Suc (length (s_blocks s))"
      unfolding len1 using len by (intro nonzero_mult_div_cancel_right) simp
    then have "length (s_blocks s2) < 16777216"
      using room by (simp add: fits_def s2_def)
    then obtain s' where c: "commit_current E s2 = Some (Inr (), s')" "seq_inv E s'"
      "seq_tokens s' = seq_tokens s2" "seq_shape s' = seq_shape s2"
      using commit_current_ok [OF core2] True by (auto simp: s2_def)
    have "remaining (s_current_block s2) = 0"
      using remaining_eq [OF core2] True by (simp add: s2_def)
    then have "tbs_append E s t = Some (Inr (Some (length (s_blocks s))), s')"
      using c(1) seq_inv_has_room [OF inv] by (simp add: tbs_append_def push s2' s2_def [symmetric]) (simp add: s2_def)
    then show ?thesis using c dvd toks2 shape2 by auto
  next
    case False
    then have lt: "Suc (length (p_tokens ?p)) < ?n" using len by simp
    then have inv2: "seq_inv E s2" using core2 by (simp add: seq_inv_def s2_def)
    have "\<not> ?n dvd length (seq_tokens s) + 1"
      using total lt by (auto simp: dvd_eq_mod_eq_0)
    moreover have "tbs_append E s t = Some (Inr None, s2)"
      using seq_inv_has_room [OF inv] seq_inv_has_room [OF inv2]
      by (simp add: tbs_append_def push s2')
    ultimately show ?thesis using inv2 toks2 shape2 by auto
  qed
qed


lemma push_tokens_eq:
  assumes "0 < remaining p"
  shows "push_tokens p ts = (drop (remaining p) ts, p\<lparr>p_tokens := p_tokens p @ take (remaining p) ts\<rparr>)"
  using assms by (auto simp: push_tokens_def Let_def)

lemma fits_mono: "fits s n \<Longrightarrow> m \<le> n \<Longrightarrow> fits s m"
  using div_le_mono [of m n "s_block_size s"] by (simp add: fits_def)

text \<open>One round of the loop of \<open>extend\<close>: it fills the current block as far as the tokens reach.\<close>

definition filled :: "TokenBlockSequence \<Rightarrow> Tokens \<Rightarrow> TokenBlockSequence" where
  "filled s ts = s\<lparr>s_current_block := (s_current_block s)\<lparr>p_tokens :=
     p_tokens (s_current_block s) @ take (remaining (s_current_block s)) ts\<rparr>\<rparr>"

lemma filled_props:
  assumes "seq_inv E s"
  shows "seq_core E (filled s ts)" "seq_shape (filled s ts) = seq_shape s"
    "s_blocks (filled s ts) = s_blocks s" "s_block_size (filled s ts) = s_block_size s"
    "seq_tokens (filled s ts) = seq_tokens s @ take (remaining (s_current_block s)) ts"
    "remaining (s_current_block (filled s ts)) = remaining (s_current_block s) - length ts"
    "length (p_tokens (s_current_block (filled s ts)))
      = s_block_size s - (remaining (s_current_block s) - length ts)"
proof -
  have core: "seq_core E s" and lt: "length (p_tokens (s_current_block s)) < s_block_size s"
    using assms by (auto simp: seq_inv_def)
  have rem: "remaining (s_current_block s) = s_block_size s - length (p_tokens (s_current_block s))"
    using remaining_eq [OF core] .
  show core': "seq_core E (filled s ts)" using core by (simp add: filled_def)
  show "seq_shape (filled s ts) = seq_shape s" "s_blocks (filled s ts) = s_blocks s"
    "s_block_size (filled s ts) = s_block_size s"
    "seq_tokens (filled s ts) = seq_tokens s @ take (remaining (s_current_block s)) ts"
    by (simp_all add: filled_def seq_tokens_def)
  show "remaining (s_current_block (filled s ts)) = remaining (s_current_block s) - length ts"
    "length (p_tokens (s_current_block (filled s ts)))
      = s_block_size s - (remaining (s_current_block s) - length ts)"
    using remaining_eq [OF core'] lt by (simp_all add: filled_def rem min_def)
qed

lemma extend_loop_round:
  assumes inv: "seq_inv E s" and ts: "ts \<noteq> []"
  defines "r \<equiv> remaining (s_current_block s)"
  shows "extend_loop E s ts = do {
      (r3, s3) \<leftarrow> (if r \<le> length ts then commit_current E (filled s ts) else Some (Inr (), filled s ts));
      (case r3 of Inl e \<Rightarrow> Some (Inl e, s3) | Inr _ \<Rightarrow> extend_loop E s3 (drop r ts)) }"
proof -
  have r: "0 < r" using seq_inv_has_room [OF inv] by (simp add: r_def)
  have push: "push_tokens (s_current_block s) ts = (drop r ts, s_current_block (filled s ts))"
    using push_tokens_eq r by (simp add: r_def filled_def)
  have "s\<lparr>s_current_block := s_current_block (filled s ts)\<rparr> = filled s ts" by (simp add: filled_def)
  then show ?thesis
    using ts r filled_props(6) [OF inv, of ts]
    by (subst extend_loop.simps) (simp add: r_def [symmetric] push)
qed

text \<open>The round completes a block exactly when the tokens fill it.\<close>

lemma extend_round_blocks:
  assumes inv: "seq_inv E s" and "remaining (s_current_block s) \<le> length ts"
    and "fits s (length (seq_tokens s) + length ts)"
  shows "length (s_blocks s) < 16777216"
proof -
  let ?n = "s_block_size s"
  have n: "0 < ?n" and rem: "remaining (s_current_block s) = ?n - length (p_tokens (s_current_block s))"
    and lt: "length (p_tokens (s_current_block s)) < ?n"
    using inv remaining_eq [of E s] by (auto simp: seq_inv_def seq_core_def)
  have "Suc (length (s_blocks s)) * ?n \<le> length (seq_tokens s) + length ts"
    using assms(2) rem lt seq_tokens_length [OF inv] by simp
  then have "Suc (length (s_blocks s)) * ?n div ?n \<le> 16777216"
    using assms(3) div_le_mono unfolding fits_def by (meson order_trans)
  then show ?thesis using n by (simp del: mult_Suc)
qed

lemma extend_step:
  assumes inv: "seq_inv E s" and ts: "ts \<noteq> []"
  defines "r \<equiv> remaining (s_current_block s)"
  assumes room: "r \<le> length ts \<Longrightarrow> length (s_blocks s) < 16777216"
  shows "\<exists>s3. extend_loop E s ts = extend_loop E s3 (drop r ts) \<and> seq_inv E s3 \<and>
    seq_tokens s3 = seq_tokens s @ take r ts \<and> seq_shape s3 = seq_shape s"
proof (cases "r \<le> length ts")
  case True
  have "length (p_tokens (s_current_block (filled s ts))) = s_block_size (filled s ts)"
    "length (s_blocks (filled s ts)) < 16777216"
    using True room filled_props [OF inv, of ts] by (simp_all add: r_def)
  then obtain s3 where "commit_current E (filled s ts) = Some (Inr (), s3)" "seq_inv E s3"
    "seq_tokens s3 = seq_tokens (filled s ts)" "seq_shape s3 = seq_shape (filled s ts)"
    using commit_current_ok [OF filled_props(1) [OF inv]] by blast
  then show ?thesis
    using True extend_loop_round [OF inv ts] filled_props [OF inv, of ts]
    by (intro exI [of _ s3]) (simp add: r_def)
next
  case False
  have "0 < s_block_size s" using inv by (simp add: seq_inv_def seq_core_def)
  with False have "seq_inv E (filled s ts)"
    using filled_props [OF inv, of ts] by (simp add: seq_inv_def r_def)
  then show ?thesis
    using False extend_loop_round [OF inv ts] filled_props [OF inv, of ts]
    by (intro exI [of _ "filled s ts"]) (simp add: r_def)
qed

lemma extend_loop_ok:
  assumes "seq_inv E s" and "fits s (length (seq_tokens s) + length ts)"
  shows "\<exists>s'. extend_loop E s ts = Some (Inr (), s') \<and> seq_inv E s' \<and>
    seq_tokens s' = seq_tokens s @ ts \<and> seq_shape s' = seq_shape s"
  using assms
proof (induction ts arbitrary: s rule: length_induct)
  case (1 ts)
  show ?case
  proof (cases "ts = []")
    case True
    then show ?thesis using "1.prems" by (simp add: extend_loop.simps)
  next
    case False
    define r where "r = remaining (s_current_block s)"
    obtain s3 where s3: "extend_loop E s ts = extend_loop E s3 (drop r ts)" "seq_inv E s3"
      "seq_tokens s3 = seq_tokens s @ take r ts" "seq_shape s3 = seq_shape s"
      using extend_step [OF "1.prems"(1) False extend_round_blocks [OF "1.prems"(1) _ "1.prems"(2)]]
      unfolding r_def by blast
    have "length (drop r ts) < length ts"
      using False seq_inv_has_room [OF "1.prems"(1)] by (simp add: r_def)
    moreover have "fits s3 (length (seq_tokens s3) + length (drop r ts))"
      using "1.prems"(2) s3(3) seq_shape_fits [OF s3(4)] by (auto elim: fits_mono)
    ultimately obtain s' where "extend_loop E s3 (drop r ts) = Some (Inr (), s')" "seq_inv E s'"
      "seq_tokens s' = seq_tokens s3 @ drop r ts" "seq_shape s' = seq_shape s3"
      using "1.IH" s3(2) by blast
    then show ?thesis using s3 by simp
  qed
qed

lemma tbs_extend_ok:
  assumes "seq_inv E s" and "fits s (length (seq_tokens s) + length ts)"
  shows "\<exists>s'. tbs_extend E s ts = Some (Inr (if length (s_blocks s) = length (s_blocks s') then None
        else Some (length (s_blocks s), length (s_blocks s'))), s') \<and> seq_inv E s' \<and>
    seq_tokens s' = seq_tokens s @ ts \<and> seq_shape s' = seq_shape s"
proof -
  obtain s' where "extend_loop E s ts = Some (Inr (), s')" "seq_inv E s'"
    "seq_tokens s' = seq_tokens s @ ts" "seq_shape s' = seq_shape s"
    using extend_loop_ok [OF assms] by blast
  then show ?thesis by (intro exI [of _ s']) (simp add: tbs_extend_def)
qed

text \<open>The index arithmetic of \<open>truncate\<close>: it cuts at block \<open>len div n\<close>, token \<open>len mod n\<close>.\<close>

lemma truncate_index:
  assumes n: "0 < n" and len: "len < B * n"
  shows "div_ceil (B * n - len) n = B - len div n"
    and "n - (B * n - len - (B - len div n - 1) * n) = len mod n"
    and "len div n < B"
proof -
  let ?q = "len div n" and ?r = "len mod n"
  show q: "?q < B" using assms by (simp add: div_less_iff_less_mult)
  have r: "?r < n" using n by simp
  have split: "len = ?q * n + ?r" by simp
  obtain d where d: "B = ?q + Suc d" using q by (metis add_Suc_right less_imp_Suc_add)
  have pop: "B * n - len = Suc d * n - ?r"
    using split d by (metis add_diff_cancel_left add_mult_distrib diff_diff_left)
  have "div_ceil (B * n - len) n \<le> Suc d" "\<not> div_ceil (B * n - len) n \<le> d"
    using r unfolding pop div_ceil_le_iff [OF n] by auto
  then show "div_ceil (B * n - len) n = B - ?q" using d by linarith
  have "B - ?q - 1 = d" using d by linarith
  then show "n - (B * n - len - (B - ?q - 1) * n) = ?r"
    unfolding pop using r by simp
qed

lemma seq_tokens_cut:
  assumes inv: "seq_inv E s" and k: "k < length (s_blocks s)" and r: "r \<le> s_block_size s"
  shows "take (k * s_block_size s + r) (seq_tokens s)
    = concat (map b_tokens (take k (s_blocks s))) @ take r (b_tokens (s_blocks s ! k))"
proof -
  let ?n = "s_block_size s" and ?bs = "s_blocks s"
  have len: "\<And>b. b \<in> set ?bs \<Longrightarrow> length (b_tokens b) = ?n"
    using inv by (simp add: seq_inv_def seq_core_def)
  have "length (concat (map b_tokens (take k ?bs))) = length (map b_tokens (take k ?bs)) * ?n"
    using len by (intro length_concat_same) (auto dest: in_set_takeD)
  then have pre: "length (concat (map b_tokens (take k ?bs))) = k * ?n" using k by simp
  have "seq_tokens s = concat (map b_tokens (take k ?bs)) @ b_tokens (?bs ! k) @
      concat (map b_tokens (drop (Suc k) ?bs)) @ p_tokens (s_current_block s)"
    by (subst (1) seq_tokens_def, subst (1) id_take_nth_drop [OF k]) simp
  then show ?thesis using pre r len [OF nth_mem [OF k]] by simp
qed


text \<open>The state after a cut in the middle of the full blocks.\<close>

definition cut_at :: "TokenBlockSequence \<Rightarrow> nat \<Rightarrow> Tokens \<Rightarrow> TokenBlockSequence" where
  "cut_at s k ts = (let blocks = take k (s_blocks s) in
     s\<lparr>s_blocks := blocks, s_current_block := (s_current_block s)\<lparr>p_tokens := ts,
       p_parent_sequence_hash := (if blocks = [] then None else Some (b_sequence_hash (last blocks))),
       p_position := length blocks\<rparr>\<rparr>)"

lemma cut_at_inv:
  assumes inv: "seq_inv E s" and k: "k < length (s_blocks s)" and r: "r < s_block_size s"
  defines "s' \<equiv> cut_at s k (take r (b_tokens (s_blocks s ! k)))"
  shows "seq_inv E s' \<and> seq_tokens s' = take (k * s_block_size s + r) (seq_tokens s) \<and>
    seq_shape s' = seq_shape s"
proof (intro conjI)
  have link: "link_chunks E 0 None (block_chunks E (s_salt_hash s) (s_blocks s))
      = Some (s_blocks s, p_parent_sequence_hash (s_current_block s))"
    using inv by (simp add: seq_inv_def seq_core_def)
  show "seq_inv E s'"
    using inv k r link_chunks_take [OF link, of k]
    by (auto simp: seq_inv_def seq_core_def s'_def cut_at_def Let_def take_map dest: in_set_takeD)
  show "seq_tokens s' = take (k * s_block_size s + r) (seq_tokens s)"
    using seq_tokens_cut [OF inv k less_imp_le [OF r]] by (simp add: seq_tokens_def s'_def cut_at_def Let_def)
  show "seq_shape s' = seq_shape s" by (simp add: seq_shape_def s'_def cut_at_def Let_def)
qed

lemma tbs_truncate_blocks:
  assumes inv: "seq_inv E s" and len: "len < length (s_blocks s) * s_block_size s"
  shows "tbs_truncate E s len = Some (Inr (), cut_at s (len div s_block_size s)
    (take (len mod s_block_size s) (b_tokens (s_blocks s ! (len div s_block_size s)))))"
proof -
  let ?n = "s_block_size s" and ?B = "length (s_blocks s)" and ?p = "s_current_block s"
  have n: "0 < ?n" "unat (p_block_size ?p) = ?n" and total: "tbs_total_tokens s = ?B * ?n + length (p_tokens ?p)"
    using inv tbs_total_tokens_eq seq_tokens_length by (auto simp: seq_inv_def seq_core_def)
  note ix = truncate_index [OF n(1) len]
  have src: "length (b_tokens (s_blocks s ! (len div ?n))) = ?n"
    using inv nth_mem [OF ix(3)] by (simp add: seq_inv_def seq_core_def)
  have cond: "\<not> tbs_total_tokens s \<le> len" "\<not> tbs_total_tokens s - len \<le> length (p_tokens ?p)"
    "tbs_total_tokens s - len - length (p_tokens ?p) = ?B * ?n - len"
    "max ?n 1 = ?n" "\<not> ?B < ?B - len div ?n" "?B - (?B - len div ?n) = len div ?n"
    using n len total ix(3) by auto
  show ?thesis
    unfolding tbs_truncate_def Let_def n(2) cond(3,4) ix(1,2) cond(6)
    using cond(1,2,5) src ix(3) less_imp_le [OF mod_less_divisor [OF n(1)]]
    by (simp add: index_run_def cut_at_def Let_def)
qed

lemma tbs_truncate_ok:
  assumes inv: "seq_inv E s"
  shows "\<exists>s'. tbs_truncate E s len = Some (Inr (), s') \<and> seq_inv E s' \<and>
    seq_tokens s' = take len (seq_tokens s) \<and> seq_shape s' = seq_shape s"
proof -
  let ?n = "s_block_size s" and ?B = "length (s_blocks s)" and ?p = "s_current_block s"
  have total: "tbs_total_tokens s = length (seq_tokens s)"
    "length (seq_tokens s) = ?B * ?n + length (p_tokens ?p)"
    using inv tbs_total_tokens_eq seq_tokens_length by auto
  consider (keep) "length (seq_tokens s) \<le> len" | (current) "len < length (seq_tokens s)" "?B * ?n \<le> len"
    | (blocks) "len < ?B * ?n"
    by linarith
  then show ?thesis
  proof cases
    case keep
    then show ?thesis using inv total by (intro exI [of _ s]) (simp add: tbs_truncate_def)
  next
    case current
    let ?ts = "take (len - ?B * ?n) (p_tokens ?p)"
    let ?s' = "s\<lparr>s_current_block := ?p\<lparr>p_tokens := ?ts\<rparr>\<rparr>"
    have pop: "pop_tokens ?p (length (seq_tokens s) - len) = (Inr (), ?p\<lparr>p_tokens := ?ts\<rparr>)"
      using current total by (simp add: pop_tokens_def)
    have "length (seq_tokens s) - len \<le> length (p_tokens ?p)" using current total by linarith
    then have "tbs_truncate E s len = Some (Inr (), ?s')"
      using current(1) pop by (simp add: tbs_truncate_def Let_def total(1))
    moreover have "seq_inv E ?s'" using inv by (auto simp: seq_inv_def)
    moreover have "length (concat (map b_tokens (s_blocks s))) = ?B * ?n"
      using total(2) by (simp add: seq_tokens_def)
    then have "seq_tokens ?s' = take len (seq_tokens s)"
      using current by (simp add: seq_tokens_def)
    ultimately show ?thesis by (intro exI [of _ ?s']) simp
  next
    case blocks
    have n: "0 < ?n" using inv by (simp add: seq_inv_def seq_core_def)
    show ?thesis
      using tbs_truncate_blocks [OF inv blocks]
        cut_at_inv [OF inv truncate_index(3) [OF n blocks] mod_less_divisor [OF n]]
      by simp
  qed
qed

lemma tbs_unwind_ok:
  assumes inv: "seq_inv E s"
  shows "if length (seq_tokens s) < count then tbs_unwind E s count = Some (Inl InsufficientTokens, s)
    else \<exists>s'. tbs_unwind E s count = Some (Inr (), s') \<and> seq_inv E s' \<and>
      seq_tokens s' = take (length (seq_tokens s) - count) (seq_tokens s) \<and> seq_shape s' = seq_shape s"
  using tbs_truncate_ok [OF inv] tbs_total_tokens_eq [OF inv] by (simp add: tbs_unwind_def)

lemma tbs_pop_ok:
  assumes inv: "seq_inv E s"
  shows "if seq_tokens s = [] then tbs_pop E s = Some (None, s)
    else \<exists>s'. tbs_pop E s = Some (Some (last (seq_tokens s)), s') \<and> seq_inv E s' \<and>
      seq_tokens s' = butlast (seq_tokens s) \<and> seq_shape s' = seq_shape s"
proof (cases "seq_tokens s = []")
  case True
  then show ?thesis using tbs_total_tokens_eq [OF inv] by (simp add: tbs_pop_def)
next
  case False
  let ?p = "s_current_block s"
  obtain s' where s': "tbs_truncate E s (length (seq_tokens s) - 1) = Some (Inr (), s')" "seq_inv E s'"
    "seq_tokens s' = take (length (seq_tokens s) - 1) (seq_tokens s)" "seq_shape s' = seq_shape s"
    using tbs_truncate_ok [OF inv] by blast
  have total: "tbs_total_tokens s \<noteq> 0" using False tbs_total_tokens_eq [OF inv] by simp
  have "tbs_pop E s = Some (Some (last (seq_tokens s)), s')"
  proof (cases "p_tokens ?p = []")
    case True
    then have bs: "s_blocks s \<noteq> []" using False by (auto simp: seq_tokens_def)
    then have "length (b_tokens (last (s_blocks s))) = s_block_size s" "0 < s_block_size s"
      using inv last_in_set by (auto simp: seq_inv_def seq_core_def)
    then have ne: "b_tokens (last (s_blocks s)) \<noteq> []" by auto
    then have "last (seq_tokens s) = last (b_tokens (last (s_blocks s)))"
      using True bs by (simp add: seq_tokens_def last_concat last_map)
    then show ?thesis
      using True bs ne total s'(1) tbs_total_tokens_eq [OF inv] by (simp add: tbs_pop_def)
  next
    case nonempty: False
    then show ?thesis
      using total s'(1) tbs_total_tokens_eq [OF inv] by (simp add: tbs_pop_def seq_tokens_def)
  qed
  then show ?thesis using s' False by (auto simp: butlast_conv_take)
qed

lemma tbs_reset_ok:
  assumes inv: "seq_inv E s"
  shows "seq_inv E (tbs_reset s) \<and> seq_tokens (tbs_reset s) = [] \<and> seq_shape (tbs_reset s) = seq_shape s"
proof -
  have "s_block_size s = unat (p_block_size (s_current_block s))"
    using inv by (simp add: seq_inv_def seq_core_def)
  then have "(word_of_nat (s_block_size s) :: u32) = p_block_size (s_current_block s)" by simp
  then show ?thesis
    using inv by (simp add: seq_inv_def seq_core_def seq_tokens_def seq_shape_def tbs_reset_def
        create_sequence_root_def)
qed

lemma token_at_ok:
  assumes inv: "seq_inv E s" and i: "i < length (seq_tokens s)"
  shows "token_at s i = Some (seq_tokens s ! i)"
proof -
  let ?n = "s_block_size s" and ?B = "length (s_blocks s)"
  have n: "0 < ?n" and lens: "\<And>xs. xs \<in> set (map b_tokens (s_blocks s)) \<Longrightarrow> length xs = ?n"
    using inv by (auto simp: seq_inv_def seq_core_def)
  have len: "length (concat (map b_tokens (s_blocks s))) = ?B * ?n"
    using length_concat_same [of "map b_tokens (s_blocks s)", OF lens] by simp
  show ?thesis
  proof (cases "i < ?B * ?n")
    case True
    have q: "i div ?n < ?B" using True n by (simp add: div_less_iff_less_mult)
    have "length (b_tokens (s_blocks s ! (i div ?n))) = ?n"
      using q lens by simp
    then show ?thesis
      using True q n concat_nth_same [of "map b_tokens (s_blocks s)", OF lens, of i] len
      by (simp add: token_at_def index_run_def seq_tokens_def nth_append)
  next
    case False
    then show ?thesis
      using i len by (simp add: token_at_def index_run_def seq_tokens_def nth_append)
  qed
qed

lemma collect_run_ok: "(\<And>x. x \<in> set xs \<Longrightarrow> f x = Some (g x)) \<Longrightarrow> collect_run f xs = Some (map g xs)"
  by (induction xs) auto

lemma tokens_at_ok:
  assumes inv: "seq_inv E s"
  shows "tokens_at s a b = Some (if a \<le> b \<and> b \<le> length (seq_tokens s)
    then take (b - a) (drop a (seq_tokens s)) else [])"
proof -
  have "collect_run (token_at s) [a..<b] = Some (map (\<lambda>i. seq_tokens s ! i) [a..<b])"
    if "b \<le> length (seq_tokens s)"
    using that token_at_ok [OF inv] by (intro collect_run_ok) simp
  moreover have "map (\<lambda>i. seq_tokens s ! i) [a..<b] = take (b - a) (drop a (seq_tokens s))"
    if "a \<le> b" "b \<le> length (seq_tokens s)"
    using that by (intro nth_equalityI) auto
  ultimately show ?thesis
    using tbs_total_tokens_eq [OF inv] by (auto simp: tokens_at_def Let_def)
qed

lemma tbs_new_ok:
  assumes "0 < n" and "length ts div unat n \<le> 16777216"
  shows "\<exists>s. tbs_new E ts n salt = Some s \<and> seq_inv E s \<and> seq_tokens s = ts \<and>
    seq_shape s = (n, case salt of None \<Rightarrow> 0 | Some h \<Rightarrow> h, unat n)"
proof -
  let ?salt = "case salt of None \<Rightarrow> 0 | Some h \<Rightarrow> h"
  obtain bs p where sp: "split_tokens E ts n ?salt = Some (bs, p)"
    using split_tokens_returns [OF assms] by blast
  show ?thesis
    using split_tokens_inv [OF sp] sp assms(1) by (simp add: tbs_new_def seq_shape_def Let_def)
qed


section \<open>When a sequence panics\<close>

lemma link_chunks_panics:
  assumes "16777216 < length cs"
  shows "link_chunks E 0 h cs = None"
proof -
  have split: "cs = take 16777216 cs @ cs ! 16777216 # drop (Suc 16777216) cs"
    using assms by (rule id_take_nth_drop)
  have len: "length (take 16777216 cs) = 16777216" using assms by simp
  show ?thesis
    by (subst split, subst link_chunks_append, subst len)
      (auto simp: from_chunk_panics bind_eq_None_conv)
qed

lemma seq_core_room:
  assumes "seq_core E s"
  shows "length (s_blocks s) \<le> 16777216"
proof (rule ccontr)
  assume "\<not> ?thesis"
  then have "link_chunks E 0 None (block_chunks E (s_salt_hash s) (s_blocks s)) = None"
    by (intro link_chunks_panics) simp
  then show False using assms by (simp add: seq_core_def)
qed

lemma commit_current_panics:
  assumes core: "seq_core E s" and full: "length (p_tokens (s_current_block s)) = s_block_size s"
    and room: "\<not> length (s_blocks s) < 16777216"
  shows "commit_current E s = None"
proof -
  have "length (s_blocks s) = 16777216" using seq_core_room [OF core] room by simp
  then show ?thesis
    using core full by (simp add: commit_current_def commit_def seq_core_def from_chunk_panics)
qed

lemma seq_inv_fits: "seq_inv E s \<Longrightarrow> fits s (length (seq_tokens s))"
  using seq_inv_blocks(1) seq_core_room by (fastforce simp: seq_inv_def fits_def)

lemma tbs_append_panics:
  assumes inv: "seq_inv E s" and room: "\<not> fits s (length (seq_tokens s) + 1)"
  shows "tbs_append E s t = None"
proof -
  let ?p = "s_current_block s" and ?n = "s_block_size s"
  have core: "seq_core E s" and n: "0 < ?n" and lt: "length (p_tokens ?p) < ?n"
    "unat (p_block_size ?p) = ?n"
    using inv by (auto simp: seq_inv_def seq_core_def)
  have total: "length (seq_tokens s) = length (s_blocks s) * ?n + length (p_tokens ?p)"
    using seq_tokens_length [OF inv] .
  have full: "Suc (length (p_tokens ?p)) = ?n"
  proof (rule ccontr)
    assume "Suc (length (p_tokens ?p)) \<noteq> ?n"
    then have "(length (seq_tokens s) + 1) div ?n = length (s_blocks s)"
      using lt total by (intro div_nat_eqI) auto
    then show False using room seq_core_room [OF core] by (simp add: fits_def)
  qed
  have "length (seq_tokens s) + 1 = Suc (length (s_blocks s)) * ?n"
    unfolding total full [symmetric] by simp
  then have "(length (seq_tokens s) + 1) div ?n = Suc (length (s_blocks s))"
    using n by (metis nonzero_mult_div_cancel_right neq0_conv)
  then have over: "\<not> length (s_blocks s) < 16777216" using room by (simp add: fits_def)
  define s2 where "s2 = s\<lparr>s_current_block := ?p\<lparr>p_tokens := p_tokens ?p @ [t]\<rparr>\<rparr>"
  have "seq_core E s2" using core by (simp add: s2_def)
  then have "commit_current E s2 = None" "remaining (s_current_block s2) = 0"
    using commit_current_panics [of E s2] over full remaining_eq [of E s2] by (simp_all add: s2_def)
  moreover have "push_token ?p t = (Inr (), s_current_block s2)"
    "s\<lparr>s_current_block := s_current_block s2\<rparr> = s2"
    using lt by (simp_all add: push_token_def s2_def)
  ultimately show ?thesis
    using seq_inv_has_room [OF inv] by (simp add: tbs_append_def)
qed


lemma extend_loop_panics:
  assumes "seq_inv E s" and "\<not> fits s (length (seq_tokens s) + length ts)"
  shows "extend_loop E s ts = None"
  using assms
proof (induction ts arbitrary: s rule: length_induct)
  case (1 ts)
  note inv = "1.prems"(1)
  have ts: "ts \<noteq> []" using "1.prems" seq_inv_fits by force
  define r where "r = remaining (s_current_block s)"
  show ?case
  proof (cases "r \<le> length ts \<and> \<not> length (s_blocks s) < 16777216")
    case True
    then have "commit_current E (filled s ts) = None"
      using filled_props [OF inv, of ts] by (intro commit_current_panics) (simp_all add: r_def)
    then show ?thesis using True extend_loop_round [OF inv ts] by (simp add: r_def)
  next
    case False
    obtain s3 where s3: "extend_loop E s ts = extend_loop E s3 (drop r ts)" "seq_inv E s3"
      "seq_tokens s3 = seq_tokens s @ take r ts" "seq_shape s3 = seq_shape s"
      using extend_step [OF inv ts] False unfolding r_def by blast
    have "length (drop r ts) < length ts" using ts seq_inv_has_room [OF inv] by (simp add: r_def)
    moreover have "length (seq_tokens s3) + length (drop r ts) = length (seq_tokens s) + length ts"
      using s3(3) by simp
    ultimately have "extend_loop E s3 (drop r ts) = None"
      using "1.IH" "1.prems"(2) s3(2) seq_shape_fits [OF s3(4)] by metis
    then show ?thesis using s3(1) by simp
  qed
qed

section \<open>The sequence of a list of tokens\<close>

lemma tbs_new_panics_iff:
  "(tbs_new E ts n salt = None) = (n = 0 \<or> 16777216 < length ts div unat n)"
proof (cases "n = 0 \<or> length ts div unat n \<le> 16777216")
  case True
  then show ?thesis
    using tbs_new_ok [of n ts E salt] by (cases "n = 0") (auto simp: tbs_new_def assert_run_def word_neq_0_conv)
next
  case False
  then have "0 < unat n" by (simp add: unat_gt_0)
  then have "link_chunks E 0 None (map (\<lambda>c. chunk_from_tokens E c (case salt of None \<Rightarrow> 0 | Some s \<Rightarrow> s))
      (chunks_exact (unat n) ts)) = None"
    using False by (intro link_chunks_panics) simp
  then show ?thesis using False by (simp add: tbs_new_def split_tokens_def bind_eq_None_conv Let_def)
qed

lemma tbs_new_inv:
  assumes "tbs_new E ts n salt = Some s"
  shows "seq_inv E s" "seq_tokens s = ts" "seq_shape s = (n, case salt of None \<Rightarrow> 0 | Some h \<Rightarrow> h, unat n)"
proof -
  have "0 < n" "length ts div unat n \<le> 16777216"
    using assms tbs_new_panics_iff [of E ts n salt] by (auto simp: word_neq_0_conv)
  then show "seq_inv E s" "seq_tokens s = ts"
    "seq_shape s = (n, case salt of None \<Rightarrow> 0 | Some h \<Rightarrow> h, unat n)"
    using tbs_new_ok [of n ts E salt] assms by auto
qed

text \<open>The invariant determines the state: it is the one \<open>new\<close> builds from the tokens.\<close>

lemma tbs_new_canonical:
  assumes "seq_inv E s" "seq_shape s = (n, case salt of None \<Rightarrow> 0 | Some h \<Rightarrow> h, unat n)"
  shows "tbs_new E (seq_tokens s) n salt = Some s"
proof -
  have sh: "p_block_size (s_current_block s) = n" "s_block_size s = unat n"
    "s_salt_hash s = (case salt of None \<Rightarrow> 0 | Some h \<Rightarrow> h)"
    using assms(2) by (auto simp: seq_shape_def)
  then have "0 < n" using assms(1) by (auto simp: seq_inv_def seq_core_def unat_gt_0 word_neq_0_conv)
  then show ?thesis
    using seq_inv_split [OF assms(1)] sh by (simp add: tbs_new_def)
qed

lemma tbs_new_fits:
  assumes "tbs_new E xs n salt = Some s"
  shows "fits s k = (k div unat n \<le> 16777216)"
  using tbs_new_inv(3) [OF assms] by (simp add: fits_def seq_shape_def)


lemma b_position_from_chunk:
  assumes "from_chunk E c h pos = Some b" and "pos < 16777216"
  shows "b_position b = Some (word_of_nat pos)"
proof -
  have "(word_of_nat pos :: u64) < 2147483648"
    using word_of_nat_less [of pos 2147483648] assms(2) by simp
  moreover obtain sh where "psh_new sh (word_of_nat pos) (c_block_hash c) = Some (b_positional_sequence_hash b)"
    using assms(1) by (auto simp: from_chunk_def Let_def run_simps)
  ultimately show ?thesis
    using psh_new_unpack [of "word_of_nat pos" sh "c_block_hash c"]
    by (auto simp: b_position_def psh_position_def)
qed

lemma link_chunks_last:
  assumes "link_chunks E 0 h (cs @ [c]) = Some (bs, h')"
  shows "\<exists>h0. from_chunk E c h0 (length cs) = Some (last bs)"
  using assms by (auto simp: link_chunks_append run_simps)

text \<open>
  The interface of a token container that grows at its end and is cut there: what a client such as
  the mocker's active sequence relies on.
\<close>

locale token_container =
  fixes inv :: "'s \<Rightarrow> bool"
    and toks :: "'s \<Rightarrow> 'a list"
    and shape :: "'s \<Rightarrow> 'k"
    and room :: "'s \<Rightarrow> nat \<Rightarrow> bool"
    and push :: "'s \<Rightarrow> 'a \<Rightarrow> (('e + 'r) \<times> 's) run"
    and cut :: "'s \<Rightarrow> nat \<Rightarrow> (('e + unit) \<times> 's) run"
  assumes push_ok: "inv s \<Longrightarrow> room s (length (toks s) + 1) \<Longrightarrow>
      \<exists>r s'. push s t = Some (Inr r, s') \<and> inv s' \<and> toks s' = toks s @ [t] \<and> shape s' = shape s"
    and cut_ok: "inv s \<Longrightarrow>
      \<exists>s'. cut s k = Some (Inr (), s') \<and> inv s' \<and> toks s' = take k (toks s) \<and> shape s' = shape s"
    and room_shape: "shape s' = shape s \<Longrightarrow> room s' = room s"
    and room_mono: "room s n \<Longrightarrow> m \<le> n \<Longrightarrow> room s m"
    and canonical: "inv s \<Longrightarrow> inv s' \<Longrightarrow> toks s = toks s' \<Longrightarrow> shape s = shape s' \<Longrightarrow> s = s'"

text \<open>Pushing the elements of a list one after the other, stopping at the first that fails.\<close>

fun push_all :: "('s \<Rightarrow> 'a \<Rightarrow> (('e + 'r) \<times> 's) run) \<Rightarrow> 's \<Rightarrow> 'a list \<Rightarrow> ((('e + unit) \<times> 's)) run" where
  "push_all push s [] = Some (Inr (), s)"
| "push_all push s (t # ts) = do {
     (r, s') \<leftarrow> push s t;
     (case r of Inl e \<Rightarrow> Some (Inl e, s') | Inr _ \<Rightarrow> push_all push s' ts)
   }"

context token_container
begin

lemma push_all_ok:
  assumes "inv s" and "room s (length (toks s) + length ts)"
  shows "\<exists>s'. push_all push s ts = Some (Inr (), s') \<and> inv s' \<and> toks s' = toks s @ ts \<and> shape s' = shape s"
  using assms
proof (induction ts arbitrary: s)
  case Nil
  then show ?case by simp
next
  case (Cons t ts)
  obtain r s1 where s1: "push s t = Some (Inr r, s1)" "inv s1" "toks s1 = toks s @ [t]" "shape s1 = shape s"
    using push_ok [OF Cons.prems(1), of t] room_mono [OF Cons.prems(2)] by auto
  then obtain s' where "push_all push s1 ts = Some (Inr (), s')" "inv s'" "toks s' = toks s1 @ ts"
    "shape s' = shape s1"
    using Cons.IH [of s1] Cons.prems(2) room_shape [OF s1(4)] by auto
  with s1 show ?case by simp
qed

text \<open>Cutting off what was pushed restores the state itself, not only its tokens.\<close>

lemma push_all_cut:
  assumes "inv s" and "room s (length (toks s) + length ts)"
  shows "\<exists>s'. push_all push s ts = Some (Inr (), s') \<and> cut s' (length (toks s)) = Some (Inr (), s)"
proof -
  obtain s' where s': "push_all push s ts = Some (Inr (), s')" "inv s'" "toks s' = toks s @ ts"
    "shape s' = shape s"
    using push_all_ok [OF assms] by blast
  obtain s'' where "cut s' (length (toks s)) = Some (Inr (), s'')" "inv s''" "toks s'' = toks s"
    "shape s'' = shape s"
    using cut_ok [OF s'(2), of "length (toks s)"] s'(3,4) by auto
  then show ?thesis using s'(1) canonical [of s'' s] assms(1) by blast
qed

end

interpretation tbs: token_container "seq_inv E" seq_tokens seq_shape fits "tbs_append E" "tbs_truncate E" for E
proof
  show "\<exists>r s'. tbs_append E s t = Some (Inr r, s') \<and> seq_inv E s' \<and> seq_tokens s' = seq_tokens s @ [t] \<and>
      seq_shape s' = seq_shape s" if "seq_inv E s" "fits s (length (seq_tokens s) + 1)" for s t
    using tbs_append_ok [OF that] by blast
  show "seq_inv E s \<Longrightarrow> seq_inv E s' \<Longrightarrow> seq_tokens s = seq_tokens s' \<Longrightarrow> seq_shape s = seq_shape s' \<Longrightarrow> s = s'"
    for s s'
    using seq_inv_unique by (simp add: seq_shape_def)
qed (use tbs_truncate_ok seq_shape_fits fits_mono in blast)+

text \<open>Sequences with a common prefix share the full blocks of that prefix.\<close>

lemma tbs_new_blocks_prefix:
  assumes "tbs_new E xs n salt = Some s" and "tbs_new E (xs @ ys) n salt = Some s'"
  shows "s_blocks s = take (length xs div unat n) (s_blocks s')"
proof -
  note new = tbs_new_inv [OF assms(1)] and new' = tbs_new_inv [OF assms(2)]
  define h where "h = (case salt of None \<Rightarrow> 0 | Some h \<Rightarrow> h)"
  have n: "0 < unat n" using new by (auto simp: seq_shape_def seq_inv_def seq_core_def)
  obtain h1 where link: "link_chunks E 0 None (map (\<lambda>c. chunk_new E c h) (chunks_exact (unat n) xs))
      = Some (s_blocks s, h1)"
    using assms(1) by (auto simp: tbs_new_def split_tokens_def h_def [symmetric] run_simps)
  obtain h2 where "link_chunks E 0 None (map (\<lambda>c. chunk_new E c h) (chunks_exact (unat n) (xs @ ys)))
      = Some (s_blocks s', h2)"
    using assms(2) by (auto simp: tbs_new_def split_tokens_def h_def [symmetric] run_simps)
  then obtain bs where "s_blocks s @ bs = s_blocks s'"
    using link unfolding chunks_exact_append_any [OF n, of xs ys]
    by (auto simp: link_chunks_append run_simps)
  then show ?thesis using link_chunks_length [OF link] n by (metis append_eq_conv_conj length_chunks_exact length_map)
qed

lemma seq_blocks_prefix:
  assumes inv: "seq_inv E s" "seq_inv E s'" and toks: "seq_tokens s' = seq_tokens s @ ys"
    and shape: "seq_shape s' = seq_shape s"
  shows "s_blocks s = take (length (s_blocks s)) (s_blocks s')"
proof -
  define n where "n = p_block_size (s_current_block s)"
  have sh: "seq_shape s = (n, case Some (s_salt_hash s) of None \<Rightarrow> 0 | Some h \<Rightarrow> h, unat n)"
    using inv(1) by (simp add: seq_shape_def n_def seq_inv_def seq_core_def)
  have "tbs_new E (seq_tokens s) n (Some (s_salt_hash s)) = Some s"
    "tbs_new E (seq_tokens s @ ys) n (Some (s_salt_hash s)) = Some s'"
    using tbs_new_canonical [OF inv(1) sh] tbs_new_canonical [OF inv(2), of n "Some (s_salt_hash s)"]
      sh shape toks by simp_all
  then show ?thesis
    using tbs_new_blocks_prefix seq_inv_blocks(1) [OF inv(1)] sh by (fastforce simp: seq_shape_def)
qed

section \<open>Properties\<close>

text \<open>
  C27 (tbs_new_total). Building a sequence panics exactly when the block size is zero or the tokens
  fill more than \<open>2^24\<close> blocks (the lineage hash of a later block has no mode); otherwise the
  sequence holds exactly the given tokens, in \<open>length div n\<close> full blocks of \<open>n\<close> tokens each and a
  current block with the remainder.
\<close>

theorem tbs_new_total:
  "case tbs_new E ts n salt of
     None \<Rightarrow> n = 0 \<or> 16777216 < length ts div unat n
   | Some s \<Rightarrow> n \<noteq> 0 \<and> length ts div unat n \<le> 16777216 \<and> seq_tokens s = ts \<and>
       map b_tokens (s_blocks s) = chunks_exact (unat n) ts \<and>
       length (s_blocks s) = length ts div unat n \<and>
       p_tokens (s_current_block s) = drop (unat n * (length ts div unat n)) ts"
proof (cases "tbs_new E ts n salt")
  case None
  then show ?thesis using tbs_new_panics_iff [of E ts n salt] by simp
next
  case (Some s)
  note new = tbs_new_inv [OF Some]
  have n: "n \<noteq> 0" "length ts div unat n \<le> 16777216"
    using Some tbs_new_panics_iff [of E ts n salt] by auto
  have sh: "s_block_size s = unat n" using new(3) by (simp add: seq_shape_def)
  have inv: "0 < unat n" "length (p_tokens (s_current_block s)) < unat n"
    "\<And>xs. xs \<in> set (map b_tokens (s_blocks s)) \<Longrightarrow> length xs = unat n"
    using new(1) sh by (auto simp: seq_inv_def seq_core_def)
  have toks: "ts = concat (map b_tokens (s_blocks s)) @ p_tokens (s_current_block s)"
    using new(2) by (simp add: seq_tokens_def)
  have "map b_tokens (s_blocks s) = chunks_exact (unat n) ts"
    "chunks_remainder (unat n) ts = p_tokens (s_current_block s)"
    unfolding toks using inv by (auto intro!: chunks_exact_concat [symmetric] chunks_remainder_concat)
  then show ?thesis
    using Some n new(2) seq_inv_blocks(1) [OF new(1)] sh by (simp add: chunks_remainder_def)
qed

text \<open>
  C17 (tbs_append_refines). \<open>append\<close> refines appending to a list: from the sequence of \<open>xs\<close> it gives
  the sequence of \<open>xs @ [t]\<close>, hashes and positions included, reports the index of the block it
  completed (exactly when the new length is a multiple of the block size) and never returns an
  error; it panics exactly when no sequence of \<open>xs @ [t]\<close> can be built.
\<close>

theorem tbs_append_refines:
  assumes "tbs_new E xs n salt = Some s"
  shows "tbs_append E s t = (case tbs_new E (xs @ [t]) n salt of
     None \<Rightarrow> None
   | Some s' \<Rightarrow> Some (Inr (if unat n dvd length xs + 1 then Some (length xs div unat n) else None), s'))"
proof -
  note new = tbs_new_inv [OF assms] and fits = tbs_new_fits [OF assms]
  have n: "n \<noteq> 0" using assms tbs_new_panics_iff [of E xs n salt] by auto
  show ?thesis
  proof (cases "(length xs + 1) div unat n \<le> 16777216")
    case True
    then obtain s' where "tbs_append E s t = Some (Inr (if s_block_size s dvd length (seq_tokens s) + 1
        then Some (length (s_blocks s)) else None), s')"
      "seq_inv E s'" "seq_tokens s' = seq_tokens s @ [t]" "seq_shape s' = seq_shape s"
      using tbs_append_ok [OF new(1), of t] fits new(2) by auto
    then show ?thesis
      using new tbs_new_canonical [of E s' n salt] seq_inv_blocks(1) [OF new(1)]
      by (simp add: seq_shape_def)
  next
    case False
    then have "tbs_append E s t = None" "tbs_new E (xs @ [t]) n salt = None"
      using tbs_append_panics [OF new(1), of t] fits new(2) tbs_new_panics_iff [of E "xs @ [t]" n salt]
      by auto
    then show ?thesis by simp
  qed
qed

text \<open>
  C18 (tbs_extend_refines). The loop of \<open>extend\<close> ends, and from the sequence of \<open>xs\<close> it gives the
  sequence of \<open>xs @ ys\<close> and the range of the blocks it completed, without errors; it panics exactly
  when no sequence of \<open>xs @ ys\<close> can be built.
\<close>

theorem tbs_extend_refines:
  assumes "tbs_new E xs n salt = Some s"
  shows "tbs_extend E s ys = (case tbs_new E (xs @ ys) n salt of
     None \<Rightarrow> None
   | Some s' \<Rightarrow> Some (Inr (if length xs div unat n = length (xs @ ys) div unat n then None
       else Some (length xs div unat n, length (xs @ ys) div unat n)), s'))"
proof -
  note new = tbs_new_inv [OF assms] and fits = tbs_new_fits [OF assms]
  have n: "n \<noteq> 0" using assms tbs_new_panics_iff [of E xs n salt] by auto
  show ?thesis
  proof (cases "(length xs + length ys) div unat n \<le> 16777216")
    case True
    then obtain s' where s': "tbs_extend E s ys = Some (Inr (if length (s_blocks s) = length (s_blocks s')
        then None else Some (length (s_blocks s), length (s_blocks s'))), s')"
      "seq_inv E s'" "seq_tokens s' = seq_tokens s @ ys" "seq_shape s' = seq_shape s"
      using tbs_extend_ok [OF new(1), of ys] fits new(2) by auto
    then show ?thesis
      using new tbs_new_canonical [of E s' n salt] seq_inv_blocks(1) [OF new(1)]
        seq_inv_blocks(1) [OF s'(2)] by (simp add: seq_shape_def)
  next
    case False
    then have "extend_loop E s ys = None" "tbs_new E (xs @ ys) n salt = None"
      using extend_loop_panics [OF new(1), of ys] fits new(2) tbs_new_panics_iff [of E "xs @ ys" n salt]
      by auto
    then show ?thesis by (simp add: tbs_extend_def)
  qed
qed

text \<open>
  C19 (tbs_truncate_refines). \<open>truncate\<close>, \<open>unwind\<close>, \<open>pop\<close> and \<open>reset\<close> never panic and refine the cut
  of a list: the state after them is the one \<open>new\<close> builds from the shorter list, so no hash or
  position of a dropped block survives in the block being filled. \<open>unwind\<close> by more tokens than there
  are is an error that leaves the sequence alone.
\<close>

theorem tbs_truncate_refines:
  assumes "tbs_new E xs n salt = Some s"
  shows "\<exists>s'. tbs_truncate E s len = Some (Inr (), s') \<and> tbs_new E (take len xs) n salt = Some s'"
  using tbs_new_inv [OF assms] tbs_truncate_ok [of E s len] tbs_new_canonical [of E _ n salt]
  by fastforce

text \<open>
  \<open>unwind\<close> by more tokens than there are is an error that leaves the
  sequence alone, otherwise it drops the last \<open>count\<close> tokens; \<open>pop\<close> returns and drops the last token;
  \<open>reset\<close> gives the sequence of no tokens. In each case the new state is the one \<open>new\<close> builds.
\<close>

lemma tbs_unwind_pop_reset:
  assumes "tbs_new E xs n salt = Some s"
  shows "(if length xs < count then tbs_unwind E s count = Some (Inl InsufficientTokens, s)
      else \<exists>s'. tbs_unwind E s count = Some (Inr (), s') \<and>
        tbs_new E (take (length xs - count) xs) n salt = Some s') \<and>
    (if xs = [] then tbs_pop E s = Some (None, s)
      else \<exists>s'. tbs_pop E s = Some (Some (last xs), s') \<and> tbs_new E (butlast xs) n salt = Some s') \<and>
    tbs_new E [] n salt = Some (tbs_reset s)"
proof (intro conjI)
  note new = tbs_new_inv [OF assms]
  have canon: "seq_inv E s' \<Longrightarrow> seq_shape s' = seq_shape s \<Longrightarrow> tbs_new E (seq_tokens s') n salt = Some s'" for s'
    using tbs_new_canonical new(3) by simp
  show "if length xs < count then tbs_unwind E s count = Some (Inl InsufficientTokens, s)
      else \<exists>s'. tbs_unwind E s count = Some (Inr (), s') \<and>
        tbs_new E (take (length xs - count) xs) n salt = Some s'"
    using tbs_unwind_ok [OF new(1), of count] canon new(2) by fastforce
  show "if xs = [] then tbs_pop E s = Some (None, s)
      else \<exists>s'. tbs_pop E s = Some (Some (last xs), s') \<and> tbs_new E (butlast xs) n salt = Some s'"
    using tbs_pop_ok [OF new(1)] canon new(2) by fastforce
  show "tbs_new E [] n salt = Some (tbs_reset s)"
    using tbs_reset_ok [OF new(1)] canon by fastforce
qed

text \<open>
  The function \<open>tokens_at\<close> never panics: for a range inside the sequence it returns that
  slice of the tokens, across block borders, and the empty list for any other range.
\<close>

lemma tokens_at_slice:
  assumes "tbs_new E xs n salt = Some s"
  shows "tokens_at s a b = Some (if a \<le> b \<and> b \<le> length xs then take (b - a) (drop a xs) else [])"
  using tbs_new_inv [OF assms] tokens_at_ok by blast

text \<open>
  Sequences with a common prefix share the full blocks of that prefix, with
  the same block, sequence and positional hashes: the blocks of \<open>xs\<close> are the first blocks of
  \<open>xs @ ys\<close>. This is what makes the hashes keys of a prefix cache.
\<close>

lemma tbs_prefix_sharing:
  assumes "tbs_new E xs n salt = Some s" and "tbs_new E (xs @ ys) n salt = Some s'"
  shows "s_blocks s = take (length xs div unat n) (s_blocks s')"
  using tbs_new_blocks_prefix [OF assms] .

text \<open>
  The \<open>next_block\<close> of the last full block of a sequence is the current
  block that the sequence itself starts there: same parent hash, position, size and salt.
\<close>

lemma next_block_current:
  assumes "tbs_new E xs n salt = Some s" and "last_complete_block s = Some b"
  shows "next_block b = Some ((s_current_block s)\<lparr>p_tokens := []\<rparr>)"
proof -
  let ?p = "s_current_block s" and ?B = "length (s_blocks s)"
  note new = tbs_new_inv [OF assms(1)]
  have core: "seq_core E s" using new(1) by (simp add: seq_inv_def)
  then have link: "link_chunks E 0 None (block_chunks E (s_salt_hash s) (s_blocks s))
      = Some (s_blocks s, p_parent_sequence_hash ?p)"
    and fields: "unat (p_block_size ?p) = s_block_size s" "p_salt_hash ?p = s_salt_hash s"
      "p_position ?p = ?B" "\<forall>b \<in> set (s_blocks s). length (b_tokens b) = s_block_size s"
    by (simp_all add: seq_core_def)
  have bs: "s_blocks s \<noteq> []" and b: "last (s_blocks s) = b"
    using assms(2) by (auto simp: last_complete_block_def split: if_splits)
  then obtain h0 where fc: "from_chunk E (chunk_new E (b_tokens b) (s_salt_hash s)) h0 (?B - 1) = Some b"
  proof -
    have "block_chunks E (s_salt_hash s) (s_blocks s)
        = block_chunks E (s_salt_hash s) (butlast (s_blocks s)) @ [chunk_new E (b_tokens b) (s_salt_hash s)]"
      using bs b by (metis (no_types, lifting) append_butlast_last_id list.simps(8,9) map_append)
    then have "\<exists>h0. from_chunk E (chunk_new E (b_tokens b) (s_salt_hash s)) h0
        (length (block_chunks E (s_salt_hash s) (butlast (s_blocks s)))) = Some (last (s_blocks s))"
      using link by (intro link_chunks_last) simp
    then show thesis using that b by auto
  qed
  have le: "?B - 1 < 16777216" "0 < ?B" using seq_core_room [OF core] bs by (cases "s_blocks s", auto)+
  then have "b_position b = Some (word_of_nat (?B - 1))" using b_position_from_chunk [OF fc] by simp
  moreover have "unat (word_of_nat (?B - 1) :: u64) = ?B - 1" using le by (simp add: unat_of_nat)
  moreover have "length (b_tokens b) = unat (p_block_size ?p)" using fields bs b by auto
  moreover have "p_parent_sequence_hash ?p = Some (b_sequence_hash b)"
    using link_chunks_Some(2) [OF link] bs b by simp
  moreover have "word_of_nat (s_block_size s) = p_block_size ?p"
    unfolding fields(1) [symmetric] by simp
  ultimately show ?thesis
    using from_chunk_Some(2) [OF fc] fields le
    by (auto simp: next_block_def intro: PartialTokenBlock.equality)
qed

text \<open>
  Feeding tokens one at a time with \<open>append\<close> and feeding them in one \<open>extend\<close>
  lead to the same sequence, whatever the block borders.
\<close>

lemma push_all_extend:
  assumes "tbs_new E xs n salt = Some s" and "(length xs + length ys) div unat n \<le> 16777216"
  shows "\<exists>r s'. push_all (tbs_append E) s ys = Some (Inr (), s') \<and> tbs_extend E s ys = Some (Inr r, s') \<and>
    tbs_truncate E s' (length xs) = Some (Inr (), s)"
proof -
  note new = tbs_new_inv [OF assms(1)]
  have fits: "fits s (length (seq_tokens s) + length ys)"
    using assms tbs_new_fits new(2) by blast
  obtain s1 where s1: "push_all (tbs_append E) s ys = Some (Inr (), s1)" "seq_inv E s1"
    "seq_tokens s1 = seq_tokens s @ ys" "seq_shape s1 = seq_shape s"
    using tbs.push_all_ok [OF new(1) fits] by blast
  obtain r s2 where s2: "tbs_extend E s ys = Some (Inr r, s2)" "seq_inv E s2"
    "seq_tokens s2 = seq_tokens s @ ys" "seq_shape s2 = seq_shape s"
    using tbs_extend_ok [OF new(1) fits] by blast
  have "s1 = s2" using s1 s2 tbs.canonical by simp
  then show ?thesis using s1(1) s2(1) tbs.push_all_cut [OF new(1) fits] new(2) by auto
qed


section \<open>Witnesses\<close>

text \<open>
  A concrete build for the witnesses: a polynomial checksum in place of xxh3 and little-endian bytes
  in place of the slice casts.
\<close>

definition demo_env :: build_env where
  "demo_env = \<lparr>xxh3_64_with_seed = (\<lambda>bs seed. foldl (\<lambda>h b. 31 * h + ucast b) seed bs),
     cast_u32s = (\<lambda>ts. concat (map (\<lambda>t. rev (be_bytes 4 (unat t))) ts)),
     cast_u64s = (\<lambda>hs. concat (map (\<lambda>h. rev (be_bytes 8 (unat h))) hs)),
     debug_assertions = True\<rparr>"

lemma demo_new: "length ts div 2 \<le> 16777216 \<Longrightarrow> \<exists>s. tbs_new demo_env ts 2 None = Some s"
  using tbs_new_panics_iff [of demo_env ts 2 None] by auto

theorem tbs_append_refines_witness:
  "\<exists>s. tbs_new demo_env [1, 2, 3] 2 None = Some s \<and>
    (\<exists>s'. tbs_new demo_env [1, 2, 3, 4] 2 None = Some s' \<and> tbs_append demo_env s 4 = Some (Inr (Some 1), s'))"
proof -
  obtain s s' where s: "tbs_new demo_env [1, 2, 3] 2 None = Some s"
    and s': "tbs_new demo_env [1, 2, 3, 4] 2 None = Some s'"
    using demo_new [of "[1, 2, 3]"] demo_new [of "[1, 2, 3, 4]"] by auto
  show ?thesis using s s' tbs_append_refines [OF s, of 4] by simp
qed

theorem tbs_extend_refines_witness:
  "\<exists>s. tbs_new demo_env [1, 2, 3] 2 None = Some s \<and>
    (\<exists>s'. tbs_new demo_env [1, 2, 3, 4, 5, 6, 7] 2 None = Some s' \<and>
      tbs_extend demo_env s [4, 5, 6, 7] = Some (Inr (Some (1, 3)), s'))"
proof -
  obtain s s' where s: "tbs_new demo_env [1, 2, 3] 2 None = Some s"
    and s': "tbs_new demo_env [1, 2, 3, 4, 5, 6, 7] 2 None = Some s'"
    using demo_new [of "[1, 2, 3]"] demo_new [of "[1, 2, 3, 4, 5, 6, 7]"] by auto
  show ?thesis using s s' tbs_extend_refines [OF s, of "[4, 5, 6, 7]"] by simp
qed

theorem tbs_truncate_refines_witness:
  "\<exists>s s'. tbs_new demo_env [1, 2, 3, 4, 5] 2 None = Some s \<and>
    tbs_truncate demo_env s 3 = Some (Inr (), s') \<and> tbs_new demo_env [1, 2, 3] 2 None = Some s'"
proof -
  obtain s where s: "tbs_new demo_env [1, 2, 3, 4, 5] 2 None = Some s"
    using demo_new [of "[1, 2, 3, 4, 5]"] by auto
  show ?thesis using s tbs_truncate_refines [OF s, of 3] by auto
qed

end
