(* ===== verification/ActiveSeq.thy ===== *)
theory ActiveSeq
  imports TokenBlocks
begin

text \<open>
  The sequence of a running request in the mocker: block identities (\<open>lib/tokens/src/blocks.rs\<close>),
  the block movements it asks of the KV cache (\<open>MoveBlock\<close> of \<open>lib/mocker/src/common/protocols.rs\<close>)
  and \<open>ActiveSequence\<close> (\<open>lib/mocker/src/common/sequence.rs\<close>) with all its operations. The random
  numbers and UUIDs the code draws come from a parameter, the record \<open>random_source\<close>; a counter of the draws
  made so far is threaded through the operations that draw.

  The lemmas show that the three caches of a sequence (block identities, block hashes, lineage
  hashes) agree with its tokens after every operation, that no operation panics while the token
  sequence has room, and that the signals handed to the KV cache name exactly the blocks whose
  state changes.
\<close>

section \<open>Block identities and movements\<close>

type_synonym Uuid = u128

datatype UniqueBlock = PartialBlock Uuid | FullBlock u64

datatype MoveBlock =
    Use "UniqueBlock list" "u64 list" "PositionalLineageHash list" "Tokens list option" "UniqueBlock option"
  | Deref "UniqueBlock list"
  | Promote Uuid u64 "u64 option" u64 PositionalLineageHash "Tokens option"

record random_source =
  draw_u64 :: "nat \<Rightarrow> u64"
  draw_u32 :: "nat \<Rightarrow> u32"
  draw_uuid :: "nat \<Rightarrow> Uuid"

definition unique_block_default :: "random_source \<Rightarrow> nat \<Rightarrow> UniqueBlock \<times> nat" where
  "unique_block_default R d = (PartialBlock (draw_uuid R d), Suc d)"

fun is_full :: "UniqueBlock \<Rightarrow> bool" where
  "is_full (FullBlock _) = True"
| "is_full (PartialBlock _) = False"

text \<open>\<open>&xs[a..b]\<close>, which panics outside the slice.\<close>

definition slice_run :: "'a list \<Rightarrow> nat \<Rightarrow> nat \<Rightarrow> 'a list run" where
  "slice_run xs a b = (if a \<le> b \<and> b \<le> length xs then Some (take (b - a) (drop a xs)) else None)"

section \<open>\<open>ActiveSequence\<close>\<close>

record ActiveSequence =
  unique_blocks :: "UniqueBlock list"
  block_hashes :: "u64 list"
  plhs :: "PositionalLineageHash list"
  as_tokens :: TokenBlockSequence
  as_block_size :: nat
  max_output_tokens :: nat
  generated_tokens :: nat
  num_input_tokens :: nat
  num_allocated_tokens :: nat
  enable_prefix_caching :: bool
  emit_token_ids :: bool

fun cache_blocks :: "random_source \<Rightarrow> bool \<Rightarrow> nat \<Rightarrow> TokenBlock list \<Rightarrow> nat \<Rightarrow>
    ((UniqueBlock list \<times> u64 list \<times> PositionalLineageHash list) \<times> nat) run" where
  "cache_blocks R caching pos [] d = Some (([], [], []), d)"
| "cache_blocks R caching pos (block # blocks) d = do {
     (unique, plh, d1) \<leftarrow>
       (if caching then Some (FullBlock (b_sequence_hash block), b_positional_lineage_hash block, d)
        else do {
          plh \<leftarrow> plh_new (draw_u64 R (Suc d)) None (word_of_nat pos);
          Some (FullBlock (draw_u64 R d), plh, Suc (Suc d))
        });
     ((us, hs, ps), d2) \<leftarrow> cache_blocks R caching (Suc pos) blocks d1;
     Some ((unique # us, b_block_hash block # hs, plh # ps), d2)
   }"

definition create_sequence_cache :: "random_source \<Rightarrow> TokenBlockSequence \<Rightarrow> nat \<Rightarrow> bool \<Rightarrow> nat \<Rightarrow>
    ((UniqueBlock list \<times> u64 list \<times> PositionalLineageHash list) \<times> nat) run" where
  "create_sequence_cache R tokens block_size caching d = do {
     ((us, hs, ps), d1) \<leftarrow> cache_blocks R caching 0 (s_blocks tokens) d;
     if block_size dvd tbs_total_tokens tokens then Some ((us, hs, ps), d1)
     else (case unique_block_default R d1 of (u, d2) \<Rightarrow> Some ((us @ [u], hs, ps), d2))
   }"

definition as_new :: "build_env \<Rightarrow> random_source \<Rightarrow> Tokens \<Rightarrow> nat \<Rightarrow> nat option \<Rightarrow> bool \<Rightarrow> bool \<Rightarrow> nat \<Rightarrow>
    (ActiveSequence \<times> nat) run" where
  "as_new E R tokens max_out block_size caching emit d = do {
     let block_size = (case block_size of None \<Rightarrow> 64 | Some n \<Rightarrow> n);
     let num_input = length tokens;
     tokens \<leftarrow> into_sequence E tokens (word_of_nat block_size) (Some 1337);
     ((us, hs, ps), d1) \<leftarrow> create_sequence_cache R tokens block_size caching d;
     assert_run (2 \<le> block_size);
     Some (\<lparr>unique_blocks = us, block_hashes = hs, plhs = ps, as_tokens = tokens,
        as_block_size = block_size, max_output_tokens = max_out, generated_tokens = 0,
        num_input_tokens = num_input, num_allocated_tokens = 0,
        enable_prefix_caching = caching, emit_token_ids = emit\<rparr>, d1)
   }"

definition as_len :: "ActiveSequence \<Rightarrow> nat" where
  "as_len a = tbs_total_tokens (as_tokens a)"

definition extra_tokens :: "ActiveSequence \<Rightarrow> u32 run" where
  "extra_tokens a = do {
     assert_run (as_block_size a \<noteq> 0);
     Some (word_of_nat (as_len a mod as_block_size a))
   }"

definition as_is_empty :: "ActiveSequence \<Rightarrow> bool" where
  "as_is_empty a = (tbs_total_tokens (as_tokens a) = 0)"

definition prepare_allocation :: "ActiveSequence \<Rightarrow> nat \<Rightarrow> MoveBlock option run" where
  "prepare_allocation a cumulative_tokens = do {
     assert_run (as_block_size a \<noteq> 0);
     let prev_blocks = min (div_ceil (num_allocated_tokens a) (as_block_size a)) (length (unique_blocks a));
     let target_blocks = min (div_ceil cumulative_tokens (as_block_size a)) (length (unique_blocks a));
     if target_blocks \<le> prev_blocks then Some None
     else do {
       blocks \<leftarrow> slice_run (unique_blocks a) prev_blocks target_blocks;
       let hash_start = min prev_blocks (length (block_hashes a));
       let hash_end = min target_blocks (length (block_hashes a));
       hashes \<leftarrow> slice_run (block_hashes a) hash_start hash_end;
       signal_plhs \<leftarrow> slice_run (plhs a) hash_start hash_end;
       token_ids \<leftarrow>
         (if emit_token_ids a \<and> hash_start < hash_end
          then do {
            bs \<leftarrow> slice_run (s_blocks (as_tokens a)) hash_start hash_end;
            Some (Some (map b_tokens bs))
          }
          else Some None);
       parent \<leftarrow>
         (if prev_blocks = 0 then Some None
          else map_option Some (index_run (unique_blocks a) (prev_blocks - 1)));
       Some (Some (Use blocks hashes signal_plhs token_ids parent))
     }
   }"

definition block_token_ids :: "ActiveSequence \<Rightarrow> Tokens list" where
  "block_token_ids a = map b_tokens (s_blocks (as_tokens a))"

definition commit_allocation :: "ActiveSequence \<Rightarrow> nat \<Rightarrow> ActiveSequence" where
  "commit_allocation a cumulative_tokens = a\<lparr>num_allocated_tokens := cumulative_tokens\<rparr>"

definition allocate_blocks_for_chunk :: "ActiveSequence \<Rightarrow> nat \<Rightarrow> (MoveBlock option \<times> ActiveSequence) run" where
  "allocate_blocks_for_chunk a cumulative_tokens = do {
     signal \<leftarrow> prepare_allocation a cumulative_tokens;
     Some (signal, commit_allocation a cumulative_tokens)
   }"

definition take_creation_signal :: "ActiveSequence \<Rightarrow> (MoveBlock option \<times> ActiveSequence) run" where
  "take_creation_signal a = allocate_blocks_for_chunk a (as_len a)"

definition new_with_signal :: "build_env \<Rightarrow> random_source \<Rightarrow> Tokens \<Rightarrow> nat \<Rightarrow> nat option \<Rightarrow> bool \<Rightarrow> nat \<Rightarrow>
    ((ActiveSequence \<times> MoveBlock option) \<times> nat) run" where
  "new_with_signal E R tokens max_out block_size caching d = do {
     (a, d1) \<leftarrow> as_new E R tokens max_out block_size caching False d;
     (signal, a') \<leftarrow> take_creation_signal a;
     Some ((a', signal), d1)
   }"

text \<open>
  The part of \<open>push\<close> that turns the last, partial block into a full one. It runs when the new token
  is the first of a block, so that the block before it is complete.
\<close>

definition promote_last :: "random_source \<Rightarrow> Uuid \<Rightarrow> ActiveSequence \<Rightarrow> nat \<Rightarrow> ((MoveBlock \<times> ActiveSequence) \<times> nat) run" where
  "promote_last R uuid a d = do {
     last_complete \<leftarrow> last_complete_block (as_tokens a);
     let (last_seq_hash, d1) =
       (if enable_prefix_caching a then (b_sequence_hash last_complete, d) else (draw_u64 R d, Suc d));
     let last_block_hash = b_block_hash last_complete;
     (last_plh, d2) \<leftarrow>
       (if enable_prefix_caching a then Some (b_positional_lineage_hash last_complete, d1)
        else do {
          plh \<leftarrow> plh_new (draw_u64 R d1) None (word_of_nat (length (block_hashes a)));
          Some (plh, Suc d1)
        });
     let promote_token_ids = (if emit_token_ids a then Some (b_tokens last_complete) else None);
     let popped = butlast (unique_blocks a);
     second_to_last_hash \<leftarrow>
       (if popped = [] then Some None
        else (case last popped of FullBlock hash \<Rightarrow> Some (Some hash) | PartialBlock _ \<Rightarrow> None));
     Some ((Promote uuid last_seq_hash second_to_last_hash last_block_hash last_plh promote_token_ids,
        a\<lparr>block_hashes := block_hashes a @ [last_block_hash], plhs := plhs a @ [last_plh],
          unique_blocks := popped @ [FullBlock last_seq_hash]\<rparr>), d2)
   }"

text \<open>The rest of \<open>push\<close> for a token that starts a block: promote, then ask for a new partial block.\<close>

definition start_block :: "random_source \<Rightarrow> ActiveSequence \<Rightarrow> nat \<Rightarrow> ((MoveBlock list \<times> ActiveSequence) \<times> nat) run" where
  "start_block R a d = do {
     ((signals, a1), d1) \<leftarrow>
       (case (if unique_blocks a = [] then None else Some (last (unique_blocks a))) of
          Some (PartialBlock uuid) \<Rightarrow> do {
            ((signal, a1), d1) \<leftarrow> promote_last R uuid a d;
            Some (([signal], a1), d1)
          }
        | _ \<Rightarrow> Some (([], a), d));
     (case unique_block_default R d1 of (new_partial_block, d2) \<Rightarrow>
       Some ((signals @ [Use [new_partial_block] [] [] None None],
         a1\<lparr>unique_blocks := unique_blocks a1 @ [new_partial_block]\<rparr>), d2))
   }"

definition as_push :: "build_env \<Rightarrow> random_source \<Rightarrow> ActiveSequence \<Rightarrow> Token \<Rightarrow> nat \<Rightarrow>
    ((MoveBlock list option \<times> ActiveSequence) \<times> nat) run" where
  "as_push E R a token d = do {
     (r, tokens) \<leftarrow> tbs_append E (as_tokens a) token;
     (case r of
        Inl _ \<Rightarrow> None
      | Inr _ \<Rightarrow> do {
          let a1 = a\<lparr>as_tokens := tokens, generated_tokens := generated_tokens a + 1\<rparr>;
          assert_run (as_block_size a1 \<noteq> 0);
          if as_len a1 mod as_block_size a1 \<noteq> 1 then Some ((None, a1), d)
          else do {
            ((signals, a2), d1) \<leftarrow> start_block R a1 d;
            Some ((Some signals, a2), d1)
          }
        })
   }"

definition free_signal_for_tokens :: "ActiveSequence \<Rightarrow> nat \<Rightarrow> MoveBlock list run" where
  "free_signal_for_tokens a active_tokens = do {
     assert_run (as_block_size a \<noteq> 0);
     let active_blocks = min (div_ceil active_tokens (as_block_size a)) (length (unique_blocks a));
     Some (map (\<lambda>block. Deref [block]) (rev (take active_blocks (unique_blocks a))))
   }"

definition free_signal :: "ActiveSequence \<Rightarrow> MoveBlock list run" where
  "free_signal a = free_signal_for_tokens a (num_allocated_tokens a)"

definition generate :: "build_env \<Rightarrow> random_source \<Rightarrow> ActiveSequence \<Rightarrow> nat \<Rightarrow>
    ((MoveBlock list \<times> ActiveSequence) \<times> nat) run" where
  "generate E R a d = do {
     assert_run (generated_tokens a < max_output_tokens a);
     ((pushed, a1), d1) \<leftarrow> as_push E R a (draw_u32 R d) (Suc d);
     let signals = (case pushed of None \<Rightarrow> [] | Some move_blocks \<Rightarrow> move_blocks);
     if generated_tokens a1 \<noteq> max_output_tokens a1 then Some ((signals, a1), d1)
     else do {
       freed \<leftarrow> free_signal_for_tokens a1 (as_len a1);
       Some ((signals @ freed, a1), d1)
     }
   }"

definition reset_with_signal :: "ActiveSequence \<Rightarrow> (MoveBlock list \<times> ActiveSequence) run" where
  "reset_with_signal a = do {
     signals \<leftarrow> free_signal a;
     Some (signals, a\<lparr>num_allocated_tokens := 0\<rparr>)
   }"

definition as_pop :: "build_env \<Rightarrow> ActiveSequence \<Rightarrow> ActiveSequence run" where
  "as_pop E a = do {
     (_, tokens) \<leftarrow> tbs_pop E (as_tokens a);
     let a1 = a\<lparr>as_tokens := tokens, generated_tokens := generated_tokens a - 1\<rparr>;
     if as_block_size a1 dvd tbs_total_tokens (as_tokens a1)
     then Some (a1\<lparr>unique_blocks := butlast (unique_blocks a1)\<rparr>)
     else Some a1
   }"


section \<open>The invariant of an active sequence\<close>

text \<open>
  The blocks with an entry in \<open>block_hashes\<close> and \<open>plhs\<close> come first in \<open>unique_blocks\<close>, as full
  blocks; at most one partial block follows, and it stands for the tokens from \<open>k * n\<close> on, the full
  block included that the next token will promote.
\<close>

definition block_ids :: "ActiveSequence \<Rightarrow> u64 list \<Rightarrow> UniqueBlock list \<Rightarrow> bool" where
  "block_ids a fulls tail = (unique_blocks a = map FullBlock fulls @ tail \<and>
     length fulls = length (block_hashes a) \<and>
     (enable_prefix_caching a \<longrightarrow>
        fulls = map b_sequence_hash (take (length (block_hashes a)) (s_blocks (as_tokens a)))))"

definition tail_ok :: "ActiveSequence \<Rightarrow> nat \<Rightarrow> UniqueBlock list \<Rightarrow> bool" where
  "tail_ok a k tail = (case tail of
      [] \<Rightarrow> as_len a = k * as_block_size a
    | [PartialBlock _] \<Rightarrow> k * as_block_size a < as_len a \<and> as_len a \<le> Suc k * as_block_size a
    | _ \<Rightarrow> False)"

definition as_inv :: "build_env \<Rightarrow> ActiveSequence \<Rightarrow> bool" where
  "as_inv E a = (2 \<le> as_block_size a \<and> seq_inv E (as_tokens a) \<and>
     s_block_size (as_tokens a) = as_block_size a \<and>
     length (plhs a) = length (block_hashes a) \<and>
     length (block_hashes a) \<le> length (s_blocks (as_tokens a)) \<and>
     block_hashes a = map b_block_hash (take (length (block_hashes a)) (s_blocks (as_tokens a))) \<and>
     (enable_prefix_caching a \<longrightarrow> plhs a =
        map b_positional_lineage_hash (take (length (block_hashes a)) (s_blocks (as_tokens a)))) \<and>
     (\<exists>fulls tail. block_ids a fulls tail \<and> tail_ok a (length (block_hashes a)) tail))"

lemma tail_ok_cases:
  assumes "tail_ok a k tail"
  obtains (none) "tail = []" "as_len a = k * as_block_size a"
  | (partial) u where "tail = [PartialBlock u]" "k * as_block_size a < as_len a"
      "as_len a \<le> Suc k * as_block_size a"
  using assms by (auto simp: tail_ok_def split: list.splits UniqueBlock.splits)

lemma as_len_tokens: "as_inv E a \<Longrightarrow> as_len a = length (seq_tokens (as_tokens a))"
  using tbs_total_tokens_eq by (auto simp: as_inv_def as_len_def)

lemma as_inv_length:
  assumes "as_inv E a"
  shows "length (unique_blocks a) = div_ceil (as_len a) (as_block_size a)"
proof -
  let ?n = "as_block_size a" and ?k = "length (block_hashes a)"
  obtain fulls tail where ids: "block_ids a fulls tail" and tail: "tail_ok a ?k tail" and n: "0 < ?n"
    using assms by (auto simp: as_inv_def)
  from tail show ?thesis
  proof (cases rule: tail_ok_cases)
    case none
    then show ?thesis using ids n by (simp add: block_ids_def)
  next
    case (partial u)
    have "div_ceil (as_len a) ?n \<le> Suc ?k" "\<not> div_ceil (as_len a) ?n \<le> ?k"
      using partial n by (simp_all add: div_ceil_le_iff not_le)
    then show ?thesis using ids partial by (simp add: block_ids_def)
  qed
qed

section \<open>Construction\<close>

lemma cache_blocks_ok:
  assumes "pos + length bs \<le> 16777216"
  shows "\<exists>fulls ps d'. cache_blocks R caching pos bs d = Some ((map FullBlock fulls, map b_block_hash bs, ps), d') \<and>
    length fulls = length bs \<and> length ps = length bs \<and>
    (caching \<longrightarrow> fulls = map b_sequence_hash bs \<and> ps = map b_positional_lineage_hash bs)"
  using assms
proof (induction bs arbitrary: pos d)
  case Nil
  then show ?case by simp
next
  case (Cons b bs)
  have IH: "\<exists>fulls ps d'. cache_blocks R caching (Suc pos) bs d0
      = Some ((map FullBlock fulls, map b_block_hash bs, ps), d') \<and>
    length fulls = length bs \<and> length ps = length bs \<and>
    (caching \<longrightarrow> fulls = map b_sequence_hash bs \<and> ps = map b_positional_lineage_hash bs)" for d0
    using Cons.IH [of "Suc pos" d0] Cons.prems by simp
  show ?case
  proof (cases caching)
    case True
    obtain fulls ps d' where "cache_blocks R caching (Suc pos) bs d
        = Some ((map FullBlock fulls, map b_block_hash bs, ps), d')" "length fulls = length bs"
      "length ps = length bs" "fulls = map b_sequence_hash bs \<and> ps = map b_positional_lineage_hash bs"
      using IH [of d] True by blast
    then show ?thesis
      using True by (intro exI [of _ "b_sequence_hash b # fulls"]
          exI [of _ "b_positional_lineage_hash b # ps"] exI [of _ d']) simp
  next
    case False
    have "(word_of_nat pos :: u64) < 16777216"
      using word_of_nat_less [of pos 16777216] Cons.prems by simp
    then obtain plh where plh: "plh_new (draw_u64 R (Suc d)) None (word_of_nat pos) = Some plh"
      using plh_new_fields by blast
    obtain fulls ps d' where "cache_blocks R caching (Suc pos) bs (Suc (Suc d))
        = Some ((map FullBlock fulls, map b_block_hash bs, ps), d')" "length fulls = length bs"
      "length ps = length bs"
      using IH [of "Suc (Suc d)"] by blast
    then show ?thesis
      using False plh by (intro exI [of _ "draw_u64 R d # fulls"] exI [of _ "plh # ps"] exI [of _ d']) simp
  qed
qed

lemma create_sequence_cache_ok:
  assumes inv: "seq_inv E s" and n: "s_block_size s = n"
  shows "\<exists>fulls tail ps d'. create_sequence_cache R s n caching d
      = Some ((map FullBlock fulls @ tail, map b_block_hash (s_blocks s), ps), d') \<and>
    length fulls = length (s_blocks s) \<and> length ps = length (s_blocks s) \<and>
    (caching \<longrightarrow> fulls = map b_sequence_hash (s_blocks s) \<and> ps = map b_positional_lineage_hash (s_blocks s)) \<and>
    (if n dvd length (seq_tokens s) then tail = [] else \<exists>u. tail = [PartialBlock u])"
proof -
  have "0 + length (s_blocks s) \<le> 16777216" using seq_core_room [of E s] inv by (simp add: seq_inv_def)
  from cache_blocks_ok [OF this] obtain fulls ps d' where c: "cache_blocks R caching 0 (s_blocks s) d
      = Some ((map FullBlock fulls, map b_block_hash (s_blocks s), ps), d')"
    "length fulls = length (s_blocks s)" "length ps = length (s_blocks s)"
    "caching \<longrightarrow> fulls = map b_sequence_hash (s_blocks s) \<and> ps = map b_positional_lineage_hash (s_blocks s)"
    by blast
  have total: "tbs_total_tokens s = length (seq_tokens s)" using tbs_total_tokens_eq [OF inv] .
  show ?thesis
  proof (cases "n dvd length (seq_tokens s)")
    case True
    then show ?thesis
      using c total by (intro exI [of _ fulls] exI [of _ "[]"] exI [of _ ps] exI [of _ d'])
        (simp add: create_sequence_cache_def)
  next
    case False
    then show ?thesis
      using c total by (intro exI [of _ fulls] exI [of _ "[PartialBlock (draw_uuid R d')]"] exI [of _ ps]
          exI [of _ "Suc d'"]) (simp add: create_sequence_cache_def unique_block_default_def)
  qed
qed

lemma as_new_ok:
  assumes n: "2 \<le> n" "n < 4294967296" and fit: "length ts div n \<le> 16777216"
  shows "\<exists>a d'. as_new E R ts max_out (Some n) caching emit d = Some (a, d') \<and> as_inv E a \<and>
    seq_tokens (as_tokens a) = ts \<and> as_block_size a = n \<and> num_input_tokens a = length ts \<and>
    generated_tokens a = 0 \<and> num_allocated_tokens a = 0 \<and> max_output_tokens a = max_out \<and>
    enable_prefix_caching a = caching \<and> emit_token_ids a = emit"
proof -
  have un: "unat (word_of_nat n :: u32) = n" using n by (simp add: unat_of_nat)
  then have pos: "(0 :: u32) < word_of_nat n" using n by (metis not_gr_zero unat_0 word_gt_0 not_numeral_le_zero)
  obtain s where s: "tbs_new E ts (word_of_nat n) (Some 1337) = Some s" "seq_inv E s" "seq_tokens s = ts"
    "seq_shape s = (word_of_nat n, 1337, n)"
    using tbs_new_ok [OF pos, of ts E "Some 1337"] fit un by auto
  have bs: "s_block_size s = n" using s(4) by (simp add: seq_shape_def)
  obtain fulls tail ps d' where c: "create_sequence_cache R s n caching d
      = Some ((map FullBlock fulls @ tail, map b_block_hash (s_blocks s), ps), d')"
    "length fulls = length (s_blocks s)" "length ps = length (s_blocks s)"
    "caching \<longrightarrow> fulls = map b_sequence_hash (s_blocks s) \<and> ps = map b_positional_lineage_hash (s_blocks s)"
    "if n dvd length (seq_tokens s) then tail = [] else \<exists>u. tail = [PartialBlock u]"
    using create_sequence_cache_ok [OF s(2) bs] by blast
  define a where "a = \<lparr>unique_blocks = map FullBlock fulls @ tail, block_hashes = map b_block_hash (s_blocks s),
    plhs = ps, as_tokens = s, as_block_size = n, max_output_tokens = max_out, generated_tokens = 0,
    num_input_tokens = length ts, num_allocated_tokens = 0, enable_prefix_caching = caching,
    emit_token_ids = emit\<rparr>"
  have new: "as_new E R ts max_out (Some n) caching emit d = Some (a, d')"
    using s(1) c(1) n by (simp add: as_new_def into_sequence_def a_def)
  have len: "as_len a = length ts" "length ts = length (s_blocks s) * n + length ts mod n"
    using tbs_total_tokens_eq [OF s(2)] s(3) seq_inv_blocks [OF s(2)] bs by (simp_all add: a_def as_len_def)
  have "length ts mod n < n" using n by simp
  then have "length ts \<le> n + length (s_blocks s) * n" using len(2) by linarith
  then have "tail_ok a (length (s_blocks s)) tail"
    using c(5) s(3) len n by (auto simp: tail_ok_def a_def dvd_eq_mod_eq_0 split: if_splits)
  then have "as_inv E a"
    using s bs c n by (auto simp: as_inv_def block_ids_def a_def)
  then show ?thesis using new s(3) by (auto simp: a_def)
qed


section \<open>Pushing a token\<close>

lemma as_lenE:
  assumes "as_inv E a"
  obtains fulls tail where "block_ids a fulls tail" "tail_ok a (length (block_hashes a)) tail"
  using assms by (auto simp: as_inv_def)

lemma take_prefix: "xs = take (length xs) ys \<Longrightarrow> k \<le> length xs \<Longrightarrow> take k xs = take k ys"
  by (metis min.absorb2 min.commute take_take)

text \<open>The token sequence grows by one token and keeps the blocks it has.\<close>

definition grown :: "build_env \<Rightarrow> ActiveSequence \<Rightarrow> TokenBlockSequence \<Rightarrow> Token \<Rightarrow> bool" where
  "grown E a s' t = (seq_inv E s' \<and> seq_tokens s' = seq_tokens (as_tokens a) @ [t] \<and>
     s_block_size s' = as_block_size a \<and> tbs_total_tokens s' = as_len a + 1 \<and>
     length (s_blocks (as_tokens a)) \<le> length (s_blocks s') \<and>
     s_blocks (as_tokens a) = take (length (s_blocks (as_tokens a))) (s_blocks s'))"

lemma append_tokens_ok:
  assumes inv: "as_inv E a" and room: "fits (as_tokens a) (as_len a + 1)"
  shows "\<exists>r s'. tbs_append E (as_tokens a) t = Some (Inr r, s') \<and> grown E a s' t"
proof -
  have seq: "seq_inv E (as_tokens a)" "s_block_size (as_tokens a) = as_block_size a"
    using inv by (simp_all add: as_inv_def)
  obtain r s' where s': "tbs_append E (as_tokens a) t = Some (Inr r, s')" "seq_inv E s'"
    "seq_tokens s' = seq_tokens (as_tokens a) @ [t]" "seq_shape s' = seq_shape (as_tokens a)"
    using tbs_append_ok [OF seq(1)] room as_len_tokens [OF inv] by metis
  have pre: "s_blocks (as_tokens a) = take (length (s_blocks (as_tokens a))) (s_blocks s')"
    using seq_blocks_prefix [OF seq(1) s'(2,3,4)] .
  then have "length (s_blocks (as_tokens a)) \<le> length (s_blocks s')"
    by (metis length_take min.absorb_iff1 min.commute min.cobounded1)
  with pre show ?thesis
    using s' seq tbs_total_tokens_eq [OF s'(2)] as_len_tokens [OF inv]
    by (auto simp: seq_shape_def grown_def)
qed

lemma grown_take:
  assumes "as_inv E a" "grown E a s' t"
  shows "take (length (block_hashes a)) (s_blocks (as_tokens a)) = take (length (block_hashes a)) (s_blocks s')"
    and "length (block_hashes a) \<le> length (s_blocks s')"
  using assms take_prefix by (auto simp: as_inv_def grown_def)

text \<open>The state after the token is appended, before any block identity changes.\<close>

definition appended :: "ActiveSequence \<Rightarrow> TokenBlockSequence \<Rightarrow> ActiveSequence" where
  "appended a s' = a\<lparr>as_tokens := s', generated_tokens := generated_tokens a + 1\<rparr>"

lemma appended_simps [simp]:
  "unique_blocks (appended a s') = unique_blocks a" "block_hashes (appended a s') = block_hashes a"
  "plhs (appended a s') = plhs a" "as_tokens (appended a s') = s'"
  "as_block_size (appended a s') = as_block_size a" "as_len (appended a s') = tbs_total_tokens s'"
  "enable_prefix_caching (appended a s') = enable_prefix_caching a"
  by (simp_all add: appended_def as_len_def)

text \<open>All of the invariant that does not speak of the last block holds at once.\<close>

lemma appended_inv:
  assumes inv: "as_inv E a" and s': "grown E a s' t" and ids: "block_ids a fulls tail"
    and tail: "tail_ok (appended a s') (length (block_hashes a)) tail"
  shows "as_inv E (appended a s')"
proof -
  have "block_ids (appended a s') fulls tail" using ids grown_take [OF inv s'] by (simp add: block_ids_def)
  then show ?thesis
    using inv s' grown_take [OF inv s'] tail by (auto simp: as_inv_def grown_def)
qed

lemma promote_last_ok:
  assumes inv: "as_inv E a" and ids: "block_ids a fulls [PartialBlock u]"
    and s': "grown E a s' t"
    and len: "length (s_blocks s') = Suc (length (block_hashes a))"
  shows "\<exists>h p plh d' b. s_blocks s' = take (length (block_hashes a)) (s_blocks s') @ [b] \<and>
    (enable_prefix_caching a \<longrightarrow> h = b_sequence_hash b \<and> plh = b_positional_lineage_hash b) \<and>
    p = (if fulls = [] then None else Some (last fulls)) \<and>
    promote_last R u (appended a s') d = Some ((Promote u h p (b_block_hash b) plh
        (if emit_token_ids a then Some (b_tokens b) else None),
      (appended a s')\<lparr>block_hashes := block_hashes a @ [b_block_hash b], plhs := plhs a @ [plh],
        unique_blocks := map FullBlock (fulls @ [h])\<rparr>), d')"
proof -
  let ?k = "length (block_hashes a)"
  define b where "b = last (s_blocks s')"
  have bs: "s_blocks s' \<noteq> []" using len by auto
  have blocks: "s_blocks s' = take ?k (s_blocks s') @ [b]"
    using bs len by (metis append_butlast_last_id b_def butlast_conv_take diff_Suc_1)
  have lc: "last_complete_block s' = Some b" using bs by (simp add: last_complete_block_def b_def)
  have popped: "butlast (unique_blocks a) = map FullBlock fulls" using ids by (simp add: block_ids_def)
  have "length (s_blocks s') \<le> 16777216" using seq_core_room [of E s'] s' by (simp add: grown_def seq_inv_def)
  then have "(word_of_nat ?k :: u64) < 16777216" using word_of_nat_less [of ?k 16777216] len by simp
  then have "\<exists>plh. plh_new c None (word_of_nat ?k) = Some plh" for c using plh_new_fields by blast
  then obtain plh where plh: "plh_new (draw_u64 R (Suc d)) None (word_of_nat ?k) = Some plh" by blast
  have parent: "(if map FullBlock fulls = [] then Some None
      else case last (map FullBlock fulls) of FullBlock hash \<Rightarrow> Some (Some hash) | PartialBlock _ \<Rightarrow> None)
    = Some (if fulls = [] then None else Some (last fulls))"
    by (simp add: last_map)
  show ?thesis
  proof (cases "enable_prefix_caching a")
    case True
    then show ?thesis
      using blocks lc popped parent
      by (intro exI [of _ "b_sequence_hash b"] exI [of _ "if fulls = [] then None else Some (last fulls)"]
          exI [of _ "b_positional_lineage_hash b"] exI [of _ d] exI [of _ b] conjI)
        (simp_all add: promote_last_def appended_def Let_def)
  next
    case False
    then show ?thesis
      using blocks lc popped parent plh
      by (intro exI [of _ "draw_u64 R d"] exI [of _ "if fulls = [] then None else Some (last fulls)"]
          exI [of _ plh] exI [of _ "Suc (Suc d)"] exI [of _ b] conjI)
        (simp_all add: promote_last_def appended_def Let_def)
  qed
qed


text \<open>Where the sequence stands when a token starts a new block, and when it does not.\<close>

lemma block_border:
  assumes inv: "as_inv E a" and ids: "block_ids a fulls tail"
    and tail: "tail_ok a (length (block_hashes a)) tail"
  shows "(as_len a + 1) mod as_block_size a = 1 \<longleftrightarrow> as_len a mod as_block_size a = 0"
    and "as_len a mod as_block_size a = 0 \<Longrightarrow>
      as_len a = length (unique_blocks a) * as_block_size a"
    and "as_len a mod as_block_size a \<noteq> 0 \<Longrightarrow> \<exists>u. tail = [PartialBlock u] \<and>
      as_len a + 1 \<le> Suc (length (block_hashes a)) * as_block_size a"
proof -
  let ?n = "as_block_size a" and ?k = "length (block_hashes a)"
  have n: "2 \<le> ?n" using inv by (simp add: as_inv_def)
  show "(as_len a + 1) mod ?n = 1 \<longleftrightarrow> as_len a mod ?n = 0"
    using n by (metis One_nat_def Suc_eq_plus1 diff_Suc_1 less_2_cases_iff mod_Suc mod_less mod_mod_trivial
        not_less numeral_2_eq_2 zero_neq_one)
  have uniq: "length (unique_blocks a) = ?k + length tail" using ids by (simp add: block_ids_def)
  from tail show "as_len a mod ?n = 0 \<Longrightarrow> as_len a = length (unique_blocks a) * ?n"
  proof (cases rule: tail_ok_cases)
    case none
    then show ?thesis using uniq by simp
  next
    case (partial u)
    assume "as_len a mod ?n = 0"
    then obtain q where q: "as_len a = q * ?n" by (metis mod_0_imp_dvd dvd_def mult.commute)
    then have "?k < q" "q \<le> Suc ?k" using partial n by (simp_all del: mult_Suc)
    then have "q = Suc ?k" by simp
    then show ?thesis using uniq partial q by simp
  qed
  from tail show "as_len a mod ?n \<noteq> 0 \<Longrightarrow> \<exists>u. tail = [PartialBlock u] \<and> as_len a + 1 \<le> Suc ?k * ?n"
  proof (cases rule: tail_ok_cases)
    case (partial u)
    assume "as_len a mod ?n \<noteq> 0"
    then have "as_len a \<noteq> Suc ?k * ?n" by (metis mod_mult_self2_is_0)
    then show ?thesis using partial by simp
  qed simp
qed

text \<open>
  The four things a push does to the signals: nothing inside a block; at a block border a new partial
  block, and before it the promotion of the partial block that the previous token completed.
\<close>

definition push_signals_ok :: "ActiveSequence \<Rightarrow> ActiveSequence \<Rightarrow> MoveBlock list option \<Rightarrow> bool" where
  "push_signals_ok a a' signals =
     (if as_len a mod as_block_size a \<noteq> 0 then signals = None \<and> unique_blocks a' = unique_blocks a
      else \<exists>v. last (unique_blocks a') = PartialBlock v \<and>
        (case (if unique_blocks a = [] then None else Some (last (unique_blocks a))) of
           Some (PartialBlock u) \<Rightarrow> \<exists>b h p plh. last_complete_block (as_tokens a') = Some b \<and>
             signals = Some [Promote u h p (b_block_hash b) plh
               (if emit_token_ids a then Some (b_tokens b) else None), Use [PartialBlock v] [] [] None None] \<and>
             unique_blocks a' = butlast (unique_blocks a) @ [FullBlock h, PartialBlock v] \<and>
             (enable_prefix_caching a \<longrightarrow> h = b_sequence_hash b \<and> plh = b_positional_lineage_hash b)
         | _ \<Rightarrow> signals = Some [Use [PartialBlock v] [] [] None None] \<and>
             unique_blocks a' = unique_blocks a @ [PartialBlock v]))"

text \<open>At a border: with no partial block, and with one to promote.\<close>

lemma start_block_plain:
  assumes inv: "as_inv E a" and s': "grown E a s' t" and ids: "block_ids a fulls []"
    and len: "as_len a = length (block_hashes a) * as_block_size a"
  shows "\<exists>signals a' d'. start_block R (appended a s') d = Some ((signals, a'), d') \<and> as_inv E a' \<and>
    as_tokens a' = s' \<and> generated_tokens a' = generated_tokens a + 1 \<and> push_signals_ok a a' (Some signals)"
proof -
  let ?n = "as_block_size a" and ?k = "length (block_hashes a)" and ?u = "PartialBlock (draw_uuid R d)"
  define a' where "a' = (appended a s')\<lparr>unique_blocks := unique_blocks a @ [?u]\<rparr>"
  have uniq: "unique_blocks a = map FullBlock fulls" and n: "2 \<le> ?n"
    using ids inv by (auto simp: block_ids_def as_inv_def)
  have "as_len a' = as_len a + 1" using s' by (simp add: a'_def appended_def as_len_def grown_def)
  then have tail': "tail_ok a' ?k [?u]" using len n by (simp add: tail_ok_def a'_def)
  have "block_ids a' fulls [?u]"
    using ids uniq grown_take [OF inv s'] by (simp add: block_ids_def a'_def)
  then have "as_inv E a'"
    using inv s' tail' grown_take [OF inv s'] by (auto simp: as_inv_def a'_def grown_def)
  moreover have "start_block R (appended a s') d = Some (([Use [?u] [] [] None None], a'), Suc d)"
    using uniq by (simp add: start_block_def unique_block_default_def a'_def last_map)
  moreover have "push_signals_ok a a' (Some [Use [?u] [] [] None None])"
    using uniq len by (simp add: push_signals_ok_def a'_def last_map)
  ultimately show ?thesis by (auto simp: a'_def appended_def)
qed

lemma start_block_promote:
  assumes inv: "as_inv E a" and s': "grown E a s' t" and ids: "block_ids a fulls [PartialBlock u]"
    and len: "as_len a = Suc (length (block_hashes a)) * as_block_size a"
  shows "\<exists>signals a' d'. start_block R (appended a s') d = Some ((signals, a'), d') \<and> as_inv E a' \<and>
    as_tokens a' = s' \<and> generated_tokens a' = generated_tokens a + 1 \<and> push_signals_ok a a' (Some signals)"
proof -
  let ?n = "as_block_size a" and ?k = "length (block_hashes a)"
  have n: "2 \<le> ?n" using inv by (simp add: as_inv_def)
  have "length (s_blocks s') = (Suc ?k * ?n + 1) div ?n"
    using s' len seq_inv_blocks(1) [of E s'] tbs_total_tokens_eq [of E s'] by (auto simp: grown_def)
  then have blocks: "length (s_blocks s') = Suc ?k" using n by (simp add: div_nat_eqI)
  obtain h p plh d1 b where b: "s_blocks s' = take ?k (s_blocks s') @ [b]"
    "enable_prefix_caching a \<longrightarrow> h = b_sequence_hash b \<and> plh = b_positional_lineage_hash b"
    and prom: "promote_last R u (appended a s') d = Some ((Promote u h p (b_block_hash b) plh
        (if emit_token_ids a then Some (b_tokens b) else None),
      (appended a s')\<lparr>block_hashes := block_hashes a @ [b_block_hash b], plhs := plhs a @ [plh],
        unique_blocks := map FullBlock (fulls @ [h])\<rparr>), d1)"
    using promote_last_ok [OF inv ids s' blocks] by metis
  define v where "v = PartialBlock (draw_uuid R d1)"
  define a' where "a' = (appended a s')\<lparr>block_hashes := block_hashes a @ [b_block_hash b],
    plhs := plhs a @ [plh], unique_blocks := map FullBlock (fulls @ [h]) @ [v]\<rparr>"
  have a': "block_hashes a' = block_hashes a @ [b_block_hash b]" "plhs a' = plhs a @ [plh]"
    "unique_blocks a' = map FullBlock (fulls @ [h]) @ [v]" "as_tokens a' = s'"
    "as_block_size a' = ?n" "as_len a' = Suc ?k * ?n + 1" "enable_prefix_caching a' = enable_prefix_caching a"
    using s' len by (simp_all add: a'_def appended_def as_len_def grown_def)
  have uniq: "unique_blocks a = map FullBlock fulls @ [PartialBlock u]" "length fulls = ?k"
    using ids by (auto simp: block_ids_def)
  let ?old = "take ?k (s_blocks (as_tokens a))"
  have maps: "map b_sequence_hash (s_blocks s') = map b_sequence_hash ?old @ [b_sequence_hash b]"
    "map b_block_hash (s_blocks s') = map b_block_hash ?old @ [b_block_hash b]"
    "map b_positional_lineage_hash (s_blocks s')
      = map b_positional_lineage_hash ?old @ [b_positional_lineage_hash b]"
    unfolding grown_take(1) [OF inv s'] by (subst b(1), simp)+
  have old: "map b_block_hash (take ?k (s_blocks (as_tokens a))) = block_hashes a"
    "enable_prefix_caching a \<longrightarrow> map b_positional_lineage_hash (take ?k (s_blocks (as_tokens a))) = plhs a"
    "enable_prefix_caching a \<longrightarrow> map b_sequence_hash (take ?k (s_blocks (as_tokens a))) = fulls"
    using inv ids by (auto simp: as_inv_def block_ids_def)
  have "tail_ok a' (Suc ?k) [v]" using n a' by (simp add: tail_ok_def v_def)
  moreover have "block_ids a' (fulls @ [h]) [v]"
    using uniq(2) old(3) maps b(2) blocks by (simp add: block_ids_def a')
  ultimately have "as_inv E a'"
    using inv s' maps old b(2) blocks unfolding as_inv_def grown_def
    by (intro conjI exI [of _ "fulls @ [h]"] exI [of _ "[v]"]) (simp_all add: a')
  moreover have "start_block R (appended a s') d = Some (([Promote u h p (b_block_hash b) plh
      (if emit_token_ids a then Some (b_tokens b) else None), Use [v] [] [] None None], a'), Suc d1)"
    using uniq prom by (simp add: start_block_def unique_block_default_def a'_def v_def)
  moreover have "last_complete_block s' = Some b"
    using b(1) blocks by (metis append_is_Nil_conv last_complete_block_def last_snoc list.discI)
  then have "push_signals_ok a a' (Some [Promote u h p (b_block_hash b) plh
      (if emit_token_ids a then Some (b_tokens b) else None), Use [v] [] [] None None])"
    using uniq len b(2) by (simp add: push_signals_ok_def a' v_def)
  ultimately show ?thesis using a'(4) by (auto simp: a'_def appended_def)
qed

lemma as_push_ok:
  assumes inv: "as_inv E a" and room: "fits (as_tokens a) (as_len a + 1)"
  shows "\<exists>signals a' d'. as_push E R a t d = Some ((signals, a'), d') \<and> as_inv E a' \<and>
    seq_tokens (as_tokens a') = seq_tokens (as_tokens a) @ [t] \<and>
    generated_tokens a' = generated_tokens a + 1 \<and> push_signals_ok a a' signals"
proof -
  let ?n = "as_block_size a" and ?k = "length (block_hashes a)"
  obtain r s' where app: "tbs_append E (as_tokens a) t = Some (Inr r, s')" and s': "grown E a s' t"
    using append_tokens_ok [OF inv room] by blast
  obtain fulls tail where ids: "block_ids a fulls tail" and tail: "tail_ok a ?k tail"
    using inv by (rule as_lenE)
  have n: "2 \<le> ?n" and len: "tbs_total_tokens s' = as_len a + 1" and toks: "seq_tokens s' = seq_tokens (as_tokens a) @ [t]"
    using inv s' by (simp_all add: as_inv_def grown_def)
  note border = block_border [OF inv ids tail]
  have app': "a\<lparr>as_tokens := s', generated_tokens := Suc (generated_tokens a)\<rparr> = appended a s'"
    by (simp add: appended_def)
  show ?thesis
  proof (cases "as_len a mod ?n = 0")
    case False
    then obtain u where u: "tail = [PartialBlock u]" "as_len a + 1 \<le> Suc ?k * ?n" using border(3) by blast
    then have "tail_ok (appended a s') ?k tail"
      using tail len by (simp add: tail_ok_def)
    then have "as_inv E (appended a s')"
      using appended_inv [OF inv s' ids] by blast
    moreover have "as_push E R a t d = Some ((None, appended a s'), d)"
      using app len False border(1) n by (simp add: as_push_def app')
    ultimately show ?thesis
      using toks False by (auto simp: push_signals_ok_def appended_def)
  next
    case True
    have push: "as_push E R a t d = do {
        ((signals, a2), d1) \<leftarrow> start_block R (appended a s') d;
        Some ((Some signals, a2), d1) }"
      using app len True border(1) n by (simp add: as_push_def app')
    have uniq: "as_len a = (?k + length tail) * ?n"
      using border(2) [OF True] ids by (simp add: block_ids_def)
    have "\<exists>signals a' d'. start_block R (appended a s') d = Some ((signals, a'), d') \<and> as_inv E a' \<and>
        as_tokens a' = s' \<and> generated_tokens a' = generated_tokens a + 1 \<and> push_signals_ok a a' (Some signals)"
      using tail
    proof (cases rule: tail_ok_cases)
      case none
      then show ?thesis using start_block_plain [OF inv s', of fulls] ids by blast
    next
      case (partial u)
      then show ?thesis using start_block_promote [OF inv s', of fulls u] ids uniq by simp
    qed
    then show ?thesis using push toks by fastforce
  qed
qed


section \<open>Allocation signals\<close>

text \<open>What \<open>process_use\<close> of the KV cache asserts of a signal.\<close>

fun move_ok :: "MoveBlock \<Rightarrow> bool" where
  "move_ok (Use blocks hashes ps token_ids parent) = (
     length ps = length (filter is_full blocks) \<and>
     (hashes = [] \<or> length hashes = length (filter is_full blocks)) \<and>
     (case token_ids of None \<Rightarrow> True | Some ids \<Rightarrow> length ids = length (filter is_full blocks)) \<and>
     (case parent of None \<Rightarrow> True | Some b \<Rightarrow> is_full b))"
| "move_ok _ = True"

lemma slice_run_Some [simp]: "a \<le> b \<Longrightarrow> b \<le> length xs \<Longrightarrow> slice_run xs a b = Some (take (b - a) (drop a xs))"
  by (simp add: slice_run_def)

lemma full_count_take:
  "length (filter is_full (take m (map FullBlock fulls @ tail)))
    = min m (length fulls) + length (filter is_full (take (m - length fulls) tail))"
proof -
  have "filter is_full (map FullBlock xs) = map FullBlock xs" for xs by (induction xs) auto
  then show ?thesis by (simp add: take_map)
qed

lemma full_count_slice:
  assumes "list_all (\<lambda>b. \<not> is_full b) tail" and "p \<le> q"
  shows "length (filter is_full (take (q - p) (drop p (map FullBlock fulls @ tail))))
    = min q (length fulls) - min p (length fulls)"
proof -
  let ?xs = "map FullBlock fulls @ tail"
  have none: "filter is_full (take m tail) = []" for m
    using assms(1) by (auto simp: filter_empty_conv list_all_iff dest: in_set_takeD)
  have "take q ?xs = take p ?xs @ take (q - p) (drop p ?xs)"
    using assms(2) by (metis le_add_diff_inverse take_add)
  then have "length (filter is_full (take q ?xs))
      = length (filter is_full (take p ?xs)) + length (filter is_full (take (q - p) (drop p ?xs)))"
    by (metis filter_append length_append)
  then show ?thesis unfolding full_count_take none by simp
qed

definition blocks_for :: "ActiveSequence \<Rightarrow> nat \<Rightarrow> nat" where
  "blocks_for a tokens = min (div_ceil tokens (as_block_size a)) (length (unique_blocks a))"

lemma prepare_allocation_ok:
  fixes c :: nat
  assumes inv: "as_inv E a"
  defines "p \<equiv> blocks_for a (num_allocated_tokens a)" and "q \<equiv> blocks_for a c"
  shows "\<exists>signal. prepare_allocation a c = Some signal \<and>
    (if q \<le> p then signal = None
     else \<exists>hs ps ids parent. signal = Some (Use (take (q - p) (drop p (unique_blocks a))) hs ps ids parent) \<and>
       move_ok (Use (take (q - p) (drop p (unique_blocks a))) hs ps ids parent))"
proof -
  let ?k = "length (block_hashes a)" and ?n = "as_block_size a"
  obtain fulls tail where ids: "block_ids a fulls tail" and tail: "tail_ok a ?k tail"
    using inv by (rule as_lenE)
  have k: "length fulls = ?k" "unique_blocks a = map FullBlock fulls @ tail" "length (plhs a) = ?k"
    "?k \<le> length (s_blocks (as_tokens a))" "0 < ?n"
    using ids inv by (auto simp: block_ids_def as_inv_def)
  have part: "list_all (\<lambda>b. \<not> is_full b) tail" "length tail \<le> 1"
    using tail by (auto elim!: tail_ok_cases)
  show ?thesis
  proof (cases "q \<le> p")
    case True
    then show ?thesis using k(5) by (simp add: prepare_allocation_def p_def q_def blocks_for_def)
  next
    case False
    have bounds: "p \<le> length (unique_blocks a)" "q \<le> length (unique_blocks a)" "p \<le> q"
      using False by (auto simp: p_def q_def blocks_for_def)
    have count: "length (filter is_full (take (q - p) (drop p (unique_blocks a)))) = min q ?k - min p ?k"
      using full_count_slice [OF part(1) bounds(3), of fulls] k by simp
    define hs where "hs = take (min q ?k - min p ?k) (drop (min p ?k) (block_hashes a))"
    define ps where "ps = take (min q ?k - min p ?k) (drop (min p ?k) (plhs a))"
    define tids where "tids = (if emit_token_ids a \<and> min p ?k < min q ?k
      then Some (map b_tokens (take (min q ?k - min p ?k) (drop (min p ?k) (s_blocks (as_tokens a))))) else None)"
    define parent where "parent = (if p = 0 then None else Some (unique_blocks a ! (p - 1)))"
    have mono: "min p ?k \<le> min q ?k" using bounds(3) by simp
    have parts: "slice_run (unique_blocks a) p q = Some (take (q - p) (drop p (unique_blocks a)))"
      "slice_run (block_hashes a) (min p ?k) (min q ?k) = Some hs"
      "slice_run (plhs a) (min p ?k) (min q ?k) = Some ps"
      "(if emit_token_ids a \<and> min p ?k < min q ?k
        then slice_run (s_blocks (as_tokens a)) (min p ?k) (min q ?k) \<bind> (\<lambda>bs. Some (Some (map b_tokens bs)))
        else Some None) = Some tids"
      "(if p = 0 then Some None else map_option Some (index_run (unique_blocks a) (p - 1))) = Some parent"
      using False bounds mono k(3,4)
      by (auto simp: hs_def ps_def tids_def parent_def index_run_def)
    have "prepare_allocation a c = Some (Some (Use (take (q - p) (drop p (unique_blocks a))) hs ps tids parent))"
      unfolding prepare_allocation_def Let_def blocks_for_def [symmetric] p_def [symmetric] q_def [symmetric]
      using False k(5) by (simp only: parts) simp
    note prep = this
    have "is_full (unique_blocks a ! (p - 1))" if "p \<noteq> 0"
    proof -
      have "p - 1 < length fulls" using that False bounds(2) k(2) part(2) by simp
      then show ?thesis by (simp add: k(2) nth_append)
    qed
    moreover have "length hs = min q ?k - min p ?k" "length ps = min q ?k - min p ?k"
      "case tids of None \<Rightarrow> True | Some ids \<Rightarrow> length ids = min q ?k - min p ?k"
      using k(3,4) by (simp_all add: hs_def ps_def tids_def)
    ultimately have "move_ok (Use (take (q - p) (drop p (unique_blocks a))) hs ps tids parent)"
      using count unfolding move_ok.simps parent_def by (simp only: count) simp
    then show ?thesis using False prep by auto
  qed
qed


section \<open>Releasing, generating and undoing\<close>

lemma free_signal_ok:
  assumes "as_inv E a"
  shows "free_signal_for_tokens a c = Some (map (\<lambda>b. Deref [b]) (rev (take (blocks_for a c) (unique_blocks a))))"
  using assms by (simp add: free_signal_for_tokens_def as_inv_def blocks_for_def)

lemma generate_ok:
  assumes inv: "as_inv E a" and room: "fits (as_tokens a) (as_len a + 1)"
    and more: "generated_tokens a < max_output_tokens a"
  shows "\<exists>pushed a' d'. as_push E R a (draw_u32 R d) (Suc d) = Some ((pushed, a'), d') \<and> as_inv E a' \<and>
    generated_tokens a' = generated_tokens a + 1 \<and>
    generate E R a d = Some (((case pushed of None \<Rightarrow> [] | Some ms \<Rightarrow> ms) @
      (if generated_tokens a' = max_output_tokens a'
       then map (\<lambda>b. Deref [b]) (rev (unique_blocks a')) else []), a'), d')"
proof -
  obtain pushed a' d' where p: "as_push E R a (draw_u32 R d) (Suc d) = Some ((pushed, a'), d')"
    and a': "as_inv E a'" "generated_tokens a' = generated_tokens a + 1"
    using as_push_ok [OF inv room] by blast
  have "take (blocks_for a' (as_len a')) (unique_blocks a') = unique_blocks a'"
    using as_inv_length [OF a'(1)] by (simp add: blocks_for_def)
  then show ?thesis
    using p a' more free_signal_ok [OF a'(1)] by (simp add: generate_def Let_def)
qed

lemma as_pop_ok:
  assumes inv: "as_inv E a" and part: "unique_blocks a \<noteq> []" "\<not> is_full (last (unique_blocks a))"
  shows "\<exists>a'. as_pop E a = Some a' \<and> as_inv E a' \<and>
    seq_tokens (as_tokens a') = butlast (seq_tokens (as_tokens a)) \<and>
    generated_tokens a' = generated_tokens a - 1 \<and> as_block_size a' = as_block_size a"
proof -
  let ?n = "as_block_size a" and ?k = "length (block_hashes a)"
  have seq: "seq_inv E (as_tokens a)" "s_block_size (as_tokens a) = ?n" "2 \<le> ?n" "0 < ?n"
    using inv by (auto simp: as_inv_def)
  obtain fulls tail where ids: "block_ids a fulls tail" and tail: "tail_ok a ?k tail"
    using inv by (rule as_lenE)
  obtain u where u: "tail = [PartialBlock u]" "?k * ?n < as_len a" "as_len a \<le> Suc ?k * ?n"
    using tail
  proof (cases rule: tail_ok_cases)
    case none
    then have "is_full (last (unique_blocks a))"
      using ids part(1) by (cases fulls rule: rev_cases) (auto simp: block_ids_def)
    then show ?thesis using part(2) by simp
  qed (rule that)
  have len: "as_len a = length (seq_tokens (as_tokens a))" using as_len_tokens [OF inv] .
  then have "seq_tokens (as_tokens a) \<noteq> []" using u(2) by auto
  then obtain x s' where s': "tbs_pop E (as_tokens a) = Some (x, s')" "seq_inv E s'"
    "seq_tokens s' = butlast (seq_tokens (as_tokens a))" "seq_shape s' = seq_shape (as_tokens a)"
    and app: "seq_tokens (as_tokens a) = seq_tokens s' @ [last (seq_tokens (as_tokens a))]"
    using tbs_pop_ok [OF seq(1)] by auto
  have total: "tbs_total_tokens s' = as_len a - 1" and bs: "s_block_size s' = ?n"
    using tbs_total_tokens_eq [OF s'(2)] s'(3,4) len seq(2) by (simp_all add: seq_shape_def)
  have pre: "s_blocks s' = take (length (s_blocks s')) (s_blocks (as_tokens a))"
    using seq_blocks_prefix [OF s'(2) seq(1) app] s'(4) by simp
  have "?k * ?n div ?n \<le> (as_len a - 1) div ?n" using u(2) by (intro div_le_mono) simp
  then have kb: "?k \<le> length (s_blocks s')"
    using seq_inv_blocks(1) [OF s'(2)] tbs_total_tokens_eq [OF s'(2)] total bs seq(4) by simp
  have take: "take ?k (s_blocks s') = take ?k (s_blocks (as_tokens a))" using take_prefix [OF pre kb] .
  define a1 where "a1 = a\<lparr>as_tokens := s', generated_tokens := generated_tokens a - 1\<rparr>"
  define a' where "a' = (if ?n dvd as_len a - 1 then a1\<lparr>unique_blocks := map FullBlock fulls\<rparr> else a1)"
  have pop: "as_pop E a = Some a'"
    using s'(1) total ids u(1) by (simp add: as_pop_def a'_def a1_def block_ids_def)
  have a1: "as_len a1 = as_len a - 1" using total by (simp add: as_len_def a1_def)
  have "as_inv E a'"
  proof (cases "?n dvd as_len a - 1")
    case True
    then obtain q where q: "as_len a - 1 = q * ?n" by (metis dvd_def mult.commute)
    have "?k * ?n \<le> q * ?n" "q * ?n < Suc ?k * ?n" using q u(2,3) by linarith+
    then have "q = ?k" using seq(4) by (simp del: mult_Suc)
    then have "tail_ok a' ?k []" using True q a1 by (simp add: tail_ok_def a'_def a1_def as_len_def)
    moreover have "block_ids a' fulls []" using True ids take by (simp add: block_ids_def a'_def a1_def)
    ultimately show ?thesis
      using True inv s'(2) bs kb take unfolding as_inv_def
      by (intro conjI exI [of _ fulls] exI [of _ "[]"]) (simp_all add: a'_def a1_def)
  next
    case False
    then have "as_len a - 1 \<noteq> ?k * ?n" by auto
    then have "?k * ?n < as_len a - 1" "as_len a - 1 \<le> Suc ?k * ?n" using u(2,3) by linarith+
    then have "tail_ok a' ?k tail" using False u(1) a1 by (simp add: tail_ok_def a'_def) (simp add: a1_def)
    moreover have "block_ids a' fulls tail" using False ids take by (simp add: block_ids_def a'_def a1_def)
    ultimately show ?thesis
      using False inv s'(2) bs kb take unfolding as_inv_def
      by (intro conjI exI [of _ fulls] exI [of _ tail]) (simp_all add: a'_def a1_def)
  qed
  then show ?thesis using pop s'(3) by (auto simp: a'_def a1_def)
qed


section \<open>Reachable sequences\<close>

text \<open>
  The sequences a scheduler can come to hold: built by \<open>new\<close>, grown by \<open>push\<close> and \<open>generate\<close>,
  allocated and preempted, and rolled back by \<open>pop\<close> while the last token is in a partial block, which
  is the only use \<open>pop\<close> is meant for.
\<close>

inductive as_reach :: "build_env \<Rightarrow> random_source \<Rightarrow> ActiveSequence \<Rightarrow> bool" for E R where
  reach_new: "as_new E R ts max_out bs caching emit d = Some (a, d') \<Longrightarrow>
    (case bs of None \<Rightarrow> True | Some n \<Rightarrow> n < 4294967296) \<Longrightarrow> as_reach E R a"
| reach_push: "as_reach E R a \<Longrightarrow> as_push E R a t d = Some ((signals, a'), d') \<Longrightarrow> as_reach E R a'"
| reach_generate: "as_reach E R a \<Longrightarrow> generate E R a d = Some ((signals', a'), d') \<Longrightarrow> as_reach E R a'"
| reach_allocate: "as_reach E R a \<Longrightarrow> allocate_blocks_for_chunk a c = Some (signal, a') \<Longrightarrow> as_reach E R a'"
| reach_commit: "as_reach E R a \<Longrightarrow> as_reach E R (commit_allocation a c)"
| reach_reset: "as_reach E R a \<Longrightarrow> reset_with_signal a = Some (signals', a') \<Longrightarrow> as_reach E R a'"
| reach_pop: "as_reach E R a \<Longrightarrow> unique_blocks a \<noteq> [] \<Longrightarrow> \<not> is_full (last (unique_blocks a)) \<Longrightarrow>
    as_pop E a = Some a' \<Longrightarrow> as_reach E R a'"

lemma as_new_inv:
  assumes "as_new E R ts max_out bs caching emit d = Some (a, d')"
    and "case bs of None \<Rightarrow> True | Some n \<Rightarrow> n < 4294967296"
  shows "as_inv E a"
proof -
  define n where "n = (case bs of None \<Rightarrow> 64 | Some n \<Rightarrow> n)"
  have bs: "as_new E R ts max_out bs caching emit d = as_new E R ts max_out (Some n) caching emit d"
    by (simp add: as_new_def n_def)
  then obtain s where n: "2 \<le> n" "n < 4294967296" and s: "tbs_new E ts (word_of_nat n) (Some 1337) = Some s"
    using assms by (auto simp: as_new_def n_def into_sequence_def run_simps split: option.splits)
  have "unat (word_of_nat n :: u32) = n" using n by (simp add: unat_of_nat)
  then have "length ts div n \<le> 16777216"
    using s tbs_new_panics_iff [of E ts "word_of_nat n" "Some 1337"] by auto
  then show ?thesis using as_new_ok [OF n, of ts E R max_out caching emit d] assms(1) bs by auto
qed

lemma as_push_inv:
  assumes "as_inv E a" and "as_push E R a t d = Some ((signals, a'), d')"
  shows "as_inv E a'"
proof (cases "fits (as_tokens a) (as_len a + 1)")
  case True
  then show ?thesis using as_push_ok [OF assms(1), of R t d] assms(2) by auto
next
  case False
  then have "tbs_append E (as_tokens a) t = None"
    using assms(1) as_len_tokens [OF assms(1)] by (intro tbs_append_panics) (simp_all add: as_inv_def)
  then show ?thesis using assms(2) by (simp add: as_push_def)
qed

lemma as_inv_commit [simp]: "as_inv E (a\<lparr>num_allocated_tokens := c\<rparr>) = as_inv E a"
  by (simp add: as_inv_def block_ids_def tail_ok_def as_len_def cong: list.case_cong UniqueBlock.case_cong)

lemma as_reach_inv: "as_reach E R a \<Longrightarrow> as_inv E a"
proof (induction rule: as_reach.induct)
  case (reach_generate a d signals' a' d')
  then obtain pushed d0 where "as_push E R a (draw_u32 R d) (Suc d) = Some ((pushed, a'), d0)"
    by (auto simp: generate_def run_simps Let_def split: if_splits)
  then show ?case using reach_generate.IH as_push_inv by blast
next
  case (reach_pop a a')
  then show ?case using as_pop_ok [of E a] by auto
qed (auto intro: as_new_inv as_push_inv simp: allocate_blocks_for_chunk_def reset_with_signal_def
    commit_allocation_def run_simps)


section \<open>Properties\<close>

text \<open>
  Whatever the scheduler does with a sequence, its three caches agree
  with its tokens: there is one block identity for every started block, the hashes are those of the
  first full blocks in order, with prefix caching the identities and lineage hashes are the real
  ones, and at most the last identity is partial.
\<close>

lemma active_sequence_caches:
  assumes "as_reach E R a"
  defines "k \<equiv> length (block_hashes a)" and "blocks \<equiv> s_blocks (as_tokens a)"
  shows "length (unique_blocks a) = div_ceil (as_len a) (as_block_size a) \<and>
    k \<le> length blocks \<and> length (unique_blocks a) \<le> Suc k \<and> length (plhs a) = k \<and>
    block_hashes a = map b_block_hash (take k blocks) \<and>
    list_all is_full (take k (unique_blocks a)) \<and> list_all (\<lambda>b. \<not> is_full b) (drop k (unique_blocks a)) \<and>
    (enable_prefix_caching a \<longrightarrow> plhs a = map b_positional_lineage_hash (take k blocks) \<and>
      take k (unique_blocks a) = map (\<lambda>b. FullBlock (b_sequence_hash b)) (take k blocks))"
proof -
  have inv: "as_inv E a" using assms(1) by (rule as_reach_inv)
  obtain fulls tail where ids: "block_ids a fulls tail" and tail: "tail_ok a k tail"
    using inv unfolding k_def by (rule as_lenE)
  have "list_all (\<lambda>b. \<not> is_full b) tail" "length tail \<le> 1" using tail by (auto elim!: tail_ok_cases)
  moreover have "take k (unique_blocks a) = map FullBlock fulls" "drop k (unique_blocks a) = tail"
    using ids by (simp_all add: block_ids_def k_def)
  ultimately show ?thesis
    using inv ids as_inv_length [OF inv] by (auto simp: as_inv_def block_ids_def k_def blocks_def list_all_iff)
qed

text \<open>
  C23 (active_push_signals). Pushing a token never panics while the sequence has room, appends it, and
  signals exactly the blocks whose state changes: nothing inside a block; at a block border a new
  partial block, after the promotion of the partial block that the previous token completed.
\<close>

theorem active_push_signals:
  assumes "as_reach E R a" and "(as_len a + 1) div as_block_size a \<le> 16777216"
  shows "\<exists>signals a' d'. as_push E R a t d = Some ((signals, a'), d') \<and>
    seq_tokens (as_tokens a') = seq_tokens (as_tokens a) @ [t] \<and>
    generated_tokens a' = generated_tokens a + 1 \<and> push_signals_ok a a' signals"
proof -
  have inv: "as_inv E a" using assms(1) by (rule as_reach_inv)
  then have "fits (as_tokens a) (as_len a + 1)" using assms(2) by (simp add: fits_def as_inv_def)
  then show ?thesis using as_push_ok [OF inv] by blast
qed

text \<open>
  An allocation signal never panics, covers exactly the blocks
  between what is allocated and what \<open>cumulative_tokens\<close> needs, is left out when there are none, and
  always meets what \<open>process_use\<close> of the KV cache asserts: one lineage hash and one block hash per
  full block, token ids for all of them or none, and no partial parent.
\<close>

lemma prepare_allocation_contract:
  assumes "as_reach E R a"
  shows "\<exists>signal. prepare_allocation a c = Some signal \<and>
    (if blocks_for a c \<le> blocks_for a (num_allocated_tokens a) then signal = None
     else \<exists>hs ps ids parent.
       signal = Some (Use (take (blocks_for a c - blocks_for a (num_allocated_tokens a))
         (drop (blocks_for a (num_allocated_tokens a)) (unique_blocks a))) hs ps ids parent) \<and>
       move_ok (the signal))"
  using prepare_allocation_ok [OF as_reach_inv [OF assms], of c] by fastforce

text \<open>
  \<open>generate\<close> returns whenever the output limit is not reached and the
  sequence has room, draws its token from the random source, and with the last token releases every
  block of the sequence, the newest first.
\<close>

lemma generate_releases:
  assumes "as_reach E R a" and "(as_len a + 1) div as_block_size a \<le> 16777216"
    and "generated_tokens a < max_output_tokens a"
  shows "\<exists>pushed a' d'. as_push E R a (draw_u32 R d) (Suc d) = Some ((pushed, a'), d') \<and>
    generate E R a d = Some (((case pushed of None \<Rightarrow> [] | Some ms \<Rightarrow> ms) @
      (if generated_tokens a' = max_output_tokens a'
       then map (\<lambda>b. Deref [b]) (rev (unique_blocks a')) else []), a'), d')"
proof -
  have inv: "as_inv E a" using assms(1) by (rule as_reach_inv)
  then have "fits (as_tokens a) (as_len a + 1)" using assms(2) by (simp add: fits_def as_inv_def)
  then show ?thesis using generate_ok [OF inv _ assms(3)] by blast
qed

text \<open>
  A token that was just pushed can be undone: \<open>pop\<close> gives back the tokens and the
  counter of before the push and a sequence whose caches agree with its tokens.
\<close>

lemma push_then_pop:
  assumes "as_reach E R a" and "as_push E R a t d = Some ((signals, a1), d1)"
  shows "\<exists>a'. as_pop E a1 = Some a' \<and> as_inv E a' \<and>
    seq_tokens (as_tokens a') = seq_tokens (as_tokens a) \<and> generated_tokens a' = generated_tokens a"
proof -
  have inv: "as_inv E a" using assms(1) by (rule as_reach_inv)
  have fits: "fits (as_tokens a) (as_len a + 1)"
  proof (rule ccontr)
    assume "\<not> ?thesis"
    then have "tbs_append E (as_tokens a) t = None"
      using inv as_len_tokens [OF inv] by (intro tbs_append_panics) (simp_all add: as_inv_def)
    then show False using assms(2) by (simp add: as_push_def)
  qed
  have a1: "as_inv E a1" "seq_tokens (as_tokens a1) = seq_tokens (as_tokens a) @ [t]"
    "generated_tokens a1 = generated_tokens a + 1" "push_signals_ok a a1 signals"
    using as_push_ok [OF inv fits, of R t d] assms(2) by auto
  have "unique_blocks a1 \<noteq> [] \<and> \<not> is_full (last (unique_blocks a1))"
  proof (cases "as_len a mod as_block_size a = 0")
    case True
    then obtain v where "last (unique_blocks a1) = PartialBlock v"
      using a1(4) unfolding push_signals_ok_def by (simp only: if_False simp_thms) blast
    moreover have "\<not> div_ceil (as_len a1) (as_block_size a1) \<le> 0"
      using a1(1,2) as_len_tokens [OF a1(1)] by (subst div_ceil_le_iff) (auto simp: as_inv_def)
    then have "unique_blocks a1 \<noteq> []" using as_inv_length [OF a1(1)] by auto
    ultimately show ?thesis by simp
  next
    case False
    obtain fulls tail where ids: "block_ids a fulls tail" and tail: "tail_ok a (length (block_hashes a)) tail"
      using inv by (rule as_lenE)
    then show ?thesis
      using block_border(3) [OF inv ids tail False] a1(4) False by (auto simp: push_signals_ok_def block_ids_def)
  qed
  then show ?thesis using as_pop_ok [OF a1(1)] a1(2,3) by auto
qed

section \<open>Witnesses\<close>

definition demo_random :: random_source where
  "demo_random = \<lparr>draw_u64 = (\<lambda>n. word_of_nat (17 * n + 3)), draw_u32 = (\<lambda>n. word_of_nat n),
     draw_uuid = (\<lambda>n. word_of_nat (n + 1))\<rparr>"

text \<open>A reachable sequence of five tokens in blocks of two, with one token left to generate.\<close>

lemma demo_sequence:
  obtains a d' where "as_reach demo_env demo_random a"
    "as_new demo_env demo_random [1, 2, 3, 4, 5] 1 (Some 2) True False 0 = Some (a, d')"
    "as_len a = 5" "as_block_size a = 2" "generated_tokens a = 0" "max_output_tokens a = 1"
    "seq_tokens (as_tokens a) = [1, 2, 3, 4, 5]" "num_allocated_tokens a = 0"
    "length (unique_blocks a) = 3"
proof -
  obtain a d' where a: "as_new demo_env demo_random [1, 2, 3, 4, 5] 1 (Some 2) True False 0 = Some (a, d')"
    "as_inv demo_env a" "seq_tokens (as_tokens a) = [1, 2, 3, 4, 5]" "as_block_size a = 2"
    "generated_tokens a = 0" "max_output_tokens a = 1" "num_allocated_tokens a = 0"
    using as_new_ok [of 2 "[1, 2, 3, 4, 5]" demo_env demo_random 1 True False 0] by auto
  have "as_len a = 5" using as_len_tokens [OF a(2)] a(3) by simp
  moreover have "div_ceil 5 2 = 3" by (simp add: div_ceil_def)
  ultimately show ?thesis
    using that a as_reach.reach_new [OF a(1)] as_inv_length [OF a(2)] by simp
qed

theorem active_push_signals_witness:
  "\<exists>a signals a' d'. as_reach demo_env demo_random a \<and>
    as_push demo_env demo_random a 6 7 = Some ((signals, a'), d') \<and> push_signals_ok a a' signals"
proof (rule demo_sequence)
  fix a d'
  assume a: "as_reach demo_env demo_random a" "as_len a = 5" "as_block_size a = 2"
  have "(as_len a + 1) div as_block_size a \<le> 16777216" using a by simp
  then show ?thesis using a(1) active_push_signals [OF a(1), of 6 7] by blast
qed

end
