(* ===== verification/HashTables.thy ===== *)
theory HashTables
  imports Prelude "HOL-Library.AList" begin

text \<open>
  Hash tables and clock-stamped pools. The \<open>HashMap\<close> and \<open>FxHashMap\<close> values of the mocker are
  association lists with distinct keys, so that \<open>len\<close> and iteration compute; the order of the list
  stands for the unspecified iteration order. Both caches of the mocker keep, in such a table, a tick
  of a clock with every entry and throw out the entry with the smallest tick: the interface
  \<open>stamped_pool\<close> states what their clients rely on, and its lemmas show that the ticks never tie, so
  that the victim does not depend on the iteration order.
\<close>

section \<open>Hash tables\<close>

type_synonym ('k, 'v) hmap = "('k \<times> 'v) list"

definition hm_get :: "('k, 'v) hmap \<Rightarrow> 'k \<Rightarrow> 'v option" where
  "hm_get m k = map_of m k"

definition hm_contains :: "('k, 'v) hmap \<Rightarrow> 'k \<Rightarrow> bool" where
  "hm_contains m k = (map_of m k \<noteq> None)"

definition hm_insert :: "'k \<Rightarrow> 'v \<Rightarrow> ('k, 'v) hmap \<Rightarrow> ('k, 'v) hmap" where
  "hm_insert k v m = AList.update k v m"

definition hm_remove :: "'k \<Rightarrow> ('k, 'v) hmap \<Rightarrow> ('k, 'v) hmap" where
  "hm_remove k m = AList.delete k m"

definition hm_len :: "('k, 'v) hmap \<Rightarrow> nat" where
  "hm_len m = length m"

abbreviation hm_keys :: "('k, 'v) hmap \<Rightarrow> 'k set" where
  "hm_keys m \<equiv> fst ` set m"

definition hm_wf :: "('k, 'v) hmap \<Rightarrow> bool" where
  "hm_wf m = distinct (map fst m)"

text \<open>\<open>Iterator::min_by_key\<close>: the first of the elements with the least key.\<close>

fun min_by_key :: "('a \<Rightarrow> nat) \<Rightarrow> 'a list \<Rightarrow> 'a option" where
  "min_by_key f [] = None"
| "min_by_key f (x # xs) =
     (case min_by_key f xs of None \<Rightarrow> Some x | Some y \<Rightarrow> Some (if f x \<le> f y then x else y))"

lemma hm_get_insert [simp]: "hm_get (hm_insert k v m) = (hm_get m)(k \<mapsto> v)"
  by (simp add: hm_get_def hm_insert_def update_conv' fun_eq_iff)

lemma hm_get_remove [simp]: "hm_get (hm_remove k m) = (hm_get m)(k := None)"
  by (simp add: hm_get_def hm_remove_def delete_conv' fun_eq_iff)

lemma hm_get_Nil [simp]: "hm_get [] k = None"
  by (simp add: hm_get_def)

lemma hm_contains_get: "hm_contains m k = (hm_get m k \<noteq> None)"
  by (simp add: hm_contains_def hm_get_def)

lemma hm_contains_keys: "hm_contains m k = (k \<in> hm_keys m)"
  by (simp add: hm_contains_def map_of_eq_None_iff)

lemma hm_get_keys: "(hm_get m k = None) = (k \<notin> hm_keys m)"
  by (simp add: hm_get_def map_of_eq_None_iff)

lemma hm_keys_insert [simp]: "hm_keys (hm_insert k v m) = insert k (hm_keys m)"
  using dom_update [of k v m] by (simp add: hm_insert_def)

lemma hm_keys_remove [simp]: "hm_keys (hm_remove k m) = hm_keys m - {k}"
  by (metis delete_keys hm_remove_def set_map set_removeAll)

lemma hm_wf_Nil [simp]: "hm_wf []"
  by (simp add: hm_wf_def)

lemma hm_wf_insert [simp]: "hm_wf m \<Longrightarrow> hm_wf (hm_insert k v m)"
  by (simp add: hm_wf_def hm_insert_def distinct_update)

lemma hm_wf_remove [simp]: "hm_wf m \<Longrightarrow> hm_wf (hm_remove k m)"
  by (simp add: hm_wf_def hm_remove_def distinct_delete)

lemma hm_nonempty:
  assumes "m \<noteq> []"
  obtains k x where "hm_get m k = Some x"
proof -
  obtain k x m' where "m = (k, x) # m'" using assms by (metis neq_Nil_conv surj_pair)
  then show thesis using that [of k x] by (simp add: hm_get_def)
qed

lemma hm_len_card: "hm_wf m \<Longrightarrow> hm_len m = card (hm_keys m)"
  by (metis distinct_card hm_len_def hm_wf_def length_map set_map)

lemma hm_len_insert: "hm_wf m \<Longrightarrow> hm_len (hm_insert k v m) = (if hm_contains m k then hm_len m else Suc (hm_len m))"
  by (simp add: hm_len_card hm_contains_keys card_insert_if)

lemma hm_len_remove: "hm_wf m \<Longrightarrow> hm_len (hm_remove k m) = (if hm_contains m k then hm_len m - 1 else hm_len m)"
  by (simp add: hm_len_card hm_contains_keys)

lemma hm_len_0 [simp]: "(hm_len m = 0) = (m = [])"
  by (simp add: hm_len_def)

lemma hm_in_set: "hm_wf m \<Longrightarrow> ((k, v) \<in> set m) = (hm_get m k = Some v)"
  by (auto simp: hm_wf_def hm_get_def)

lemma min_by_key_None [simp]: "(min_by_key f xs = None) = (xs = [])"
  by (cases xs) (auto split: option.splits)

lemma min_by_key_Some: "min_by_key f xs = Some x \<Longrightarrow> x \<in> set xs \<and> (\<forall>y \<in> set xs. f x \<le> f y)"
  by (induction xs arbitrary: x) (auto split: option.splits if_splits)

section \<open>Sums over a table\<close>

definition hm_sum :: "('v \<Rightarrow> nat) \<Rightarrow> ('k, 'v) hmap \<Rightarrow> nat" where
  "hm_sum f m = sum_list (map (\<lambda>(k, v). f v) m)"

lemma hm_sum_Nil [simp]: "hm_sum f [] = 0"
  by (simp add: hm_sum_def)

lemma hm_sum_Cons [simp]: "hm_sum f ((k, v) # m) = f v + hm_sum f m"
  by (simp add: hm_sum_def)

lemma hm_sum_new: "hm_get m k = None \<Longrightarrow> hm_sum f (hm_insert k y m) = hm_sum f m + f y"
  by (induction m) (auto simp: hm_get_def hm_insert_def split: if_splits)

lemma hm_sum_update: "hm_get m k = Some x \<Longrightarrow> hm_sum f (hm_insert k y m) + f x = hm_sum f m + f y"
  by (induction m) (auto simp: hm_get_def hm_insert_def split: if_splits)

lemma hm_remove_absent: "hm_get m k = None \<Longrightarrow> hm_remove k m = m"
  by (simp add: hm_get_def hm_remove_def map_of_eq_None_iff delete_id)

lemma hm_sum_remove: "hm_wf m \<Longrightarrow> hm_get m k = Some x \<Longrightarrow> hm_sum f (hm_remove k m) + f x = hm_sum f m"
proof (induction m)
  case (Cons e m)
  obtain k' v where e: "e = (k', v)" by fastforce
  show ?case
  proof (cases "k' = k")
    case True
    then have "hm_get m k = None" using Cons.prems(1) e by (auto simp: hm_wf_def hm_get_def map_of_eq_None_iff)
    then show ?thesis using hm_remove_absent [of m k] Cons.prems e True by (auto simp: hm_remove_def hm_get_def)
  next
    case False
    then show ?thesis using Cons e by (auto simp: hm_remove_def hm_get_def hm_wf_def)
  qed
qed (simp add: hm_get_def)

lemma hm_sum_ge: "hm_get m k = Some x \<Longrightarrow> f x \<le> hm_sum f m"
  by (induction m) (auto simp: hm_get_def split: if_splits)

lemma hm_sum_mono: "(\<And>x. f x \<le> g x) \<Longrightarrow> hm_sum f m \<le> hm_sum g m"
proof (induction m)
  case (Cons e m)
  then show ?case by (cases e) (auto intro!: add_mono)
qed simp

lemma hm_sum_less: "hm_get m k = Some x \<Longrightarrow> f x < g x \<Longrightarrow> (\<And>x. f x \<le> g x) \<Longrightarrow> hm_sum f m < hm_sum g m"
proof (induction m)
  case (Cons e m)
  obtain k' v where e: "e = (k', v)" by fastforce
  show ?case
  proof (cases "k' = k")
    case True
    then show ?thesis using Cons.prems e hm_sum_mono [of f g m] by (auto simp: hm_get_def intro: add_less_le_mono)
  next
    case False
    then show ?thesis using Cons e by (auto simp: hm_get_def intro: add_le_less_mono)
  qed
qed (simp add: hm_get_def)

text \<open>Comparing the sums of two tables key by key.\<close>

lemma hm_sum_keys: "hm_wf m \<Longrightarrow> hm_sum f m = (\<Sum>k \<in> hm_keys m. f (the (hm_get m k)))"
proof (induction m)
  case (Cons e m)
  obtain k v where e: "e = (k, v)" by (rule prod.exhaust)
  have "hm_wf m" and k: "k \<notin> hm_keys m" using Cons.prems e by (auto simp: hm_wf_def)
  have "(\<Sum>j \<in> hm_keys m. f (the (hm_get (e # m) j))) = (\<Sum>j \<in> hm_keys m. f (the (hm_get m j)))"
    using k e by (intro sum.cong) (auto simp: hm_get_def)
  then show ?case using Cons.IH [OF \<open>hm_wf m\<close>] k e by (simp add: hm_get_def)
qed simp

lemma hm_sum_le:
  assumes "hm_wf m" "hm_wf m'" "\<And>k x'. hm_get m' k = Some x' \<Longrightarrow> \<exists>x. hm_get m k = Some x \<and> g x' \<le> f x"
  shows "hm_sum g m' \<le> hm_sum f m"
proof -
  have step: "k \<in> hm_keys m \<and> g (the (hm_get m' k)) \<le> f (the (hm_get m k))" if key: "k \<in> hm_keys m'" for k
  proof -
    obtain x' where x': "hm_get m' k = Some x'" using key hm_get_keys [of m' k] by blast
    obtain x where "hm_get m k = Some x" "g x' \<le> f x" using assms(3) [OF x'] by blast
    then show ?thesis using x' hm_get_keys [of m k] by auto
  qed
  then have sub: "hm_keys m' \<subseteq> hm_keys m" by blast
  have "(\<Sum>k \<in> hm_keys m'. g (the (hm_get m' k))) \<le> (\<Sum>k \<in> hm_keys m'. f (the (hm_get m k)))" using step by (intro sum_mono) blast
  also have "\<dots> \<le> (\<Sum>k \<in> hm_keys m. f (the (hm_get m k)))" using sub by (intro sum_mono2) simp_all
  finally show ?thesis by (simp add: hm_sum_keys assms(1,2))
qed

lemma hm_sum_0: "hm_wf m \<Longrightarrow> hm_sum f m = 0 \<longleftrightarrow> (\<forall>k x. hm_get m k = Some x \<longrightarrow> f x = 0)"
  unfolding hm_in_set [symmetric] by (auto simp: hm_sum_def)

lemma hm_remove_insert: "hm_remove u (hm_insert u x m) = hm_remove u m"
  unfolding hm_remove_def hm_insert_def by (induction m) auto

section \<open>Clock-stamped pools\<close>

text \<open>
  A table of entries stamped with distinct ticks, none of them ahead of the clock. The stamp of an
  entry is the first component of its value.
\<close>

definition hm_tick :: "('k, nat \<times> 'v) hmap \<Rightarrow> 'k \<Rightarrow> nat option" where
  "hm_tick m k = map_option fst (hm_get m k)"

definition stamped_wf :: "nat \<Rightarrow> ('k, nat \<times> 'v) hmap \<Rightarrow> bool" where
  "stamped_wf clock m = (hm_wf m \<and>
     (\<forall>k k' t. hm_tick m k = Some t \<longrightarrow> hm_tick m k' = Some t \<longrightarrow> k = k') \<and>
     (\<forall>k t. hm_tick m k = Some t \<longrightarrow> t \<le> clock))"

lemma hm_tick_dom: "dom (hm_tick m) = hm_keys m"
  by (auto simp: hm_tick_def dom_def hm_get_keys)

lemma hm_tick_insert [simp]: "hm_tick (hm_insert k (t, v) m) = (hm_tick m)(k \<mapsto> t)"
  by (simp add: hm_tick_def fun_eq_iff)

lemma hm_tick_remove [simp]: "hm_tick (hm_remove k m) = (hm_tick m)(k := None)"
  by (simp add: hm_tick_def fun_eq_iff)

lemma stamped_wf_hm [simp]: "stamped_wf c m \<Longrightarrow> hm_wf m"
  by (simp add: stamped_wf_def)

lemma stamped_wf_empty [simp]: "stamped_wf c []"
  by (simp add: stamped_wf_def hm_tick_def)

lemma stamped_wf_remove [simp]: "stamped_wf c m \<Longrightarrow> stamped_wf c (hm_remove k m)"
  by (auto simp: stamped_wf_def split: if_splits)

lemma stamped_wf_insert: "stamped_wf c m \<Longrightarrow> stamped_wf (Suc c) (hm_insert k (Suc c, v) m)"
  by (fastforce simp: stamped_wf_def split: if_splits)

text \<open>The oldest key of a stamped table, as both caches compute it.\<close>

definition oldest_key :: "('k, nat \<times> 'v) hmap \<Rightarrow> 'k option" where
  "oldest_key m = map_option fst (min_by_key (fst \<circ> snd) m)"

lemma oldest_key_None: "(oldest_key m = None) = (m = [])"
  by (simp add: oldest_key_def)

lemma oldest_key_Some:
  assumes wf: "stamped_wf c m" and k: "oldest_key m = Some k"
  shows "\<exists>t. hm_tick m k = Some t \<and> (\<forall>k' t'. hm_tick m k' = Some t' \<longrightarrow> k' \<noteq> k \<longrightarrow> t < t')"
proof -
  obtain t v where min: "min_by_key (fst \<circ> snd) m = Some (k, t, v)"
    using k by (auto simp: oldest_key_def)
  have least: "t \<le> t'" if tick: "hm_tick m k' = Some t'" for k' t'
  proof -
    obtain v' where "(k', t', v') \<in> set m" using tick wf by (auto simp: hm_tick_def hm_in_set)
    then show ?thesis using min_by_key_Some [OF min] by force
  qed
  have "hm_tick m k = Some t"
    using min_by_key_Some [OF min] wf by (auto simp: hm_tick_def hm_in_set)
  then show ?thesis
    using least wf by (metis le_neq_implies_less stamped_wf_def)
qed

text \<open>The queue a table stands for: its keys, oldest first.\<close>

definition queued :: "('k \<Rightarrow> nat option) \<Rightarrow> 'k list \<Rightarrow> bool" where
  "queued tick ks = (distinct ks \<and> set ks = dom tick \<and>
     sorted_wrt (\<lambda>k k'. the (tick k) < the (tick k')) ks)"

text \<open>
  The interface of a clock-stamped pool: adding an entry stamps it later than every entry present,
  and the oldest entry is the one with the least stamp.
\<close>

locale stamped_pool =
  fixes wf :: "'s \<Rightarrow> bool"
    and tick :: "'s \<Rightarrow> 'k \<Rightarrow> nat option"
    and add :: "'s \<Rightarrow> 'k \<Rightarrow> 'v \<Rightarrow> 's"
    and del :: "'s \<Rightarrow> 'k \<Rightarrow> 's"
    and oldest :: "'s \<Rightarrow> 'k option"
  assumes add_wf: "wf s \<Longrightarrow> wf (add s k v)"
    and del_wf: "wf s \<Longrightarrow> wf (del s k)"
    and tick_add: "wf s \<Longrightarrow> \<exists>t. tick (add s k v) = (tick s)(k \<mapsto> t) \<and> (\<forall>k' t'. tick s k' = Some t' \<longrightarrow> t' < t)"
    and tick_del: "wf s \<Longrightarrow> tick (del s k) = (tick s)(k := None)"
    and oldest_None: "wf s \<Longrightarrow> (oldest s = None) = (dom (tick s) = {})"
    and oldest_Some: "wf s \<Longrightarrow> oldest s = Some k \<Longrightarrow>
      \<exists>t. tick s k = Some t \<and> (\<forall>k' t'. tick s k' = Some t' \<longrightarrow> k' \<noteq> k \<longrightarrow> t < t')"
begin

lemma queued_add:
  assumes wf: "wf s" and ks: "queued (tick s) ks"
  shows "queued (tick (add s k v)) (removeAll k ks @ [k])"
proof -
  have sorted: "sorted_wrt (\<lambda>x y. the (tick s x) < the (tick s y)) (removeAll k ks)"
    using ks by (auto simp: queued_def removeAll_filter_not_eq intro: sorted_wrt_filter)
  obtain t where t: "tick (add s k v) = (tick s)(k \<mapsto> t)" "\<And>k' t'. tick s k' = Some t' \<Longrightarrow> t' < t"
    using tick_add [OF wf] by blast
  have "sorted_wrt (\<lambda>x y. the (tick (add s k v) x) < the (tick (add s k v) y)) (removeAll k ks)"
    using sorted t(1) by (auto elim!: sorted_wrt_mono_rel [rotated])
  moreover have "the (tick s x) < t" if "x \<in> set ks" for x
    using that t(2) ks by (force simp: queued_def)
  ultimately show ?thesis
    using ks t(1) by (auto simp: queued_def sorted_wrt_append distinct_removeAll)
qed

lemma queued_del:
  assumes wf: "wf s" and ks: "queued (tick s) ks"
  shows "queued (tick (del s k)) (removeAll k ks)"
proof -
  have sorted: "sorted_wrt (\<lambda>x y. the (tick s x) < the (tick s y)) (removeAll k ks)"
    using ks by (auto simp: queued_def removeAll_filter_not_eq intro: sorted_wrt_filter)
  have "sorted_wrt (\<lambda>x y. the (tick (del s k) x) < the (tick (del s k) y)) (removeAll k ks)"
    using sorted tick_del [OF wf] by (auto elim!: sorted_wrt_mono_rel [rotated])
  then show ?thesis
    using ks tick_del [OF wf] by (auto simp: queued_def distinct_removeAll)
qed

lemma queued_oldest:
  assumes wf: "wf s" and ks: "queued (tick s) ks"
  shows "oldest s = (case ks of [] \<Rightarrow> None | k # _ \<Rightarrow> Some k)"
proof (cases ks)
  case Nil
  then show ?thesis using ks oldest_None [OF wf] by (simp add: queued_def)
next
  case (Cons k ks')
  have dom: "dom (tick s) = insert k (set ks')" using ks Cons by (simp add: queued_def)
  then have "oldest s \<noteq> None" using oldest_None [OF wf] by simp
  then obtain k0 where k0: "oldest s = Some k0" by blast
  then obtain t where t: "tick s k0 = Some t" "\<And>k' t'. tick s k' = Some t' \<Longrightarrow> k' \<noteq> k0 \<Longrightarrow> t < t'"
    using oldest_Some [OF wf] by blast
  have "k0 = k"
  proof (rule ccontr)
    assume ne: "k0 \<noteq> k"
    then have "k0 \<in> set ks'" using t(1) dom by blast
    then have "the (tick s k) < t" using ks Cons t(1) by (auto simp: queued_def)
    moreover obtain t' where "tick s k = Some t'" using dom by blast
    ultimately show False using t(2) ne by force
  qed
  then show ?thesis using k0 Cons by simp
qed

text \<open>Every pool stands for exactly one queue.\<close>

lemma queued_exists:
  assumes wf: "wf s" and fin: "finite (dom (tick s))"
  shows "\<exists>ks. queued (tick s) ks"
  using assms
proof (induction "card (dom (tick s))" arbitrary: s)
  case 0
  then have "queued (tick s) []" by (simp add: queued_def)
  then show ?case by blast
next
  case (Suc n)
  then have "oldest s \<noteq> None" using oldest_None by fastforce
  then obtain k t where k: "oldest s = Some k" and t: "tick s k = Some t"
    "\<And>k' t'. tick s k' = Some t' \<Longrightarrow> k' \<noteq> k \<Longrightarrow> t < t'"
    using oldest_Some Suc.prems(1) by blast
  have del: "tick (del s k) = (tick s)(k := None)" "wf (del s k)"
    using tick_del del_wf Suc.prems(1) by auto
  have "k \<in> dom (tick s)" using t(1) by blast
  then have "card (dom (tick (del s k))) = n" using del(1) Suc.hyps(2) Suc.prems(2) by simp
  then have "\<exists>ks. queued (tick (del s k)) ks"
    using Suc.hyps(1) [of "del s k"] Suc.prems(2) del by simp
  then obtain ks where ks: "queued (tick (del s k)) ks" by blast
  have set: "set ks = dom (tick s) - {k}" using ks del by (simp add: queued_def)
  have "sorted_wrt (\<lambda>x y. the (tick s x) < the (tick s y)) ks"
    using ks del set unfolding queued_def by (auto elim!: sorted_wrt_mono_rel [rotated] split: if_splits)
  moreover have "t < the (tick s x)" if "x \<in> set ks" for x
    using that set t(2) by force
  moreover have "distinct ks" using ks by (simp add: queued_def)
  ultimately have "queued (tick s) (k # ks)"
    using set t(1) by (auto simp: queued_def)
  then show ?case by blast
qed

end

end
