(* ===== verification/LmCache.thy ===== *)
theory LmCache
  imports ActiveSeq HashTables
begin

text \<open>
  The shared external cache of the mocker, \<open>lib/mocker/src/kv_cache/lmcache_adapter.rs\<close>: two tiers
  of block metadata with a capacity each, filled by every worker and queried for the longest cached
  prefix of a request. The type variable \<open>'f\<close> stands for \<open>f64\<close>; of its arithmetic only \<open>+\<close> and \<open>0\<close>
  occur, and nothing is assumed of them, so the statements hold for the rounded sums the code
  computes. The counters (clock, statistics) are natural numbers: the \<open>u64\<close> of the code would
  overflow only after \<open>2^64\<close> operations.

  The lemmas show that a tier is a first-in first-out queue that never exceeds its capacity and
  always holds the block just stored, and that a prefix lookup finds the longest cached prefix and
  accounts for it exactly.
\<close>

section \<open>Data\<close>

record 'f LmCacheMockConfig =
  enable_l1 :: bool
  enable_l2 :: bool
  l1_capacity_blocks :: nat
  l2_capacity_blocks :: nat
  l1_hit_latency_ms :: 'f
  l2_hit_latency_ms :: 'f
  save_latency_ms :: 'f

text \<open>The default configuration; the three literals \<open>0.5\<close>, \<open>2.0\<close> and \<open>0.2\<close> are arguments.\<close>

definition lm_config_default :: "'f \<Rightarrow> 'f \<Rightarrow> 'f \<Rightarrow> 'f LmCacheMockConfig" where
  "lm_config_default l1_lit l2_lit save_lit = \<lparr>enable_l1 = True, enable_l2 = True,
     l1_capacity_blocks = 0, l2_capacity_blocks = 0, l1_hit_latency_ms = l1_lit,
     l2_hit_latency_ms = l2_lit, save_latency_ms = save_lit\<rparr>"

datatype LmCacheTier = L1 | L2 | Miss

record 'f LmCacheBlockMeta =
  m_sequence_hash :: u64
  m_local_hash :: u64
  m_parent_hash :: "u64 option"
  m_token_ids :: "Tokens option"
  m_stored_at_ms :: "'f option"

record 'f LmCachePrefixHit =
  matched_blocks :: nat
  matched_tokens :: nat
  hit_tier :: LmCacheTier
  latency_ms :: 'f

record 'f LmCacheSharedHit =
  sh_sequence_hash :: u64
  sh_tier :: LmCacheTier
  sh_estimated_latency_ms :: 'f

record LmCacheMockStats =
  l1_hits :: nat
  l2_hits :: nat
  misses :: nat
  stores :: nat
  removals :: nat

record 'f CacheTier =
  ct_blocks :: "(u64, nat \<times> 'f LmCacheBlockMeta) hmap"
  ct_clock :: nat

record 'f LmCacheMockAdapter =
  lm_config :: "'f LmCacheMockConfig"
  lm_l1 :: "'f CacheTier"
  lm_l2 :: "'f CacheTier"
  lm_stats :: LmCacheMockStats

section \<open>One tier\<close>

definition ct_default :: "'f CacheTier" where
  "ct_default = \<lparr>ct_blocks = [], ct_clock = 0\<rparr>"

definition ct_contains :: "'f CacheTier \<Rightarrow> u64 \<Rightarrow> bool" where
  "ct_contains c seq_hash = hm_contains (ct_blocks c) seq_hash"

definition ct_get :: "'f CacheTier \<Rightarrow> u64 \<Rightarrow> 'f LmCacheBlockMeta option" where
  "ct_get c seq_hash = map_option snd (hm_get (ct_blocks c) seq_hash)"

definition ct_insert :: "'f CacheTier \<Rightarrow> nat \<Rightarrow> 'f LmCacheBlockMeta \<Rightarrow> 'f CacheTier" where
  "ct_insert c capacity meta =
     (let clock = ct_clock c + 1;
          blocks = hm_insert (m_sequence_hash meta) (clock, meta) (ct_blocks c)
      in c\<lparr>ct_clock := clock, ct_blocks :=
           (if capacity \<noteq> 0 \<and> capacity < hm_len blocks
            then (case oldest_key blocks of Some oldest \<Rightarrow> hm_remove oldest blocks | None \<Rightarrow> blocks)
            else blocks)\<rparr>)"

definition ct_remove :: "'f CacheTier \<Rightarrow> u64 \<Rightarrow> bool \<times> 'f CacheTier" where
  "ct_remove c seq_hash =
     (hm_get (ct_blocks c) seq_hash \<noteq> None, c\<lparr>ct_blocks := hm_remove seq_hash (ct_blocks c)\<rparr>)"

definition ct_len :: "'f CacheTier \<Rightarrow> nat" where
  "ct_len c = hm_len (ct_blocks c)"

section \<open>The adapter\<close>

definition lm_new :: "'f LmCacheMockConfig \<Rightarrow> 'f LmCacheMockAdapter" where
  "lm_new config = \<lparr>lm_config = config, lm_l1 = ct_default, lm_l2 = ct_default,
     lm_stats = \<lparr>l1_hits = 0, l2_hits = 0, misses = 0, stores = 0, removals = 0\<rparr>\<rparr>"

definition lm_len :: "'f LmCacheMockAdapter \<Rightarrow> nat \<times> nat" where
  "lm_len A = (ct_len (lm_l1 A), ct_len (lm_l2 A))"

definition lm_is_empty :: "'f LmCacheMockAdapter \<Rightarrow> bool" where
  "lm_is_empty A = (ct_len (lm_l1 A) = 0 \<and> ct_len (lm_l2 A) = 0)"

definition store_block :: "'f LmCacheMockAdapter \<Rightarrow> 'f LmCacheBlockMeta \<Rightarrow> 'f LmCacheMockAdapter" where
  "store_block A meta =
     (let cfg = lm_config A;
          A1 = (if enable_l1 cfg
                then A\<lparr>lm_l1 := ct_insert (lm_l1 A) (l1_capacity_blocks cfg) meta\<rparr> else A);
          A2 = (if enable_l2 cfg
                then A1\<lparr>lm_l2 := ct_insert (lm_l2 A1) (l2_capacity_blocks cfg) meta\<rparr> else A1);
          stored = (enable_l1 cfg \<or> enable_l2 cfg)
      in if stored then A2\<lparr>lm_stats := (lm_stats A2)\<lparr>stores := stores (lm_stats A2) + 1\<rparr>\<rparr> else A2)"

definition remove_block :: "'f LmCacheMockAdapter \<Rightarrow> u64 \<Rightarrow> 'f LmCacheMockAdapter" where
  "remove_block A sequence_hash =
     (case ct_remove (lm_l1 A) sequence_hash of (r1, t1) \<Rightarrow>
      case ct_remove (lm_l2 A) sequence_hash of (r2, t2) \<Rightarrow>
        let A1 = A\<lparr>lm_l1 := t1, lm_l2 := t2\<rparr>
        in if r1 \<or> r2 then A1\<lparr>lm_stats := (lm_stats A1)\<lparr>removals := removals (lm_stats A1) + 1\<rparr>\<rparr> else A1)"

definition tier_of :: "'f LmCacheMockAdapter \<Rightarrow> u64 \<Rightarrow> LmCacheTier" where
  "tier_of A sequence_hash =
     (if enable_l1 (lm_config A) \<and> ct_contains (lm_l1 A) sequence_hash then L1
      else if enable_l2 (lm_config A) \<and> ct_contains (lm_l2 A) sequence_hash then L2
      else Miss)"

definition contains_block :: "'f LmCacheMockAdapter \<Rightarrow> u64 \<Rightarrow> bool" where
  "contains_block A sequence_hash = (tier_of A sequence_hash \<noteq> Miss)"

definition tier_latency :: "('f :: zero) LmCacheMockAdapter \<Rightarrow> LmCacheTier \<Rightarrow> 'f" where
  "tier_latency A tier =
     (case tier of L1 \<Rightarrow> l1_hit_latency_ms (lm_config A) | L2 \<Rightarrow> l2_hit_latency_ms (lm_config A) | Miss \<Rightarrow> 0)"

definition slower_tier :: "LmCacheTier \<Rightarrow> LmCacheTier \<Rightarrow> LmCacheTier" where
  "slower_tier acc tier = (case (acc, tier) of (Miss, t) \<Rightarrow> t | (L1, L2) \<Rightarrow> L2 | (acc, _) \<Rightarrow> acc)"

text \<open>The loop of \<open>lookup_prefix\<close>, with its five accumulators.\<close>

fun lookup_loop :: "('f :: {zero, plus}) LmCacheMockAdapter \<Rightarrow> UniqueBlock list \<Rightarrow>
    nat \<times> 'f \<times> LmCacheTier \<times> nat \<times> nat \<Rightarrow> nat \<times> 'f \<times> LmCacheTier \<times> nat \<times> nat" where
  "lookup_loop A [] acc = acc"
| "lookup_loop A (PartialBlock u # blocks) acc = acc"
| "lookup_loop A (FullBlock seq_hash # blocks) (matched, latency, overall, h1, h2) =
     (let tier = tier_of A seq_hash in
      if tier = Miss then (matched, latency, overall, h1, h2)
      else lookup_loop A blocks (matched + 1, latency + tier_latency A tier, slower_tier overall tier,
        (if tier = L1 then h1 + 1 else h1), (if tier = L2 then h2 + 1 else h2)))"

definition lookup_prefix :: "('f :: {zero, plus}) LmCacheMockAdapter \<Rightarrow> ActiveSequence \<Rightarrow>
    'f LmCachePrefixHit \<times> 'f LmCacheMockAdapter" where
  "lookup_prefix A sequence =
     (if \<not> enable_prefix_caching sequence
      then (\<lparr>matched_blocks = 0, matched_tokens = 0, hit_tier = Miss, latency_ms = 0\<rparr>,
            A\<lparr>lm_stats := (lm_stats A)\<lparr>misses := misses (lm_stats A) + 1\<rparr>\<rparr>)
      else (case lookup_loop A (unique_blocks sequence) (0, 0, Miss, 0, 0) of
        (matched, latency, overall, h1, h2) \<Rightarrow>
          (\<lparr>matched_blocks = matched,
            matched_tokens = min (matched * as_block_size sequence) (num_input_tokens sequence),
            hit_tier = overall, latency_ms = latency\<rparr>,
           if matched = 0
           then A\<lparr>lm_stats := (lm_stats A)\<lparr>misses := misses (lm_stats A) + 1\<rparr>\<rparr>
           else A\<lparr>lm_stats := (lm_stats A)\<lparr>l1_hits := l1_hits (lm_stats A) + h1,
             l2_hits := l2_hits (lm_stats A) + h2\<rparr>\<rparr>)))"

definition batch_lookup :: "('f :: zero) LmCacheMockAdapter \<Rightarrow> u64 list \<Rightarrow> 'f LmCacheSharedHit list" where
  "batch_lookup A hashes = List.map_filter (\<lambda>seq_hash.
     (let tier = tier_of A seq_hash in
      if tier = Miss then None
      else Some \<lparr>sh_sequence_hash = seq_hash, sh_tier = tier,
        sh_estimated_latency_ms = tier_latency A tier\<rparr>)) hashes"

definition block_meta :: "'f LmCacheMockAdapter \<Rightarrow> u64 \<Rightarrow> 'f LmCacheBlockMeta option" where
  "block_meta A sequence_hash =
     (case ct_get (lm_l1 A) sequence_hash of Some meta \<Rightarrow> Some meta | None \<Rightarrow> ct_get (lm_l2 A) sequence_hash)"

section \<open>A tier is a bounded queue\<close>

definition ct_wf :: "'f CacheTier \<Rightarrow> bool" where
  "ct_wf c = stamped_wf (ct_clock c) (ct_blocks c)"

definition ct_tick :: "'f CacheTier \<Rightarrow> u64 \<Rightarrow> nat option" where
  "ct_tick c = hm_tick (ct_blocks c)"

lemma ct_insert_unbounded:
  "ct_insert c 0 meta = c\<lparr>ct_clock := Suc (ct_clock c),
     ct_blocks := hm_insert (m_sequence_hash meta) (Suc (ct_clock c), meta) (ct_blocks c)\<rparr>"
  by (simp add: ct_insert_def Let_def)

interpretation tier: stamped_pool ct_wf ct_tick "\<lambda>c k meta. ct_insert c 0 (meta\<lparr>m_sequence_hash := k\<rparr>)"
  "\<lambda>c k. snd (ct_remove c k)" "\<lambda>c. oldest_key (ct_blocks c)"
proof
  fix c :: "'a CacheTier" and k meta
  assume wf: "ct_wf c"
  show "ct_wf (ct_insert c 0 (meta\<lparr>m_sequence_hash := k\<rparr>))"
    using wf by (simp add: ct_wf_def ct_insert_unbounded stamped_wf_insert)
  show "ct_wf (snd (ct_remove c k))" using wf by (simp add: ct_wf_def ct_remove_def)
  show "\<exists>t. ct_tick (ct_insert c 0 (meta\<lparr>m_sequence_hash := k\<rparr>)) = (ct_tick c)(k \<mapsto> t) \<and>
      (\<forall>k' t'. ct_tick c k' = Some t' \<longrightarrow> t' < t)"
    using wf by (intro exI [of _ "Suc (ct_clock c)"])
      (auto simp: ct_wf_def ct_tick_def ct_insert_unbounded stamped_wf_def less_Suc_eq_le)
  show "ct_tick (snd (ct_remove c k)) = (ct_tick c)(k := None)"
    by (simp add: ct_tick_def ct_remove_def)
  show "(oldest_key (ct_blocks c) = None) = (dom (ct_tick c) = {})"
    by (simp add: oldest_key_None ct_tick_def hm_tick_dom)
next
  fix c :: "'a CacheTier" and k
  assume "ct_wf c" "oldest_key (ct_blocks c) = Some k"
  then show "\<exists>t. ct_tick c k = Some t \<and> (\<forall>k' t'. ct_tick c k' = Some t' \<longrightarrow> k' \<noteq> k \<longrightarrow> t < t')"
    using oldest_key_Some by (fastforce simp: ct_wf_def ct_tick_def)
qed

lemma ct_insert_bounded:
  "ct_insert c capacity meta =
     (let c1 = ct_insert c 0 meta in
      if capacity \<noteq> 0 \<and> capacity < ct_len c1
      then (case oldest_key (ct_blocks c1) of Some k \<Rightarrow> snd (ct_remove c1 k) | None \<Rightarrow> c1) else c1)"
  by (simp add: ct_insert_def ct_remove_def ct_len_def Let_def split: option.splits)

lemma ct_len_queue: "ct_wf c \<Longrightarrow> queued (ct_tick c) ks \<Longrightarrow> ct_len c = length ks"
  by (simp add: ct_wf_def ct_len_def hm_len_card queued_def ct_tick_def hm_tick_dom [symmetric] distinct_card [symmetric])

lemma ct_contains_queue: "queued (ct_tick c) ks \<Longrightarrow> ct_contains c k = (k \<in> set ks)"
  by (simp add: ct_contains_def hm_contains_keys queued_def ct_tick_def hm_tick_dom)

text \<open>Inserting into a tier: the key moves to the end of the queue, and the head makes room.\<close>

lemma ct_insert_queue:
  fixes meta :: "'f LmCacheBlockMeta"
  assumes wf: "ct_wf c" and ks: "queued (ct_tick c) ks"
  defines "ks' \<equiv> removeAll (m_sequence_hash meta) ks @ [m_sequence_hash meta]"
  shows "ct_wf (ct_insert c capacity meta) \<and>
    queued (ct_tick (ct_insert c capacity meta))
      (if capacity \<noteq> 0 \<and> capacity < length ks' then tl ks' else ks')"
proof -
  let ?k = "m_sequence_hash meta"
  define c1 where "c1 = ct_insert c 0 meta"
  have c1: "ct_wf c1" "queued (ct_tick c1) ks'"
    using tier.add_wf [OF wf, of ?k meta] tier.queued_add [OF wf ks, of ?k meta]
    by (simp_all add: c1_def ks'_def)
  obtain x xs where x: "ks' = x # xs" by (cases ks') (auto simp: ks'_def)
  have old: "oldest_key (ct_blocks c1) = Some x" using tier.queued_oldest [OF c1] x by simp
  have "x \<notin> set xs" using c1(2) x by (simp add: queued_def)
  then have "ct_wf (snd (ct_remove c1 x))" "queued (ct_tick (snd (ct_remove c1 x))) xs"
    using tier.del_wf [OF c1(1)] tier.queued_del [OF c1, of x] x by simp_all
  then show ?thesis
    using c1 old x ct_len_queue [OF c1] unfolding ct_insert_bounded [of c capacity] c1_def [symmetric]
    by (simp add: Let_def)
qed


lemma ct_queue_exists: "ct_wf c \<Longrightarrow> \<exists>ks. queued (ct_tick c) ks"
  using tier.queued_exists by (simp add: ct_tick_def hm_tick_dom)

lemma ct_insert_props:
  assumes wf: "ct_wf c"
  shows "ct_wf (ct_insert c capacity meta)"
    and "capacity \<noteq> 0 \<Longrightarrow> ct_len c \<le> capacity \<Longrightarrow> ct_len (ct_insert c capacity meta) \<le> capacity"
    and "ct_contains (ct_insert c capacity meta) (m_sequence_hash meta)"
    and "h \<noteq> m_sequence_hash meta \<Longrightarrow> ct_contains (ct_insert c capacity meta) h \<Longrightarrow> ct_contains c h"
    and "capacity = 0 \<Longrightarrow> ct_contains c h \<Longrightarrow> ct_contains (ct_insert c capacity meta) h"
proof -
  let ?k = "m_sequence_hash meta"
  obtain ks where ks: "queued (ct_tick c) ks" using ct_queue_exists [OF wf] by blast
  define ks' where "ks' = removeAll ?k ks @ [?k]"
  note q = ct_insert_queue [OF wf ks, where meta = meta and capacity = capacity, folded ks'_def]
  have len: "ct_len c = length ks" using ct_len_queue [OF wf ks] .
  have ks'_len: "length ks' \<le> Suc (length ks)" by (simp add: ks'_def length_removeAll_less_eq)
  have mem: "?k \<in> set (if capacity \<noteq> 0 \<and> capacity < length ks' then tl ks' else ks')"
    by (cases "removeAll ?k ks") (auto simp: ks'_def)
  show "ct_wf (ct_insert c capacity meta)" using q by simp
  show "ct_len (ct_insert c capacity meta) \<le> capacity" if "capacity \<noteq> 0" "ct_len c \<le> capacity"
    using that ct_len_queue [OF conjunct1 [OF q] conjunct2 [OF q]] len ks'_len by auto
  show "ct_contains (ct_insert c capacity meta) ?k"
    using ct_contains_queue [OF conjunct2 [OF q]] mem by simp
  show "ct_contains c h" if "h \<noteq> ?k" "ct_contains (ct_insert c capacity meta) h"
    using that ct_contains_queue [OF conjunct2 [OF q]] ct_contains_queue [OF ks]
    by (auto simp: ks'_def split: if_splits dest: list.set_sel(2) [rotated])
  show "ct_contains (ct_insert c capacity meta) h" if "capacity = 0" "ct_contains c h"
    using that ct_contains_queue [OF conjunct2 [OF q]] ct_contains_queue [OF ks] by (auto simp: ks'_def)
qed

lemma ct_remove_props:
  assumes wf: "ct_wf c"
  shows "ct_wf (snd (ct_remove c k))" and "ct_len (snd (ct_remove c k)) \<le> ct_len c"
    and "ct_contains (snd (ct_remove c k)) h = (ct_contains c h \<and> h \<noteq> k)"
    and "fst (ct_remove c k) = ct_contains c k"
  using wf by (auto simp: ct_remove_def ct_wf_def ct_len_def hm_len_remove ct_contains_def hm_contains_get)

section \<open>The invariant of the adapter\<close>

definition tier_fits :: "nat \<Rightarrow> 'f CacheTier \<Rightarrow> bool" where
  "tier_fits capacity c = (ct_wf c \<and> (capacity \<noteq> 0 \<longrightarrow> ct_len c \<le> capacity))"

definition lm_inv :: "'f LmCacheMockAdapter \<Rightarrow> bool" where
  "lm_inv A = (tier_fits (l1_capacity_blocks (lm_config A)) (lm_l1 A) \<and>
     tier_fits (l2_capacity_blocks (lm_config A)) (lm_l2 A))"

lemma tier_fits_insert: "tier_fits n c \<Longrightarrow> tier_fits n (ct_insert c n meta)"
  using ct_insert_props(1,2) [of c n meta] by (auto simp: tier_fits_def)

lemma tier_fits_remove: "tier_fits n c \<Longrightarrow> tier_fits n (snd (ct_remove c k))"
  using ct_remove_props(1,2) [of c k] by (auto simp: tier_fits_def)

lemma lm_inv_new [inv_intros]: "lm_inv (lm_new cfg)"
  by (simp add: lm_inv_def lm_new_def tier_fits_def ct_wf_def ct_default_def ct_len_def hm_len_def)

lemma lm_config_store [simp]: "lm_config (store_block A meta) = lm_config A"
  by (simp add: store_block_def Let_def)

lemma lm_inv_store [inv_intros]: "lm_inv A \<Longrightarrow> lm_inv (store_block A meta)"
  by (simp add: lm_inv_def store_block_def Let_def tier_fits_insert)

lemma remove_block_eq:
  "remove_block A h = (let A1 = A\<lparr>lm_l1 := snd (ct_remove (lm_l1 A) h), lm_l2 := snd (ct_remove (lm_l2 A) h)\<rparr> in
    if fst (ct_remove (lm_l1 A) h) \<or> fst (ct_remove (lm_l2 A) h)
    then A1\<lparr>lm_stats := (lm_stats A1)\<lparr>removals := removals (lm_stats A1) + 1\<rparr>\<rparr> else A1)"
  by (simp add: remove_block_def split: prod.splits)

lemma lm_inv_remove [inv_intros]: "lm_inv A \<Longrightarrow> lm_inv (remove_block A h)"
  by (simp add: lm_inv_def remove_block_eq Let_def tier_fits_remove)

lemma lm_inv_lookup [inv_intros]: "lm_inv A \<Longrightarrow> lm_inv (snd (lookup_prefix A s))"
  by (auto simp: lm_inv_def lookup_prefix_def split: prod.splits)

lemma store_visible:
  assumes "lm_inv A" and "enable_l1 (lm_config A) \<or> enable_l2 (lm_config A)"
  shows "contains_block (store_block A meta) (m_sequence_hash meta)"
    and "h \<noteq> m_sequence_hash meta \<Longrightarrow> contains_block (store_block A meta) h \<Longrightarrow> contains_block A h"
    and "l1_capacity_blocks (lm_config A) = 0 \<Longrightarrow> l2_capacity_blocks (lm_config A) = 0 \<Longrightarrow>
      contains_block A h \<Longrightarrow> contains_block (store_block A meta) h"
proof -
  have A: "ct_wf (lm_l1 A)" "ct_wf (lm_l2 A)" using assms(1) by (auto simp: lm_inv_def tier_fits_def)
  let ?c = "lm_config A"
  have tier: "contains_block B h = (enable_l1 (lm_config B) \<and> ct_contains (lm_l1 B) h \<or>
      enable_l2 (lm_config B) \<and> ct_contains (lm_l2 B) h)" for B :: "'a LmCacheMockAdapter" and h
    by (simp add: contains_block_def tier_of_def)
  have l1: "lm_l1 (store_block A meta) = (if enable_l1 ?c then ct_insert (lm_l1 A) (l1_capacity_blocks ?c) meta else lm_l1 A)"
    and l2: "lm_l2 (store_block A meta) = (if enable_l2 ?c then ct_insert (lm_l2 A) (l2_capacity_blocks ?c) meta else lm_l2 A)"
    by (simp_all add: store_block_def Let_def)
  note ins = ct_insert_props(3-5) [OF A(1)] ct_insert_props(3-5) [OF A(2)]
  show "contains_block (store_block A meta) (m_sequence_hash meta)"
    using assms(2) ins unfolding tier lm_config_store l1 l2 by auto
  show "h \<noteq> m_sequence_hash meta \<Longrightarrow> contains_block (store_block A meta) h \<Longrightarrow> contains_block A h"
    using assms(2) ins unfolding tier lm_config_store l1 l2 by (auto split: if_splits)
  show "l1_capacity_blocks ?c = 0 \<Longrightarrow> l2_capacity_blocks ?c = 0 \<Longrightarrow>
      contains_block A h \<Longrightarrow> contains_block (store_block A meta) h"
    using assms(2) ins unfolding tier lm_config_store l1 l2 by auto
qed

text \<open>The adapters that workers can bring about: they store, remove and look up in any order.\<close>

inductive lm_reach :: "('f :: {zero, plus}) LmCacheMockConfig \<Rightarrow> 'f LmCacheMockAdapter \<Rightarrow> bool" for cfg where
  lm_start: "lm_reach cfg (lm_new cfg)"
| lm_store: "lm_reach cfg A \<Longrightarrow> lm_reach cfg (store_block A meta)"
| lm_remove: "lm_reach cfg A \<Longrightarrow> lm_reach cfg (remove_block A h)"
| lm_lookup: "lm_reach cfg A \<Longrightarrow> lm_reach cfg (snd (lookup_prefix A s))"

lemma lm_reach_inv: "lm_reach cfg A \<Longrightarrow> lm_inv A \<and> lm_config A = cfg"
proof (induction rule: lm_reach.induct)
  case lm_start
  then show ?case by (simp add: inv_intros) (simp add: lm_new_def)
next
  case (lm_remove A h)
  then show ?case by (simp add: inv_intros) (simp add: remove_block_eq Let_def)
next
  case (lm_lookup A s)
  then show ?case by (simp add: inv_intros) (simp add: lookup_prefix_def split: prod.splits)
qed (simp add: inv_intros)

section \<open>Prefix lookup\<close>

definition block_tier :: "'f LmCacheMockAdapter \<Rightarrow> UniqueBlock \<Rightarrow> LmCacheTier" where
  "block_tier A b = (case b of FullBlock h \<Rightarrow> tier_of A h | PartialBlock _ \<Rightarrow> Miss)"

text \<open>The tiers of the longest cached prefix.\<close>

definition prefix_tiers :: "'f LmCacheMockAdapter \<Rightarrow> UniqueBlock list \<Rightarrow> LmCacheTier list" where
  "prefix_tiers A blocks = takeWhile (\<lambda>t. t \<noteq> Miss) (map (block_tier A) blocks)"

lemma lookup_loop_eq:
  "lookup_loop A blocks (m, l, t, h1, h2) = (let ts = prefix_tiers A blocks in
     (m + length ts, foldl (+) l (map (tier_latency A) ts), foldl slower_tier t ts,
      h1 + count_list ts L1, h2 + count_list ts L2))"
proof (induction blocks arbitrary: m l t h1 h2)
  case Nil
  then show ?case by (simp add: prefix_tiers_def)
next
  case (Cons b blocks)
  show ?case
    by (cases b; cases "block_tier A b")
      (simp_all add: Cons.IH prefix_tiers_def block_tier_def Let_def)
qed

lemma slower_tier_Miss: "t \<noteq> Miss \<Longrightarrow> t' \<noteq> Miss \<Longrightarrow> slower_tier t t' = (if t = L2 \<or> t' = L2 then L2 else L1)"
  by (cases t; cases t') (simp_all add: slower_tier_def)

lemma foldl_slower:
  assumes "t \<noteq> Miss" "Miss \<notin> set ts"
  shows "foldl slower_tier t ts = (if L2 \<in> set (t # ts) then L2 else L1)"
  using assms
proof (induction ts arbitrary: t)
  case Nil
  then show ?case by (cases t) auto
next
  case (Cons t' ts)
  have "slower_tier t t' \<noteq> Miss" using Cons.prems by (cases t; cases t') (auto simp: slower_tier_def)
  then show ?case
    using Cons by (cases t; cases t') (auto simp: slower_tier_def)
qed

lemma overall_tier: "Miss \<notin> set ts \<Longrightarrow>
  foldl slower_tier Miss ts = (if ts = [] then Miss else if L2 \<in> set ts then L2 else L1)"
  by (cases ts) (auto simp: foldl_slower slower_tier_def)

lemma prefix_tiers_no_Miss: "Miss \<notin> set (prefix_tiers A blocks)"
  by (auto simp: prefix_tiers_def dest: set_takeWhileD)


section \<open>Properties\<close>

text \<open>
  A tier is a bounded first-in first-out queue, whatever order its hash table
  iterates in: storing a block moves its key to the end of the queue, and a tier that gets too large
  loses the head of the queue and nothing else.
\<close>

lemma tier_insert_fifo:
  fixes meta :: "'f LmCacheBlockMeta"
  assumes "ct_wf c" and "queued (ct_tick c) ks"
  defines "ks' \<equiv> removeAll (m_sequence_hash meta) ks @ [m_sequence_hash meta]"
  shows "ct_wf (ct_insert c capacity meta) \<and>
    queued (ct_tick (ct_insert c capacity meta))
      (if capacity \<noteq> 0 \<and> capacity < length ks' then tl ks' else ks')"
  unfolding ks'_def by (rule ct_insert_queue [OF assms(1,2)])

text \<open>
  However workers interleave their stores, removals and lookups, neither tier of
  the shared cache ever holds more blocks than its configured capacity (zero meaning no limit).
\<close>

lemma lm_capacity:
  assumes "lm_reach cfg A"
  shows "(l1_capacity_blocks cfg \<noteq> 0 \<longrightarrow> fst (lm_len A) \<le> l1_capacity_blocks cfg) \<and>
    (l2_capacity_blocks cfg \<noteq> 0 \<longrightarrow> snd (lm_len A) \<le> l2_capacity_blocks cfg)"
  using lm_reach_inv [OF assms] by (auto simp: lm_inv_def tier_fits_def lm_len_def)

text \<open>
  A stored block is visible at once when a tier is enabled, even in a tier
  of capacity one; a store never makes another block visible, and with unlimited tiers it hides none.
\<close>

lemma store_block_visible:
  assumes "lm_reach cfg A" and "enable_l1 cfg \<or> enable_l2 cfg"
  shows "contains_block (store_block A meta) (m_sequence_hash meta) \<and>
    (\<forall>h. h \<noteq> m_sequence_hash meta \<longrightarrow> contains_block (store_block A meta) h \<longrightarrow> contains_block A h) \<and>
    (l1_capacity_blocks cfg = 0 \<longrightarrow> l2_capacity_blocks cfg = 0 \<longrightarrow>
      (\<forall>h. contains_block A h \<longrightarrow> contains_block (store_block A meta) h))"
  using store_visible [where A = A and meta = meta] lm_reach_inv [OF assms(1)] assms(2) by auto

text \<open>
  C30 (lookup_prefix_longest). With prefix caching, \<open>lookup_prefix\<close> matches exactly the longest cached
  prefix of full blocks: the latency is the sum, in order, of the latencies of its blocks, the tier is
  the slowest one met, and the statistics count every matched block in its tier, or one miss when
  nothing matched; without prefix caching nothing matches. The cached blocks stay as they are.
\<close>

theorem lookup_prefix_longest:
  "case lookup_prefix A s of (hit, A') \<Rightarrow>
     let ts = (if enable_prefix_caching s then prefix_tiers A (unique_blocks s) else []) in
     matched_blocks hit = length ts \<and>
     matched_tokens hit = min (length ts * as_block_size s) (num_input_tokens s) \<and>
     hit_tier hit = (if ts = [] then Miss else if L2 \<in> set ts then L2 else L1) \<and>
     latency_ms hit = foldl (+) 0 (map (tier_latency A) ts) \<and>
     l1_hits (lm_stats A') = l1_hits (lm_stats A) + count_list ts L1 \<and>
     l2_hits (lm_stats A') = l2_hits (lm_stats A) + count_list ts L2 \<and>
     misses (lm_stats A') = misses (lm_stats A) + (if ts = [] then 1 else 0) \<and>
     lm_l1 A' = lm_l1 A \<and> lm_l2 A' = lm_l2 A \<and> lm_config A' = lm_config A"
  using prefix_tiers_no_Miss [of A "unique_blocks s"]
  by (auto simp: lookup_prefix_def lookup_loop_eq overall_tier Let_def)

text \<open>
  The batch query of the router returns, in order and with its tier and
  latency, an entry for exactly the block hashes that are cached in some enabled tier.
\<close>

lemma batch_lookup_hits:
  "map sh_sequence_hash (batch_lookup A hashes) = filter (contains_block A) hashes \<and>
   (\<forall>hit \<in> set (batch_lookup A hashes). sh_tier hit = tier_of A (sh_sequence_hash hit) \<and>
     sh_estimated_latency_ms hit = tier_latency A (tier_of A (sh_sequence_hash hit)))"
  by (induction hashes) (auto simp: batch_lookup_def contains_block_def Let_def List.map_filter_simps)

section \<open>Witnesses\<close>

definition demo_meta :: "u64 \<Rightarrow> int LmCacheBlockMeta" where
  "demo_meta h = \<lparr>m_sequence_hash = h, m_local_hash = 0, m_parent_hash = None, m_token_ids = None,
     m_stored_at_ms = None\<rparr>"

definition demo_lm_config :: "int LmCacheMockConfig" where
  "demo_lm_config = (lm_config_default 5 20 2)\<lparr>l1_capacity_blocks := 1\<rparr>"

end
