(* ===== verification/LocalKvCache.thy ===== *)
theory LocalKvCache
  imports LmCache
begin

text \<open>
  The local paged KV cache of a mocker worker, \<open>lib/mocker/src/kv_cache/local_vllm_cache.rs\<close>, with
  the event constructors of \<open>kv_cache/events.rs\<close>. A shared LMCache is reached through a handle: the
  adapters live in a heap \<open>lm_heap\<close> that the operations thread beside the cache, so that two workers
  with the same handle see each other's blocks. The publishers of KV events are sinks outside the
  cache; the model keeps the log of what is handed to them. Trace logging is left out.

  The lemmas show that the cache never uses more slots than its capacity, that reference counts
  record exactly the uses and releases, that \<open>Use\<close> stops early only when every slot is held by a
  running request, that the least recently released block is the one evicted, and that the published
  events tell a router exactly which blocks are registered.
\<close>

section \<open>KV events\<close>

record KvCacheStoredBlockData =
  sb_block_hash :: u64
  sb_tokens_hash :: u64
  sb_mm_extra_info :: "unit option"

datatype KvCacheEventData =
    Stored (st_parent_hash: "u64 option") (st_start_position: "nat option") (st_blocks: "KvCacheStoredBlockData list")
  | Removed (rm_block_hashes: "u64 list")

record KvCacheEvent =
  event_id :: nat
  event_data :: KvCacheEventData
  event_dp_rank :: u32

text \<open>\<open>slice::get\<close>.\<close>

definition get_opt :: "'a list \<Rightarrow> nat \<Rightarrow> 'a option" where
  "get_opt xs i = (if i < length xs then Some (xs ! i) else None)"

definition unwrap_or :: "'a \<Rightarrow> 'a option \<Rightarrow> 'a" where
  "unwrap_or d x = (case x of None \<Rightarrow> d | Some v \<Rightarrow> v)"

definition build_stored_event_data ::
  "build_env \<Rightarrow> u64 option \<Rightarrow> u64 list \<Rightarrow> u64 list \<Rightarrow> KvCacheEventData run" where
  "build_stored_event_data E parent_hash full_blocks local_hashes = do {
     assert_run (debug_assertions E \<longrightarrow> local_hashes = [] \<or> length local_hashes = length full_blocks);
     Some (Stored parent_hash None
       (map (\<lambda>(i, global_hash). \<lparr>sb_block_hash = global_hash,
           sb_tokens_hash = unwrap_or 0 (get_opt local_hashes i), sb_mm_extra_info = None\<rparr>)
         (List.enumerate 0 full_blocks)))
   }"

definition build_removed_event_data :: "u64 list \<Rightarrow> KvCacheEventData" where
  "build_removed_event_data hashes = Removed hashes"

definition wrap_event :: "nat \<Rightarrow> u32 \<Rightarrow> KvCacheEventData \<Rightarrow> KvCacheEvent" where
  "wrap_event eid rank data = \<lparr>event_id = eid, event_data = data, event_dp_rank = rank\<rparr>"

record KvEventPublishers =
  has_event_sink :: bool
  has_raw_sink :: bool

definition publishers_is_empty :: "KvEventPublishers \<Rightarrow> bool" where
  "publishers_is_empty p = (\<not> has_event_sink p \<and> \<not> has_raw_sink p)"

section \<open>The inactive pool\<close>

record RegisteredBlockInfo =
  ri_seq_hash :: u64
  ri_parent_hash :: "u64 option"
  ri_local_hash :: u64
  ri_token_ids :: "Tokens option"

record ActiveFullEntry =
  refcount :: nat
  entry_plh :: PositionalLineageHash

record LocalEvictionCache =
  ec_blocks :: "(PositionalLineageHash, nat \<times> u64) hmap"
  ec_clock :: nat

definition ec_default :: LocalEvictionCache where
  "ec_default = \<lparr>ec_blocks = [], ec_clock = 0\<rparr>"

definition ec_len :: "LocalEvictionCache \<Rightarrow> nat" where
  "ec_len c = hm_len (ec_blocks c)"

definition match_block :: "LocalEvictionCache \<Rightarrow> PositionalLineageHash \<Rightarrow> u64 option \<times> LocalEvictionCache" where
  "match_block c plh =
     (map_option snd (hm_get (ec_blocks c) plh), c\<lparr>ec_blocks := hm_remove plh (ec_blocks c)\<rparr>)"

definition ec_insert :: "LocalEvictionCache \<Rightarrow> PositionalLineageHash \<Rightarrow> u64 \<Rightarrow> LocalEvictionCache" where
  "ec_insert c plh seq_hash =
     c\<lparr>ec_clock := ec_clock c + 1, ec_blocks := hm_insert plh (ec_clock c + 1, seq_hash) (ec_blocks c)\<rparr>"

definition evict_lru :: "LocalEvictionCache \<Rightarrow> (PositionalLineageHash \<times> u64) option \<times> LocalEvictionCache" where
  "evict_lru c =
     (let victim = map_option (\<lambda>(plh, tick, seq_hash). (plh, seq_hash)) (min_by_key (fst \<circ> snd) (ec_blocks c))
      in (victim, case victim of None \<Rightarrow> c | Some (plh, _) \<Rightarrow> c\<lparr>ec_blocks := hm_remove plh (ec_blocks c)\<rparr>))"

datatype UseOutcome = ActiveHit | InactiveHit | NewStore

section \<open>\<open>LocalVllmKvCache\<close>\<close>

record LocalVllmKvCache =
  max_capacity :: nat
  kc_block_size :: nat
  kv_event_publishers :: KvEventPublishers
  kc_dp_rank :: u32
  next_event_id :: nat
  active_partial :: "(Uuid, unit) hmap"
  active_full :: "(u64, ActiveFullEntry) hmap"
  registered_blocks :: "(PositionalLineageHash, RegisteredBlockInfo) hmap"
  inactive :: LocalEvictionCache
  kc_lmcache :: "nat option"
  published :: "(KvCacheEvent \<times> Tokens list option) list"

type_synonym 'f lm_heap = "nat \<Rightarrow> 'f LmCacheMockAdapter"

definition kc_new :: "build_env \<Rightarrow> nat \<Rightarrow> nat \<Rightarrow> KvEventPublishers \<Rightarrow> u32 \<Rightarrow> LocalVllmKvCache run" where
  "kc_new E capacity block_size publishers dp_rank = do {
     assert_run (debug_assertions E \<longrightarrow> 0 < capacity);
     Some \<lparr>max_capacity = capacity, kc_block_size = block_size, kv_event_publishers = publishers,
       kc_dp_rank = dp_rank, next_event_id = 0, active_partial = [], active_full = [],
       registered_blocks = [], inactive = ec_default, kc_lmcache = None, published = []\<rparr>
   }"

definition set_lmcache :: "LocalVllmKvCache \<Rightarrow> nat option \<Rightarrow> LocalVllmKvCache" where
  "set_lmcache k lmcache = k\<lparr>kc_lmcache := lmcache\<rparr>"

definition num_active_blocks :: "LocalVllmKvCache \<Rightarrow> nat" where
  "num_active_blocks k = hm_len (active_full k) + hm_len (active_partial k)"

definition num_active_block_refs :: "LocalVllmKvCache \<Rightarrow> nat" where
  "num_active_block_refs k =
     hm_len (active_partial k) + sum_list (map (\<lambda>(_, e). refcount e) (active_full k))"

definition num_inactive_blocks :: "LocalVllmKvCache \<Rightarrow> nat" where
  "num_inactive_blocks k = ec_len (inactive k)"

definition used_slots :: "LocalVllmKvCache \<Rightarrow> nat" where
  "used_slots k = hm_len (active_full k) + hm_len (active_partial k) + ec_len (inactive k)"

definition publish_kv_event :: "build_env \<Rightarrow> LocalVllmKvCache \<Rightarrow> u64 list \<Rightarrow> u64 list \<Rightarrow> u64 option \<Rightarrow> bool \<Rightarrow>
    Tokens list option \<Rightarrow> LocalVllmKvCache run" where
  "publish_kv_event E k full_blocks local_hashes parent_hash is_store token_ids =
     (if full_blocks = [] then Some k
      else if publishers_is_empty (kv_event_publishers k) then Some k
      else do {
        data \<leftarrow> (if is_store then build_stored_event_data E parent_hash full_blocks local_hashes
                else Some (build_removed_event_data full_blocks));
        let event = wrap_event (next_event_id k) (kc_dp_rank k) data;
        Some (k\<lparr>next_event_id := next_event_id k + 1, published := published k @ [(event, token_ids)]\<rparr>)
      })"

definition save_to_lmcache :: "LocalVllmKvCache \<Rightarrow> 'f lm_heap \<Rightarrow> u64 \<Rightarrow> u64 \<Rightarrow> u64 option \<Rightarrow> Tokens option \<Rightarrow> 'f lm_heap" where
  "save_to_lmcache k heap seq_hash local_hash parent_hash token_ids =
     (case kc_lmcache k of
        None \<Rightarrow> heap
      | Some lm \<Rightarrow> heap(lm := store_block (heap lm)
          \<lparr>m_sequence_hash = seq_hash, m_local_hash = local_hash, m_parent_hash = parent_hash,
           m_token_ids = token_ids, m_stored_at_ms = None\<rparr>))"

definition reserve_one_slot :: "build_env \<Rightarrow> LocalVllmKvCache \<Rightarrow> (bool \<times> LocalVllmKvCache) run" where
  "reserve_one_slot E k =
     (if used_slots k < max_capacity k then Some (True, k)
      else (case evict_lru (inactive k) of
          (Some (plh, seq_hash), inactive') \<Rightarrow> do {
            k1 \<leftarrow> publish_kv_event E
              (k\<lparr>inactive := inactive', registered_blocks := hm_remove plh (registered_blocks k)\<rparr>)
              [seq_hash] [] None False None;
            Some (True, k1)
          }
        | (None, inactive') \<Rightarrow> Some (False, k\<lparr>inactive := inactive'\<rparr>)))"

text \<open>The \<open>match\<close> of the loop body on one block of a \<open>Use\<close>; \<open>None\<close> is the \<open>break\<close> of the loop.\<close>

definition use_block :: "build_env \<Rightarrow> u64 list \<Rightarrow> PositionalLineageHash list \<Rightarrow> Tokens list option \<Rightarrow> u64 option \<Rightarrow> nat \<Rightarrow>
    UniqueBlock \<Rightarrow> LocalVllmKvCache \<times> 'f lm_heap \<Rightarrow>
    ((UseOutcome \<times> nat) option \<times> LocalVllmKvCache \<times> 'f lm_heap) run" where
  "use_block E local_hashes block_plhs token_ids metadata_parent_hash plh_idx block =
     (\<lambda>(k, heap). case block of
        FullBlock seq_hash \<Rightarrow>
          (case hm_get (active_full k) seq_hash of
             Some entry \<Rightarrow> Some (Some (ActiveHit, plh_idx + 1),
               k\<lparr>active_full := hm_insert seq_hash (entry\<lparr>refcount := refcount entry + 1\<rparr>) (active_full k)\<rparr>, heap)
           | None \<Rightarrow> do {
               plh \<leftarrow> index_run block_plhs plh_idx;
               (case match_block (inactive k) plh of
                  (Some _, inactive') \<Rightarrow> Some (Some (InactiveHit, plh_idx + 1),
                    k\<lparr>inactive := inactive',
                      active_full := hm_insert seq_hash \<lparr>refcount = 1, entry_plh = plh\<rparr> (active_full k)\<rparr>, heap)
                | (None, inactive') \<Rightarrow> do {
                    (ok, k1) \<leftarrow> reserve_one_slot E (k\<lparr>inactive := inactive'\<rparr>);
                    if \<not> ok then Some (None, k1, heap)
                    else do {
                      let block_local_hash = unwrap_or 0 (get_opt local_hashes plh_idx);
                      let block_token_ids = Option.bind token_ids (\<lambda>ids. get_opt ids plh_idx);
                      let k2 = k1\<lparr>active_full := hm_insert seq_hash \<lparr>refcount = 1, entry_plh = plh\<rparr> (active_full k1),
                        registered_blocks := hm_insert plh \<lparr>ri_seq_hash = seq_hash,
                          ri_parent_hash = metadata_parent_hash, ri_local_hash = block_local_hash,
                          ri_token_ids = block_token_ids\<rparr> (registered_blocks k1)\<rparr>;
                      Some (Some (NewStore, plh_idx + 1), k2,
                        save_to_lmcache k2 heap seq_hash block_local_hash metadata_parent_hash block_token_ids)
                    }
                  })
             })
      | PartialBlock uuid \<Rightarrow>
          (if hm_contains (active_partial k) uuid then Some (Some (ActiveHit, plh_idx), k, heap)
           else do {
             (ok, k1) \<leftarrow> reserve_one_slot E k;
             if \<not> ok then Some (None, k1, heap)
             else Some (Some (ActiveHit, plh_idx),
               k1\<lparr>active_partial := hm_insert uuid () (active_partial k1)\<rparr>, heap)
           }))"

text \<open>The local variables of \<open>process_use\<close> that the loop updates.\<close>

record use_acc =
  blocks_stored :: "u64 list"
  stored_local_hashes :: "u64 list"
  stored_token_ids :: "Tokens list option"
  parent_block :: "UniqueBlock option"
  metadata_parent :: "u64 option"
  plh_idx :: nat
  allocated :: nat

text \<open>The bookkeeping of the loop body after the \<open>match\<close>; \<open>idx\<close> is the index of a full block.\<close>

definition use_account :: "u64 list \<Rightarrow> Tokens list option \<Rightarrow> UniqueBlock \<Rightarrow> UseOutcome \<Rightarrow> nat \<Rightarrow> use_acc \<Rightarrow> use_acc run" where
  "use_account local_hashes token_ids block outcome idx acc = do {
     acc1 \<leftarrow>
       (case (outcome, block) of
          (NewStore, FullBlock seq_hash) \<Rightarrow> do {
            ids1 \<leftarrow> (case (stored_token_ids acc, token_ids) of
                (Some stids, Some ids) \<Rightarrow> do { i \<leftarrow> index_run ids idx; Some (Some (stids @ [i])) }
              | _ \<Rightarrow> Some (stored_token_ids acc));
            Some (acc\<lparr>blocks_stored := blocks_stored acc @ [seq_hash],
              stored_local_hashes := (case get_opt local_hashes idx of
                  Some lh \<Rightarrow> stored_local_hashes acc @ [lh] | None \<Rightarrow> stored_local_hashes acc),
              stored_token_ids := ids1\<rparr>)
          }
        | (NewStore, PartialBlock _) \<Rightarrow> Some acc
        | (_, FullBlock _) \<Rightarrow> Some (acc\<lparr>parent_block := Some block\<rparr>)
        | (_, PartialBlock _) \<Rightarrow> Some acc);
     Some (acc1\<lparr>metadata_parent := (case block of FullBlock h \<Rightarrow> Some h | PartialBlock _ \<Rightarrow> metadata_parent acc1),
       allocated := allocated acc1 + 1\<rparr>)
   }"

fun use_loop :: "build_env \<Rightarrow> u64 list \<Rightarrow> PositionalLineageHash list \<Rightarrow> Tokens list option \<Rightarrow> UniqueBlock list \<Rightarrow>
    use_acc \<Rightarrow> LocalVllmKvCache \<times> 'f lm_heap \<Rightarrow> (use_acc \<times> LocalVllmKvCache \<times> 'f lm_heap) run" where
  "use_loop E local_hashes block_plhs token_ids [] acc w = Some (acc, w)"
| "use_loop E local_hashes block_plhs token_ids (block # blocks) acc w = do {
     (r, w1) \<leftarrow> use_block E local_hashes block_plhs token_ids (metadata_parent acc) (plh_idx acc) block w;
     (case r of
        None \<Rightarrow> Some (acc, w1)
      | Some (outcome, idx') \<Rightarrow> do {
          acc1 \<leftarrow> use_account local_hashes token_ids block outcome (plh_idx acc) acc;
          use_loop E local_hashes block_plhs token_ids blocks (acc1\<lparr>plh_idx := idx'\<rparr>) w1
        })
   }"

definition full_parent :: "UniqueBlock option \<Rightarrow> u64 option run" where
  "full_parent parent = (case parent of
      None \<Rightarrow> Some None | Some (FullBlock block) \<Rightarrow> Some (Some block) | Some (PartialBlock _) \<Rightarrow> None)"

definition process_use :: "build_env \<Rightarrow> UniqueBlock list \<Rightarrow> u64 list \<Rightarrow> PositionalLineageHash list \<Rightarrow> Tokens list option \<Rightarrow>
    UniqueBlock option \<Rightarrow> LocalVllmKvCache \<times> 'f lm_heap \<Rightarrow> (nat \<times> LocalVllmKvCache \<times> 'f lm_heap) run" where
  "process_use E blocks local_hashes block_plhs token_ids parent w = do {
     let expected_full_blocks = length (filter is_full blocks);
     assert_run (length block_plhs = expected_full_blocks);
     assert_run (local_hashes = [] \<or> length local_hashes = expected_full_blocks);
     assert_run (case token_ids of None \<Rightarrow> True | Some ids \<Rightarrow> length ids = expected_full_blocks);
     metadata_parent_hash \<leftarrow> full_parent parent;
     (acc, k, heap) \<leftarrow> use_loop E local_hashes block_plhs token_ids blocks
       \<lparr>blocks_stored = [], stored_local_hashes = [], stored_token_ids = map_option (\<lambda>_. []) token_ids,
        parent_block = parent, metadata_parent = metadata_parent_hash, plh_idx = 0, allocated = 0\<rparr> w;
     parent_hash \<leftarrow> full_parent (parent_block acc);
     k1 \<leftarrow> publish_kv_event E k (blocks_stored acc) (stored_local_hashes acc) parent_hash True (stored_token_ids acc);
     Some (allocated acc, k1, heap)
   }"

definition deref_block :: "UniqueBlock \<Rightarrow> LocalVllmKvCache \<Rightarrow> LocalVllmKvCache run" where
  "deref_block block k =
     (case block of
        PartialBlock uuid \<Rightarrow>
          (if hm_contains (active_partial k) uuid
           then Some (k\<lparr>active_partial := hm_remove uuid (active_partial k)\<rparr>) else None)
      | FullBlock seq_hash \<Rightarrow>
          (case hm_get (active_full k) seq_hash of
             None \<Rightarrow> None
           | Some entry \<Rightarrow>
               if refcount entry = 0 then None
               else let entry1 = entry\<lparr>refcount := refcount entry - 1\<rparr> in
                 if refcount entry1 = 0
                 then Some (k\<lparr>active_full := hm_remove seq_hash (active_full k),
                   inactive := ec_insert (inactive k) (entry_plh entry1) seq_hash\<rparr>)
                 else Some (k\<lparr>active_full := hm_insert seq_hash entry1 (active_full k)\<rparr>)))"

fun process_deref :: "UniqueBlock list \<Rightarrow> LocalVllmKvCache \<Rightarrow> LocalVllmKvCache run" where
  "process_deref [] k = Some k"
| "process_deref (block # blocks) k = do { k1 \<leftarrow> deref_block block k; process_deref blocks k1 }"

text \<open>\<open>process_promote\<close> once the partial block is taken out: find or register the full block.\<close>

definition promote_full :: "build_env \<Rightarrow> u64 \<Rightarrow> u64 option \<Rightarrow> u64 \<Rightarrow> PositionalLineageHash \<Rightarrow> Tokens option \<Rightarrow>
    LocalVllmKvCache \<Rightarrow> 'f lm_heap \<Rightarrow> (LocalVllmKvCache \<times> 'f lm_heap) run" where
  "promote_full E seq_hash parent_hash local_hash plh token_ids k heap =
     (case hm_get (active_full k) seq_hash of
        Some entry \<Rightarrow> Some (k\<lparr>active_full :=
          hm_insert seq_hash (entry\<lparr>refcount := refcount entry + 1\<rparr>) (active_full k)\<rparr>, heap)
      | None \<Rightarrow>
          (case match_block (inactive k) plh of
             (Some _, inactive') \<Rightarrow> Some (k\<lparr>inactive := inactive',
               active_full := hm_insert seq_hash \<lparr>refcount = 1, entry_plh = plh\<rparr> (active_full k)\<rparr>, heap)
           | (None, inactive') \<Rightarrow> do {
               let k2 = k\<lparr>inactive := inactive',
                 active_full := hm_insert seq_hash \<lparr>refcount = 1, entry_plh = plh\<rparr> (active_full k),
                 registered_blocks := hm_insert plh \<lparr>ri_seq_hash = seq_hash, ri_parent_hash = parent_hash,
                   ri_local_hash = local_hash, ri_token_ids = token_ids\<rparr> (registered_blocks k)\<rparr>;
               k3 \<leftarrow> publish_kv_event E k2 [seq_hash] [local_hash] parent_hash True
                 (map_option (\<lambda>t. [t]) token_ids);
               Some (k3, save_to_lmcache k2 heap seq_hash local_hash parent_hash token_ids)
             }))"

definition process_promote :: "build_env \<Rightarrow> Uuid \<Rightarrow> u64 \<Rightarrow> u64 option \<Rightarrow> u64 \<Rightarrow> PositionalLineageHash \<Rightarrow> Tokens option \<Rightarrow>
    LocalVllmKvCache \<times> 'f lm_heap \<Rightarrow> (LocalVllmKvCache \<times> 'f lm_heap) run" where
  "process_promote E uuid seq_hash parent_hash local_hash plh token_ids = (\<lambda>(k, heap). do {
     assert_run (hm_contains (active_partial k) uuid);
     promote_full E seq_hash parent_hash local_hash plh token_ids
       (k\<lparr>active_partial := hm_remove uuid (active_partial k)\<rparr>) heap
   })"

definition process :: "build_env \<Rightarrow> MoveBlock \<Rightarrow> LocalVllmKvCache \<times> 'f lm_heap \<Rightarrow>
    (nat \<times> LocalVllmKvCache \<times> 'f lm_heap) run" where
  "process E event w =
     (case event of
        Use blocks local_hashes block_plhs token_ids parent \<Rightarrow>
          process_use E blocks local_hashes block_plhs token_ids parent w
      | Deref hashes \<Rightarrow> (case w of (k, heap) \<Rightarrow> do { k1 \<leftarrow> process_deref hashes k; Some (1, k1, heap) })
      | Promote uuid seq_hash parent_hash local_hash plh token_ids \<Rightarrow> do {
          w1 \<leftarrow> process_promote E uuid seq_hash parent_hash local_hash plh token_ids w;
          Some (1, w1)
        })"

section \<open>Prefill cost\<close>

record PrefillCost =
  new_blocks :: nat
  new_tokens :: nat
  cached_tokens :: nat

fun overlap_from :: "LocalVllmKvCache \<Rightarrow> 'f lm_heap \<Rightarrow> PositionalLineageHash list \<Rightarrow> nat \<Rightarrow> UniqueBlock list \<Rightarrow> nat" where
  "overlap_from k heap seq_plhs i [] = 0"
| "overlap_from k heap seq_plhs i (PartialBlock u # blocks) = 0"
| "overlap_from k heap seq_plhs i (FullBlock seq_hash # blocks) =
     (if hm_contains (active_full k) seq_hash then Suc (overlap_from k heap seq_plhs (Suc i) blocks)
      else if (case get_opt seq_plhs i of Some plh \<Rightarrow> hm_contains (registered_blocks k) plh | None \<Rightarrow> False)
      then Suc (overlap_from k heap seq_plhs (Suc i) blocks)
      else if (case kc_lmcache k of Some lm \<Rightarrow> contains_block (heap lm) seq_hash | None \<Rightarrow> False)
      then Suc (overlap_from k heap seq_plhs (Suc i) blocks)
      else 0)"

definition get_prefill_cost :: "LocalVllmKvCache \<Rightarrow> 'f lm_heap \<Rightarrow> ActiveSequence \<Rightarrow> PrefillCost" where
  "get_prefill_cost k heap sequence =
     (let seq_blocks = unique_blocks sequence;
          overlap_blocks = (if enable_prefix_caching sequence
            then overlap_from k heap (plhs sequence) 0 seq_blocks else 0);
          cached = min (overlap_blocks * kc_block_size k) (num_input_tokens sequence)
      in \<lparr>new_blocks = length seq_blocks - overlap_blocks,
          new_tokens = num_input_tokens sequence - cached, cached_tokens = cached\<rparr>)"


section \<open>The inactive pool is a queue\<close>

definition ec_wf :: "LocalEvictionCache \<Rightarrow> bool" where
  "ec_wf c = stamped_wf (ec_clock c) (ec_blocks c)"

definition ec_tick :: "LocalEvictionCache \<Rightarrow> PositionalLineageHash \<Rightarrow> nat option" where
  "ec_tick c = hm_tick (ec_blocks c)"

lemma ec_wf_hm: "ec_wf c \<Longrightarrow> hm_wf (ec_blocks c)"
  by (simp add: ec_wf_def)

lemma evict_lru_oldest: "map_option fst (fst (evict_lru c)) = oldest_key (ec_blocks c)"
  by (simp add: evict_lru_def oldest_key_def Let_def option.map_comp comp_def case_prod_beta)

interpretation lru: stamped_pool ec_wf ec_tick ec_insert "\<lambda>c plh. snd (match_block c plh)"
  "\<lambda>c. map_option fst (fst (evict_lru c))"
proof
  fix c plh seq_hash
  assume wf: "ec_wf c"
  show "ec_wf (ec_insert c plh seq_hash)" "ec_wf (snd (match_block c plh))"
    using wf by (simp_all add: ec_wf_def ec_insert_def match_block_def stamped_wf_insert)
  show "\<exists>t. ec_tick (ec_insert c plh seq_hash) = (ec_tick c)(plh \<mapsto> t) \<and>
      (\<forall>k' t'. ec_tick c k' = Some t' \<longrightarrow> t' < t)"
    using wf by (intro exI [of _ "Suc (ec_clock c)"])
      (auto simp: ec_wf_def ec_tick_def ec_insert_def stamped_wf_def less_Suc_eq_le)
  show "ec_tick (snd (match_block c plh)) = (ec_tick c)(plh := None)"
    by (simp add: ec_tick_def match_block_def)
  show "(map_option fst (fst (evict_lru c)) = None) = (dom (ec_tick c) = {})"
    unfolding evict_lru_oldest by (simp add: oldest_key_None ec_tick_def hm_tick_dom)
next
  fix c plh
  assume "ec_wf c" "map_option fst (fst (evict_lru c)) = Some plh"
  then show "\<exists>t. ec_tick c plh = Some t \<and> (\<forall>k' t'. ec_tick c k' = Some t' \<longrightarrow> k' \<noteq> plh \<longrightarrow> t < t')"
    using oldest_key_Some unfolding evict_lru_oldest by (fastforce simp: ec_wf_def ec_tick_def)
qed

lemma evict_lru_Some:
  assumes wf: "ec_wf c" and v: "evict_lru c = (Some (plh, h), c')"
  shows "\<exists>t. hm_get (ec_blocks c) plh = Some (t, h)" and "c' = snd (match_block c plh)" and "ec_len c \<noteq> 0"
    and "ec_wf c'" and "ec_len c' = ec_len c - 1" and "map_option fst (fst (evict_lru c)) = Some plh"
proof -
  obtain t where m: "min_by_key (fst \<circ> snd) (ec_blocks c) = Some (plh, t, h)"
    using v by (auto simp: evict_lru_def Let_def)
  then have mem: "(plh, t, h) \<in> set (ec_blocks c)" using min_by_key_Some by fastforce
  then have get: "hm_get (ec_blocks c) plh = Some (t, h)" using hm_in_set [OF ec_wf_hm [OF wf]] by blast
  then show "\<exists>t. hm_get (ec_blocks c) plh = Some (t, h)" by blast
  show c': "c' = snd (match_block c plh)" using v m by (simp add: evict_lru_def Let_def match_block_def)
  show "ec_len c \<noteq> 0" using mem by (auto simp: ec_len_def hm_len_def)
  show "ec_wf c'" unfolding c' using lru.del_wf [OF wf] .
  show "ec_len c' = ec_len c - 1"
    using get by (simp add: c' match_block_def ec_len_def hm_len_remove [OF ec_wf_hm [OF wf]] hm_contains_get)
  show "map_option fst (fst (evict_lru c)) = Some plh" using v by simp
qed

lemma evict_lru_None: "evict_lru c = (None, c') \<Longrightarrow> c' = c \<and> ec_blocks c = []"
  by (auto simp: evict_lru_def Let_def)

section \<open>The invariant of the cache\<close>

definition full_refs :: "LocalVllmKvCache \<Rightarrow> u64 \<Rightarrow> nat" where
  "full_refs k h = (case hm_get (active_full k) h of None \<Rightarrow> 0 | Some e \<Rightarrow> refcount e)"

definition kc_inv :: "LocalVllmKvCache \<Rightarrow> bool" where
  "kc_inv k = (hm_wf (active_partial k) \<and> hm_wf (active_full k) \<and> ec_wf (inactive k) \<and>
     (\<forall>h e. hm_get (active_full k) h = Some e \<longrightarrow> refcount e \<noteq> 0) \<and> used_slots k \<le> max_capacity k)"

text \<open>What is held by running requests.\<close>

definition holds :: "LocalVllmKvCache \<Rightarrow> UniqueBlock \<Rightarrow> bool" where
  "holds k b = (case b of FullBlock h \<Rightarrow> hm_contains (active_full k) h | PartialBlock u \<Rightarrow> hm_contains (active_partial k) u)"

lemma full_refs_0: "kc_inv k \<Longrightarrow> (full_refs k h = 0) = (\<not> holds k (FullBlock h))"
  by (auto simp: full_refs_def kc_inv_def holds_def hm_contains_get split: option.splits)

lemma publish_fields:
  "publish_kv_event E k bs hs p s ids = Some k' \<Longrightarrow> \<exists>n evs. k' = k\<lparr>next_event_id := n, published := evs\<rparr>"
proof -
  assume "publish_kv_event E k bs hs p s ids = Some k'"
  then consider "k' = k" | n evs where "k' = k\<lparr>next_event_id := n, published := evs\<rparr>"
    by (auto simp: publish_kv_event_def run_simps Let_def split: if_splits)
  then show ?thesis
  proof cases
    case 1
    then have "k' = k\<lparr>next_event_id := next_event_id k, published := published k\<rparr>" by simp
    then show ?thesis by blast
  qed blast
qed

lemma publish_returns:
  "\<not> s \<or> hs = [] \<or> length hs = length bs \<Longrightarrow> \<exists>k'. publish_kv_event E k bs hs p s ids = Some k'"
  by (auto simp: publish_kv_event_def build_stored_event_data_def)

lemma event_fields [simp]:
  "kc_inv (k\<lparr>next_event_id := n, published := evs\<rparr>) = kc_inv k"
  "used_slots (k\<lparr>next_event_id := n, published := evs\<rparr>) = used_slots k"
  "full_refs (k\<lparr>next_event_id := n, published := evs\<rparr>) = full_refs k"
  by (simp_all add: kc_inv_def used_slots_def full_refs_def fun_eq_iff)

lemma reserve_one_slot_ok:
  assumes inv: "kc_inv k"
  shows "\<exists>ok k'. reserve_one_slot E k = Some (ok, k') \<and> kc_inv k' \<and>
    active_full k' = active_full k \<and> active_partial k' = active_partial k \<and> max_capacity k' = max_capacity k \<and>
    kc_lmcache k' = kc_lmcache k \<and>
    (if ok then used_slots k' < max_capacity k'
     else k' = k \<and> ec_blocks (inactive k) = [] \<and> used_slots k = max_capacity k)"
proof (cases "used_slots k < max_capacity k")
  case True
  then show ?thesis using inv by (intro exI [of _ True] exI [of _ k]) (simp add: reserve_one_slot_def)
next
  case full: False
  then have used: "used_slots k = max_capacity k" using inv by (simp add: kc_inv_def)
  obtain v c' where ev: "evict_lru (inactive k) = (v, c')" by fastforce
  show ?thesis
  proof (cases v)
    case None
    then show ?thesis
      using full used inv ev evict_lru_None [of "inactive k" c']
      by (intro exI [of _ False] exI [of _ k]) (simp add: reserve_one_slot_def)
  next
    case (Some x)
    obtain plh h where x: "x = (plh, h)" by fastforce
    have wf: "ec_wf (inactive k)" using inv by (simp add: kc_inv_def)
    have ev': "evict_lru (inactive k) = (Some (plh, h), c')" using ev Some x by simp
    note lru = evict_lru_Some [OF wf ev']
    define k1 where "k1 = k\<lparr>inactive := c', registered_blocks := hm_remove plh (registered_blocks k)\<rparr>"
    obtain k2 where pub: "publish_kv_event E k1 [h] [] None False None = Some k2"
      using publish_returns [of False "[]" "[h]" E k1] by auto
    obtain n evs where k2: "k2 = k1\<lparr>next_event_id := n, published := evs\<rparr>"
      using publish_fields [OF pub] by blast
    have "used_slots k1 < max_capacity k1"
      using used lru(3,5) by (simp add: used_slots_def k1_def)
    moreover have "kc_inv k1"
      using inv lru(4) calculation by (simp add: kc_inv_def k1_def)
    ultimately show ?thesis
      using full pub k2 ev' by (intro exI [of _ True] exI [of _ k2])
        (simp add: reserve_one_slot_def k1_def)
  qed
qed


section \<open>Use\<close>

text \<open>What one use adds: a reference to a full block, presence of a partial one.\<close>

definition used_by :: "LocalVllmKvCache \<Rightarrow> UniqueBlock \<Rightarrow> LocalVllmKvCache \<Rightarrow> bool" where
  "used_by k b k' = ((\<forall>h. full_refs k' h = full_refs k h + (if b = FullBlock h then 1 else 0)) \<and>
     (\<forall>u. hm_contains (active_partial k') u = (hm_contains (active_partial k) u \<or> b = PartialBlock u)))"

lemma used_slots_activate:
  assumes "hm_wf (active_full k)" "hm_get (active_full k) h = None"
  shows "used_slots (k\<lparr>active_full := hm_insert h e (active_full k)\<rparr>) = Suc (used_slots k)"
  using assms by (simp add: used_slots_def hm_len_insert hm_contains_get)

lemma match_block_Some:
  assumes "ec_wf c" "match_block c plh = (Some h, c')"
  shows "ec_wf c'" "Suc (ec_len c') = ec_len c" "\<exists>t. hm_get (ec_blocks c) plh = Some (t, h)"
proof -
  have c': "c' = snd (match_block c plh)" using assms(2) by simp
  show "ec_wf c'" using lru.del_wf [OF assms(1)] c' by simp
  show get: "\<exists>t. hm_get (ec_blocks c) plh = Some (t, h)" using assms(2) by (auto simp: match_block_def)
  then have "ec_len c' = ec_len c - 1" "ec_blocks c \<noteq> []"
    using c' by (auto simp: match_block_def ec_len_def hm_len_remove [OF ec_wf_hm [OF assms(1)]] hm_contains_get)
  then show "Suc (ec_len c') = ec_len c" by (cases "ec_blocks c") (simp_all add: ec_len_def hm_len_def)
qed

lemma match_block_None: "match_block c plh = (None, c') \<Longrightarrow> c' = c \<and> hm_get (ec_blocks c) plh = None"
proof -
  assume m: "match_block c plh = (None, c')"
  then have none: "hm_get (ec_blocks c) plh = None" by (auto simp: match_block_def)
  then have "hm_remove plh (ec_blocks c) = ec_blocks c" by (simp add: hm_get_keys hm_remove_def)
  then show ?thesis using m none by (auto simp: match_block_def)
qed

lemma activate_ok:
  assumes inv: "kc_inv k" and room: "used_slots k < max_capacity k" and free: "hm_get (active_full k) h = None"
  shows "kc_inv (k\<lparr>active_full := hm_insert h \<lparr>refcount = 1, entry_plh = plh\<rparr> (active_full k)\<rparr>)"
    and "used_by k (FullBlock h) (k\<lparr>active_full := hm_insert h \<lparr>refcount = 1, entry_plh = plh\<rparr> (active_full k)\<rparr>)"
  using inv room free used_slots_activate [of k h]
  by (auto simp: kc_inv_def used_by_def full_refs_def split: if_splits)

lemma reactivate_ok:
  assumes inv: "kc_inv k" and m: "match_block (inactive k) plh = (Some x, c')" and free: "hm_get (active_full k) h = None"
  defines "k' \<equiv> k\<lparr>inactive := c', active_full := hm_insert h \<lparr>refcount = 1, entry_plh = plh\<rparr> (active_full k)\<rparr>"
  shows "kc_inv k'" and "used_by k (FullBlock h) k'"
proof -
  have wf: "ec_wf (inactive k)" using inv by (simp add: kc_inv_def)
  have "used_slots k' = used_slots k"
    using match_block_Some(2) [OF wf m] inv free
    by (simp add: k'_def used_slots_def hm_len_insert hm_contains_get kc_inv_def)
  then show "kc_inv k'" "used_by k (FullBlock h) k'"
    using inv match_block_Some(1) [OF wf m] free
    by (auto simp: k'_def kc_inv_def used_by_def full_refs_def split: if_splits)
qed

lemma add_ref_ok:
  assumes inv: "kc_inv k" and e: "hm_get (active_full k) h = Some e"
  defines "k' \<equiv> k\<lparr>active_full := hm_insert h (e\<lparr>refcount := refcount e + 1\<rparr>) (active_full k)\<rparr>"
  shows "kc_inv k'" and "used_by k (FullBlock h) k'"
proof -
  have "used_slots k' = used_slots k"
    using inv e by (simp add: k'_def used_slots_def hm_len_insert hm_contains_get kc_inv_def)
  then show "kc_inv k'" "used_by k (FullBlock h) k'"
    using inv e by (auto simp: k'_def kc_inv_def used_by_def full_refs_def split: if_splits)
qed

definition next_idx :: "UniqueBlock \<Rightarrow> nat \<Rightarrow> nat" where
  "next_idx b idx = (if is_full b then idx + 1 else idx)"

lemma use_block_ok:
  assumes inv: "kc_inv k" and idx: "is_full b \<Longrightarrow> idx < length ps"
  shows "\<exists>r k' heap'. use_block E hs ps ids mp idx b (k, heap) = Some (r, k', heap') \<and> kc_inv k' \<and>
    max_capacity k' = max_capacity k \<and>
    (case r of
       None \<Rightarrow> k' = k \<and> heap' = heap \<and> ec_blocks (inactive k) = [] \<and> used_slots k = max_capacity k \<and> \<not> holds k b
     | Some (outcome, idx') \<Rightarrow> used_by k b k' \<and> idx' = next_idx b idx \<and> (outcome = NewStore \<longrightarrow> is_full b))"
proof (cases b)
  case (FullBlock h)
  show ?thesis
  proof (cases "hm_get (active_full k) h")
    case (Some e)
    then show ?thesis
      using add_ref_ok [OF inv Some] FullBlock by (simp add: use_block_def next_idx_def)
  next
    case None
    obtain plh where plh: "index_run ps idx = Some plh" using idx FullBlock by (simp add: index_run_def)
    obtain x c' where m: "match_block (inactive k) plh = (x, c')" by fastforce
    show ?thesis
    proof (cases x)
      case (Some y)
      then show ?thesis
        using reactivate_ok [OF inv m [unfolded Some] None] FullBlock None plh m
        by (simp add: use_block_def next_idx_def)
    next
      case none: None
      then have c': "c' = inactive k" using match_block_None m by blast
      obtain ok k1 where r: "reserve_one_slot E k = Some (ok, k1)" and k1: "kc_inv k1"
        "active_full k1 = active_full k" "active_partial k1 = active_partial k" "max_capacity k1 = max_capacity k"
        "if ok then used_slots k1 < max_capacity k1
         else k1 = k \<and> ec_blocks (inactive k) = [] \<and> used_slots k = max_capacity k"
        using reserve_one_slot_ok [OF inv] by blast
      have unfold: "use_block E hs ps ids mp idx b (k, heap) = (if \<not> ok then Some (None, k1, heap)
          else let lh = unwrap_or 0 (get_opt hs idx); tids = Option.bind ids (\<lambda>ids. get_opt ids idx);
            k2 = k1\<lparr>active_full := hm_insert h \<lparr>refcount = 1, entry_plh = plh\<rparr> (active_full k1),
              registered_blocks := hm_insert plh \<lparr>ri_seq_hash = h, ri_parent_hash = mp, ri_local_hash = lh,
                ri_token_ids = tids\<rparr> (registered_blocks k1)\<rparr>
          in Some (Some (NewStore, idx + 1), k2, save_to_lmcache k2 heap h lh mp tids))"
        using FullBlock None plh m none c' r by (simp add: use_block_def)
      show ?thesis
      proof (cases ok)
        case False
        then show ?thesis
          using unfold k1(1,4,5) None FullBlock by (simp add: holds_def hm_contains_get)
      next
        case True
        then have room: "used_slots k1 < max_capacity k1" and free: "hm_get (active_full k1) h = None"
          using k1 None by simp_all
        note act = activate_ok [OF k1(1) room free, of plh]
        have reg: "kc_inv (k\<lparr>registered_blocks := rs\<rparr>) = kc_inv k"
          "used_by k0 b0 (k\<lparr>registered_blocks := rs\<rparr>) = used_by k0 b0 k" for k k0 b0 rs
          by (simp_all add: kc_inv_def used_by_def full_refs_def used_slots_def)
        have "used_by k0 (FullBlock h) k2 \<Longrightarrow> used_by k (FullBlock h) k2" if "k0 = k1" for k0 k2
          using that k1(2,3) by (simp add: used_by_def full_refs_def)
        then show ?thesis
          using True unfold act FullBlock k1(4) reg by (simp add: Let_def next_idx_def)
      qed
    qed
  qed
next
  case (PartialBlock u)
  show ?thesis
  proof (cases "hm_contains (active_partial k) u")
    case True
    then show ?thesis using inv PartialBlock by (auto simp: use_block_def used_by_def next_idx_def)
  next
    case False
    obtain ok k1 where r: "reserve_one_slot E k = Some (ok, k1)" and k1: "kc_inv k1"
      "active_full k1 = active_full k" "active_partial k1 = active_partial k" "max_capacity k1 = max_capacity k"
      "if ok then used_slots k1 < max_capacity k1
       else k1 = k \<and> ec_blocks (inactive k) = [] \<and> used_slots k = max_capacity k"
      using reserve_one_slot_ok [OF inv] by blast
    define k2 where "k2 = k1\<lparr>active_partial := hm_insert u () (active_partial k1)\<rparr>"
    have "kc_inv k2" if ok
      using that k1 False by (auto simp: k2_def kc_inv_def used_slots_def hm_len_insert)
    moreover have "used_by k b k2"
      using k1(2,3) PartialBlock by (auto simp: k2_def used_by_def full_refs_def hm_contains_get)
    ultimately show ?thesis
      using False r k1 PartialBlock
      by (cases ok) (auto simp: use_block_def k2_def holds_def next_idx_def)
  qed
qed


text \<open>
  The accumulators between two rounds: hashes are collected for all new blocks or for none, and the
  parent is never partial.
\<close>

definition acc_ok :: "u64 list \<Rightarrow> Tokens list option \<Rightarrow> use_acc \<Rightarrow> bool" where
  "acc_ok hs ids acc = (
     (if hs = [] then stored_local_hashes acc = [] else length (stored_local_hashes acc) = length (blocks_stored acc)) \<and>
     (stored_token_ids acc = None \<longleftrightarrow> ids = None) \<and>
     (case parent_block acc of None \<Rightarrow> True | Some b \<Rightarrow> is_full b))"

lemma use_account_ok:
  assumes acc: "acc_ok hs ids acc" and new: "outcome = NewStore \<Longrightarrow> is_full b"
    and hs: "is_full b \<Longrightarrow> hs \<noteq> [] \<Longrightarrow> idx < length hs"
    and ids: "is_full b \<Longrightarrow> (case ids of None \<Rightarrow> True | Some xs \<Rightarrow> idx < length xs)"
  shows "\<exists>acc'. use_account hs ids b outcome idx acc = Some acc' \<and> acc_ok hs ids acc' \<and>
    allocated acc' = allocated acc + 1 \<and> plh_idx acc' = plh_idx acc \<and>
    blocks_stored acc' = blocks_stored acc @ (case b of FullBlock h \<Rightarrow> if outcome = NewStore then [h] else [] | _ \<Rightarrow> [])"
proof (cases "outcome = NewStore")
  case True
  then obtain h where h: "b = FullBlock h" using new by (cases b) auto
  have "hs = [] \<or> get_opt hs idx = Some (hs ! idx)" using hs h by (auto simp: get_opt_def)
  moreover have "hs = [] \<Longrightarrow> get_opt hs idx = None" by (simp add: get_opt_def)
  ultimately show ?thesis
    using True h acc ids by (cases ids) (auto simp: use_account_def acc_ok_def index_run_def)
next
  case False
  then show ?thesis
    using acc by (cases outcome; cases b) (auto simp: use_account_def acc_ok_def)
qed

text \<open>What a run of the loop over \<open>blocks\<close> does when it gets through the first \<open>n\<close> of them.\<close>

definition use_result :: "LocalVllmKvCache \<Rightarrow> UniqueBlock list \<Rightarrow> LocalVllmKvCache \<Rightarrow> bool" where
  "use_result k used k' = (
     (\<forall>h. full_refs k' h = full_refs k h + count_list used (FullBlock h)) \<and>
     (\<forall>u. hm_contains (active_partial k') u = (hm_contains (active_partial k) u \<or> PartialBlock u \<in> set used)))"

lemma use_result_Cons: "used_by k b k1 \<Longrightarrow> use_result k1 bs k' \<Longrightarrow> use_result k (b # bs) k'"
  by (auto simp: use_result_def used_by_def)

lemma use_loop_ok:
  assumes "kc_inv k" and "acc_ok hs ids acc"
    and "plh_idx acc + length (filter is_full blocks) = length ps"
    and "hs = [] \<or> length hs = length ps"
    and "case ids of None \<Rightarrow> True | Some xs \<Rightarrow> length xs = length ps"
  shows "\<exists>acc' k' heap' n. use_loop E hs ps ids blocks acc (k, heap) = Some (acc', k', heap') \<and>
    kc_inv k' \<and> acc_ok hs ids acc' \<and> max_capacity k' = max_capacity k \<and>
    n \<le> length blocks \<and> allocated acc' = allocated acc + n \<and> use_result k (take n blocks) k' \<and>
    (n < length blocks \<longrightarrow> ec_blocks (inactive k') = [] \<and> used_slots k' = max_capacity k' \<and>
      \<not> holds k' (blocks ! n))"
  using assms
proof (induction blocks arbitrary: acc k heap)
  case Nil
  then show ?case by (simp add: use_result_def)
next
  case (Cons b blocks)
  have idx: "is_full b \<Longrightarrow> plh_idx acc < length ps" using Cons.prems(3) by auto
  obtain r k1 heap1 where ub: "use_block E hs ps ids (metadata_parent acc) (plh_idx acc) b (k, heap)
      = Some (r, k1, heap1)" and k1: "kc_inv k1" "max_capacity k1 = max_capacity k"
    and res: "case r of
       None \<Rightarrow> k1 = k \<and> heap1 = heap \<and> ec_blocks (inactive k) = [] \<and> used_slots k = max_capacity k \<and> \<not> holds k b
     | Some (outcome, idx') \<Rightarrow> used_by k b k1 \<and> idx' = next_idx b (plh_idx acc) \<and> (outcome = NewStore \<longrightarrow> is_full b)"
    using use_block_ok [OF Cons.prems(1) idx] by blast
  show ?case
  proof (cases r)
    case None
    then show ?thesis
      using ub res Cons.prems by (intro exI [of _ acc] exI [of _ k] exI [of _ heap] exI [of _ 0])
        (simp add: use_result_def)
  next
    case (Some x)
    obtain outcome idx' where x: "x = (outcome, idx')" by fastforce
    have u: "used_by k b k1" "idx' = next_idx b (plh_idx acc)" "outcome = NewStore \<longrightarrow> is_full b"
      using res Some x by simp_all
    obtain acc1 where ac: "use_account hs ids b outcome (plh_idx acc) acc = Some acc1" "acc_ok hs ids acc1"
      "allocated acc1 = allocated acc + 1" "plh_idx acc1 = plh_idx acc"
      using use_account_ok [OF Cons.prems(2), of outcome b "plh_idx acc"] u(3) idx Cons.prems(4,5)
      by (auto split: option.splits)
    let ?acc2 = "acc1\<lparr>plh_idx := idx'\<rparr>"
    have "acc_ok hs ids ?acc2" "plh_idx ?acc2 + length (filter is_full blocks) = length ps"
      using ac Cons.prems(3) u(2) by (simp_all add: acc_ok_def next_idx_def split: if_splits)
    then obtain acc' k' heap' n where
      loop: "use_loop E hs ps ids blocks ?acc2 (k1, heap1) = Some (acc', k', heap')"
      and k': "kc_inv k'" "acc_ok hs ids acc'" "max_capacity k' = max_capacity k1" "n \<le> length blocks"
        "allocated acc' = allocated ?acc2 + n" "use_result k1 (take n blocks) k'"
        "n < length blocks \<longrightarrow> ec_blocks (inactive k') = [] \<and> used_slots k' = max_capacity k' \<and>
          \<not> holds k' (blocks ! n)"
      using Cons.IH [OF k1(1), of ?acc2 heap1] Cons.prems(4,5) by blast
    have "use_result k (take (Suc n) (b # blocks)) k'"
      using use_result_Cons [OF u(1) k'(6)] by simp
    then show ?thesis
      using ub Some x ac loop k' k1(2)
      by (intro exI [of _ acc'] exI [of _ k'] exI [of _ heap'] exI [of _ "Suc n"]) simp
  qed
qed

lemma process_use_ok:
  assumes inv: "kc_inv k" and ok: "move_ok (Use blocks hs ps ids parent)"
  shows "\<exists>n k' heap'. process_use E blocks hs ps ids parent (k, heap) = Some (n, k', heap') \<and> kc_inv k' \<and>
    max_capacity k' = max_capacity k \<and> n \<le> length blocks \<and> use_result k (take n blocks) k' \<and>
    (n < length blocks \<longrightarrow> num_inactive_blocks k' = 0 \<and> num_active_blocks k' = max_capacity k' \<and>
      \<not> holds k' (blocks ! n))"
proof -
  let ?c = "length (filter is_full blocks)"
  have ok': "length ps = ?c" "hs = [] \<or> length hs = ?c"
    "case ids of None \<Rightarrow> True | Some xs \<Rightarrow> length xs = ?c"
    "case parent of None \<Rightarrow> True | Some b \<Rightarrow> is_full b"
    using ok by (simp_all split: option.splits)
  have par: "\<exists>mp. full_parent q = Some mp" if "case q of None \<Rightarrow> True | Some b \<Rightarrow> is_full b" for q
    using that by (auto simp: full_parent_def split: option.splits UniqueBlock.splits)
  obtain mp where mp: "full_parent parent = Some mp" using par ok'(4) by blast
  let ?acc = "\<lparr>blocks_stored = [], stored_local_hashes = [], stored_token_ids = map_option (\<lambda>_. []) ids,
    parent_block = parent, metadata_parent = mp, plh_idx = 0, allocated = 0\<rparr>"
  have acc0: "acc_ok hs ids ?acc" using ok'(4) by (simp add: acc_ok_def)
  have pre: "plh_idx ?acc + length (filter is_full blocks) = length ps" "hs = [] \<or> length hs = length ps"
    "case ids of None \<Rightarrow> True | Some xs \<Rightarrow> length xs = length ps"
    unfolding ok'(1) using ok'(2,3) by simp_all
  obtain acc k' heap' n where
    loop: "use_loop E hs ps ids blocks ?acc (k, heap) = Some (acc, k', heap')"
    and k': "kc_inv k'" "acc_ok hs ids acc" "max_capacity k' = max_capacity k" "n \<le> length blocks"
      "allocated acc = allocated ?acc + n" "use_result k (take n blocks) k'"
      "n < length blocks \<longrightarrow> ec_blocks (inactive k') = [] \<and> used_slots k' = max_capacity k' \<and> \<not> holds k' (blocks ! n)"
    using use_loop_ok [OF inv acc0 pre, of E heap] by blast
  obtain ph where ph: "full_parent (parent_block acc) = Some ph"
    using par [of "parent_block acc"] k'(2) by (auto simp: acc_ok_def)
  obtain k'' where pub: "publish_kv_event E k' (blocks_stored acc) (stored_local_hashes acc) ph True
      (stored_token_ids acc) = Some k''"
  proof -
    have "\<not> True \<or> stored_local_hashes acc = [] \<or> length (stored_local_hashes acc) = length (blocks_stored acc)"
      using k'(2) by (auto simp: acc_ok_def split: if_splits)
    then show thesis using that publish_returns by blast
  qed
  obtain m evs where k'': "k'' = k'\<lparr>next_event_id := m, published := evs\<rparr>" using publish_fields [OF pub] by blast
  have "process_use E blocks hs ps ids parent (k, heap) = Some (n, k'', heap')"
    using ok' mp loop ph pub k'(5) by (simp add: process_use_def)
  moreover have "n < length blocks \<longrightarrow> num_inactive_blocks k'' = 0 \<and> num_active_blocks k'' = max_capacity k'' \<and>
      \<not> holds k'' (blocks ! n)"
    using k'(7) by (auto simp: k'' num_inactive_blocks_def num_active_blocks_def used_slots_def ec_len_def hm_len_def
        holds_def split: UniqueBlock.splits)
  moreover have "use_result k (take n blocks) k''"
    using k'(6) by (simp add: k'' use_result_def)
  ultimately show ?thesis using k' k'' by auto
qed


section \<open>Deref and Promote\<close>

lemma deref_block_None: "\<not> holds k b \<Longrightarrow> deref_block b k = None"
  by (cases b) (auto simp: deref_block_def holds_def hm_contains_get)

lemma deref_block_ok:
  assumes inv: "kc_inv k" and held: "holds k b"
  shows "\<exists>k'. deref_block b k = Some k' \<and> kc_inv k' \<and> max_capacity k' = max_capacity k \<and>
    (\<forall>h. full_refs k' h = full_refs k h - (if b = FullBlock h then 1 else 0)) \<and>
    (\<forall>u. hm_contains (active_partial k') u = (hm_contains (active_partial k) u \<and> b \<noteq> PartialBlock u))"
proof (cases b)
  case (PartialBlock u)
  then have "hm_contains (active_partial k) u" using held by (simp add: holds_def)
  then show ?thesis
    using inv PartialBlock
    by (auto simp: deref_block_def kc_inv_def used_slots_def hm_len_remove full_refs_def hm_contains_get)
next
  case (FullBlock h)
  then obtain e where e: "hm_get (active_full k) h = Some e" using held by (auto simp: holds_def hm_contains_get)
  have ne: "refcount e \<noteq> 0" and wf: "hm_wf (active_full k)" "ec_wf (inactive k)"
    using inv e by (auto simp: kc_inv_def)
  have pos: "0 < hm_len (active_full k)" using e by (cases "active_full k") (auto simp: hm_len_def)
  show ?thesis
  proof (cases "refcount e = 1")
    case True
    define k' where "k' = k\<lparr>active_full := hm_remove h (active_full k),
      inactive := ec_insert (inactive k) (entry_plh e) h\<rparr>"
    have "ec_len (ec_insert (inactive k) (entry_plh e) h) \<le> Suc (ec_len (inactive k))"
      using ec_wf_hm [OF wf(2)] by (simp add: ec_insert_def ec_len_def hm_len_insert)
    then have "used_slots k' \<le> used_slots k"
      using e wf(1) pos by (simp add: k'_def used_slots_def hm_len_remove hm_contains_get del: hm_len_0)
    then have "kc_inv k'"
      using inv lru.add_wf [OF wf(2)] by (auto simp: k'_def kc_inv_def split: if_splits)
    moreover have "deref_block b k = Some k'" using FullBlock e True by (simp add: deref_block_def k'_def)
    ultimately show ?thesis
      using FullBlock e True by (auto simp: k'_def full_refs_def)
  next
    case False
    define k' where "k' = k\<lparr>active_full := hm_insert h (e\<lparr>refcount := refcount e - 1\<rparr>) (active_full k)\<rparr>"
    have "used_slots k' = used_slots k"
      using e wf(1) by (simp add: k'_def used_slots_def hm_len_insert hm_contains_get)
    then have "kc_inv k'"
      using inv ne False by (auto simp: k'_def kc_inv_def split: if_splits)
    moreover have "deref_block b k = Some k'"
      using FullBlock e ne False by (simp add: deref_block_def k'_def)
    ultimately show ?thesis
      using FullBlock e by (auto simp: k'_def full_refs_def)
  qed
qed

text \<open>A list of releases that are covered by references held.\<close>

definition releasable :: "LocalVllmKvCache \<Rightarrow> UniqueBlock list \<Rightarrow> bool" where
  "releasable k bs = ((\<forall>h. count_list bs (FullBlock h) \<le> full_refs k h) \<and>
     (\<forall>u. count_list bs (PartialBlock u) \<le> (if hm_contains (active_partial k) u then 1 else 0)))"

lemma process_deref_ok:
  assumes "kc_inv k" and "releasable k bs"
  shows "\<exists>k'. process_deref bs k = Some k' \<and> kc_inv k' \<and> max_capacity k' = max_capacity k \<and>
    (\<forall>h. full_refs k' h = full_refs k h - count_list bs (FullBlock h)) \<and>
    (\<forall>u. hm_contains (active_partial k') u = (hm_contains (active_partial k) u \<and> PartialBlock u \<notin> set bs))"
  using assms
proof (induction bs arbitrary: k)
  case Nil
  then show ?case by simp
next
  case (Cons b bs)
  have held: "holds k b"
  proof (cases b)
    case (FullBlock h)
    then have "full_refs k h \<noteq> 0" using Cons.prems(2) by (auto simp: releasable_def dest!: spec [of _ h])
    then show ?thesis using full_refs_0 [OF Cons.prems(1)] FullBlock by simp
  next
    case (PartialBlock u)
    then show ?thesis
      using Cons.prems(2) by (auto simp: releasable_def holds_def dest!: spec [of _ u] split: if_splits)
  qed
  obtain k1 where k1: "deref_block b k = Some k1" "kc_inv k1" "max_capacity k1 = max_capacity k"
    "\<forall>h. full_refs k1 h = full_refs k h - (if b = FullBlock h then 1 else 0)"
    "\<forall>u. hm_contains (active_partial k1) u = (hm_contains (active_partial k) u \<and> b \<noteq> PartialBlock u)"
    using deref_block_ok [OF Cons.prems(1) held] by (elim exE conjE) (rule that)
  have "releasable k1 bs"
    unfolding releasable_def
  proof (intro conjI allI)
    fix h
    have "count_list (b # bs) (FullBlock h) \<le> full_refs k h" using Cons.prems(2) by (simp add: releasable_def)
    then show "count_list bs (FullBlock h) \<le> full_refs k1 h" unfolding k1(4) [rule_format] by (auto split: if_splits)
  next
    fix u
    have "count_list (b # bs) (PartialBlock u) \<le> (if hm_contains (active_partial k) u then 1 else 0)"
      using Cons.prems(2) by (simp only: releasable_def)
    then show "count_list bs (PartialBlock u) \<le> (if hm_contains (active_partial k1) u then 1 else 0)"
      unfolding k1(5) [rule_format] by (auto split: if_splits)
  qed
  then obtain k' where "process_deref bs k1 = Some k'" "kc_inv k'" "max_capacity k' = max_capacity k1"
    "\<forall>h. full_refs k' h = full_refs k1 h - count_list bs (FullBlock h)"
    "\<forall>u. hm_contains (active_partial k') u = (hm_contains (active_partial k1) u \<and> PartialBlock u \<notin> set bs)"
    using Cons.IH [OF k1(2)] by blast
  then show ?case using k1 by (intro exI [of _ k']) auto
qed

lemma process_deref_inv:
  assumes "kc_inv k" and "process_deref bs k = Some k'"
  shows "kc_inv k' \<and> max_capacity k' = max_capacity k"
  using assms
proof (induction bs arbitrary: k)
  case Nil
  then show ?case by simp
next
  case (Cons b bs)
  obtain k1 where k1: "deref_block b k = Some k1" "process_deref bs k1 = Some k'"
    using Cons.prems(2) by (auto simp: run_simps)
  then have "holds k b" using deref_block_None by fastforce
  then have "kc_inv k1" "max_capacity k1 = max_capacity k"
    using deref_block_ok [OF Cons.prems(1)] k1(1) by fastforce+
  then show ?case using k1(2) Cons.IH [of k1] by simp
qed

lemma process_promote_ok:
  assumes inv: "kc_inv k" and u: "hm_contains (active_partial k) u"
  shows "\<exists>k' heap'. process_promote E u h p lh plh ids (k, heap) = Some (k', heap') \<and> kc_inv k' \<and>
    max_capacity k' = max_capacity k \<and>
    (\<forall>h'. full_refs k' h' = full_refs k h' + (if h' = h then 1 else 0)) \<and>
    (\<forall>u'. hm_contains (active_partial k') u' = (hm_contains (active_partial k) u' \<and> u' \<noteq> u))"
proof -
  define k1 where "k1 = k\<lparr>active_partial := hm_remove u (active_partial k)\<rparr>"
  have wf: "hm_wf (active_partial k)" "0 < hm_len (active_partial k)" "active_full k1 = active_full k"
    "inactive k1 = inactive k" "max_capacity k1 = max_capacity k"
    using inv u by (cases "active_partial k"; auto simp: kc_inv_def hm_contains_def k1_def hm_len_def)+
  have room: "used_slots k1 < max_capacity k1" and inv1: "kc_inv k1"
    using inv u wf(1,2) by (auto simp: k1_def kc_inv_def used_slots_def hm_len_remove)
  have part: "\<forall>u'. hm_contains (active_partial k1) u' = (hm_contains (active_partial k) u' \<and> u' \<noteq> u)"
    by (auto simp: k1_def hm_contains_get)
  have refs: "full_refs k1 = full_refs k" by (simp add: fun_eq_iff k1_def full_refs_def)
  have goal: "\<exists>k' heap'. r = Some (k', heap') \<and> kc_inv k' \<and> max_capacity k' = max_capacity k \<and>
      (\<forall>h'. full_refs k' h' = full_refs k h' + (if h' = h then 1 else 0)) \<and>
      (\<forall>u'. hm_contains (active_partial k') u' = (hm_contains (active_partial k) u' \<and> u' \<noteq> u))"
    if "r = Some (k2, heap2)" "kc_inv k2" "used_by k1 (FullBlock h) k2" "max_capacity k2 = max_capacity k1" for r k2 heap2
    using that part refs wf(5) by (auto simp: used_by_def)
  show ?thesis
  proof (cases "hm_get (active_full k1) h")
    case (Some e)
    then show ?thesis
      using u by (intro goal [OF _ add_ref_ok [OF inv1 Some]]) (simp_all add: process_promote_def promote_full_def k1_def)
  next
    case None
    obtain x c' where m: "match_block (inactive k1) plh = (x, c')" by fastforce
    show ?thesis
    proof (cases x)
      case (Some y)
      then show ?thesis
        using u m None by (intro goal [OF _ reactivate_ok [OF inv1 m [unfolded Some] None]])
          (simp_all add: process_promote_def promote_full_def k1_def)
    next
      case none: None
      then have c': "c' = inactive k1" using match_block_None m by blast
      define k2 where "k2 = k1\<lparr>active_full := hm_insert h \<lparr>refcount = 1, entry_plh = plh\<rparr> (active_full k1)\<rparr>"
      define k3 where "k3 = k2\<lparr>registered_blocks := hm_insert plh \<lparr>ri_seq_hash = h, ri_parent_hash = p,
          ri_local_hash = lh, ri_token_ids = ids\<rparr> (registered_blocks k1)\<rparr>"
      obtain k4 where pub: "publish_kv_event E k3 [h] [lh] p True (map_option (\<lambda>t. [t]) ids) = Some k4"
        using publish_returns [of True "[lh]" "[h]" E k3 p "map_option (\<lambda>t. [t]) ids"] by auto
      then obtain n evs where k4: "k4 = k3\<lparr>next_event_id := n, published := evs\<rparr>" using publish_fields by blast
      have k3: "k3 = k1\<lparr>inactive := c', active_full := hm_insert h \<lparr>refcount = 1, entry_plh = plh\<rparr> (active_full k1),
        registered_blocks := hm_insert plh \<lparr>ri_seq_hash = h, ri_parent_hash = p,
          ri_local_hash = lh, ri_token_ids = ids\<rparr> (registered_blocks k1)\<rparr>"
        by (simp add: k3_def k2_def c')
      have run: "process_promote E u h p lh plh ids (k, heap)
          = Some (k4, save_to_lmcache k3 heap h lh p ids)"
        using u m none None pub unfolding k3 by (simp add: process_promote_def promote_full_def k1_def)
      have "kc_inv k4" "used_by k1 (FullBlock h) k4" "max_capacity k4 = max_capacity k1"
        using activate_ok [OF inv1 room None, of plh, folded k2_def]
        by (simp_all add: k4 k3_def kc_inv_def used_by_def full_refs_def used_slots_def k2_def)
      then show ?thesis using goal [OF run] by blast
    qed
  qed
qed

lemma process_promote_None: "\<not> hm_contains (active_partial k) u \<Longrightarrow> process_promote E u h p lh plh ids (k, heap) = None"
  by (simp add: process_promote_def assert_run_def)


section \<open>Reachable caches\<close>

lemma full_parent_Some: "full_parent q = Some mp \<Longrightarrow> (case q of None \<Rightarrow> True | Some b \<Rightarrow> is_full b)"
  by (auto simp: full_parent_def split: option.splits UniqueBlock.splits)

lemma process_use_move_ok:
  assumes "process_use E blocks hs ps ids parent w = Some r"
  shows "move_ok (Use blocks hs ps ids parent)"
proof -
  let ?c = "length (filter is_full blocks)"
  obtain mp where "length ps = ?c" "hs = [] \<or> length hs = ?c"
    "case ids of None \<Rightarrow> True | Some xs \<Rightarrow> length xs = ?c" "full_parent parent = Some mp"
    using assms unfolding process_use_def Let_def bind_Some_iff assert_run_Some
    by (elim exE conjE) (rule that)
  then show ?thesis using full_parent_Some [of parent mp] by (simp split: option.splits)
qed

lemma process_inv:
  assumes inv: "kc_inv k" and run: "process E ev (k, heap) = Some (n, k', heap')"
  shows "kc_inv k' \<and> max_capacity k' = max_capacity k"
proof (cases ev)
  case (Use blocks hs ps ids parent)
  then have "process_use E blocks hs ps ids parent (k, heap) = Some (n, k', heap')"
    using run by (simp add: process_def)
  from process_use_ok [OF inv process_use_move_ok [OF this], of E heap] this show ?thesis by auto
next
  case (Deref bs)
  then show ?thesis
    using run process_deref_inv [OF inv] by (auto simp: process_def run_simps)
next
  case (Promote u h p lh plh ids)
  then have pr: "process_promote E u h p lh plh ids (k, heap) = Some (k', heap')"
    using run by (auto simp: process_def run_simps)
  have "hm_contains (active_partial k) u"
    using pr process_promote_None [of k u E h p lh plh ids heap] by auto
  from process_promote_ok [OF inv this, of E h p lh plh ids heap] pr show ?thesis by auto
qed

text \<open>
  A cache with the LMCache heap it shares: other workers may change the heap at any time, a handle
  may be attached or dropped, and every \<open>MoveBlock\<close> that returns is a step.
\<close>

inductive kc_reach :: "build_env \<Rightarrow> LocalVllmKvCache \<times> ('f :: {zero, plus}) lm_heap \<Rightarrow> bool" for E where
  kc_start: "kc_new E capacity bs pubs rank = Some k \<Longrightarrow> kc_reach E (k, heap)"
| kc_attach: "kc_reach E (k, heap) \<Longrightarrow> kc_reach E (set_lmcache k lm, heap)"
| kc_others: "kc_reach E (k, heap) \<Longrightarrow> kc_reach E (k, heap')"
| kc_process: "kc_reach E (k, heap) \<Longrightarrow> process E ev (k, heap) = Some (n, k', heap') \<Longrightarrow> kc_reach E (k', heap')"

lemma kc_reach_inv: "kc_reach E w \<Longrightarrow> kc_inv (fst w)"
proof (induction rule: kc_reach.induct)
  case (kc_start capacity bs pubs rank k heap)
  then show ?case
    by (auto simp: kc_new_def kc_inv_def ec_wf_def ec_default_def used_slots_def ec_len_def hm_len_def run_simps)
next
  case (kc_attach k heap lm)
  then show ?case by (simp add: kc_inv_def set_lmcache_def used_slots_def)
next
  case (kc_process k heap ev n k' heap')
  then show ?case using process_inv by fastforce
qed simp


section \<open>What the published events say\<close>

text \<open>
  A router that replays the events knows a set of block hashes. The lineage hash of a block is
  determined by its sequence hash (\<open>f\<close>) and different blocks have different ones; the cache then keeps
  the router's view equal to the blocks that are resident, held or inactive.
\<close>

fun router_apply :: "u64 set \<Rightarrow> KvCacheEventData \<Rightarrow> u64 set" where
  "router_apply S (Stored p start blocks) = S \<union> sb_block_hash ` set blocks"
| "router_apply S (Removed hs) = S - set hs"

definition router_view :: "(KvCacheEvent \<times> Tokens list option) list \<Rightarrow> u64 set" where
  "router_view evs = foldl (\<lambda>S e. router_apply S (event_data (fst e))) {} evs"

definition resident :: "(u64 \<Rightarrow> PositionalLineageHash) \<Rightarrow> LocalVllmKvCache \<Rightarrow> u64 \<Rightarrow> bool" where
  "resident f k h = (hm_contains (active_full k) h \<or> hm_contains (ec_blocks (inactive k)) (f h))"

text \<open>\<open>S\<close> are the blocks stored by a \<open>Use\<close> whose event is not published yet.\<close>

definition kc_router :: "(u64 \<Rightarrow> PositionalLineageHash) \<Rightarrow> u64 set \<Rightarrow> LocalVllmKvCache \<Rightarrow> bool" where
  "kc_router f S k = (
     (\<forall>h e. hm_get (active_full k) h = Some e \<longrightarrow> entry_plh e = f h) \<and>
     (\<forall>p t h. hm_get (ec_blocks (inactive k)) p = Some (t, h) \<longrightarrow> p = f h \<and> \<not> hm_contains (active_full k) h) \<and>
     (\<forall>h. hm_contains (registered_blocks k) (f h) = resident f k h) \<and>
     (\<forall>h \<in> S. hm_contains (active_full k) h) \<and>
     \<not> publishers_is_empty (kv_event_publishers k) \<and>
     router_view (published k) \<union> S = {h. resident f k h})"

lemma router_view_snoc: "router_view (evs @ [(e, ids)]) = router_apply (router_view evs) (event_data e)"
  by (simp add: router_view_def)

lemma publish_removed:
  assumes "\<not> publishers_is_empty (kv_event_publishers k)"
  shows "\<exists>k'. publish_kv_event E k [h] [] None False None = Some k' \<and>
    router_view (published k') = router_view (published k) - {h} \<and>
    (\<exists>n evs. k' = k\<lparr>next_event_id := n, published := evs\<rparr>)"
  using assms by (auto simp: publish_kv_event_def wrap_event_def build_removed_event_data_def router_view_snoc)

lemma stored_hashes: "sb_block_hash ` set (map (\<lambda>(i, g). \<lparr>sb_block_hash = g, sb_tokens_hash = th i,
    sb_mm_extra_info = None\<rparr>) (List.enumerate n hs)) = set hs"
proof (induction hs arbitrary: n)
  case Nil
  then show ?case by simp
next
  case (Cons h hs)
  then show ?case by simp
qed

lemma publish_stored:
  assumes "\<not> publishers_is_empty (kv_event_publishers k)" and "publish_kv_event E k bs hs p True ids = Some k'"
  shows "router_view (published k') = router_view (published k) \<union> set bs"
proof (cases "bs = []")
  case True
  then show ?thesis using assms(2) by (simp add: publish_kv_event_def)
next
  case False
  obtain data where d: "build_stored_event_data E p bs hs = Some data"
    "published k' = published k @ [(wrap_event (next_event_id k) (kc_dp_rank k) data, ids)]"
    using assms False by (auto simp: publish_kv_event_def run_simps)
  have "router_apply R data = R \<union> set bs" for R
    using d(1) stored_hashes [where n = 0 and hs = bs and th = "\<lambda>i. unwrap_or 0 (get_opt hs i)"]
    by (auto simp: build_stored_event_data_def run_simps)
  then show ?thesis using d(2) by (simp add: router_view_snoc wrap_event_def)
qed

lemma kc_router_publish:
  "kc_router f S (k\<lparr>next_event_id := n, published := evs\<rparr>) \<longleftrightarrow>
    kc_router f S (k\<lparr>published := evs\<rparr>)"
  by (simp add: kc_router_def resident_def)

lemma reserve_router:
  assumes inj: "inj f" and inv: "kc_inv k" and r: "kc_router f S k"
    and run: "reserve_one_slot E k = Some (ok, k')"
  shows "kc_router f S k' \<and> (\<forall>h. hm_contains (ec_blocks (inactive k)) (f h) = False \<longrightarrow>
    hm_contains (ec_blocks (inactive k')) (f h) = False)"
proof (cases "used_slots k < max_capacity k")
  case True
  then show ?thesis using run r by (simp add: reserve_one_slot_def)
next
  case full: False
  obtain v c' where ev: "evict_lru (inactive k) = (v, c')" by fastforce
  have wf: "ec_wf (inactive k)" using inv by (simp add: kc_inv_def)
  show ?thesis
  proof (cases v)
    case None
    then show ?thesis
      using full run r ev evict_lru_None [of "inactive k" c'] by (simp add: reserve_one_slot_def)
  next
    case (Some x)
    obtain p h0 where x: "x = (p, h0)" by fastforce
    have ev': "evict_lru (inactive k) = (Some (p, h0), c')" using ev Some x by simp
    note lru = evict_lru_Some [OF wf ev']
    obtain tick where "hm_get (ec_blocks (inactive k)) p = Some (tick, h0)" using lru(1) by blast
    then have p: "p = f h0" "\<not> hm_contains (active_full k) h0" using r by (auto simp: kc_router_def)
    have blocks: "hm_get (ec_blocks c') = (hm_get (ec_blocks (inactive k)))(f h0 := None)"
      using lru(2) p(1) by (simp add: match_block_def)
    define k1 where "k1 = k\<lparr>inactive := c', registered_blocks := hm_remove p (registered_blocks k)\<rparr>"
    have pubs: "\<not> publishers_is_empty (kv_event_publishers k1)" using r by (simp add: kc_router_def k1_def)
    obtain k2 n evs where k2: "publish_kv_event E k1 [h0] [] None False None = Some k2"
      "router_view (published k2) = router_view (published k1) - {h0}"
      "k2 = k1\<lparr>next_event_id := n, published := evs\<rparr>"
      using publish_removed [OF pubs] by blast
    have k': "k' = k2" using run full ev' k2(1) by (simp add: reserve_one_slot_def k1_def)
    have res: "resident f k2 h = (resident f k h \<and> h \<noteq> h0)" for h
      using p(2) inj by (auto simp: k2(3) k1_def resident_def hm_contains_get blocks dest: injD)
    have "h0 \<notin> S" using r p(2) by (auto simp: kc_router_def)
    moreover have "router_view (published k) \<union> S = {h. resident f k h}" using r by (simp add: kc_router_def)
    ultimately have view: "router_view (published k2) \<union> S = {h. resident f k2 h}"
      using k2(2) res by (auto simp: k1_def)
    have reg: "hm_contains (registered_blocks k2) (f h) = resident f k2 h" for h
      using r res p(1) inj by (auto simp: k2(3) k1_def kc_router_def hm_contains_get dest: injD)
    have "kc_router f S k2"
      unfolding kc_router_def using view reg r pubs
      by (auto simp: k2(3) k1_def kc_router_def blocks split: if_splits)
    then show ?thesis using k' by (auto simp: k2(3) k1_def hm_contains_get blocks)
  qed
qed


lemma router_add_ref:
  assumes r: "kc_router f S k" and e: "hm_get (active_full k) h = Some e" and e': "entry_plh e' = entry_plh e"
  shows "kc_router f S (k\<lparr>active_full := hm_insert h e' (active_full k)\<rparr>)"
proof -
  have "hm_contains (hm_insert h e' (active_full k)) h' = hm_contains (active_full k) h'" for h'
    using e by (auto simp: hm_contains_get)
  then have same: "hm_contains (hm_insert h e' (active_full k)) = hm_contains (active_full k)" by blast
  then have "resident f (k\<lparr>active_full := hm_insert h e' (active_full k)\<rparr>) = resident f k"
    by (simp add: resident_def fun_eq_iff)
  then show ?thesis
    using r e e' same unfolding kc_router_def by (auto split: if_splits)
qed

lemma router_reactivate:
  assumes inj: "inj f" and r: "kc_router f S k" and free: "hm_get (active_full k) h = None"
    and m: "match_block (inactive k) (f h) = (Some x, c')"
  shows "kc_router f S (k\<lparr>inactive := c',
    active_full := hm_insert h \<lparr>refcount = n, entry_plh = f h\<rparr> (active_full k)\<rparr>)"
proof -
  let ?k' = "k\<lparr>inactive := c', active_full := hm_insert h \<lparr>refcount = n, entry_plh = f h\<rparr> (active_full k)\<rparr>"
  have blocks: "hm_get (ec_blocks c') = (hm_get (ec_blocks (inactive k)))(f h := None)"
    and was: "hm_get (ec_blocks (inactive k)) (f h) \<noteq> None"
    using m by (auto simp: match_block_def)
  have res: "resident f ?k' = resident f k"
    using was inj by (auto simp: fun_eq_iff resident_def hm_contains_get blocks dest: injD)
  have "p = f h' \<and> \<not> hm_contains (hm_insert h \<lparr>refcount = n, entry_plh = f h\<rparr> (active_full k)) h'"
    if "hm_get (ec_blocks c') p = Some (t, h')" for p t h'
    using that r inj by (auto simp: blocks kc_router_def hm_contains_get split: if_splits)
  then show ?thesis
    using r res by (auto simp: kc_router_def hm_contains_get split: if_splits)
qed

lemma router_activate:
  assumes inj: "inj f" and r: "kc_router f S k" and free: "\<not> resident f k h"
  shows "kc_router f (insert h S) (k\<lparr>active_full := hm_insert h \<lparr>refcount = n, entry_plh = f h\<rparr> (active_full k),
    registered_blocks := hm_insert (f h) info (registered_blocks k)\<rparr>)"
proof -
  let ?k' = "k\<lparr>active_full := hm_insert h \<lparr>refcount = n, entry_plh = f h\<rparr> (active_full k),
    registered_blocks := hm_insert (f h) info (registered_blocks k)\<rparr>"
  have res: "resident f ?k' h' = (resident f k h' \<or> h' = h)" for h'
    by (auto simp: resident_def hm_contains_get)
  have "p = f h' \<and> \<not> hm_contains (hm_insert h \<lparr>refcount = n, entry_plh = f h\<rparr> (active_full k)) h'"
    if "hm_get (ec_blocks (inactive k)) p = Some (t, h')" for p t h'
    using that r free by (auto simp: kc_router_def hm_contains_get resident_def split: if_splits)
  moreover have "hm_contains (registered_blocks ?k') (f h') = resident f ?k' h'" for h'
    using r res inj by (auto simp: kc_router_def hm_contains_get dest: injD split: if_splits)
  moreover have "router_view (published ?k') \<union> insert h S = {h'. resident f ?k' h'}"
    using r unfolding res kc_router_def by auto
  ultimately show ?thesis
    using r unfolding kc_router_def by (auto simp: hm_contains_get split: if_splits)
qed

lemma use_block_router:
  assumes inj: "inj f" and inv: "kc_inv k" and r: "kc_router f S k"
    and plh: "\<And>h. b = FullBlock h \<Longrightarrow> idx < length ps \<and> ps ! idx = f h"
    and run: "use_block E hs ps ids mp idx b (k, heap) = Some (Some (outcome, idx'), k', heap')"
  shows "kc_router f (S \<union> (case b of FullBlock h \<Rightarrow> if outcome = NewStore then {h} else {} | _ \<Rightarrow> {})) k'"
proof (cases b)
  case (FullBlock h)
  have ix: "index_run ps idx = Some (f h)" using plh [OF FullBlock] by (simp add: index_run_def)
  show ?thesis
  proof (cases "hm_get (active_full k) h")
    case (Some e)
    then show ?thesis
      using run FullBlock router_add_ref [OF r Some, of "e\<lparr>refcount := refcount e + 1\<rparr>"]
      by (auto simp: use_block_def)
  next
    case None
    obtain x c' where m: "match_block (inactive k) (f h) = (x, c')" by fastforce
    show ?thesis
    proof (cases x)
      case (Some y)
      then show ?thesis
        using run FullBlock None ix m router_reactivate [OF inj r None m [unfolded Some]]
        by (auto simp: use_block_def)
    next
      case none: None
      then have c': "c' = inactive k" "hm_get (ec_blocks (inactive k)) (f h) = None"
        using match_block_None m by blast+
      obtain ok k1 where res: "reserve_one_slot E k = Some (ok, k1)" "active_full k1 = active_full k"
        using reserve_one_slot_ok [OF inv, of E] by blast
      note k1 = reserve_router [OF inj inv r res(1)]
      have free: "\<not> resident f k1 h"
        using k1 c'(2) None res(2) by (auto simp: resident_def hm_contains_get)
      show ?thesis
        using run FullBlock None ix m none c' res(1) router_activate [OF inj conjunct1 [OF k1] free]
        by (auto simp: use_block_def Let_def split: if_splits)
    qed
  qed
next
  case (PartialBlock u)
  have other: "kc_router f S (k0\<lparr>active_partial := ps\<rparr>) = kc_router f S k0" for k0 ps
    by (simp add: kc_router_def resident_def)
  show ?thesis
  proof (cases "hm_contains (active_partial k) u")
    case True
    then show ?thesis using run PartialBlock r by (auto simp: use_block_def)
  next
    case False
    obtain ok k1 where res: "reserve_one_slot E k = Some (ok, k1)"
      using reserve_one_slot_ok [OF inv, of E] by blast
    show ?thesis
      using run PartialBlock False res reserve_router [OF inj inv r res] other
      by (auto simp: use_block_def split: if_splits)
  qed
qed

fun full_hashes :: "UniqueBlock list \<Rightarrow> u64 list" where
  "full_hashes [] = []"
| "full_hashes (FullBlock h # bs) = h # full_hashes bs"
| "full_hashes (PartialBlock u # bs) = full_hashes bs"

lemma length_full_hashes: "length (full_hashes bs) = length (filter is_full bs)"
  by (induction bs rule: full_hashes.induct) auto


lemma use_account_stored:
  assumes "use_account hs ids b outcome idx acc = Some acc'"
  shows "set (blocks_stored acc') = set (blocks_stored acc) \<union>
      (case b of FullBlock h \<Rightarrow> if outcome = NewStore then {h} else {} | _ \<Rightarrow> {})"
    and "plh_idx acc' = plh_idx acc"
  using assms by (cases outcome; cases b; auto simp: use_account_def run_simps)+

lemma use_loop_router:
  assumes inj: "inj f" and "kc_inv k" and "kc_router f (set (blocks_stored acc)) k"
    and "drop (plh_idx acc) ps = map f (full_hashes blocks)"
    and "use_loop E hs ps ids blocks acc (k, heap) = Some (acc', k', heap')"
  shows "kc_router f (set (blocks_stored acc')) k'"
  using assms(2-)
proof (induction blocks arbitrary: acc k heap)
  case Nil
  then show ?case by simp
next
  case (Cons b blocks)
  have plh: "plh_idx acc < length ps \<and> ps ! plh_idx acc = f h" if b: "b = FullBlock h" for h
  proof
    show lt: "plh_idx acc < length ps" using Cons.prems(3) b by (cases "plh_idx acc < length ps") auto
    show "ps ! plh_idx acc = f h"
      using Cons.prems(3) b by (simp add: Cons_nth_drop_Suc [OF lt, symmetric])
  qed
  have idx: "is_full b \<Longrightarrow> plh_idx acc < length ps" using plh by (cases b) auto
  obtain r k1 heap1 where ub: "use_block E hs ps ids (metadata_parent acc) (plh_idx acc) b (k, heap)
      = Some (r, k1, heap1)" and k1: "kc_inv k1"
    and res: "case r of
       None \<Rightarrow> k1 = k \<and> heap1 = heap \<and> ec_blocks (inactive k) = [] \<and> used_slots k = max_capacity k \<and> \<not> holds k b
     | Some (outcome, idx') \<Rightarrow> used_by k b k1 \<and> idx' = next_idx b (plh_idx acc) \<and> (outcome = NewStore \<longrightarrow> is_full b)"
    using use_block_ok [OF Cons.prems(1) idx] by blast
  show ?case
  proof (cases r)
    case None
    then show ?thesis using ub res Cons.prems(2,4) by simp
  next
    case (Some x)
    obtain outcome idx' where x: "x = (outcome, idx')" by fastforce
    obtain acc1 where ac: "use_account hs ids b outcome (plh_idx acc) acc = Some acc1"
      and loop: "use_loop E hs ps ids blocks (acc1\<lparr>plh_idx := idx'\<rparr>) (k1, heap1) = Some (acc', k', heap')"
      using Cons.prems(4) ub Some x by (auto simp: run_simps)
    have router: "kc_router f (set (blocks_stored (acc1\<lparr>plh_idx := idx'\<rparr>))) k1"
      using use_block_router [OF inj Cons.prems(1,2) plh ub [unfolded Some x]] use_account_stored(1) [OF ac]
      by simp
    have "idx' = next_idx b (plh_idx acc)" using res Some x by simp
    then have "drop (plh_idx (acc1\<lparr>plh_idx := idx'\<rparr>)) ps = map f (full_hashes blocks)"
      using Cons.prems(3) plh by (cases b) (auto simp: next_idx_def drop_Suc drop_tl)
    then show ?thesis using Cons.IH [OF k1 router _ loop] by blast
  qed
qed

text \<open>Events whose lineage hashes are those of their blocks.\<close>

fun plhs_match :: "(u64 \<Rightarrow> PositionalLineageHash) \<Rightarrow> MoveBlock \<Rightarrow> bool" where
  "plhs_match f (Use blocks hs ps ids parent) = (ps = map f (full_hashes blocks))"
| "plhs_match f (Deref bs) = True"
| "plhs_match f (Promote u h p lh plh ids) = (plh = f h)"

lemma use_router:
  assumes inj: "inj f" and inv: "kc_inv k" and r: "kc_router f {} k" and ps: "ps = map f (full_hashes blocks)"
    and run: "process_use E blocks hs ps ids parent (k, heap) = Some (n, k', heap')"
  shows "kc_router f {} k'"
proof -
  obtain mp acc k1 ph where
    loop: "use_loop E hs ps ids blocks \<lparr>blocks_stored = [], stored_local_hashes = [],
      stored_token_ids = map_option (\<lambda>_. []) ids, parent_block = parent, metadata_parent = mp, plh_idx = 0,
      allocated = 0\<rparr> (k, heap) = Some (acc, k1, heap')"
    and pub: "publish_kv_event E k1 (blocks_stored acc) (stored_local_hashes acc) ph True (stored_token_ids acc) = Some k'"
    using run unfolding process_use_def Let_def bind_Some_iff by (auto simp: run_simps)
  have k1: "kc_router f (set (blocks_stored acc)) k1"
    using use_loop_router [OF inj inv _ _ loop] r ps by simp
  have view: "router_view (published k') = router_view (published k1) \<union> set (blocks_stored acc)"
    using publish_stored [OF _ pub] k1 by (simp add: kc_router_def)
  obtain m evs where k': "k' = k1\<lparr>next_event_id := m, published := evs\<rparr>" using publish_fields [OF pub] by blast
  then have "resident f k' = resident f k1" by (simp add: resident_def fun_eq_iff)
  then show ?thesis using k1 view k' by (simp add: kc_router_def)
qed

lemma deref_block_router:
  assumes inj: "inj f" and r: "kc_router f {} k" and run: "deref_block b k = Some k'"
  shows "kc_router f {} k'"
proof (cases b)
  case (PartialBlock u)
  then show ?thesis
    using run r by (auto simp: deref_block_def kc_router_def resident_def split: if_splits)
next
  case (FullBlock h)
  obtain e where e: "hm_get (active_full k) h = Some e"
    using run FullBlock by (auto simp: deref_block_def split: option.splits)
  have plh: "entry_plh e = f h" using r e by (simp add: kc_router_def)
  show ?thesis
  proof (cases "refcount e = 1")
    case True
    let ?k' = "k\<lparr>active_full := hm_remove h (active_full k), inactive := ec_insert (inactive k) (f h) h\<rparr>"
    have k': "k' = ?k'" using run FullBlock e True plh by (simp add: deref_block_def)
    have res: "resident f ?k' = resident f k"
      using e inj by (auto simp: fun_eq_iff resident_def hm_contains_get ec_insert_def dest: injD)
    have "p = f h' \<and> \<not> hm_contains (active_full ?k') h'"
      if "hm_get (ec_blocks (inactive ?k')) p = Some (t, h')" for p t h'
      using that r by (auto simp: ec_insert_def kc_router_def hm_contains_get split: if_splits)
    then have "kc_router f {} ?k'"
      using r res unfolding kc_router_def by (auto simp: hm_contains_get split: if_splits)
    then show ?thesis using k' by simp
  next
    case False
    then show ?thesis
      using run FullBlock e router_add_ref [OF r e, of "e\<lparr>refcount := refcount e - 1\<rparr>"]
      by (auto simp: deref_block_def split: if_splits)
  qed
qed

lemma process_deref_router:
  assumes "inj f" "kc_router f {} k" "process_deref bs k = Some k'"
  shows "kc_router f {} k'"
  using assms(2,3)
proof (induction bs arbitrary: k)
  case (Cons b bs)
  then show ?case using deref_block_router [OF assms(1)] by (auto simp: run_simps)
qed simp

lemma promote_router:
  assumes inj: "inj f" and r: "kc_router f {} k"
    and run: "process_promote E u h p lh (f h) ids (k, heap) = Some (k', heap')"
  shows "kc_router f {} k'"
proof -
  define k1 where "k1 = k\<lparr>active_partial := hm_remove u (active_partial k)\<rparr>"
  have r1: "kc_router f {} k1" using r by (simp add: k1_def kc_router_def resident_def)
  have run1: "promote_full E h p lh (f h) ids k1 heap = Some (k', heap')"
    using run by (auto simp: process_promote_def run_simps k1_def)
  show ?thesis
  proof (cases "hm_get (active_full k1) h")
    case (Some e)
    then show ?thesis using run1 router_add_ref [OF r1 Some] by (auto simp: promote_full_def)
  next
    case None
    obtain x c' where m: "match_block (inactive k1) (f h) = (x, c')" by fastforce
    show ?thesis
    proof (cases x)
      case (Some y)
      then show ?thesis using run1 None m router_reactivate [OF inj r1 None m [unfolded Some]]
        by (auto simp: promote_full_def)
    next
      case none: None
      then have c': "c' = inactive k1" "hm_get (ec_blocks (inactive k1)) (f h) = None"
        using match_block_None m by blast+
      define k2 where "k2 = k1\<lparr>active_full := hm_insert h \<lparr>refcount = 1, entry_plh = f h\<rparr> (active_full k1),
                 registered_blocks := hm_insert (f h) \<lparr>ri_seq_hash = h, ri_parent_hash = p,
                   ri_local_hash = lh, ri_token_ids = ids\<rparr> (registered_blocks k1)\<rparr>"
      have pub: "publish_kv_event E k2 [h] [lh] p True (map_option (\<lambda>t. [t]) ids) = Some k'"
        using run1 None m none c'(1) by (auto simp: promote_full_def k2_def Let_def run_simps)
      have "\<not> resident f k1 h" using c'(2) None by (simp add: resident_def hm_contains_get)
      then have k2: "kc_router f {h} k2"
        using router_activate [OF inj r1] by (simp add: k2_def)
      have view: "router_view (published k') = router_view (published k2) \<union> {h}"
        using publish_stored [OF _ pub] k2 by (simp add: kc_router_def)
      obtain n evs where k': "k' = k2\<lparr>next_event_id := n, published := evs\<rparr>" using publish_fields [OF pub] by blast
      then have "resident f k' = resident f k2" by (simp add: resident_def fun_eq_iff)
      then show ?thesis using k2 view k' by (simp add: kc_router_def)
    qed
  qed
qed

lemma process_router:
  assumes inj: "inj f" and inv: "kc_inv k" and r: "kc_router f {} k" and ev: "plhs_match f ev"
    and run: "process E ev (k, heap) = Some (n, k', heap')"
  shows "kc_router f {} k'"
proof (cases ev)
  case (Use blocks hs ps ids parent)
  then show ?thesis using ev run use_router [OF inj inv r, of ps blocks E hs ids parent heap n k' heap']
    by (simp add: process_def)
next
  case (Deref bs)
  then show ?thesis using run process_deref_router [OF inj r] by (auto simp: process_def run_simps)
next
  case (Promote u h p lh plh ids)
  then show ?thesis using ev run promote_router [OF inj r] by (auto simp: process_def run_simps)
qed


section \<open>Whole runs and prefixes\<close>

fun process_all :: "build_env \<Rightarrow> MoveBlock list \<Rightarrow> LocalVllmKvCache \<times> 'f lm_heap \<Rightarrow> (LocalVllmKvCache \<times> 'f lm_heap) run" where
  "process_all E [] w = Some w"
| "process_all E (ev # evs) w = do { (_, w1) \<leftarrow> process E ev w; process_all E evs w1 }"

lemma process_all_router:
  assumes "inj f" "kc_inv k" "kc_router f {} k" "\<forall>ev \<in> set evs. plhs_match f ev"
    "process_all E evs (k, heap) = Some (k', heap')"
  shows "kc_inv k' \<and> kc_router f {} k'"
  using assms(2-)
proof (induction evs arbitrary: k heap)
  case Nil
  then show ?case by simp
next
  case (Cons ev evs)
  obtain n k1 heap1 where p: "process E ev (k, heap) = Some (n, k1, heap1)"
    "process_all E evs (k1, heap1) = Some (k', heap')"
    using Cons.prems(4) by (auto simp: run_simps)
  then show ?case
    using Cons.IH [of k1 heap1] process_inv [OF Cons.prems(1) p(1)] process_router [OF assms(1) Cons.prems(1,2) _ p(1)]
      Cons.prems(3) by simp
qed

lemma process_all_reach:
  assumes "kc_reach E w" and "process_all E evs w = Some w'"
  shows "kc_reach E w'"
  using assms
proof (induction evs arbitrary: w)
  case (Cons ev evs)
  obtain n k1 heap1 where "process E ev w = Some (n, k1, heap1)" "process_all E evs (k1, heap1) = Some w'"
    using Cons.prems(2) by (auto simp: run_simps)
  then show ?case using Cons.IH Cons.prems(1) kc_reach.kc_process by (metis prod.collapse)
qed simp

lemma kc_new_router:
  assumes "kc_new E capacity bs pubs rank = Some k" and "\<not> publishers_is_empty pubs"
  shows "kc_inv k" and "kc_router f {} k"
  using assms by (auto simp: kc_new_def kc_inv_def ec_wf_def ec_default_def used_slots_def ec_len_def hm_len_def
      kc_router_def resident_def hm_contains_get router_view_def run_simps)

text \<open>Whether the block at an index of a sequence is cached somewhere the worker can see.\<close>

definition cached_at :: "LocalVllmKvCache \<Rightarrow> 'f lm_heap \<Rightarrow> PositionalLineageHash list \<Rightarrow> nat \<times> UniqueBlock \<Rightarrow> bool" where
  "cached_at k heap ps = (\<lambda>(i, b). case b of PartialBlock _ \<Rightarrow> False
     | FullBlock h \<Rightarrow> hm_contains (active_full k) h \<or>
         (i < length ps \<and> hm_contains (registered_blocks k) (ps ! i)) \<or>
         (\<exists>lm. kc_lmcache k = Some lm \<and> contains_block (heap lm) h))"

lemma overlap_from_eq:
  "overlap_from k heap ps i blocks = length (takeWhile (cached_at k heap ps) (List.enumerate i blocks))"
proof (induction blocks arbitrary: i)
  case Nil
  then show ?case by simp
next
  case (Cons b blocks)
  then show ?case
    by (cases b) (auto simp: cached_at_def get_opt_def split: option.splits)
qed

lemma overlap_le: "overlap_from k heap ps i blocks \<le> length blocks"
  unfolding overlap_from_eq by (metis length_enumerate length_takeWhile_le)

lemma use_deref_ok:
  assumes inv: "kc_inv k" and run: "process_use E blocks hs ps ids parent (k, heap) = Some (n, k1, heap1)"
    and new: "\<forall>u. count_list blocks (PartialBlock u) \<le> 1 \<and> (PartialBlock u \<in> set blocks \<longrightarrow> \<not> hm_contains (active_partial k) u)"
  shows "\<exists>k2. process_deref (rev (take n blocks)) k1 = Some k2 \<and> kc_inv k1 \<and> kc_inv k2 \<and>
    full_refs k2 = full_refs k \<and> (\<forall>u. hm_contains (active_partial k2) u = hm_contains (active_partial k) u)"
proof -
  let ?bs = "take n blocks"
  from process_use_ok [OF inv process_use_move_ok [OF run], of E heap] run
  have k1: "kc_inv k1" "use_result k ?bs k1" by auto
  have "count_list ?bs b \<le> count_list blocks b" for b
    by (metis append_take_drop_id count_list_append le_add1)
  then have once: "count_list ?bs (PartialBlock u) \<le> 1" for u
    using new le_trans by blast
  have "releasable k1 (rev ?bs)"
    unfolding releasable_def
  proof (intro conjI allI)
    show "count_list (rev ?bs) (FullBlock h) \<le> full_refs k1 h" for h
      using k1(2) by (simp add: use_result_def)
    show "count_list (rev ?bs) (PartialBlock u) \<le> (if hm_contains (active_partial k1) u then 1 else 0)" for u
      using k1(2) once [of u] by (auto simp: use_result_def count_list_0_iff)
  qed
  then obtain k2 where k2: "process_deref (rev ?bs) k1 = Some k2"
    "\<forall>h. full_refs k2 h = full_refs k1 h - count_list (rev ?bs) (FullBlock h)"
    "\<forall>u. hm_contains (active_partial k2) u = (hm_contains (active_partial k1) u \<and> PartialBlock u \<notin> set (rev ?bs))"
    using process_deref_ok [OF k1(1)] by blast
  have "full_refs k2 = full_refs k" using k1(2) k2(2) by (simp add: use_result_def fun_eq_iff)
  moreover have "hm_contains (active_partial k2) u = hm_contains (active_partial k) u" for u
    using k1(2) k2(3) new by (auto simp: use_result_def dest: in_set_takeD)
  ultimately show ?thesis using k1(1) k2(1) process_deref_inv [OF k1(1)] by blast
qed

section \<open>Properties\<close>

text \<open>
  C20 (kv_capacity). However requests are admitted, released, promoted and preempted, the blocks the
  cache holds, for running requests or for reuse, never exceed its capacity.
\<close>

theorem kv_capacity:
  assumes "kc_reach E (k, heap)"
  shows "num_active_blocks k + num_inactive_blocks k \<le> max_capacity k"
  using kc_reach_inv [OF assms] by (simp add: kc_inv_def used_slots_def num_active_blocks_def num_inactive_blocks_def)

text \<open>
  C16 (use_allocates). A \<open>Use\<close> that meets its assertions returns the number of blocks it granted, a
  prefix of the request: each granted full block gained exactly one reference per occurrence, each
  granted partial block is held, nothing else changed hands, and it stops early only when every slot
  of the cache is held by running requests and the refused block is not held yet.
\<close>

theorem use_allocates:
  assumes "kc_reach E (k, heap)" and "move_ok (Use blocks hs ps ids parent)"
  shows "\<exists>n k' heap'. process E (Use blocks hs ps ids parent) (k, heap) = Some (n, k', heap') \<and>
    n \<le> length blocks \<and>
    (\<forall>h. full_refs k' h = full_refs k h + count_list (take n blocks) (FullBlock h)) \<and>
    (\<forall>u. hm_contains (active_partial k') u = (hm_contains (active_partial k) u \<or> PartialBlock u \<in> set (take n blocks))) \<and>
    (n < length blocks \<longrightarrow> num_inactive_blocks k' = 0 \<and> num_active_blocks k' = max_capacity k' \<and>
      \<not> holds k' (blocks ! n))"
  using process_use_ok [OF kc_reach_inv [OF assms(1), simplified] assms(2), of E heap]
  by (auto simp: process_def use_result_def)

text \<open>
  Releasing what a \<open>Use\<close> granted, the last block first, never panics and
  gives back exactly the references and partial blocks of before, when the partial blocks of the
  request are new and named once.
\<close>

lemma use_deref_roundtrip:
  assumes "kc_reach E (k, heap)" and "process E (Use blocks hs ps ids parent) (k, heap) = Some (n, k1, heap1)"
    and "\<forall>u. count_list blocks (PartialBlock u) \<le> 1 \<and> (PartialBlock u \<in> set blocks \<longrightarrow> \<not> hm_contains (active_partial k) u)"
  shows "\<exists>k2. process E (Deref (rev (take n blocks))) (k1, heap1) = Some (1, k2, heap1) \<and>
    full_refs k2 = full_refs k \<and>
    (\<forall>u. hm_contains (active_partial k2) u = hm_contains (active_partial k) u)"
  using use_deref_ok [of k E blocks hs ps ids parent heap n k1 heap1] kc_reach_inv [OF assms(1)] assms(2,3)
  by (auto simp: process_def)

text \<open>
  \<open>Deref\<close> of a block and \<open>Promote\<close> of a partial block panic exactly when
  the block is not held; otherwise exactly the named references move.
\<close>

lemma deref_promote_errors:
  assumes "kc_reach E (k, heap)"
  shows "(case process E (Deref [b]) (k, heap) of
        None \<Rightarrow> \<not> holds k b
      | Some (n, k', heap') \<Rightarrow> holds k b \<and> n = 1 \<and> heap' = heap \<and>
          (\<forall>h. full_refs k h = full_refs k' h + (if b = FullBlock h then 1 else 0))) \<and>
    (case process E (Promote u h p lh plh tids) (k, heap) of
        None \<Rightarrow> \<not> holds k (PartialBlock u)
      | Some (n, k', heap') \<Rightarrow> holds k (PartialBlock u) \<and> \<not> holds k' (PartialBlock u) \<and> n = 1 \<and>
          (\<forall>h'. full_refs k' h' = full_refs k h' + (if h' = h then 1 else 0)))"
proof (intro conjI)
  have inv: "kc_inv k" using kc_reach_inv [OF assms] by simp
  show "case process E (Deref [b]) (k, heap) of
        None \<Rightarrow> \<not> holds k b
      | Some (n, k', heap') \<Rightarrow> holds k b \<and> n = 1 \<and> heap' = heap \<and>
          (\<forall>h. full_refs k h = full_refs k' h + (if b = FullBlock h then 1 else 0))"
  proof (cases "holds k b")
    case True
    have "full_refs k h \<noteq> 0" if "b = FullBlock h" for h using full_refs_0 [OF inv] True that by simp
    then show ?thesis using True deref_block_ok [OF inv True] by (auto simp: process_def)
  next
    case False
    then show ?thesis using deref_block_None by (simp add: process_def)
  qed
  show "case process E (Promote u h p lh plh tids) (k, heap) of
        None \<Rightarrow> \<not> holds k (PartialBlock u)
      | Some (n, k', heap') \<Rightarrow> holds k (PartialBlock u) \<and> \<not> holds k' (PartialBlock u) \<and> n = 1 \<and>
          (\<forall>h'. full_refs k' h' = full_refs k h' + (if h' = h then 1 else 0))"
  proof (cases "hm_contains (active_partial k) u")
    case True
    then obtain k' heap' where run: "process_promote E u h p lh plh tids (k, heap) = Some (k', heap')"
      "\<forall>h'. full_refs k' h' = full_refs k h' + (if h' = h then 1 else 0)"
      "\<forall>u'. hm_contains (active_partial k') u' = (hm_contains (active_partial k) u' \<and> u' \<noteq> u)"
      using process_promote_ok [OF inv True, of E h p lh plh tids heap] by (elim exE conjE) (rule that)
    then show ?thesis using True by (simp add: process_def holds_def)
  next
    case False
    then show ?thesis
      using process_promote_None [OF False, of E h p lh plh tids heap] by (simp add: process_def holds_def)
  qed
qed

text \<open>
  C5 (router_view_exact). A router that replays the published events of a worker knows, after any
  sequence of movements, exactly the blocks that are resident there, held or reusable; the cache's
  own shadow table holds exactly their lineage hashes. The lineage hash is taken to identify a block.
\<close>

theorem router_view_exact:
  assumes "inj f" and "kc_new E capacity bs pubs rank = Some k" and "\<not> publishers_is_empty pubs"
    and "\<forall>ev \<in> set evs. plhs_match f ev" and "process_all E evs (k, heap) = Some (k', heap')"
  shows "router_view (published k') = {h. resident f k' h} \<and>
    (\<forall>h. hm_contains (registered_blocks k') (f h) = resident f k' h)"
  using process_all_router [OF assms(1) kc_new_router [OF assms(2,3)] assms(4,5)]
  by (simp add: kc_router_def)

text \<open>
  C29 (eviction_lru). When the cache is full and blocks are waiting for reuse, making room evicts the
  block that was released longest ago and only that one, forgets its registration, and succeeds.
\<close>

theorem eviction_lru:
  assumes "kc_reach E (k, heap)" and "used_slots k = max_capacity k" and "queued (ec_tick (inactive k)) (p # ps)"
  shows "\<exists>k'. reserve_one_slot E k = Some (True, k') \<and> queued (ec_tick (inactive k')) ps \<and>
    used_slots k' < max_capacity k' \<and> \<not> hm_contains (registered_blocks k') p \<and>
    active_full k' = active_full k \<and> active_partial k' = active_partial k"
proof -
  have inv: "kc_inv k" using kc_reach_inv [OF assms(1)] by simp
  have wf: "ec_wf (inactive k)" using inv by (simp add: kc_inv_def)
  have old: "map_option fst (fst (evict_lru (inactive k))) = Some p"
    using lru.queued_oldest [OF wf assms(3)] by simp
  obtain v c' where vc: "evict_lru (inactive k) = (v, c')" by fastforce
  with old obtain h where ev: "evict_lru (inactive k) = (Some (p, h), c')" by (cases v) auto
  have "p \<notin> set ps" using assms(3) by (simp add: queued_def)
  then have q: "queued (ec_tick c') ps"
    using lru.queued_del [OF wf assms(3), of p] evict_lru_Some(2) [OF wf ev] by simp
  obtain ok k' where r: "reserve_one_slot E k = Some (ok, k')" "kc_inv k'" "active_full k' = active_full k"
    "active_partial k' = active_partial k"
    "if ok then used_slots k' < max_capacity k' else k' = k \<and> ec_blocks (inactive k) = [] \<and> used_slots k = max_capacity k"
    using reserve_one_slot_ok [OF inv, of E] by (elim exE conjE) (rule that)
  define k1 where "k1 = k\<lparr>inactive := c', registered_blocks := hm_remove p (registered_blocks k)\<rparr>"
  obtain k2 where pub: "publish_kv_event E k1 [h] [] None False None = Some k2"
    using publish_returns [of False "[]" "[h]" E k1 None None] by auto
  obtain n evs where k2: "k2 = k1\<lparr>next_event_id := n, published := evs\<rparr>" using publish_fields [OF pub] by blast
  have "ok" "k' = k2"
    using r(1) ev assms(2) pub by (auto simp: reserve_one_slot_def k1_def)
  then show ?thesis
    using r q k2 by (auto simp: k1_def hm_contains_get)
qed

text \<open>
  C31 (prefill_cost_exact). The prefill cost splits the input exactly into cached and new tokens, and
  the cached blocks are the longest prefix of the sequence in which every block is held, registered or
  in the shared cache; without prefix caching everything is new.
\<close>

theorem prefill_cost_exact:
  "let c = get_prefill_cost k heap s;
       overlap = (if enable_prefix_caching s
       then length (takeWhile (cached_at k heap (plhs s)) (List.enumerate 0 (unique_blocks s))) else 0)
   in new_tokens c + cached_tokens c = num_input_tokens s \<and>
     cached_tokens c = min (overlap * kc_block_size k) (num_input_tokens s) \<and>
     new_blocks c + overlap = length (unique_blocks s)"
  using overlap_le [of k heap "plhs s" 0 "unique_blocks s"]
  by (auto simp: get_prefill_cost_def Let_def overlap_from_eq)


section \<open>Witnesses\<close>

definition demo_pubs :: KvEventPublishers where
  "demo_pubs = \<lparr>has_event_sink = True, has_raw_sink = False\<rparr>"

definition demo_cache :: LocalVllmKvCache where
  "demo_cache = \<lparr>max_capacity = 2, kc_block_size = 2, kv_event_publishers = demo_pubs, kc_dp_rank = 0,
     next_event_id = 0, active_partial = [], active_full = [], registered_blocks = [], inactive = ec_default,
     kc_lmcache = None, published = []\<rparr>"

definition demo_heap :: "int lm_heap" where
  "demo_heap = (\<lambda>_. lm_new demo_lm_config)"

lemma demo_cache_new: "kc_new demo_env 2 2 demo_pubs 0 = Some demo_cache"
  by (simp add: kc_new_def demo_cache_def)

lemma demo_cache_reach: "kc_reach demo_env (demo_cache, demo_heap)"
  using demo_cache_new by (rule kc_reach.kc_start)

text \<open>A request for three blocks in a cache of two slots.\<close>

abbreviation demo_use :: MoveBlock where
  "demo_use \<equiv> Use [FullBlock 5, FullBlock 6, PartialBlock 1] [50, 60]
     [PositionalLineageHash 5, PositionalLineageHash 6] None None"

lemmas cache_eval = process_def process_use_def use_block_def use_account_def deref_block_def reserve_one_slot_def
  publish_kv_event_def publishers_is_empty_def build_stored_event_data_def wrap_event_def full_parent_def
  used_slots_def match_block_def ec_insert_def ec_len_def ec_default_def save_to_lmcache_def get_opt_def unwrap_or_def
  index_run_def hm_get_def hm_contains_def hm_insert_def hm_remove_def hm_len_def demo_cache_def demo_pubs_def demo_env_def

lemma demo_run:
  "\<exists>k' heap'. process_all demo_env [Use [FullBlock 5] [50] [PositionalLineageHash 5] None None, Deref [FullBlock 5]]
      (demo_cache, demo_heap) = Some (k', heap')"
  by (simp add: cache_eval)

theorem kv_capacity_witness:
  "\<exists>n k' heap'. process demo_env demo_use (demo_cache, demo_heap) = Some (n, k', heap') \<and>
    num_active_blocks k' + num_inactive_blocks k' \<le> max_capacity k'"
proof -
  have ok: "move_ok demo_use" by simp
  obtain n k' heap' where run: "process demo_env demo_use (demo_cache, demo_heap) = Some (n, k', heap')"
    using process_use_ok [OF kc_reach_inv [OF demo_cache_reach, simplified] ok, of demo_env demo_heap]
    by (auto simp: process_def)
  have "kc_reach demo_env (k', heap')" using demo_cache_reach run by (rule kc_reach.kc_process)
  then show ?thesis using run kv_capacity by blast
qed

theorem use_allocates_witness:
  "\<exists>n k' heap'. process demo_env demo_use (demo_cache, demo_heap) = Some (n, k', heap') \<and> n \<le> 3 \<and>
    (n < 3 \<longrightarrow> num_active_blocks k' = max_capacity k')"
proof -
  have ok: "move_ok demo_use" by simp
  show ?thesis using use_allocates [OF demo_cache_reach ok] by fastforce
qed

theorem router_view_exact_witness:
  "\<exists>k' heap'. process_all demo_env [Use [FullBlock 5] [50] [PositionalLineageHash 5] None None, Deref [FullBlock 5]]
      (demo_cache, demo_heap) = Some (k', heap') \<and>
    router_view (published k') = {h. resident (\<lambda>h. PositionalLineageHash (ucast h)) k' h}"
proof -
  let ?f = "\<lambda>h :: u64. PositionalLineageHash (ucast h)" and ?use = "Use [FullBlock 5] [50] [PositionalLineageHash 5] None None"
  have inj: "inj ?f"
  proof (rule injI)
    fix x y :: u64
    assume "?f x = ?f y"
    then have "(ucast (ucast x :: u128) :: u64) = ucast (ucast y :: u128)" by simp
    then show "x = y" by (simp add: ucast_down_ucast_id is_down)
  qed
  have pubs: "\<not> publishers_is_empty demo_pubs" by (simp add: publishers_is_empty_def demo_pubs_def)
  have evs: "\<forall>ev \<in> set [?use, Deref [FullBlock 5]]. plhs_match ?f ev" by simp
  obtain k' heap' where run: "process_all demo_env [?use, Deref [FullBlock 5]] (demo_cache, demo_heap) = Some (k', heap')"
    using demo_run by blast
  show ?thesis using run router_view_exact [OF inj demo_cache_new pubs evs run] by blast
qed

theorem eviction_lru_witness:
  "\<exists>k heap k'. kc_reach demo_env (k, heap :: int lm_heap) \<and> used_slots k = max_capacity k \<and>
    queued (ec_tick (inactive k)) [PositionalLineageHash 5] \<and>
    reserve_one_slot demo_env k = Some (True, k') \<and> queued (ec_tick (inactive k')) []"
proof -
  let ?k0 = "demo_cache\<lparr>max_capacity := 1\<rparr>"
  have new: "kc_new demo_env 1 2 demo_pubs 0 = Some ?k0" by (simp add: kc_new_def demo_cache_def)
  obtain k heap where run: "process_all demo_env [Use [FullBlock 5] [50] [PositionalLineageHash 5] None None,
      Deref [FullBlock 5]] (?k0, demo_heap) = Some (k, heap)"
    and k: "used_slots k = max_capacity k" "ec_blocks (inactive k) = [(PositionalLineageHash 5, 1, 5)]"
    by (simp add: cache_eval)
  have reach: "kc_reach demo_env (k, heap)"
    using process_all_reach [OF kc_reach.kc_start [OF new] run] by simp
  have q: "queued (ec_tick (inactive k)) [PositionalLineageHash 5]"
    using k(2) by (auto simp: queued_def ec_tick_def hm_tick_def hm_get_def split: if_splits)
  show ?thesis using reach k(1) q eviction_lru [OF reach k(1) q] by blast
qed

end
