(* ===== verification/SchedQueues.thy ===== *)
theory SchedQueues
  imports LocalKvCache
begin

text \<open>
  The request queues of the vLLM scheduler, \<open>SchedulerState\<close> of
  \<open>lib/mocker/src/scheduler/vllm/core.rs\<close>: a waiting and a running queue, each with a set of members,
  and the table of requests. A queue may contain entries that are no longer live; they are skipped
  lazily. The lemmas relate every operation to the two lists of live requests, which behave like
  plain queues: first in first out for admission, and the newest or the oldest request as the victim
  of a preemption.
\<close>

section \<open>Requests and queues\<close>

datatype RequestStatus = Waiting | Running | Preempted

datatype PreemptionMode = Lifo | Fifo

record VllmRequestState =
  rq_sequence :: ActiveSequence
  rq_status :: RequestStatus
  num_computed_tokens :: nat
  num_preemptions :: nat

type_synonym requests = "(Uuid, VllmRequestState) hmap"

record SchedulerState =
  waiting :: "Uuid list"
  waiting_members :: "Uuid set"
  running :: "Uuid list"
  running_members :: "Uuid set"
  requests :: requests

record PreemptedRequest =
  pr_uuid :: Uuid
  pr_signals :: "MoveBlock list"

definition sched_default :: SchedulerState where
  "sched_default = \<lparr>waiting = [], waiting_members = {}, running = [], running_members = {}, requests = []\<rparr>"

definition sched_is_empty :: "SchedulerState \<Rightarrow> bool" where
  "sched_is_empty s = (requests s = [])"

definition push_waiting :: "Uuid \<Rightarrow> SchedulerState \<Rightarrow> SchedulerState" where
  "push_waiting uuid s =
     (if uuid \<in> waiting_members s then s
      else s\<lparr>waiting_members := insert uuid (waiting_members s), waiting := waiting s @ [uuid]\<rparr>)"

definition prepend_waiting :: "Uuid \<Rightarrow> SchedulerState \<Rightarrow> SchedulerState" where
  "prepend_waiting uuid s =
     (if uuid \<in> waiting_members s then s
      else s\<lparr>waiting_members := insert uuid (waiting_members s), waiting := uuid # waiting s\<rparr>)"

definition remove_from_waiting :: "Uuid \<Rightarrow> SchedulerState \<Rightarrow> SchedulerState" where
  "remove_from_waiting uuid s =
     (let s1 = (case waiting s of
          front # rest \<Rightarrow> if front = uuid then s\<lparr>waiting := rest\<rparr> else s
        | [] \<Rightarrow> s)
      in s1\<lparr>waiting_members := waiting_members s1 - {uuid}\<rparr>)"

function next_waiting_uuid :: "SchedulerState \<Rightarrow> Uuid option \<times> SchedulerState" where
  "next_waiting_uuid s =
     (case waiting s of
        [] \<Rightarrow> (None, s)
      | uuid # rest \<Rightarrow>
          let dropped = s\<lparr>waiting := rest, waiting_members := waiting_members s - {uuid}\<rparr> in
          (case hm_get (requests s) uuid of
             None \<Rightarrow> next_waiting_uuid dropped
           | Some request \<Rightarrow>
               if uuid \<in> waiting_members s \<and> rq_status request \<noteq> Running then (Some uuid, s)
               else next_waiting_uuid dropped))"
  by pat_completeness auto
termination
  by (relation "measure (\<lambda>s. length (waiting s))") auto

declare next_waiting_uuid.simps [simp del]

definition is_running :: "requests \<Rightarrow> Uuid set \<Rightarrow> Uuid \<Rightarrow> bool" where
  "is_running reqs members uuid = (uuid \<in> members \<and>
     (case hm_get reqs uuid of Some request \<Rightarrow> rq_status request = Running | None \<Rightarrow> False))"

fun compact_loop :: "requests \<Rightarrow> Uuid list \<Rightarrow> Uuid set \<Rightarrow> Uuid list \<Rightarrow> Uuid list \<times> Uuid set" where
  "compact_loop reqs [] members compacted = (compacted, members)"
| "compact_loop reqs (uuid # rest) members compacted =
     (if is_running reqs members uuid then compact_loop reqs rest members (compacted @ [uuid])
      else compact_loop reqs rest (members - {uuid}) compacted)"

definition compact_running :: "SchedulerState \<Rightarrow> SchedulerState" where
  "compact_running s =
     (case compact_loop (requests s) (running s) (running_members s) [] of
        (compacted, members) \<Rightarrow> s\<lparr>running := compacted, running_members := members\<rparr>)"

definition transition_to_running :: "Uuid \<Rightarrow> SchedulerState \<Rightarrow> SchedulerState" where
  "transition_to_running uuid s =
     (let s1 = remove_from_waiting uuid s;
          s2 = (if uuid \<in> running_members s1 then s1
            else s1\<lparr>running_members := insert uuid (running_members s1), running := running s1 @ [uuid]\<rparr>)
      in case hm_get (requests s2) uuid of
           Some request \<Rightarrow> s2\<lparr>requests := hm_insert uuid (request\<lparr>rq_status := Running\<rparr>) (requests s2)\<rparr>
         | None \<Rightarrow> s2)"

definition complete :: "Uuid \<Rightarrow> SchedulerState \<Rightarrow> SchedulerState" where
  "complete uuid s = s\<lparr>waiting_members := waiting_members s - {uuid},
     running_members := running_members s - {uuid}, requests := hm_remove uuid (requests s)\<rparr>"

definition running_sequence :: "SchedulerState \<Rightarrow> Uuid \<Rightarrow> ActiveSequence option" where
  "running_sequence s uuid =
     (if uuid \<notin> running_members s then None else map_option rq_sequence (hm_get (requests s) uuid))"

text \<open>\<open>VecDeque::pop_back\<close> and \<open>pop_front\<close> of a non-empty queue.\<close>

definition pop_victim :: "PreemptionMode \<Rightarrow> Uuid list \<Rightarrow> Uuid \<times> Uuid list" where
  "pop_victim mode q = (case mode of Lifo \<Rightarrow> (last q, butlast q) | Fifo \<Rightarrow> (hd q, tl q))"

function victim_loop :: "PreemptionMode \<Rightarrow> requests \<Rightarrow> Uuid list \<Rightarrow> Uuid set \<Rightarrow> Uuid option \<times> Uuid list \<times> Uuid set" where
  "victim_loop mode reqs q members =
     (if q = [] then (None, [], members)
      else case pop_victim mode q of
        (candidate, q') \<Rightarrow>
          if is_running reqs members candidate then (Some candidate, q', members)
          else victim_loop mode reqs q' (members - {candidate}))"
  by pat_completeness auto
termination
  by (relation "measure (\<lambda>(mode, reqs, q, members). length q)")
    (auto simp: pop_victim_def split: PreemptionMode.splits)

declare victim_loop.simps [simp del]

definition request_invariants :: "build_env \<Rightarrow> VllmRequestState \<Rightarrow> unit run" where
  "request_invariants E request =
     assert_run (debug_assertions E \<longrightarrow>
       num_computed_tokens request \<le> as_len (rq_sequence request) \<and>
       num_allocated_tokens (rq_sequence request) \<le> as_len (rq_sequence request))"

definition request_progress :: "build_env \<Rightarrow> VllmRequestState \<Rightarrow> unit run" where
  "request_progress E request = do {
     request_invariants E request;
     assert_run (debug_assertions E \<longrightarrow>
       num_computed_tokens request \<le> num_allocated_tokens (rq_sequence request))
   }"

definition preempt :: "build_env \<Rightarrow> PreemptionMode \<Rightarrow> SchedulerState \<Rightarrow>
    (PreemptedRequest option \<times> SchedulerState) run" where
  "preempt E mode s =
     (case victim_loop mode (requests s) (running s) (running_members s) of
        (None, q, members) \<Rightarrow> Some (None, s\<lparr>running := q, running_members := members\<rparr>)
      | (Some uuid, q, members) \<Rightarrow>
          let s1 = s\<lparr>running := q, running_members := members - {uuid}\<rparr> in
          (case hm_get (requests s1) uuid of
             None \<Rightarrow> Some (None, s1)
           | Some request \<Rightarrow> do {
               (signals, sequence) \<leftarrow> reset_with_signal (rq_sequence request);
               let request1 = request\<lparr>rq_status := Preempted, num_computed_tokens := 0,
                 num_preemptions := num_preemptions request + 1, rq_sequence := sequence\<rparr>;
               request_invariants E request1;
               assert_run (debug_assertions E \<longrightarrow> num_allocated_tokens (rq_sequence request1) = 0);
               Some (Some \<lparr>pr_uuid = uuid, pr_signals = signals\<rparr>,
                 prepend_waiting uuid (s1\<lparr>requests := hm_insert uuid request1 (requests s1)\<rparr>))
             }))"

section \<open>How the queues shrink\<close>

text \<open>
  What the search for a victim finds: it removes dead entries from one end of the queue, up to the
  first live one, or all of them.
\<close>

definition around :: "PreemptionMode \<Rightarrow> Uuid list \<Rightarrow> Uuid list \<Rightarrow> Uuid list \<Rightarrow> Uuid list" where
  "around mode kept found dead = (case mode of Lifo \<Rightarrow> kept @ found @ dead | Fifo \<Rightarrow> dead @ found @ kept)"

definition victim_found :: "PreemptionMode \<Rightarrow> requests \<Rightarrow> Uuid list \<Rightarrow> Uuid set \<Rightarrow> Uuid option \<Rightarrow> Uuid list \<Rightarrow> Uuid set \<Rightarrow> bool" where
  "victim_found mode reqs q members v q' members' = (\<exists>dead.
     (\<forall>u \<in> set dead. \<not> is_running reqs members u) \<and> members' = members - set dead \<and>
     q = around mode q' (case v of None \<Rightarrow> [] | Some u \<Rightarrow> [u]) dead \<and>
     (case v of None \<Rightarrow> q' = [] | Some u \<Rightarrow> is_running reqs members u))"

lemma is_running_subset: "is_running reqs (members - dead) u = (is_running reqs members u \<and> u \<notin> dead)"
  by (auto simp: is_running_def)

lemma pop_victim_around: "q \<noteq> [] \<Longrightarrow> pop_victim mode q = (c, q') \<Longrightarrow> q = around mode q' [c] []"
  by (auto simp: pop_victim_def around_def split: PreemptionMode.splits)

lemma victim_loop_found:
  "victim_loop mode reqs q members = (v, q', members') \<Longrightarrow> victim_found mode reqs q members v q' members'"
proof (induction mode reqs q members rule: victim_loop.induct)
  case (1 mode reqs q members)
  show ?case
  proof (cases "q = []")
    case True
    then show ?thesis
      using "1.prems" by (subst (asm) victim_loop.simps) (cases mode; auto simp: victim_found_def around_def)
  next
    case ne: False
    obtain c q1 where c: "pop_victim mode q = (c, q1)" by fastforce
    have q: "q = around mode q1 [c] []" using pop_victim_around [OF ne c] .
    show ?thesis
    proof (cases "is_running reqs members c")
      case True
      then have "v = Some c" "q' = q1" "members' = members"
        using "1.prems" ne c by (subst (asm) victim_loop.simps, simp)+
      then show ?thesis using q True by (auto simp: victim_found_def intro!: exI [of _ "[]"])
    next
      case False
      then have "victim_found mode reqs q1 (members - {c}) v q' members'"
        using "1.prems" "1.IH" [OF ne c [symmetric] False] ne c by (subst (asm) victim_loop.simps) simp
      then obtain dead where d: "\<forall>u \<in> set dead. \<not> is_running reqs (members - {c}) u" "members' = members - {c} - set dead"
        "q1 = around mode q' (case v of None \<Rightarrow> [] | Some u \<Rightarrow> [u]) dead"
        "case v of None \<Rightarrow> q' = [] | Some u \<Rightarrow> is_running reqs (members - {c}) u"
        by (auto simp: victim_found_def)
      define dead' where "dead' = (case mode of Lifo \<Rightarrow> dead @ [c] | Fifo \<Rightarrow> c # dead)"
      have "set dead' = insert c (set dead)" by (auto simp: dead'_def split: PreemptionMode.splits)
      moreover have "q = around mode q' (case v of None \<Rightarrow> [] | Some u \<Rightarrow> [u]) dead'"
        using q d(3) by (simp add: around_def dead'_def split: PreemptionMode.splits)
      ultimately show ?thesis
        using d False unfolding victim_found_def
        by (intro exI [of _ dead']) (auto simp: is_running_subset split: option.splits)
    qed
  qed
qed

lemma victim_found_length:
  "victim_found mode reqs q members v q' members' \<Longrightarrow> length q' + (case v of None \<Rightarrow> 0 | Some _ \<Rightarrow> 1) \<le> length q"
  by (cases mode) (auto simp: victim_found_def around_def split: option.splits)

lemma preempt_shrinks:
  "preempt E mode s = Some (Some p, s') \<Longrightarrow> length (running s') < length (running s)"
  using victim_found_length [OF victim_loop_found]
  by (fastforce simp: preempt_def run_simps Let_def prepend_waiting_def split: prod.splits option.splits)

lemma preempt_queue:
  assumes "preempt E mode s = Some (p, s')"
  shows "length (running s') \<le> length (running s)" and "p = None \<Longrightarrow> waiting s' = waiting s"
    and "p = Some q \<Longrightarrow> length (running s') < length (running s)"
proof -
  obtain v q' m' where v: "victim_loop mode (requests s) (running s) (running_members s) = (v, q', m')"
    by (metis prod_cases3)
  have "length q' \<le> length (running s)" using victim_found_length [OF victim_loop_found [OF v]] by simp
  then show "length (running s') \<le> length (running s)"
    using assms v
    by (auto simp: preempt_def run_simps Let_def prepend_waiting_def split: option.splits if_splits)
  show "p = None \<Longrightarrow> waiting s' = waiting s"
    using assms v by (auto simp: preempt_def run_simps Let_def split: option.splits)
  show "p = Some q \<Longrightarrow> length (running s') < length (running s)"
    using assms preempt_shrinks by blast
qed

lemma next_waiting_front:
  "next_waiting_uuid s = (u, s') \<Longrightarrow> (\<exists>dropped. waiting s = dropped @ waiting s') \<and>
     (\<forall>uuid. u = Some uuid \<longrightarrow> (\<exists>rest. waiting s' = uuid # rest)) \<and> running s' = running s"
proof (induction s rule: next_waiting_uuid.induct)
  case (1 s)
  show ?case
  proof (cases "waiting s")
    case Nil
    then show ?thesis using "1.prems" by (subst (asm) next_waiting_uuid.simps) auto
  next
    case (Cons uuid rest)
    let ?d = "s\<lparr>waiting := rest, waiting_members := waiting_members s - {uuid}\<rparr>"
    show ?thesis
    proof (cases "\<exists>rq. hm_get (requests s) uuid = Some rq \<and> uuid \<in> waiting_members s \<and> rq_status rq \<noteq> Running")
      case True
      then show ?thesis using "1.prems" Cons by (subst (asm) next_waiting_uuid.simps) auto
    next
      case False
      then have d: "next_waiting_uuid ?d = (u, s')"
        using "1.prems" Cons by (subst (asm) next_waiting_uuid.simps) (auto simp: Let_def split: option.splits if_splits)
      have "(\<exists>dropped. waiting ?d = dropped @ waiting s') \<and>
          (\<forall>uuid. u = Some uuid \<longrightarrow> (\<exists>rest. waiting s' = uuid # rest)) \<and> running s' = running ?d"
      proof (cases "hm_get (requests s) uuid")
        case None
        then show ?thesis using "1.IH"(1) [OF Cons refl None d] by simp
      next
        case (Some rq)
        then show ?thesis using "1.IH"(2) [OF Cons refl Some _ d] False by simp
      qed
      then show ?thesis using Cons by (auto intro: exI [of _ "uuid # _"])
    qed
  qed
qed


section \<open>The invariant of the queues\<close>

text \<open>
  The member sets are determined by the requests: every request is in exactly one of them, the one its
  status says. Each queue contains its members; dead entries may be in between, but no running entry twice.
\<close>

definition has_status :: "(RequestStatus \<Rightarrow> bool) \<Rightarrow> SchedulerState \<Rightarrow> Uuid set" where
  "has_status P s = {u. \<exists>rq. hm_get (requests s) u = Some rq \<and> P (rq_status rq)}"

definition queue_inv :: "SchedulerState \<Rightarrow> bool" where
  "queue_inv s = (hm_wf (requests s) \<and> distinct (running s) \<and>
     waiting_members s \<subseteq> set (waiting s) \<and> running_members s \<subseteq> set (running s) \<and>
     waiting_members s = has_status (\<lambda>t. t \<noteq> Running) s \<and> running_members s = has_status (\<lambda>t. t = Running) s)"

text \<open>While requests are scheduled, the running queue has no dead entries either.\<close>

definition compacted_inv :: "SchedulerState \<Rightarrow> bool" where
  "compacted_inv s = (queue_inv s \<and> set (running s) = running_members s)"

lemma queue_invD:
  assumes "queue_inv s"
  shows "hm_wf (requests s)" "distinct (running s)" "waiting_members s \<subseteq> set (waiting s)" "running_members s \<subseteq> set (running s)"
    "u \<in> waiting_members s \<longleftrightarrow> (\<exists>rq. hm_get (requests s) u = Some rq \<and> rq_status rq \<noteq> Running)"
    "u \<in> running_members s \<longleftrightarrow> (\<exists>rq. hm_get (requests s) u = Some rq \<and> rq_status rq = Running)"
  using assms by (auto simp: queue_inv_def has_status_def)

lemma is_running_member: "queue_inv s \<Longrightarrow> is_running (requests s) (running_members s) u = (u \<in> running_members s)"
  using queue_invD(6) [of s u] by (auto simp: is_running_def)

lemma sched_default_inv: "queue_inv sched_default"
  by (simp add: queue_inv_def sched_default_def has_status_def)

lemma has_status_queues [simp]:
  "has_status P (s\<lparr>waiting := w\<rparr>) = has_status P s" "has_status P (s\<lparr>running := r\<rparr>) = has_status P s"
  by (simp_all add: has_status_def)

lemma queue_inv_waiting: "queue_inv s \<Longrightarrow> waiting_members s \<subseteq> set w \<Longrightarrow> queue_inv (s\<lparr>waiting := w\<rparr>)"
  by (auto simp: queue_inv_def)

lemma queue_inv_running: "queue_inv s \<Longrightarrow> running_members s \<subseteq> set r \<Longrightarrow> distinct r \<Longrightarrow> queue_inv (s\<lparr>running := r\<rparr>)"
  by (auto simp: queue_inv_def)

lemma set_request_inv:
  assumes "queue_inv s" "hm_get (requests s) u = Some rq" "rq_status rq' = rq_status rq"
  shows "queue_inv (s\<lparr>requests := hm_insert u rq' (requests s)\<rparr>)"
  using assms by (auto simp: queue_inv_def has_status_def)

lemma receive_inv:
  assumes "queue_inv s" "hm_get (requests s) u = None" "rq_status rq \<noteq> Running"
  shows "queue_inv (push_waiting u (s\<lparr>requests := hm_insert u rq (requests s)\<rparr>))"
  using assms by (auto simp: queue_inv_def has_status_def push_waiting_def)

lemma complete_inv: "queue_inv s \<Longrightarrow> queue_inv (complete u s)"
  by (auto simp: queue_inv_def has_status_def complete_def)

lemma transition_inv:
  assumes "compacted_inv s" "u \<in> waiting_members s"
  shows "compacted_inv (transition_to_running u s)" and "running (transition_to_running u s) = running s @ [u]"
proof -
  have q: "queue_inv s" "set (running s) = running_members s" using assms(1) by (auto simp: compacted_inv_def)
  obtain rq where rq: "hm_get (requests s) u = Some rq" "rq_status rq \<noteq> Running"
    using queue_invD(5) [OF q(1)] assms(2) by blast
  then have new: "u \<notin> running_members s" using queue_invD(6) [OF q(1)] by auto
  obtain rest where w: "waiting_members s \<subseteq> insert u (set rest)" and t: "transition_to_running u s = s\<lparr>waiting := rest,
      waiting_members := waiting_members s - {u}, running := running s @ [u],
      running_members := insert u (running_members s), requests := hm_insert u (rq\<lparr>rq_status := Running\<rparr>) (requests s)\<rparr>"
  proof (cases "waiting s")
    case Nil
    then show ?thesis using assms(2) queue_invD(3) [OF q(1)] by simp
  next
    case (Cons f rest)
    then show ?thesis
      using new rq queue_invD(3) [OF q(1)]
      by (intro that [of "if f = u then rest else f # rest"]) (auto simp: transition_to_running_def remove_from_waiting_def Let_def)
  qed
  show "running (transition_to_running u s) = running s @ [u]" by (simp add: t)
  show "compacted_inv (transition_to_running u s)"
    using q new w queue_invD [OF q(1)] by (auto simp: t compacted_inv_def queue_inv_def has_status_def)
qed

text \<open>The next request to admit is the first member of the waiting queue; dead entries before it go.\<close>

lemma next_waiting_first:
  "queue_inv s \<Longrightarrow> next_waiting_uuid s = (find (\<lambda>u. u \<in> waiting_members s) (waiting s),
     s\<lparr>waiting := dropWhile (\<lambda>u. u \<notin> waiting_members s) (waiting s)\<rparr>)"
proof (induction "waiting s" arbitrary: s)
  case Nil
  then show ?case by (subst next_waiting_uuid.simps) simp
next
  case (Cons u rest)
  note w = Cons.hyps(2) [symmetric]
  show ?case
  proof (cases "u \<in> waiting_members s")
    case True
    then obtain rq where "hm_get (requests s) u = Some rq" "rq_status rq \<noteq> Running"
      using queue_invD(5) [OF Cons.prems] by blast
    then show ?thesis using True w by (subst next_waiting_uuid.simps) simp
  next
    case False
    let ?d = "s\<lparr>waiting := rest\<rparr>"
    have d: "s\<lparr>waiting := rest, waiting_members := waiting_members s - {u}\<rparr> = ?d" using False by simp
    have "queue_inv ?d" using queue_inv_waiting [OF Cons.prems] queue_invD(3) [OF Cons.prems] w False by auto
    moreover have "next_waiting_uuid s = next_waiting_uuid ?d"
      using w False queue_invD(5) [OF Cons.prems, of u] d
      by (subst next_waiting_uuid.simps) (auto simp: Let_def split: option.splits)
    ultimately show ?thesis using Cons.hyps(1) [of ?d] False w by simp
  qed
qed

lemma next_waiting_inv:
  assumes "queue_inv s" "next_waiting_uuid s = (u, s')"
  shows "queue_inv s'" "requests s' = requests s" "running s' = running s" "running_members s' = running_members s"
    "waiting_members s' = waiting_members s" "u = Some v \<Longrightarrow> v \<in> waiting_members s"
proof -
  have s': "s' = s\<lparr>waiting := dropWhile (\<lambda>u. u \<notin> waiting_members s) (waiting s)\<rparr>"
    "u = find (\<lambda>u. u \<in> waiting_members s) (waiting s)"
    using next_waiting_first [OF assms(1)] assms(2) by simp_all
  have "waiting_members s \<subseteq> set (dropWhile (\<lambda>u. u \<notin> waiting_members s) (waiting s))"
    using queue_invD(3) [OF assms(1)] by (auto dest: set_mp) (metis (no_types, lifting) UnE set_append set_takeWhileD subsetD takeWhile_dropWhile_id)
  then show "queue_inv s'" using assms(1) by (auto simp: s' queue_inv_def has_status_def)
  show "requests s' = requests s" "running s' = running s" "running_members s' = running_members s"
    "waiting_members s' = waiting_members s" by (simp_all add: s')
  show "u = Some v \<Longrightarrow> v \<in> waiting_members s" by (auto simp: s'(2) find_Some_iff)
qed

lemma compact_loop_eq:
  "compact_loop reqs q members acc = (acc @ filter (is_running reqs members) q, members - {u \<in> set q. \<not> is_running reqs members u})"
proof (induction q arbitrary: members acc)
  case (Cons u q)
  show ?case
  proof (cases "is_running reqs members u")
    case True
    then show ?thesis using Cons by auto
  next
    case False
    then have "filter (is_running reqs (members - {u})) q = filter (is_running reqs members) q"
      by (intro filter_cong) (auto simp: is_running_subset)
    moreover have "members - {u} - {v \<in> set q. \<not> is_running reqs (members - {u}) v} =
        members - {v \<in> set (u # q). \<not> is_running reqs members v}"
      using False by (auto simp: is_running_subset)
    ultimately show ?thesis using False Cons by simp
  qed
qed simp

lemma compact_running_inv:
  assumes "queue_inv s"
  shows "compact_running s = s\<lparr>running := filter (\<lambda>u. u \<in> running_members s) (running s)\<rparr>" and "compacted_inv (compact_running s)"
proof -
  show c: "compact_running s = s\<lparr>running := filter (\<lambda>u. u \<in> running_members s) (running s)\<rparr>"
    using is_running_member [OF assms] by (auto simp: compact_running_def compact_loop_eq intro!: SchedulerState.equality filter_cong)
  show "compacted_inv (compact_running s)"
    using assms by (auto simp: c compacted_inv_def queue_inv_def has_status_def)
qed


section \<open>Preemption\<close>

text \<open>The blocks a request holds in the cache, and a request after its preemption.\<close>

definition held :: "VllmRequestState \<Rightarrow> UniqueBlock list" where
  "held rq = take (blocks_for (rq_sequence rq) (num_allocated_tokens (rq_sequence rq))) (unique_blocks (rq_sequence rq))"

definition preempted_request :: "VllmRequestState \<Rightarrow> VllmRequestState" where
  "preempted_request rq = rq\<lparr>rq_status := Preempted, num_computed_tokens := 0, num_preemptions := num_preemptions rq + 1,
     rq_sequence := (rq_sequence rq)\<lparr>num_allocated_tokens := 0\<rparr>\<rparr>"

text \<open>The state after the victim \<open>u\<close> was taken out of the running queue.\<close>

definition preempted_state :: "Uuid \<Rightarrow> VllmRequestState \<Rightarrow> Uuid list \<Rightarrow> SchedulerState \<Rightarrow> SchedulerState" where
  "preempted_state u rq q s = s\<lparr>running := q, running_members := running_members s - {u},
     waiting := u # waiting s, waiting_members := insert u (waiting_members s),
     requests := hm_insert u (preempted_request rq) (requests s)\<rparr>"

lemma preempt_none:
  assumes "queue_inv s" "running_members s = {}"
  shows "preempt E mode s = Some (None, s\<lparr>running := []\<rparr>)"
proof -
  obtain v q' m' where v: "victim_loop mode (requests s) (running s) (running_members s) = (v, q', m')" by (metis prod_cases3)
  have "v = None" "q' = []" "m' = {}"
    using victim_loop_found [OF v] assms(2) by (auto simp: victim_found_def is_running_def split: option.splits)
  then show ?thesis using v assms(2) by (simp add: preempt_def)
qed

lemma preempt_some:
  assumes inv: "queue_inv s" and ne: "running_members s \<noteq> {}"
    and seq: "\<And>u rq. hm_get (requests s) u = Some rq \<Longrightarrow> as_inv E (rq_sequence rq)"
  obtains u rq q dead where "u \<in> running_members s" "hm_get (requests s) u = Some rq"
    "running s = around mode q [u] dead" "set dead \<inter> running_members s = {}"
    "preempt E mode s = Some (Some \<lparr>pr_uuid = u, pr_signals = map (\<lambda>b. Deref [b]) (rev (held rq))\<rparr>, preempted_state u rq q s)"
proof -
  obtain v q m where v: "victim_loop mode (requests s) (running s) (running_members s) = (v, q, m)" by (metis prod_cases3)
  obtain dead where d: "\<forall>u \<in> set dead. u \<notin> running_members s" "m = running_members s - set dead"
    "running s = around mode q (case v of None \<Rightarrow> [] | Some u \<Rightarrow> [u]) dead"
    "case v of None \<Rightarrow> q = [] | Some u \<Rightarrow> u \<in> running_members s"
    using victim_loop_found [OF v] unfolding victim_found_def is_running_member [OF inv] by blast
  have m: "m = running_members s" using d(1,2) by auto
  obtain u where u: "v = Some u"
    using d queue_invD(4) [OF inv] ne by (cases v; cases mode) (auto simp: around_def)
  then obtain rq where rq: "hm_get (requests s) u = Some rq" "rq_status rq = Running"
    using d(4) queue_invD(6) [OF inv] by auto
  have "u \<notin> waiting_members s" using rq queue_invD(5) [OF inv] by simp
  then have pw: "prepend_waiting u (s\<lparr>running := q, running_members := running_members s - {u},
      requests := hm_insert u (preempted_request rq) (requests s)\<rparr>) = preempted_state u rq q s"
    by (simp add: prepend_waiting_def preempted_state_def)
  have "preempt E mode s = Some (Some \<lparr>pr_uuid = u, pr_signals = map (\<lambda>b. Deref [b]) (rev (held rq))\<rparr>, preempted_state u rq q s)"
    using v u m rq free_signal_ok [OF seq [OF rq(1)]] pw
    by (simp add: preempt_def reset_with_signal_def free_signal_def held_def request_invariants_def preempted_request_def assert_run_def)
  then show thesis using that d u rq(1) by auto
qed

lemma preempted_state_inv:
  assumes "queue_inv s" "u \<in> running_members s" "hm_get (requests s) u = Some rq"
    "running s = around mode q [u] dead" "set dead \<inter> running_members s = {}"
  shows "queue_inv (preempted_state u rq q s)" and "compacted_inv s \<Longrightarrow> compacted_inv (preempted_state u rq q s)"
proof -
  have q: "distinct q" "u \<notin> set q" "set (running s) = insert u (set q \<union> set dead)"
    using queue_invD(2) [OF assms(1)] unfolding assms(4) by (cases mode; auto simp: around_def)+
  have "running_members s - {u} \<subseteq> set q" using queue_invD(4) [OF assms(1)] q(3) assms(5) by auto
  then show i: "queue_inv (preempted_state u rq q s)"
    using assms(1,3) q(1) by (auto simp: preempted_state_def queue_inv_def has_status_def preempted_request_def)
  show "compacted_inv s \<Longrightarrow> compacted_inv (preempted_state u rq q s)"
    using i assms(5) q by (auto simp: compacted_inv_def preempted_state_def)
qed

end
