(* ===== verification/VllmCore.thy ===== *)
theory VllmCore
  imports SchedQueues
begin

text \<open>
  The scheduler of a simulated vLLM worker, \<open>VllmCore\<close> of \<open>lib/mocker/src/scheduler/vllm/core.rs\<close>:
  receiving and dropping requests, and the pass that schedules the running requests, admits waiting
  ones within the token budget, preempts on a shortage of KV blocks, and lets every request that is
  ready emit its next token. The queues are those of \<open>SchedQueues\<close>, the cache that of \<open>LocalKvCache\<close>.

  Clock times are left out: the durations a pass predicts are floating-point functions of a few
  integers, and \<open>pass_result\<close> keeps these integers instead of the durations. The lemmas of this theory
  are those the termination of the loops rests on; \<open>VllmInv\<close> has the invariant of the scheduler.
\<close>

section \<open>The core\<close>

datatype WorkerType = Aggregated | Prefill | Decode

record MockEngineArgs =
  num_gpu_blocks :: nat
  arg_block_size :: nat
  max_num_seqs :: "nat option"
  max_num_batched_tokens :: "nat option"
  arg_prefix_caching :: bool
  enable_chunked_prefill :: bool
  dp_size :: u32
  float_ranges_ok :: bool
  worker_type :: WorkerType
  zmq_kv_events_port :: "u16 option"
  preemption_mode :: PreemptionMode

record DirectRequest =
  dr_tokens :: Tokens
  dr_max_output_tokens :: nat
  dr_uuid :: "Uuid option"

record 'f VllmCore =
  vc_args :: MockEngineArgs
  vc_state :: SchedulerState
  vc_kv :: LocalVllmKvCache
  vc_heap :: "'f lm_heap"

record ScheduledWork =
  total_tokens :: nat
  prompt_tokens :: nat
  prefix_tokens :: nat
  prompt_len :: nat
  sequence_len :: nat

record AdmissionEvent =
  ad_uuid :: Uuid
  reused_input_tokens :: nat

datatype ScheduleOutcome = Scheduled nat "AdmissionEvent option" | Blocked | CurrentPreempted

record OutputSignal =
  out_uuid :: Uuid
  out_completed :: bool

text \<open>The locals of a pass that \<open>schedule_request\<close> gets by mutable reference.\<close>

record pass_acc =
  token_budget :: nat
  scheduled :: "(Uuid, ScheduledWork) hmap"
  batch_count :: nat
  batch_total_isl :: nat
  batch_total_prefix :: nat
  preempted_any :: bool

definition set_request :: "Uuid \<Rightarrow> VllmRequestState \<Rightarrow> 'f VllmCore \<Rightarrow> 'f VllmCore" where
  "set_request uuid request core = core\<lparr>vc_state :=
     (vc_state core)\<lparr>requests := hm_insert uuid request (requests (vc_state core))\<rparr>\<rparr>"

definition set_world :: "LocalVllmKvCache \<times> 'f lm_heap \<Rightarrow> 'f VllmCore \<Rightarrow> 'f VllmCore" where
  "set_world w core = core\<lparr>vc_kv := fst w, vc_heap := snd w\<rparr>"

definition world :: "'f VllmCore \<Rightarrow> LocalVllmKvCache \<times> 'f lm_heap" where
  "world core = (vc_kv core, vc_heap core)"

text \<open>
  \<open>MockEngineArgs::normalized\<close>. The field \<open>float_ranges_ok\<close> stands for the four floating-point settings: it
  says whether each of them meets its declared range.
\<close>

definition normalized :: "MockEngineArgs \<Rightarrow> MockEngineArgs option" where
  "normalized args =
     (let args1 = (if arg_block_size args = 0 then args\<lparr>arg_block_size := 64\<rparr> else args)
      in if num_gpu_blocks args1 < 1 \<or> max_num_seqs args1 = Some 0 \<or> max_num_batched_tokens args1 = Some 0 \<or>
           dp_size args1 < 1 \<or> \<not> float_ranges_ok args1 then None
         else if arg_block_size args1 = 0 then None
         else Some args1)"

definition core_new :: "build_env \<Rightarrow> MockEngineArgs \<Rightarrow> u32 \<Rightarrow> KvEventPublishers \<Rightarrow> 'f lm_heap \<Rightarrow> 'f VllmCore run" where
  "core_new E args dp_rank publishers heap = do {
     args1 \<leftarrow> normalized args;
     kv \<leftarrow> kc_new E (num_gpu_blocks args1) (arg_block_size args1) publishers dp_rank;
     Some \<lparr>vc_args = args1, vc_state = sched_default, vc_kv = kv, vc_heap = heap\<rparr>
   }"

definition receive :: "build_env \<Rightarrow> random_source \<Rightarrow> DirectRequest \<Rightarrow> 'f VllmCore \<Rightarrow> nat \<Rightarrow> ((Uuid \<times> 'f VllmCore) \<times> nat) run" where
  "receive E R request core d = do {
     let (uuid, d1) = (case dr_uuid request of Some u \<Rightarrow> (u, d) | None \<Rightarrow> (draw_uuid R d, Suc d));
     (sequence, d2) \<leftarrow> as_new E R (dr_tokens request) (dr_max_output_tokens request)
       (Some (arg_block_size (vc_args core))) (arg_prefix_caching (vc_args core))
       (zmq_kv_events_port (vc_args core) \<noteq> None) d1;
     let request_state = \<lparr>rq_sequence = sequence, rq_status = Waiting, num_computed_tokens = 0, num_preemptions = 0\<rparr>;
     let core1 = set_request uuid request_state core;
     let core2 = core1\<lparr>vc_state := push_waiting uuid (vc_state core1)\<rparr>;
     (case hm_get (requests (vc_state core2)) uuid of
        Some rq \<Rightarrow> request_progress E rq
      | None \<Rightarrow> Some ());
     Some ((uuid, core2), d2)
   }"

section \<open>Scheduling one request\<close>

text \<open>What a preemption gives back to the pass.\<close>

definition undo_work :: "MockEngineArgs \<Rightarrow> Uuid \<Rightarrow> pass_acc \<Rightarrow> pass_acc" where
  "undo_work args uuid acc =
     (case hm_get (scheduled acc) uuid of
        None \<Rightarrow> acc\<lparr>preempted_any := True\<rparr>
      | Some undone \<Rightarrow>
          let acc1 = acc\<lparr>preempted_any := True, scheduled := hm_remove uuid (scheduled acc),
            token_budget := token_budget acc + total_tokens undone\<rparr>
          in if 0 < prompt_tokens undone \<and> worker_type args \<noteq> Decode
             then acc1\<lparr>batch_count := batch_count acc1 - 1,
               batch_total_isl := batch_total_isl acc1 - (prefix_tokens undone + prompt_tokens undone),
               batch_total_prefix := batch_total_prefix acc1 - prefix_tokens undone\<rparr>
             else acc1)"

text \<open>The request after the cache granted a number of the blocks of its signal.\<close>

definition commit_granted :: "VllmRequestState \<Rightarrow> nat \<Rightarrow> nat \<Rightarrow> nat \<Rightarrow> nat \<times> VllmRequestState" where
  "commit_granted request target expected granted =
     (let sequence = rq_sequence request;
          committed_tokens = (if granted = expected then target
            else let prev_blocks = min (div_ceil (num_allocated_tokens sequence) (as_block_size sequence))
                   (length (unique_blocks sequence))
                 in (prev_blocks + granted) * as_block_size sequence);
          computed = min target committed_tokens
      in (computed, request\<lparr>rq_sequence := commit_allocation sequence (min committed_tokens target),
            num_computed_tokens := computed\<rparr>))"

text \<open>One attempt to allocate: how far the request got, and whether that is all it asked for.\<close>

definition try_allocate :: "build_env \<Rightarrow> Uuid \<Rightarrow> nat \<Rightarrow> 'f VllmCore \<Rightarrow> ((nat \<times> bool) \<times> 'f VllmCore) run" where
  "try_allocate E uuid target core = do {
     request \<leftarrow> hm_get (requests (vc_state core)) uuid;
     let sequence = rq_sequence request;
     let prev_allocated_tokens = num_allocated_tokens sequence;
     if target \<le> prev_allocated_tokens
     then Some ((target, True), set_request uuid (request\<lparr>num_computed_tokens := target\<rparr>) core)
     else do {
       maybe_signal \<leftarrow> prepare_allocation sequence target;
       (case maybe_signal of
          None \<Rightarrow> Some ((target, True), set_request uuid
            (request\<lparr>rq_sequence := commit_allocation sequence target, num_computed_tokens := target\<rparr>) core)
        | Some signal \<Rightarrow> do {
            expected \<leftarrow> (case signal of Use blocks _ _ _ _ \<Rightarrow> Some (length blocks) | _ \<Rightarrow> None);
            (granted, w) \<leftarrow> process E signal (world core);
            assert_run (as_block_size sequence \<noteq> 0);
            let (computed, request1) = commit_granted request target expected granted;
            Some ((computed, granted = expected), set_request uuid request1 (set_world w core))
          })
     }
   }"

lemma try_allocate_cases:
  assumes run: "try_allocate E uuid target core = Some (r, core')"
  obtains (covered) request where "hm_get (requests (vc_state core)) uuid = Some request"
      "target \<le> num_allocated_tokens (rq_sequence request)" "r = (target, True)"
      "core' = set_request uuid (request\<lparr>num_computed_tokens := target\<rparr>) core"
  | (silent) request where "hm_get (requests (vc_state core)) uuid = Some request"
      "num_allocated_tokens (rq_sequence request) < target" "prepare_allocation (rq_sequence request) target = Some None"
      "r = (target, True)" "core' = set_request uuid
        (request\<lparr>rq_sequence := commit_allocation (rq_sequence request) target, num_computed_tokens := target\<rparr>) core"
  | (asked) request blocks hs ps ids parent granted w where "hm_get (requests (vc_state core)) uuid = Some request"
      "num_allocated_tokens (rq_sequence request) < target"
      "prepare_allocation (rq_sequence request) target = Some (Some (Use blocks hs ps ids parent))"
      "process E (Use blocks hs ps ids parent) (world core) = Some (granted, w)"
      "r = (fst (commit_granted request target (length blocks) granted), granted = length blocks)"
      "core' = set_request uuid (snd (commit_granted request target (length blocks) granted)) (set_world w core)"
proof (cases "hm_get (requests (vc_state core)) uuid")
  case None
  then show ?thesis using run by (simp add: try_allocate_def)
next
  case (Some request)
  show ?thesis
  proof (cases "target \<le> num_allocated_tokens (rq_sequence request)")
    case True
    then show ?thesis using run Some by (intro covered) (auto simp: try_allocate_def Let_def)
  next
    case False
    then obtain signal where p: "prepare_allocation (rq_sequence request) target = Some signal"
      using run Some by (auto simp: try_allocate_def run_simps Let_def)
    show ?thesis
    proof (cases signal)
      case None
      then show ?thesis using run Some False p by (intro silent) (auto simp: try_allocate_def Let_def)
    next
      case ev: (Some ev)
      show ?thesis
      proof (cases ev)
        case (Use blocks hs ps ids parent)
        then obtain granted w where pr: "process E ev (world core) = Some (granted, w)"
          using run Some False p ev by (auto simp: try_allocate_def run_simps Let_def)
        show ?thesis
          using run Some False p ev Use pr
          by (intro asked) (auto simp: try_allocate_def run_simps Let_def case_prod_unfold)
      qed (use run Some False p ev in \<open>auto simp: try_allocate_def\<close>)
    qed
  qed
qed

lemma set_request_same [simp]:
  "running (vc_state (set_request u rq core)) = running (vc_state core)"
  "waiting (vc_state (set_request u rq core)) = waiting (vc_state core)"
  "running_members (vc_state (set_request u rq core)) = running_members (vc_state core)"
  "waiting_members (vc_state (set_request u rq core)) = waiting_members (vc_state core)"
  "requests (vc_state (set_request u rq core)) = hm_insert u rq (requests (vc_state core))"
  "vc_args (set_request u rq core) = vc_args core" "world (set_request u rq core) = world core"
  by (simp_all add: set_request_def world_def)

lemma set_world_same [simp]:
  "vc_state (set_world w core) = vc_state core" "vc_args (set_world w core) = vc_args core"
  "world (set_world w core) = w"
  by (simp_all add: set_world_def world_def)

lemma try_allocate_queues:
  "try_allocate E uuid target core = Some (r, core') \<Longrightarrow>
     running (vc_state core') = running (vc_state core) \<and> waiting (vc_state core') = waiting (vc_state core) \<and>
     vc_args core' = vc_args core"
  by (erule try_allocate_cases) simp_all

text \<open>
  The loop of \<open>schedule_request\<close>: allocate, and on a shortage preempt a victim and try again. \<open>None\<close> as
  a result says that the request itself was the victim.
\<close>

function schedule_loop :: "build_env \<Rightarrow> Uuid \<Rightarrow> nat \<Rightarrow> pass_acc \<Rightarrow> 'f VllmCore \<Rightarrow> (nat option \<times> pass_acc \<times> 'f VllmCore) run" where
  "schedule_loop E uuid desired acc core =
     (case try_allocate E uuid desired core of
        None \<Rightarrow> None
      | Some ((computed, enough), core1) \<Rightarrow>
          if enough then Some (Some computed, acc, core1)
          else (case preempt E (preemption_mode (vc_args core1)) (vc_state core1) of
             None \<Rightarrow> None
           | Some (None, state) \<Rightarrow> Some (Some computed, acc, core1\<lparr>vc_state := state\<rparr>)
           | Some (Some pr, state) \<Rightarrow>
               (case process_all E (pr_signals pr) (world core1) of
                  None \<Rightarrow> None
                | Some w \<Rightarrow>
                    let core2 = set_world w (core1\<lparr>vc_state := state\<rparr>);
                        acc1 = undo_work (vc_args core2) (pr_uuid pr) acc
                    in if pr_uuid pr = uuid then Some (None, acc1, core2)
                       else schedule_loop E uuid desired acc1 core2)))"
  by pat_completeness auto
termination
  by (relation "measure (\<lambda>(E, uuid, desired, acc, core). length (running (vc_state core)))")
    (auto dest!: try_allocate_queues preempt_shrinks simp: set_world_def)

declare schedule_loop.simps [simp del]

definition request_sequence_len :: "requests \<Rightarrow> Uuid \<Rightarrow> nat" where
  "request_sequence_len reqs uuid = (case hm_get reqs uuid of Some request \<Rightarrow> as_len (rq_sequence request) | None \<Rightarrow> 0)"

text \<open>The part of \<open>schedule_request\<close> after its loop: account for the work and admit the request.\<close>

definition account_work :: "build_env \<Rightarrow> Uuid \<Rightarrow> bool \<Rightarrow> nat \<Rightarrow> nat \<Rightarrow> nat \<Rightarrow> nat \<Rightarrow> pass_acc \<Rightarrow> 'f VllmCore \<Rightarrow>
    (ScheduleOutcome \<times> pass_acc \<times> 'f VllmCore) run" where
  "account_work E uuid from_waiting cached_prefix_tokens effective_before plen actual acc core = do {
     (case hm_get (requests (vc_state core)) uuid of Some request \<Rightarrow> request_invariants E request | None \<Rightarrow> Some ());
     let tokens_used = actual - effective_before;
     if tokens_used = 0 \<and> actual < request_sequence_len (requests (vc_state core)) uuid then Some (Blocked, acc, core)
     else do {
       let prompt_before = min effective_before plen;
       let used_prompt = min actual plen - prompt_before;
       let work = \<lparr>total_tokens = tokens_used, prompt_tokens = used_prompt, prefix_tokens = prompt_before,
         prompt_len = plen, sequence_len = request_sequence_len (requests (vc_state core)) uuid\<rparr>;
       let acc1 = acc\<lparr>scheduled := hm_insert uuid work (scheduled acc)\<rparr>;
       let acc2 = (if 0 < used_prompt \<and> worker_type (vc_args core) \<noteq> Decode
         then acc1\<lparr>batch_count := batch_count acc1 + 1,
           batch_total_isl := batch_total_isl acc1 + (prompt_before + used_prompt),
           batch_total_prefix := batch_total_prefix acc1 + prompt_before\<rparr>
         else acc1);
       let core1 = (if from_waiting then core\<lparr>vc_state := transition_to_running uuid (vc_state core)\<rparr> else core);
       Some (Scheduled tokens_used
           (if from_waiting then Some \<lparr>ad_uuid = uuid, reused_input_tokens = cached_prefix_tokens\<rparr> else None),
         acc2\<lparr>token_budget := token_budget acc2 - tokens_used\<rparr>, core1)
     }
   }"

text \<open>The tokens of a request that need no computation: what it has computed, or else what is cached.\<close>

definition cached_prefix :: "'f VllmCore \<Rightarrow> VllmRequestState \<Rightarrow> nat" where
  "cached_prefix core request = (if num_computed_tokens request = 0
     then cached_tokens (get_prefill_cost (vc_kv core) (vc_heap core) (rq_sequence request)) else 0)"

definition schedule_request :: "build_env \<Rightarrow> Uuid \<Rightarrow> bool \<Rightarrow> pass_acc \<Rightarrow> 'f VllmCore \<Rightarrow>
    (ScheduleOutcome \<times> pass_acc \<times> 'f VllmCore) run" where
  "schedule_request E uuid from_waiting acc core = do {
     request \<leftarrow> hm_get (requests (vc_state core)) uuid;
     request_invariants E request;
     let cached_prefix_tokens = cached_prefix core request;
     let effective_before = num_computed_tokens request + cached_prefix_tokens;
     let plen = num_input_tokens (rq_sequence request);
     let remaining_known_tokens = as_len (rq_sequence request) - effective_before;
     let prompt_remaining = plen - min effective_before plen;
     if 0 < prompt_remaining \<and> \<not> enable_chunked_prefill (vc_args core) \<and> token_budget acc < prompt_remaining
     then Some (Blocked, acc, core)
     else do {
       let desired_tokens = min remaining_known_tokens (token_budget acc);
       if desired_tokens = 0 \<and> 0 < remaining_known_tokens then Some (Blocked, acc, core)
       else do {
         (reached, acc1, core1) \<leftarrow> schedule_loop E uuid (effective_before + desired_tokens) acc core;
         (case reached of
            None \<Rightarrow> Some (CurrentPreempted, acc1, core1)
          | Some actual \<Rightarrow> account_work E uuid from_waiting cached_prefix_tokens effective_before plen actual acc1 core1)
       }
     }
   }"

subsection \<open>How queues change\<close>

lemma schedule_loop_queue:
  "schedule_loop E uuid desired acc core = Some (r, acc', core') \<Longrightarrow>
     length (running (vc_state core')) \<le> length (running (vc_state core)) \<and>
     (r = None \<longrightarrow> length (running (vc_state core')) < length (running (vc_state core))) \<and>
     (preempted_any acc \<longrightarrow> preempted_any acc') \<and>
     (\<not> preempted_any acc' \<longrightarrow> waiting (vc_state core') = waiting (vc_state core)) \<and> vc_args core' = vc_args core"
proof (induction E uuid desired acc core rule: schedule_loop.induct)
  case (1 E uuid desired acc core)
  obtain computed enough core1 where t: "try_allocate E uuid desired core = Some ((computed, enough), core1)"
    using "1.prems" by (subst (asm) schedule_loop.simps) (auto split: option.splits)
  note q = try_allocate_queues [OF t]
  show ?case
  proof (cases enough)
    case True
    then show ?thesis using "1.prems" t q by (subst (asm) schedule_loop.simps) auto
  next
    case False
    then obtain victim state where p: "preempt E (preemption_mode (vc_args core1)) (vc_state core1) = Some (victim, state)"
      using "1.prems" t by (subst (asm) schedule_loop.simps) (auto split: option.splits)
    note pq = preempt_queue [OF p]
    show ?thesis
    proof (cases victim)
      case None
      then show ?thesis using "1.prems" t q False p pq by (subst (asm) schedule_loop.simps) auto
    next
      case (Some pr)
      then obtain w where w: "process_all E (pr_signals pr) (world core1) = Some w"
        using "1.prems" t q False p by (subst (asm) schedule_loop.simps) (auto split: option.splits)
      let ?core2 = "set_world w (core1\<lparr>vc_state := state\<rparr>)"
      let ?acc1 = "undo_work (vc_args ?core2) (pr_uuid pr) acc"
      have any: "preempted_any ?acc1" by (simp add: undo_work_def Let_def split: option.splits)
      show ?thesis
      proof (cases "pr_uuid pr = uuid")
        case True
        then show ?thesis using "1.prems" t q False p pq Some w any by (subst (asm) schedule_loop.simps) auto
      next
        case other: False
        have rec: "schedule_loop E uuid desired ?acc1 ?core2 = Some (r, acc', core')"
          using "1.prems" t False p Some w other by (subst (asm) schedule_loop.simps) (simp add: Let_def)
        from "1.IH" [OF t refl refl False p refl Some w refl refl other rec]
        show ?thesis using q pq(3) [OF Some] any by auto
      qed
    qed
  qed
qed

lemma account_queue:
  assumes "account_work E uuid from_waiting cached before plen actual acc core = Some (r, acc', core')"
  shows "preempted_any acc' = preempted_any acc" and "vc_args core' = vc_args core" and "r \<noteq> CurrentPreempted"
    and "\<not> from_waiting \<Longrightarrow> core' = core" and "r = Blocked \<Longrightarrow> core' = core"
    and "from_waiting \<Longrightarrow> r = Scheduled n a \<Longrightarrow> core' = core\<lparr>vc_state := transition_to_running uuid (vc_state core)\<rparr>"
  using assms by (auto simp: account_work_def run_simps Let_def split: if_splits option.splits)

lemma schedule_request_eq:
  fixes acc :: pass_acc
  assumes "hm_get (requests (vc_state core)) uuid = Some request" "request_invariants E request = Some ()"
  defines "before \<equiv> num_computed_tokens request + cached_prefix core request" and "plen \<equiv> num_input_tokens (rq_sequence request)"
  defines "known \<equiv> as_len (rq_sequence request) - before" and "open_prompt \<equiv> plen - min before plen"
  defines "desired \<equiv> min known (token_budget acc)"
  shows "schedule_request E uuid from_waiting acc core =
    (if 0 < open_prompt \<and> \<not> enable_chunked_prefill (vc_args core) \<and> token_budget acc < open_prompt
     then Some (Blocked, acc, core)
     else if desired = 0 \<and> 0 < known then Some (Blocked, acc, core)
     else Option.bind (schedule_loop E uuid (before + desired) acc core) (\<lambda>(reached, acc1, core1).
       case reached of None \<Rightarrow> Some (CurrentPreempted, acc1, core1)
       | Some actual \<Rightarrow> account_work E uuid from_waiting (cached_prefix core request) before plen actual acc1 core1))"
  unfolding schedule_request_def Let_def desired_def known_def open_prompt_def before_def plen_def using assms(1,2) by simp

lemma schedule_request_cases:
  assumes run: "schedule_request E uuid from_waiting acc core = Some (r, acc', core')"
  obtains (refused) request where "hm_get (requests (vc_state core)) uuid = Some request"
      "request_invariants E request = Some ()" "r = Blocked" "acc' = acc" "core' = core"
  | (victim) request desired where "hm_get (requests (vc_state core)) uuid = Some request"
      "request_invariants E request = Some ()"
      "desired = min (as_len (rq_sequence request) - (num_computed_tokens request + cached_prefix core request)) (token_budget acc)"
      "schedule_loop E uuid (num_computed_tokens request + cached_prefix core request + desired) acc core =
        Some (None, acc', core')" "r = CurrentPreempted"
  | (worked) request desired actual acc1 core1 where "hm_get (requests (vc_state core)) uuid = Some request"
      "request_invariants E request = Some ()"
      "desired = min (as_len (rq_sequence request) - (num_computed_tokens request + cached_prefix core request)) (token_budget acc)"
      "schedule_loop E uuid (num_computed_tokens request + cached_prefix core request + desired) acc core =
        Some (Some actual, acc1, core1)"
      "account_work E uuid from_waiting (cached_prefix core request)
        (num_computed_tokens request + cached_prefix core request) (num_input_tokens (rq_sequence request)) actual acc1 core1 =
        Some (r, acc', core')"
proof -
  obtain request where rq: "hm_get (requests (vc_state core)) uuid = Some request"
    "request_invariants E request = Some ()"
    using run by (auto simp: schedule_request_def run_simps)
  let ?before = "num_computed_tokens request + cached_prefix core request"
  let ?plen = "num_input_tokens (rq_sequence request)" and ?rem = "as_len (rq_sequence request) - ?before"
  define desired where "desired = min ?rem (token_budget acc)"
  note eq = schedule_request_eq [OF rq, of from_waiting acc, folded desired_def]
  show ?thesis
  proof (cases "schedule_request E uuid from_waiting acc core = Some (Blocked, acc, core) \<and> r = Blocked \<and> acc' = acc \<and> core' = core")
    case True
    then show ?thesis using rq by (intro refused) auto
  next
    case False
    then obtain reached acc1 core1 where l: "schedule_loop E uuid (?before + desired) acc core = Some (reached, acc1, core1)"
      "(case reached of None \<Rightarrow> Some (CurrentPreempted, acc1, core1)
         | Some actual \<Rightarrow> account_work E uuid from_waiting (cached_prefix core request) ?before ?plen actual acc1 core1) =
        Some (r, acc', core')"
      using run unfolding eq by (auto simp: run_simps split: if_splits)
    show ?thesis
    proof (cases reached)
      case None
      then show ?thesis using l rq by (intro victim [OF rq desired_def]) auto
    next
      case (Some actual)
      then show ?thesis using l rq by (intro worked [OF rq desired_def]) auto
    qed
  qed
qed

lemma schedule_request_queue:
  assumes "schedule_request E uuid from_waiting acc core = Some (r, acc', core')"
  shows "\<not> from_waiting \<Longrightarrow> length (running (vc_state core')) \<le> length (running (vc_state core))"
    and "r = CurrentPreempted \<Longrightarrow> length (running (vc_state core')) < length (running (vc_state core))"
    and "vc_args core' = vc_args core" and "preempted_any acc \<Longrightarrow> preempted_any acc'"
    and "from_waiting \<Longrightarrow> r = Scheduled n a \<Longrightarrow> waiting (vc_state core) = uuid # rest \<Longrightarrow>
      \<not> preempted_any acc' \<Longrightarrow> waiting (vc_state core') = rest"
proof -
  consider (none) "r = Blocked" "acc' = acc" "core' = core"
    | (loop) desired acc1 core1 where "schedule_loop E uuid desired acc core = Some (None, acc1, core1)"
        "r = CurrentPreempted" "acc' = acc1" "core' = core1"
    | (work) desired acc1 core1 actual cached before plen where
        "schedule_loop E uuid desired acc core = Some (Some actual, acc1, core1)"
        "account_work E uuid from_waiting cached before plen actual acc1 core1 = Some (r, acc', core')"
    using assms by (elim schedule_request_cases) metis+
  note c = this
  show "\<not> from_waiting \<Longrightarrow> length (running (vc_state core')) \<le> length (running (vc_state core))"
    using c schedule_loop_queue account_queue(4) by cases fastforce+
  show "r = CurrentPreempted \<Longrightarrow> length (running (vc_state core')) < length (running (vc_state core))"
    using c schedule_loop_queue account_queue(3) by cases fastforce+
  show "vc_args core' = vc_args core"
    using c schedule_loop_queue account_queue(2) by cases fastforce+
  show "preempted_any acc \<Longrightarrow> preempted_any acc'"
    using c schedule_loop_queue account_queue(1) by cases fastforce+
  show "waiting (vc_state core') = rest"
    if "from_waiting" "r = Scheduled n a" "waiting (vc_state core) = uuid # rest" "\<not> preempted_any acc'"
    using c
  proof cases
    case work
    have "waiting (vc_state core1) = uuid # rest"
      using schedule_loop_queue [OF work(1)] account_queue(1) [OF work(2)] that(3,4) by auto
    moreover have "core' = core1\<lparr>vc_state := transition_to_running uuid (vc_state core1)\<rparr>"
      using account_queue(6) [OF work(2) that(1,2)] .
    ultimately show ?thesis
      by (simp add: transition_to_running_def remove_from_waiting_def Let_def split: option.splits)
  qed (use that(2) in auto)
qed

section \<open>A pass\<close>

text \<open>The requests that are running, in their order; a shortage may preempt some of them on the way.\<close>

function running_loop :: "build_env \<Rightarrow> nat \<Rightarrow> pass_acc \<Rightarrow> AdmissionEvent list \<Rightarrow> 'f VllmCore \<Rightarrow>
    (pass_acc \<times> AdmissionEvent list \<times> 'f VllmCore) run" where
  "running_loop E req_index acc admissions core =
     (if req_index < length (running (vc_state core)) \<and> 0 < token_budget acc then
        (case schedule_request E (running (vc_state core) ! req_index) False acc core of
           None \<Rightarrow> None
         | Some (Scheduled used admission, acc1, core1) \<Rightarrow>
             running_loop E (Suc req_index) acc1
               (case admission of Some a \<Rightarrow> admissions @ [a] | None \<Rightarrow> admissions) core1
         | Some (Blocked, acc1, core1) \<Rightarrow> Some (acc1, admissions, core1)
         | Some (CurrentPreempted, acc1, core1) \<Rightarrow> running_loop E req_index acc1 admissions core1)
      else Some (acc, admissions, core))"
  by pat_completeness auto
termination
  by (relation "measure (\<lambda>(E, i, acc, admissions, core). length (running (vc_state core)) - i)")
    (use schedule_request_queue(1,2) in fastforce)+

declare running_loop.simps [simp del]

lemma waiting_shrinks:
  assumes "(Some uuid, state) = next_waiting_uuid (vc_state core)"
    and "schedule_request E uuid True acc (core\<lparr>vc_state := state\<rparr>) = Some (Scheduled n a, acc1, core1)"
    and "\<not> preempted_any acc1"
  shows "length (waiting (vc_state core1)) < length (waiting (vc_state core))"
proof -
  obtain dropped rest where w: "waiting (vc_state core) = dropped @ waiting state" "waiting state = uuid # rest"
    using next_waiting_front [OF assms(1) [symmetric]] by blast
  have "waiting (vc_state core1) = rest"
    using schedule_request_queue(5) [OF assms(2)] w(2) assms(3) by simp
  then show ?thesis using w by simp
qed

text \<open>New and preempted requests, the oldest first, while there is room for another one.\<close>

function waiting_loop :: "build_env \<Rightarrow> nat \<Rightarrow> pass_acc \<Rightarrow> AdmissionEvent list \<Rightarrow> 'f VllmCore \<Rightarrow>
    (pass_acc \<times> AdmissionEvent list \<times> 'f VllmCore) run" where
  "waiting_loop E max_num_running acc admissions core =
     (if \<not> preempted_any acc \<and> length (running (vc_state core)) < max_num_running then
        (case next_waiting_uuid (vc_state core) of
           (None, state) \<Rightarrow> Some (acc, admissions, core\<lparr>vc_state := state\<rparr>)
         | (Some uuid, state) \<Rightarrow>
             (case schedule_request E uuid True acc (core\<lparr>vc_state := state\<rparr>) of
                None \<Rightarrow> None
              | Some (Scheduled used admission, acc1, core1) \<Rightarrow>
                  let admissions1 = (case admission of Some a \<Rightarrow> admissions @ [a] | None \<Rightarrow> admissions) in
                  if used = 0 \<and> token_budget acc1 = 0 then Some (acc1, admissions1, core1)
                  else waiting_loop E max_num_running acc1 admissions1 core1
              | Some (Blocked, acc1, core1) \<Rightarrow> Some (acc1, admissions, core1)
              | Some (CurrentPreempted, acc1, core1) \<Rightarrow> Some (acc1, admissions, core1)))
      else Some (acc, admissions, core))"
  by pat_completeness auto
termination
proof (relation "measure (\<lambda>(E, n, acc, admissions, core). if preempted_any acc then 0 else Suc (length (waiting (vc_state core))))",
    goal_cases)
  case 1
  then show ?case by simp
next
  case 2
  then show ?case
    by (auto dest: waiting_shrinks)
qed

declare waiting_loop.simps [simp del]

section \<open>Decoding\<close>

fun process_signals :: "build_env \<Rightarrow> MoveBlock list \<Rightarrow> LocalVllmKvCache \<times> 'f lm_heap \<Rightarrow>
    (bool \<times> LocalVllmKvCache \<times> 'f lm_heap) run" where
  "process_signals E [] w = Some (True, w)"
| "process_signals E (signal # signals) w = do {
     (n, w1) \<leftarrow> process E signal w;
     if 0 < n then process_signals E signals w1
     else (case signal of
         Use blocks _ _ _ _ \<Rightarrow>
           if length blocks \<noteq> 1 then None
           else if is_full (blocks ! 0) then None
           else Some (False, w1)
       | _ \<Rightarrow> None)
   }"

definition ready_to_decode :: "build_env \<Rightarrow> requests \<Rightarrow> Uuid \<Rightarrow> unit run" where
  "ready_to_decode E reqs uuid =
     (case hm_get reqs uuid of
        None \<Rightarrow> Some ()
      | Some request \<Rightarrow> assert_run (debug_assertions E \<longrightarrow> as_len (rq_sequence request) \<le> num_computed_tokens request \<longrightarrow>
          num_allocated_tokens (rq_sequence request) = as_len (rq_sequence request)))"

definition set_sequence :: "Uuid \<Rightarrow> ActiveSequence \<Rightarrow> 'f VllmCore \<Rightarrow> 'f VllmCore" where
  "set_sequence uuid sequence core =
     (case hm_get (requests (vc_state core)) uuid of
        Some request \<Rightarrow> set_request uuid (request\<lparr>rq_sequence := sequence\<rparr>) core
      | None \<Rightarrow> core)"

lemma set_sequence_same [simp]:
  "running (vc_state (set_sequence u sq core)) = running (vc_state core)"
  "vc_args (set_sequence u sq core) = vc_args core"
  by (simp_all add: set_sequence_def split: option.splits)

text \<open>
  One request produces its next token. A shortage undoes the token, preempts a victim and tries again;
  the result says whether a token was produced and whether it was the last one.
\<close>

function emit_one :: "build_env \<Rightarrow> random_source \<Rightarrow> Uuid \<Rightarrow> 'f VllmCore \<Rightarrow> nat \<Rightarrow> ((bool \<times> bool) \<times> 'f VllmCore \<times> nat) run" where
  "emit_one E R uuid core d =
     (case ready_to_decode E (requests (vc_state core)) uuid of
        None \<Rightarrow> None
      | Some _ \<Rightarrow>
          (case running_sequence (vc_state core) uuid of
             None \<Rightarrow> Some ((False, False), core, d)
           | Some sequence \<Rightarrow>
               (case generate E R sequence d of
                  None \<Rightarrow> None
                | Some ((signals, sequence1), d1) \<Rightarrow>
                    (case process_signals E signals (world core) of
                       None \<Rightarrow> None
                     | Some (True, w) \<Rightarrow>
                         let sequence2 = (if generated_tokens sequence1 < max_output_tokens sequence1
                           then commit_allocation sequence1 (as_len sequence1) else sequence1)
                         in Some ((True, max_output_tokens sequence2 \<le> generated_tokens sequence2),
                              set_sequence uuid sequence2 (set_world w core), d1)
                     | Some (False, w) \<Rightarrow>
                         (case as_pop E sequence1 of
                            None \<Rightarrow> None
                          | Some sequence2 \<Rightarrow>
                              let core1 = set_sequence uuid sequence2 (set_world w core) in
                              (case preempt E (preemption_mode (vc_args core1)) (vc_state core1) of
                                 None \<Rightarrow> None
                               | Some (None, state) \<Rightarrow> Some ((False, False), core1\<lparr>vc_state := state\<rparr>, d1)
                               | Some (Some pr, state) \<Rightarrow>
                                   (case process_all E (pr_signals pr) (world core1) of
                                      None \<Rightarrow> None
                                    | Some w2 \<Rightarrow>
                                        let core2 = set_world w2 (core1\<lparr>vc_state := state\<rparr>) in
                                        if pr_uuid pr = uuid then Some ((False, False), core2, d1)
                                        else emit_one E R uuid core2 d1)))))))"
  by pat_completeness auto
termination
  by (relation "measure (\<lambda>(E, R, uuid, core, d). length (running (vc_state core)))")
    (auto dest!: preempt_shrinks)

declare emit_one.simps [simp del]

fun emit_loop :: "build_env \<Rightarrow> random_source \<Rightarrow> Uuid list \<Rightarrow> OutputSignal list \<Rightarrow> 'f VllmCore \<Rightarrow> nat \<Rightarrow>
    (OutputSignal list \<times> 'f VllmCore \<times> nat) run" where
  "emit_loop E R [] outs core d = Some (outs, core, d)"
| "emit_loop E R (uuid # rest) outs core d = do {
     ((emitted, completed), core1, d1) \<leftarrow> emit_one E R uuid core d;
     if \<not> emitted then emit_loop E R rest outs core1 d1
     else do {
       (case hm_get (requests (vc_state core1)) uuid of Some request \<Rightarrow> request_progress E request | None \<Rightarrow> Some ());
       emit_loop E R rest (outs @ [\<lparr>out_uuid = uuid, out_completed = completed\<rparr>])
         (if completed then core1\<lparr>vc_state := complete uuid (vc_state core1)\<rparr> else core1) d1
     }
   }"

definition ready_requests :: "SchedulerState \<Rightarrow> Uuid list" where
  "ready_requests s = filter (\<lambda>uuid. case hm_get (requests s) uuid of
       None \<Rightarrow> False
     | Some request \<Rightarrow> as_len (rq_sequence request) \<le> num_computed_tokens request \<and>
         generated_tokens (rq_sequence request) < max_output_tokens (rq_sequence request)) (running s)"

text \<open>
  \<open>emit_ready_tokens\<close>; instead of the predicted duration the result holds the four numbers the decode
  time is predicted from, when it is.
\<close>

definition emit_ready_tokens :: "build_env \<Rightarrow> random_source \<Rightarrow> 'f VllmCore \<Rightarrow> nat \<Rightarrow>
    (((nat \<times> nat \<times> nat \<times> nat) option \<times> OutputSignal list) \<times> 'f VllmCore \<times> nat) run" where
  "emit_ready_tokens E R core d =
     (let ready = ready_requests (vc_state core) in
      if ready = [] then Some ((None, []), core, d)
      else do {
        let decode_load = (if worker_type (vc_args core) = Prefill then None
          else Some (length ready, num_active_blocks (vc_kv core) * arg_block_size (vc_args core),
            sum_list (map (request_sequence_len (requests (vc_state core))) ready) div length ready,
            num_gpu_blocks (vc_args core) * arg_block_size (vc_args core)));
        (outs, core1, d1) \<leftarrow> emit_loop E R ready [] core d;
        if outs = [] then Some ((None, []), core1, d1)
        else Some ((decode_load, outs), core1\<lparr>vc_state := compact_running (vc_state core1)\<rparr>, d1)
      })"

section \<open>The engine\<close>

definition scheduler_state_ok :: "SchedulerState \<Rightarrow> bool" where
  "scheduler_state_ok s = (
     (\<forall>uuid \<in> waiting_members s. case hm_get (requests s) uuid of
        None \<Rightarrow> False
      | Some request \<Rightarrow> rq_status request \<noteq> Running \<and> num_computed_tokens request \<le> as_len (rq_sequence request) \<and>
          num_allocated_tokens (rq_sequence request) \<le> as_len (rq_sequence request)) \<and>
     (\<forall>uuid \<in> running_members s. uuid \<notin> waiting_members s \<and> (case hm_get (requests s) uuid of
        None \<Rightarrow> False
      | Some request \<Rightarrow> rq_status request = Running \<and> num_computed_tokens request \<le> as_len (rq_sequence request) \<and>
          num_allocated_tokens (rq_sequence request) \<le> as_len (rq_sequence request))) \<and>
     card (waiting_members s) \<le> length (waiting s) \<and> card (running_members s) \<le> length (running s))"

record pass_result =
  completed_requests :: nat
  output_signals :: "OutputSignal list"
  pr_admissions :: "AdmissionEvent list"
  active_decode_blocks :: nat
  prefill_load :: "(nat \<times> nat \<times> nat) option"
  decode_load :: "(nat \<times> nat \<times> nat \<times> nat) option"

definition pass_start :: "MockEngineArgs \<Rightarrow> pass_acc" where
  "pass_start args = \<lparr>token_budget = (case max_num_batched_tokens args of Some n \<Rightarrow> n | None \<Rightarrow> usize_max),
     scheduled = [], batch_count = 0, batch_total_isl = 0, batch_total_prefix = 0, preempted_any = False\<rparr>"

definition execute_pass :: "build_env \<Rightarrow> random_source \<Rightarrow> 'f VllmCore \<Rightarrow> nat \<Rightarrow> ((pass_result \<times> pass_acc) \<times> 'f VllmCore \<times> nat) run" where
  "execute_pass E R core d = do {
     let requests_before = hm_len (requests (vc_state core));
     let core1 = core\<lparr>vc_state := compact_running (vc_state core)\<rparr>;
     (acc1, admissions1, core2) \<leftarrow> running_loop E 0 (pass_start (vc_args core1)) [] core1;
     (acc2, admissions2, core3) \<leftarrow> waiting_loop E
       (case max_num_seqs (vc_args core2) of Some n \<Rightarrow> n | None \<Rightarrow> usize_max) acc1 admissions1 core2;
     let prefill = (if batch_count acc2 = 0 \<or> worker_type (vc_args core3) = Decode then None
       else Some (batch_count acc2, batch_total_isl acc2 div batch_count acc2, batch_total_prefix acc2 div batch_count acc2));
     ((decode, outs), core4, d1) \<leftarrow> emit_ready_tokens E R core3 d;
     assert_run (debug_assertions E \<longrightarrow> scheduler_state_ok (vc_state core4));
     Some ((\<lparr>completed_requests = requests_before - hm_len (requests (vc_state core4)), output_signals = outs,
         pr_admissions = admissions2, active_decode_blocks = num_active_blocks (vc_kv core4),
         prefill_load = prefill, decode_load = decode\<rparr>, acc2), core4, d1)
   }"

definition drop_request :: "build_env \<Rightarrow> Uuid \<Rightarrow> 'f VllmCore \<Rightarrow> 'f VllmCore run" where
  "drop_request E uuid core =
     (case hm_get (requests (vc_state core)) uuid of
        None \<Rightarrow> Some core
      | Some request \<Rightarrow> do {
          signals \<leftarrow> free_signal (rq_sequence request);
          w \<leftarrow> process_all E signals (world core);
          Some ((set_world w core)\<lparr>vc_state := complete uuid (vc_state core)\<rparr>)
        })"

end
