(* ===== verification/FrameCodec.thy ===== *)
theory FrameCodec
  imports Prelude "HOL-Library.Sublist"
begin

text \<open>
  Streams of frames. A codec of the network layer appends encoded messages to a byte stream and cuts
  messages off a receive buffer; the interface \<open>frame_codec\<close> states what the transport relies on, and
  its lemmas show once for all codecs that a receiver gets exactly the messages sent, in order,
  however the stream is cut into chunks on its way.
\<close>

section \<open>Results\<close>

text \<open>The \<open>?\<close> of a \<open>Result\<close>.\<close>

definition sum_bind :: "'e + 'a \<Rightarrow> ('a \<Rightarrow> 'e + 'b) \<Rightarrow> 'e + 'b" where
  "sum_bind r f = (case r of Inl e \<Rightarrow> Inl e | Inr x \<Rightarrow> f x)"

lemma sum_bind_simps [simp]: "sum_bind (Inl e) f = Inl e" "sum_bind (Inr x) f = f x"
  by (simp_all add: sum_bind_def)

lemma sum_bind_Inr [run_simps]: "(sum_bind r f = Inr y) = (\<exists>x. r = Inr x \<and> f x = Inr y)"
  by (cases r) auto

section \<open>Draining a buffer\<close>

text \<open>
  What a framed transport does with the bytes it has: decode until the codec asks for more or fails.
  Every message is at least one byte long, so the length of the buffer is enough fuel.
\<close>

fun drain :: "(u8 list \<Rightarrow> ('e + 'm option) \<times> u8 list) \<Rightarrow> nat \<Rightarrow> u8 list \<Rightarrow> 'm list \<times> 'e option \<times> u8 list" where
  "drain dec 0 buf = ([], None, buf)"
| "drain dec (Suc fuel) buf =
     (case dec buf of
        (Inl e, buf') \<Rightarrow> ([], Some e, buf')
      | (Inr None, buf') \<Rightarrow> ([], None, buf')
      | (Inr (Some m), buf') \<Rightarrow> (case drain dec fuel buf' of (ms, r, buf'') \<Rightarrow> (m # ms, r, buf'')))"

fun feed :: "(u8 list \<Rightarrow> ('e + 'm option) \<times> u8 list) \<Rightarrow> u8 list \<Rightarrow> u8 list list \<Rightarrow> 'm list \<times> 'e option \<times> u8 list" where
  "feed dec buf [] = ([], None, buf)"
| "feed dec buf (chunk # chunks) =
     (case drain dec (Suc (length (buf @ chunk))) (buf @ chunk) of
        (ms, Some e, buf') \<Rightarrow> (ms, Some e, buf')
      | (ms, None, buf') \<Rightarrow> (case feed dec buf' chunks of (ms', r, buf'') \<Rightarrow> (ms @ ms', r, buf'')))"

text \<open>The frames of a list of messages, and a buffer that holds only the start of the next one.\<close>

definition sent :: "('m \<Rightarrow> 'e + u8 list) \<Rightarrow> 'm list \<Rightarrow> u8 list list \<Rightarrow> bool" where
  "sent enc ms frames = list_all2 (\<lambda>m bs. enc m = Inr bs) ms frames"

definition drained :: "u8 list list \<Rightarrow> u8 list \<Rightarrow> bool" where
  "drained frames buf = (case frames of [] \<Rightarrow> buf = [] | bs # _ \<Rightarrow> strict_prefix buf bs)"

locale frame_codec =
  fixes enc :: "'m \<Rightarrow> 'e + u8 list"
    and dec :: "u8 list \<Rightarrow> ('e + 'm option) \<times> u8 list"
  assumes roundtrip: "enc m = Inr bs \<Longrightarrow> dec (bs @ rest) = (Inr (Some m), rest)"
    and waits: "enc m = Inr bs \<Longrightarrow> strict_prefix buf bs \<Longrightarrow> dec buf = (Inr None, buf)"
    and idle: "dec [] = (Inr None, [])"
begin

lemma frame_nonempty: "enc m = Inr bs \<Longrightarrow> bs \<noteq> []"
  using roundtrip [of m bs "[]"] idle by auto

lemma drain_prefix:
  assumes "sent enc ms frames" and "prefix buf (concat frames)" and "length buf < fuel"
  shows "\<exists>k rest. k \<le> length ms \<and> drain dec fuel buf = (take k ms, None, rest) \<and>
    buf = concat (take k frames) @ rest \<and> drained (drop k frames) rest"
  using assms
proof (induction ms arbitrary: frames buf fuel)
  case Nil
  then have "buf = []" "frames = []" by (auto simp: sent_def)
  moreover obtain fuel' where "fuel = Suc fuel'" using Nil.prems(3) by (cases fuel) auto
  ultimately show ?case using idle by (simp add: drained_def)
next
  case (Cons m ms)
  obtain bs frames' where fr: "frames = bs # frames'" "enc m = Inr bs" "sent enc ms frames'"
    using Cons.prems(1) by (auto simp: sent_def list_all2_Cons1)
  obtain fuel' where fuel: "fuel = Suc fuel'" using Cons.prems(3) by (cases fuel) auto
  show ?case
  proof (cases "prefix bs buf")
    case True
    then obtain buf' where buf: "buf = bs @ buf'" by (auto elim: prefixE)
    have "length buf' < fuel'"
      using Cons.prems(3) fuel buf frame_nonempty [OF fr(2)] by (cases bs) auto
    moreover have "prefix buf' (concat frames')" using Cons.prems(2) buf fr(1) by simp
    ultimately obtain k rest where k: "k \<le> length ms" "drain dec fuel' buf' = (take k ms, None, rest)"
      "buf' = concat (take k frames') @ rest" "drained (drop k frames') rest"
      using Cons.IH [OF fr(3)] by blast
    then show ?thesis
      using fuel buf roundtrip [OF fr(2), of buf'] fr(1) by (intro exI [of _ "Suc k"] exI [of _ rest]) simp
  next
    case False
    have "prefix buf bs \<or> prefix bs buf"
      using Cons.prems(2) fr(1) by (metis concat.simps(2) prefixI prefix_same_cases)
    then have strict: "strict_prefix buf bs" using False by (auto simp: strict_prefix_def)
    then show ?thesis
      using fuel waits [OF fr(2) strict] fr(1) by (intro exI [of _ 0] exI [of _ buf]) (simp add: drained_def)
  qed
qed

lemma feed_all:
  assumes "sent enc ms frames" and "drained frames buf" and "buf @ concat chunks = concat frames"
  shows "feed dec buf chunks = (ms, None, [])"
  using assms
proof (induction chunks arbitrary: ms frames buf)
  case Nil
  have "frames = []"
  proof (cases frames)
    case (Cons bs frames')
    then have "length buf < length bs" using Nil.prems(2) by (simp add: drained_def prefix_length_less)
    then show ?thesis using Nil.prems(3) Cons by (auto dest: arg_cong [of _ _ length])
  qed simp
  then show ?case using Nil.prems by (auto simp: sent_def)
next
  case (Cons chunk chunks)
  have "prefix (buf @ chunk) (concat frames)" using Cons.prems(3) by (metis append.assoc concat.simps(2) prefixI)
  then obtain k rest where k: "k \<le> length ms"
    "drain dec (Suc (length (buf @ chunk))) (buf @ chunk) = (take k ms, None, rest)"
    "buf @ chunk = concat (take k frames) @ rest" "drained (drop k frames) rest"
    using drain_prefix [OF Cons.prems(1)] by blast
  have "concat (take k frames) @ rest @ concat chunks = concat (take k frames) @ concat (drop k frames)"
    using Cons.prems(3) k(3) by (metis append.assoc append_take_drop_id concat.simps(2) concat_append)
  then have "rest @ concat chunks = concat (drop k frames)" by simp
  moreover have "sent enc (drop k ms) (drop k frames)"
    using Cons.prems(1) by (simp add: sent_def list_all2_dropI)
  ultimately have "feed dec rest chunks = (drop k ms, None, [])"
    using Cons.IH k(4) by blast
  then show ?case using k(2) by simp
qed

text \<open>From an empty buffer: the stream arrives as sent, however it is cut.\<close>

lemma stream_received:
  assumes "sent enc ms frames" and "concat chunks = concat frames"
  shows "feed dec [] chunks = (ms, None, [])"
proof (rule feed_all [OF assms(1)])
  show "drained frames []"
    using assms(1) frame_nonempty
    by (cases frames) (auto simp: drained_def sent_def list_all2_Cons2 strict_prefix_def)
qed (simp add: assms(2))

end

end
