(* ===== verification/RustStd.thy ===== *)
theory RustStd
  imports FrameCodec
begin

text \<open>
  What the network sources use of Rust's standard library beyond lists and integers: decimal text as
  \<open>format!\<close> prints it and \<open>str::parse::<usize>\<close> reads it, the validation of UTF-8 behind
  \<open>String::from_utf8\<close>, and \<open>std::io::Error\<close>. A Rust \<open>String\<close> is the list of its UTF-8 bytes.
\<close>

section \<open>Decimal text\<close>

fun dec_string :: "nat \<Rightarrow> string" where
  "dec_string n = (if n < 10 then [char_of (48 + n)] else dec_string (n div 10) @ [char_of (48 + n mod 10)])"

declare dec_string.simps [simp del]

definition digit_value :: "char \<Rightarrow> nat option" where
  "digit_value c = (if 48 \<le> (of_char c :: nat) \<and> (of_char c :: nat) \<le> 57 then Some (of_char c - 48) else None)"

fun parse_digits :: "nat \<Rightarrow> string \<Rightarrow> nat option" where
  "parse_digits acc [] = Some acc"
| "parse_digits acc (c # cs) =
     (case digit_value c of
        None \<Rightarrow> None
      | Some d \<Rightarrow> if 10 * acc + d \<le> usize_max then parse_digits (10 * acc + d) cs else None)"

definition parse_usize :: "string \<Rightarrow> nat option" where
  "parse_usize s =
     (case s of
        [] \<Rightarrow> None
      | c # cs \<Rightarrow> if c = CHR ''+'' then (if cs = [] then None else parse_digits 0 cs) else parse_digits 0 s)"

lemma digit_value_char [simp]: "d < 10 \<Longrightarrow> digit_value (char_of (48 + d)) = Some d"
  by (simp add: digit_value_def)

lemma parse_digits_append:
  "parse_digits acc (xs @ ys) = Option.bind (parse_digits acc xs) (\<lambda>a. parse_digits a ys)"
  by (induction xs arbitrary: acc) (auto split: option.splits)

lemma parse_digits_dec: "n \<le> usize_max \<Longrightarrow> parse_digits 0 (dec_string n) = Some n"
proof (induction n rule: dec_string.induct)
  case (1 n)
  then show ?case by (subst dec_string.simps) (simp add: parse_digits_append)
qed

lemma dec_string_head: "\<exists>c cs. dec_string n = c # cs \<and> c \<noteq> CHR ''+''"
proof (induction n rule: dec_string.induct)
  case (1 n)
  have "char_of (48 + n) \<noteq> CHR ''+''" if "n < 10"
  proof
    assume "char_of (48 + n) = CHR ''+''"
    then have "of_char (char_of (48 + n)) = (of_char (CHR ''+'') :: nat)" by simp
    then show False using that by simp
  qed
  then show ?case using 1 by (subst dec_string.simps) fastforce
qed

lemma parse_usize_dec: "n \<le> usize_max \<Longrightarrow> parse_usize (dec_string n) = Some n"
  using dec_string_head [of n] parse_digits_dec [of n] by (auto simp: parse_usize_def)

section \<open>UTF-8\<close>

text \<open>
  \<open>core::str::run_utf8_validation\<close>: the first offending position and, unless the input ends inside a
  sequence, how many bytes of it are bad.
\<close>

record Utf8Error =
  valid_up_to :: nat
  error_len :: "nat option"

definition utf8_tail :: "u8 \<Rightarrow> bool" where
  "utf8_tail b = (0x80 \<le> b \<and> b \<le> 0xBF)"

definition utf8_width :: "u8 \<Rightarrow> nat" where
  "utf8_width b = (if b \<le> 0x7F then 1 else if 0xC2 \<le> b \<and> b \<le> 0xDF then 2
     else if 0xE0 \<le> b \<and> b \<le> 0xEF then 3 else if 0xF0 \<le> b \<and> b \<le> 0xF4 then 4 else 0)"

definition utf8_second :: "u8 \<Rightarrow> u8 \<Rightarrow> bool" where
  "utf8_second b1 b2 =
     (if b1 = 0xE0 then 0xA0 \<le> b2 \<and> b2 \<le> 0xBF
      else if b1 = 0xED then 0x80 \<le> b2 \<and> b2 \<le> 0x9F
      else if b1 = 0xF0 then 0x90 \<le> b2 \<and> b2 \<le> 0xBF
      else if b1 = 0xF4 then 0x80 \<le> b2 \<and> b2 \<le> 0x8F
      else utf8_tail b2)"

text \<open>\<open>utf8_bad w bs\<close> inspects one sequence of width \<open>w\<close>: \<open>None\<close> when it is fine.\<close>

definition utf8_bad :: "u8 list \<Rightarrow> nat option option" where
  "utf8_bad bs =
     (let w = utf8_width (hd bs) in
      if w = 1 then None
      else if w = 0 then Some (Some 1)
      else if length bs < 2 then Some None
      else if \<not> utf8_second (hd bs) (bs ! 1) then Some (Some 1)
      else if w = 2 then None
      else if length bs < 3 then Some None
      else if \<not> utf8_tail (bs ! 2) then Some (Some 2)
      else if w = 3 then None
      else if length bs < 4 then Some None
      else if \<not> utf8_tail (bs ! 3) then Some (Some 3)
      else None)"

function utf8_check :: "nat \<Rightarrow> u8 list \<Rightarrow> Utf8Error option" where
  "utf8_check i bs =
     (if bs = [] then None
      else case utf8_bad bs of
        Some l \<Rightarrow> Some \<lparr>valid_up_to = i, error_len = l\<rparr>
      | None \<Rightarrow> utf8_check (i + utf8_width (hd bs)) (drop (utf8_width (hd bs)) bs))"
  by pat_completeness auto
termination
proof (relation "measure (\<lambda>(i, bs). length bs)")
  fix i :: nat and bs :: "u8 list"
  assume "bs \<noteq> []" and "utf8_bad bs = None"
  then show "((i + utf8_width (hd bs), drop (utf8_width (hd bs)) bs), (i, bs)) \<in> measure (\<lambda>(i, bs). length bs)"
    by (cases "utf8_width (hd bs) = 0") (auto simp: utf8_bad_def)
qed simp

declare utf8_check.simps [simp del]

definition utf8_display :: "Utf8Error \<Rightarrow> string" where
  "utf8_display e =
     (case error_len e of
        Some l \<Rightarrow> ''invalid utf-8 sequence of '' @ dec_string l @ '' bytes from index '' @ dec_string (valid_up_to e)
      | None \<Rightarrow> ''incomplete utf-8 byte sequence from index '' @ dec_string (valid_up_to e))"

definition from_utf8 :: "u8 list \<Rightarrow> Utf8Error + u8 list" where
  "from_utf8 bs = (case utf8_check 0 bs of Some e \<Rightarrow> Inl e | None \<Rightarrow> Inr bs)"

abbreviation utf8_valid :: "u8 list \<Rightarrow> bool" where
  "utf8_valid bs \<equiv> utf8_check 0 bs = None"

lemma from_utf8_valid [simp]: "utf8_valid bs \<Longrightarrow> from_utf8 bs = Inr bs"
  by (simp add: from_utf8_def)

lemma from_utf8_ok: "from_utf8 bs = Inr s \<Longrightarrow> s = bs \<and> utf8_valid bs"
  by (auto simp: from_utf8_def split: option.splits)

lemma utf8_ascii: "list_all (\<lambda>b. b \<le> 0x7F) bs \<Longrightarrow> utf8_check i bs = None"
proof (induction bs arbitrary: i)
  case (Cons b bs)
  then have "utf8_width b = 1" by (simp add: utf8_width_def)
  then show ?case using Cons by (subst utf8_check.simps) (simp add: utf8_bad_def)
qed (simp add: utf8_check.simps)

section \<open>I/O errors\<close>

text \<open>
  \<open>std::io::Error\<close>: a kind and the text it displays. \<open>OtherKind\<close> stands for the kinds an operating
  system error can have that the sources only pass on.
\<close>

datatype ErrorKind = UnexpectedEof | InvalidInput | InvalidData | OtherKind string

datatype io_error = IoError (io_kind: ErrorKind) (io_text: string)

end
