(* ===== verification/Workload.thy ===== *)
theory Workload
  imports VllmCore RustStd
begin

text \<open>
  The workloads of the mocker, \<open>lib/mocker/src/loadgen/types.rs\<close> and \<open>lib/mocker/src/loadgen/trace.rs\<close>: traces of
  sessions of turns, how the tokens of a turn are made from its hash ids, the checks of a trace and its
  transformations.

  Times are values of a type \<open>'t\<close> with an order, a zero and the operations the code uses; nothing else is
  assumed of them, so that the lemmas also hold for floating-point rounding. \<open>fin\<close> stands for
  \<open>f64::is_finite\<close>. The hash functions of the crate \<open>pagoda_kv_router\<close> are the parameter \<open>router_hash\<close>.
\<close>

section \<open>Arithmetic that overflows\<close>

text \<open>Rust's unchecked operators panic on overflow in a debug build and wrap around in a release build.\<close>

definition usize_mul :: "build_env \<Rightarrow> nat \<Rightarrow> nat \<Rightarrow> nat run" where
  "usize_mul E a b = (if a * b \<le> usize_max then Some (a * b)
     else if debug_assertions E then None else Some (a * b mod (usize_max + 1)))"

definition u64_add :: "build_env \<Rightarrow> u64 \<Rightarrow> u64 \<Rightarrow> u64 run" where
  "u64_add E a b = (if unat a + unat b < 2 ^ 64 \<or> \<not> debug_assertions E then Some (a + b) else None)"

definition u64_mul :: "build_env \<Rightarrow> u64 \<Rightarrow> u64 \<Rightarrow> u64 run" where
  "u64_mul E a b = (if unat a * unat b < 2 ^ 64 \<or> \<not> debug_assertions E then Some (a * b) else None)"

definition u64_checked_add :: "u64 \<Rightarrow> u64 \<Rightarrow> u64 option" where
  "u64_checked_add a b = (if unat a + unat b < 2 ^ 64 then Some (a + b) else None)"

definition u64_checked_mul :: "u64 \<Rightarrow> u64 \<Rightarrow> u64 option" where
  "u64_checked_mul a b = (if unat a * unat b < 2 ^ 64 then Some (a * b) else None)"

text \<open>A loop whose body may panic, over the elements of a list.\<close>

fun map_run :: "('a \<Rightarrow> 'b run) \<Rightarrow> 'a list \<Rightarrow> 'b list run" where
  "map_run f [] = Some []"
| "map_run f (x # xs) = do { y \<leftarrow> f x; ys \<leftarrow> map_run f xs; Some (y # ys) }"

lemma map_run_Some: "map_run f xs = Some ys \<longleftrightarrow> list_all2 (\<lambda>x y. f x = Some y) xs ys"
  by (induction xs arbitrary: ys) (auto simp: run_simps list_all2_Cons1)

lemma map_run_total: "(\<And>x. x \<in> set xs \<Longrightarrow> f x = Some (g x)) \<Longrightarrow> map_run f xs = Some (map g xs)"
  by (induction xs) auto

lemma map_run_cong [fundef_cong]: "xs = ys \<Longrightarrow> (\<And>x. x \<in> set ys \<Longrightarrow> f x = g x) \<Longrightarrow> map_run f xs = map_run g ys"
  by (induction xs arbitrary: ys) auto

text \<open>\<open>Result\<close> in a call that may panic: the operator \<open>?\<close>, and a check that reports an error.\<close>

definition and_then :: "('e + 'a) run \<Rightarrow> ('a \<Rightarrow> ('e + 'b) run) \<Rightarrow> ('e + 'b) run" where
  "and_then r f = Option.bind r (\<lambda>x. case x of Inl e \<Rightarrow> Some (Inl e) | Inr y \<Rightarrow> f y)"

definition ensure :: "bool \<Rightarrow> 'e \<Rightarrow> ('e + unit) run" where
  "ensure b e = Some (if b then Inr () else Inl e)"

lemma and_then_ok [run_simps]: "(and_then r f = Some (Inr y)) = (\<exists>x. r = Some (Inr x) \<and> f x = Some (Inr y))"
  by (cases r) (auto simp: and_then_def split: sum.splits)

lemma and_then_simps [simp]: "and_then (Some (Inr x)) f = f x" "and_then (Some (Inl e)) f = Some (Inl e)" "and_then None f = None"
  by (simp_all add: and_then_def)

lemma and_then_returns: "returns r \<Longrightarrow> (\<And>x. r = Some (Inr x) \<Longrightarrow> returns (f x)) \<Longrightarrow> returns (and_then r f)"
  by (cases r) (auto simp: and_then_def split: sum.splits)

lemma ensure_simps [simp]: "(ensure b e = Some (Inr u)) = b" "ensure b e \<noteq> None" "\<exists>y. ensure b e = Some y" "ensure True e = Some (Inr ())"
  by (simp_all add: ensure_def)

text \<open>The same without panics, and \<open>ok_or\<close>.\<close>

definition res_then :: "'e + 'a \<Rightarrow> ('a \<Rightarrow> 'e + 'b) \<Rightarrow> 'e + 'b" where
  "res_then r f = (case r of Inl e \<Rightarrow> Inl e | Inr x \<Rightarrow> f x)"

definition ok_or :: "'a option \<Rightarrow> 'e \<Rightarrow> 'e + 'a" where
  "ok_or x e = (case x of None \<Rightarrow> Inl e | Some y \<Rightarrow> Inr y)"

lemma res_then_ok [run_simps]: "(res_then r f = Inr y) = (\<exists>x. r = Inr x \<and> f x = Inr y)"
  by (auto simp: res_then_def split: sum.splits)

lemma ok_or_ok [run_simps]: "(ok_or x e = Inr y) = (x = Some y)"
  by (simp add: ok_or_def split: option.splits)

lemma res_then_simps [simp]: "res_then (Inr x) f = f x" "res_then (Inl e) f = Inl e"
  by (simp_all add: res_then_def)

fun each_then :: "('a \<Rightarrow> ('e + 'b) run) \<Rightarrow> 'a list \<Rightarrow> ('e + 'b list) run" where
  "each_then f [] = Some (Inr [])"
| "each_then f (x # xs) = and_then (f x) (\<lambda>y. and_then (each_then f xs) (\<lambda>ys. Some (Inr (y # ys))))"

lemma each_then_ok: "each_then f xs = Some (Inr ys) \<longleftrightarrow> list_all2 (\<lambda>x y. f x = Some (Inr y)) xs ys"
  by (induction xs arbitrary: ys) (auto simp: run_simps list_all2_Cons1)

lemma each_then_total: "(\<And>x. x \<in> set xs \<Longrightarrow> f x = Some (Inr (g x))) \<Longrightarrow> each_then f xs = Some (Inr (map g xs))"
  by (induction xs) auto

section \<open>Traces\<close>

record 't TurnTrace =
  input_length :: nat
  turn_max_output_tokens :: nat
  hash_ids :: "u64 list"
  delay_after_previous_ms :: 't

record 't SessionTrace =
  session_id :: string
  first_arrival_timestamp_ms :: "'t option"
  turns :: "'t TurnTrace list"

record 't Trace =
  trace_block_size :: nat
  sessions :: "'t SessionTrace list"

record ReplayRequestHashes =
  local_block_hashes :: "u64 list"
  sequence_hashes :: "u64 list"

record router_hash =
  compute_block_hash_for_seq :: "u32 list \<Rightarrow> u32 \<Rightarrow> u64 list"
  compute_seq_hash_for_block :: "u64 list \<Rightarrow> u64 list"

text \<open>A request with the arrival time that \<open>DirectRequest\<close> carries for the replay; the engine does not read it.\<close>

record 't ArrivingRequest = DirectRequest +
  arrival_timestamp_ms :: "'t option"

text \<open>One constructor for every error the loaders and the checks report.\<close>

datatype load_error = TraceBlockSizeZero | ExceedsCapacity nat nat | SynthesisFailed nat nat | EngineBlockSizeZero |
  EngineBlockSizeTooLarge | NoSessions | NoTurns string | MissingFirstTimestamp string | InvalidFirstTimestamp string |
  ZeroInputLength string nat | NoHashIds string nat | TurnExceedsCapacity string nat nat nat | InvalidDelay string nat |
  FirstTurnDelay string | NotSingleTurn string nat |
  UnreadableLine nat | BadJson nat | MissingHashIds nat | CapacityOverflow nat | MissingOutputLength nat |
  LineFirstTurnDelay nat string | NoPreviousTimestamp nat string | LineInvalidDelay nat | LineExceedsCapacity nat nat nat |
  NoRequests | BadPrefixRatio | FieldLength nat string nat nat | ZeroPromptLength nat | BadLatency nat nat |
  LengthOverflow nat | HashIdOverflow

section \<open>The tokens of a turn\<close>

definition validate_block_size_and_capacity :: "build_env \<Rightarrow> nat \<Rightarrow> 't TurnTrace \<Rightarrow> (load_error + unit) run" where
  "validate_block_size_and_capacity E bs turn =
     (if bs = 0 then Some (Inl TraceBlockSizeZero)
      else do {
        capacity \<leftarrow> usize_mul E (length (hash_ids turn)) bs;
        ensure (input_length turn \<le> capacity) (ExceedsCapacity (input_length turn) capacity)
      })"

fun synthesize_loop :: "nat \<Rightarrow> nat \<Rightarrow> u64 list \<Rightarrow> u32 list \<Rightarrow> u32 list" where
  "synthesize_loop bs len [] tokens = tokens"
| "synthesize_loop bs len (hash_id # rest) tokens =
     (let tokens1 = tokens @ replicate bs (ucast hash_id)
      in if len \<le> length tokens1 then take len tokens1 else synthesize_loop bs len rest tokens1)"

definition synthesize_tokens :: "build_env \<Rightarrow> nat \<Rightarrow> 't TurnTrace \<Rightarrow> (load_error + u32 list) run" where
  "synthesize_tokens E bs turn = and_then (validate_block_size_and_capacity E bs turn) (\<lambda>_.
     let tokens = synthesize_loop bs (input_length turn) (hash_ids turn) []
     in if length tokens \<noteq> input_length turn
        then Some (Inl (SynthesisFailed (input_length turn) (length (hash_ids turn)))) else Some (Inr tokens))"

definition to_direct_request :: "build_env \<Rightarrow> nat \<Rightarrow> Uuid \<Rightarrow> 't option \<Rightarrow> 't TurnTrace \<Rightarrow> (load_error + 't ArrivingRequest) run" where
  "to_direct_request E bs uuid arrival turn = and_then (synthesize_tokens E bs turn) (\<lambda>tokens.
     Some (Inr \<lparr>dr_tokens = tokens, dr_max_output_tokens = turn_max_output_tokens turn, dr_uuid = Some uuid,
       arrival_timestamp_ms = arrival\<rparr>))"

definition to_replay_hashes :: "build_env \<Rightarrow> router_hash \<Rightarrow> nat \<Rightarrow> nat \<Rightarrow> 't TurnTrace \<Rightarrow> (load_error + ReplayRequestHashes) run" where
  "to_replay_hashes E H bs engine_block_size turn =
     (if engine_block_size = 0 then Some (Inl EngineBlockSizeZero)
      else and_then (synthesize_tokens E bs turn) (\<lambda>tokens.
        if u32_max < engine_block_size then Some (Inl EngineBlockSizeTooLarge)
        else let locals = compute_block_hash_for_seq H tokens (of_nat engine_block_size)
             in Some (Inr \<lparr>local_block_hashes = locals, sequence_hashes = compute_seq_hash_for_block H locals\<rparr>)))"

text \<open>The tokens one would write down at once: every hash id, cut to 32 bits, fills one block.\<close>

definition turn_tokens :: "nat \<Rightarrow> 't TurnTrace \<Rightarrow> u32 list" where
  "turn_tokens bs turn = take (input_length turn) (concat (map (\<lambda>h. replicate bs (ucast h)) (hash_ids turn)))"

lemma synthesize_loop_eq:
  "length tokens \<le> len \<Longrightarrow> synthesize_loop bs len hs tokens = take len (tokens @ concat (map (\<lambda>h. replicate bs (ucast h)) hs))"
  by (induction hs arbitrary: tokens) (auto simp: Let_def)

lemma usize_mul_small [simp]: "a * b \<le> usize_max \<Longrightarrow> usize_mul E a b = Some (a * b)"
  by (simp add: usize_mul_def)

lemma concat_blocks_nth:
  "i < length hs * bs \<Longrightarrow> concat (map (\<lambda>h. replicate bs (f h)) hs) ! i = f (hs ! (i div bs))"
proof (induction hs arbitrary: i)
  case (Cons h hs)
  then show ?case
  proof (cases "i < bs")
    case False
    have pos: "0 < bs" using Cons.prems by (cases "bs = 0") auto
    have "i - bs < length hs * bs" using Cons.prems False by simp
    moreover have "i div bs = Suc ((i - bs) div bs)" using False pos by (simp add: le_div_geq)
    ultimately show ?thesis using Cons.IH False by (simp add: nth_append)
  qed (simp add: nth_append)
qed simp

lemma length_concat_blocks [simp]: "length (concat (map (\<lambda>h. replicate bs (f h)) hs)) = length hs * bs"
  by (induction hs) simp_all

lemma turn_tokens_length [simp]: "length (turn_tokens bs turn) = min (input_length turn) (length (hash_ids turn) * bs)"
  by (simp add: turn_tokens_def min.commute)

lemma turn_tokens_nth:
  "i < input_length turn \<Longrightarrow> input_length turn \<le> length (hash_ids turn) * bs \<Longrightarrow> turn_tokens bs turn ! i = ucast (hash_ids turn ! (i div bs))"
  by (simp add: turn_tokens_def concat_blocks_nth)

lemma synthesize_tokens_eq:
  assumes "length (hash_ids turn) * bs \<le> usize_max"
  shows "synthesize_tokens E bs turn = Some (if bs = 0 then Inl TraceBlockSizeZero
    else if length (hash_ids turn) * bs < input_length turn then Inl (ExceedsCapacity (input_length turn) (length (hash_ids turn) * bs))
    else Inr (turn_tokens bs turn))"
proof -
  have "synthesize_loop bs (input_length turn) (hash_ids turn) [] = turn_tokens bs turn" by (simp add: synthesize_loop_eq turn_tokens_def)
  then show ?thesis using assms by (auto simp: synthesize_tokens_def validate_block_size_and_capacity_def ensure_def Let_def)
qed

text \<open>What the trace looks like after the check in the release build, which does not see an overflow of the product.\<close>

lemma synthesize_tokens_sound:
  assumes "synthesize_tokens E bs turn = Some (Inr tokens)"
  shows "tokens = turn_tokens bs turn" "0 < bs" "input_length turn \<le> length (hash_ids turn) * bs"
proof -
  have "synthesize_loop bs (input_length turn) (hash_ids turn) [] = turn_tokens bs turn" by (simp add: synthesize_loop_eq turn_tokens_def)
  then show t: "tokens = turn_tokens bs turn" and "0 < bs"
    using assms by (auto simp: synthesize_tokens_def validate_block_size_and_capacity_def run_simps Let_def split: if_splits sum.splits)
  have "length tokens = input_length turn"
    using assms by (auto simp: synthesize_tokens_def validate_block_size_and_capacity_def run_simps Let_def split: if_splits sum.splits)
  then show "input_length turn \<le> length (hash_ids turn) * bs" using t by simp
qed

section \<open>The checks of a trace\<close>

definition validate_turn :: "build_env \<Rightarrow> ('t::{linorder,zero} \<Rightarrow> bool) \<Rightarrow> nat \<Rightarrow> string \<Rightarrow> nat \<Rightarrow> 't TurnTrace \<Rightarrow> (load_error + unit) run" where
  "validate_turn E fin bs sid i turn =
     and_then (ensure (input_length turn \<noteq> 0) (ZeroInputLength sid i)) (\<lambda>_.
     and_then (ensure (hash_ids turn \<noteq> []) (NoHashIds sid i)) (\<lambda>_. do {
       capacity \<leftarrow> usize_mul E (length (hash_ids turn)) bs;
       and_then (ensure (input_length turn \<le> capacity) (TurnExceedsCapacity sid i (input_length turn) capacity)) (\<lambda>_.
       and_then (ensure (fin (delay_after_previous_ms turn) \<and> 0 \<le> delay_after_previous_ms turn) (InvalidDelay sid i)) (\<lambda>_.
       ensure (i = 0 \<longrightarrow> delay_after_previous_ms turn = 0) (FirstTurnDelay sid)))
     }))"

definition validate_session :: "build_env \<Rightarrow> ('t::{linorder,zero} \<Rightarrow> bool) \<Rightarrow> bool \<Rightarrow> nat \<Rightarrow> 't SessionTrace \<Rightarrow> (load_error + unit) run" where
  "validate_session E fin allow_missing_first_timestamp bs session =
     and_then (ensure (turns session \<noteq> []) (NoTurns (session_id session))) (\<lambda>_.
     and_then (case first_arrival_timestamp_ms session of
         None \<Rightarrow> ensure allow_missing_first_timestamp (MissingFirstTimestamp (session_id session))
       | Some t \<Rightarrow> ensure (fin t \<and> 0 \<le> t) (InvalidFirstTimestamp (session_id session))) (\<lambda>_.
     and_then (each_then (\<lambda>(i, turn). validate_turn E fin bs (session_id session) i turn) (enumerate 0 (turns session))) (\<lambda>_.
       Some (Inr ()))))"

definition validate :: "build_env \<Rightarrow> ('t::{linorder,zero} \<Rightarrow> bool) \<Rightarrow> bool \<Rightarrow> 't Trace \<Rightarrow> (load_error + unit) run" where
  "validate E fin allow_missing_first_timestamp trace =
     and_then (ensure (trace_block_size trace \<noteq> 0) TraceBlockSizeZero) (\<lambda>_.
     and_then (ensure (sessions trace \<noteq> []) NoSessions) (\<lambda>_.
     and_then (each_then (validate_session E fin allow_missing_first_timestamp (trace_block_size trace)) (sessions trace)) (\<lambda>_.
       Some (Inr ()))))"

definition validate_for_trace_mode :: "build_env \<Rightarrow> ('t::{linorder,zero} \<Rightarrow> bool) \<Rightarrow> 't Trace \<Rightarrow> (load_error + unit) run" where
  "validate_for_trace_mode E fin trace = validate E fin False trace"

definition validate_for_concurrency_mode :: "build_env \<Rightarrow> ('t::{linorder,zero} \<Rightarrow> bool) \<Rightarrow> 't Trace \<Rightarrow> (load_error + unit) run" where
  "validate_for_concurrency_mode E fin trace = validate E fin True trace"

text \<open>What a trace that passes is like.\<close>

definition turn_valid :: "('t::{linorder,zero} \<Rightarrow> bool) \<Rightarrow> nat \<Rightarrow> nat \<Rightarrow> 't TurnTrace \<Rightarrow> bool" where
  "turn_valid fin bs i turn = (0 < input_length turn \<and> input_length turn \<le> length (hash_ids turn) * bs \<and>
     fin (delay_after_previous_ms turn) \<and> 0 \<le> delay_after_previous_ms turn \<and> (i = 0 \<longrightarrow> delay_after_previous_ms turn = 0))"

definition session_valid :: "('t::{linorder,zero} \<Rightarrow> bool) \<Rightarrow> bool \<Rightarrow> nat \<Rightarrow> 't SessionTrace \<Rightarrow> bool" where
  "session_valid fin missing bs session = (turns session \<noteq> [] \<and>
     (case first_arrival_timestamp_ms session of None \<Rightarrow> missing | Some t \<Rightarrow> fin t \<and> 0 \<le> t) \<and>
     (\<forall>i < length (turns session). turn_valid fin bs i (turns session ! i)))"

definition trace_valid :: "('t::{linorder,zero} \<Rightarrow> bool) \<Rightarrow> bool \<Rightarrow> 't Trace \<Rightarrow> bool" where
  "trace_valid fin missing trace = (0 < trace_block_size trace \<and> sessions trace \<noteq> [] \<and>
     (\<forall>session \<in> set (sessions trace). session_valid fin missing (trace_block_size trace) session))"

text \<open>Every capacity of the trace fits into a machine word.\<close>

definition trace_small :: "'t Trace \<Rightarrow> bool" where
  "trace_small trace = (\<forall>session \<in> set (sessions trace). \<forall>turn \<in> set (turns session).
     length (hash_ids turn) * trace_block_size trace \<le> usize_max)"

lemma usize_mul_le: "usize_mul E a b = Some c \<Longrightarrow> c \<le> a * b"
  by (auto simp: usize_mul_def split: if_splits)

lemma validate_turn_sound: "validate_turn E fin bs sid i turn = Some (Inr ()) \<Longrightarrow> turn_valid fin bs i turn"
  by (auto simp: validate_turn_def turn_valid_def run_simps dest: usize_mul_le)

lemma validate_turn_exact:
  "length (hash_ids turn) * bs \<le> usize_max \<Longrightarrow>
     returns (validate_turn E fin bs sid i turn) \<and> (validate_turn E fin bs sid i turn = Some (Inr ()) \<longleftrightarrow> turn_valid fin bs i turn)"
  by (auto simp: validate_turn_def turn_valid_def ensure_def)

lemma each_then_units:
  "(\<exists>us. each_then f xs = Some (Inr us)) \<longleftrightarrow> (\<forall>x \<in> set xs. f x = Some (Inr ()))"
proof -
  have "each_then f xs = Some (Inr us) \<Longrightarrow> x \<in> set xs \<Longrightarrow> f x = Some (Inr ())" for us x
    by (auto simp: each_then_ok in_set_conv_nth list_all2_conv_all_nth)
  then show ?thesis using each_then_total [of xs f "\<lambda>_. ()"] by blast
qed

lemma each_then_returns: "(\<And>x. x \<in> set xs \<Longrightarrow> returns (f x)) \<Longrightarrow> returns (each_then f xs)"
proof (induction xs)
  case (Cons x xs)
  then have "returns (f x)" "returns (each_then f xs)" by (meson list.set_intros)+
  then show ?case unfolding each_then.simps by (intro and_then_returns) simp_all
qed simp

lemma enumerate_all: "(\<forall>(i, x) \<in> set (enumerate 0 xs). P i x) \<longleftrightarrow> (\<forall>i < length xs. P i (xs ! i))"
  by (auto simp: in_set_enumerate_eq)

lemma validate_session_ok:
  "validate_session E fin missing bs session = Some (Inr ()) \<longleftrightarrow>
     turns session \<noteq> [] \<and> (case first_arrival_timestamp_ms session of None \<Rightarrow> missing | Some t \<Rightarrow> fin t \<and> 0 \<le> t) \<and>
     (\<forall>i < length (turns session). validate_turn E fin bs (session_id session) i (turns session ! i) = Some (Inr ()))"
  using each_then_units [of "\<lambda>(i, turn). validate_turn E fin bs (session_id session) i turn" "enumerate 0 (turns session)"]
    enumerate_all [where P = "\<lambda>i turn. validate_turn E fin bs (session_id session) i turn = Some (Inr ())" and xs = "turns session"]
  by (auto simp: validate_session_def run_simps case_prod_unfold split: option.splits)

lemma validate_ok:
  "validate E fin missing trace = Some (Inr ()) \<longleftrightarrow> trace_block_size trace \<noteq> 0 \<and> sessions trace \<noteq> [] \<and>
     (\<forall>session \<in> set (sessions trace). validate_session E fin missing (trace_block_size trace) session = Some (Inr ()))"
  using each_then_units [of "validate_session E fin missing (trace_block_size trace)" "sessions trace"]
  by (auto simp: validate_def run_simps)

lemma validate_sound: "validate E fin missing trace = Some (Inr ()) \<Longrightarrow> trace_valid fin missing trace"
  by (auto simp: validate_ok validate_session_ok trace_valid_def session_valid_def intro: validate_turn_sound)

lemma validate_exact:
  assumes "trace_small trace"
  shows "returns (validate E fin missing trace)" "validate E fin missing trace = Some (Inr ()) \<longleftrightarrow> trace_valid fin missing trace"
proof -
  have t: "returns (validate_turn E fin bs sid i turn) \<and> (validate_turn E fin bs sid i turn = Some (Inr ()) \<longleftrightarrow> turn_valid fin bs i turn)"
    if "session \<in> set (sessions trace)" "turn \<in> set (turns session)" "bs = trace_block_size trace" for session turn bs sid i
    using assms that by (intro validate_turn_exact) (simp add: trace_small_def)
  have "returns (validate_session E fin missing (trace_block_size trace) session)" if "session \<in> set (sessions trace)" for session
  proof -
    have "returns (validate_turn E fin (trace_block_size trace) sid i turn)" if "turn \<in> set (turns session)" for sid i turn
      using t [OF \<open>session \<in> set (sessions trace)\<close> that refl] by blast
    then have "returns (each_then (\<lambda>(i, turn). validate_turn E fin (trace_block_size trace) sid i turn) (enumerate 0 (turns session)))" for sid
      by (intro each_then_returns) (auto simp: enumerate_eq_zip dest: set_zip_rightD)
    then show ?thesis unfolding validate_session_def by (intro and_then_returns) (simp_all split: option.splits)
  qed
  then show "returns (validate E fin missing trace)"
    unfolding validate_def by (intro and_then_returns each_then_returns) simp_all
  show "validate E fin missing trace = Some (Inr ()) \<longleftrightarrow> trace_valid fin missing trace"
  proof -
    have "validate_session E fin missing (trace_block_size trace) session = Some (Inr ()) \<longleftrightarrow> session_valid fin missing (trace_block_size trace) session"
      if "session \<in> set (sessions trace)" for session
      unfolding validate_session_ok session_valid_def using t [OF that nth_mem refl] by simp
    then show ?thesis by (simp add: validate_ok trace_valid_def)
  qed
qed

section \<open>Transformations of a trace\<close>

unbundle bit_operations_syntax

definition map_turns :: "('t TurnTrace \<Rightarrow> 't TurnTrace) \<Rightarrow> 't SessionTrace \<Rightarrow> 't SessionTrace" where
  "map_turns f session = session\<lparr>turns := map f (turns session)\<rparr>"

definition start_times :: "'t Trace \<Rightarrow> 't list" where
  "start_times trace = List.map_filter first_arrival_timestamp_ms (sessions trace)"

definition map_start :: "('t \<Rightarrow> 't) \<Rightarrow> 't SessionTrace \<Rightarrow> 't SessionTrace" where
  "map_start f session = session\<lparr>first_arrival_timestamp_ms := map_option f (first_arrival_timestamp_ms session)\<rparr>"

text \<open>\<open>min_by\<close> and \<open>max_by\<close> over a nonempty iterator.\<close>

fun least :: "'t::linorder list \<Rightarrow> 't option" where
  "least [] = None"
| "least (x # xs) = Some (foldl min x xs)"

fun greatest :: "'t::linorder list \<Rightarrow> 't option" where
  "greatest [] = None"
| "greatest (x # xs) = Some (foldl max x xs)"

definition normalize_session_starts :: "('t::{linorder,minus}) Trace \<Rightarrow> 't Trace" where
  "normalize_session_starts trace =
     (case least (start_times trace) of
        None \<Rightarrow> trace
      | Some t0 \<Rightarrow> trace\<lparr>sessions := map (map_start (\<lambda>t. t - t0)) (sessions trace)\<rparr>)"

definition speed_up_timing :: "('t::{linorder,zero,divide} \<Rightarrow> bool) \<Rightarrow> 't \<Rightarrow> 't Trace \<Rightarrow> unit + 't Trace" where
  "speed_up_timing fin ratio trace =
     (if \<not> fin ratio \<or> ratio \<le> 0 then Inl ()
      else Inr (trace\<lparr>sessions := map (\<lambda>s. map_turns (\<lambda>turn. turn\<lparr>delay_after_previous_ms := delay_after_previous_ms turn div ratio\<rparr>)
        (map_start (\<lambda>t. t div ratio) s)) (sessions trace)\<rparr>))"

definition rescale_session_start_span :: "('t::{linorder,zero,minus,times,divide}) \<Rightarrow> 't Trace \<Rightarrow> 't Trace" where
  "rescale_session_start_span target_span trace =
     (case (least (start_times trace), greatest (start_times trace)) of
        (Some t0, Some t1) \<Rightarrow>
          trace\<lparr>sessions := map (map_start (\<lambda>t. if t1 - t0 = 0 then 0 else (t - t0) * target_span div (t1 - t0))) (sessions trace)\<rparr>
      | _ \<Rightarrow> trace)"

definition ready_span_end :: "('t::{zero,plus}) SessionTrace \<Rightarrow> 't" where
  "ready_span_end session = (case first_arrival_timestamp_ms session of Some t \<Rightarrow> t | None \<Rightarrow> 0) +
     foldl (+) 0 (map delay_after_previous_ms (drop 1 (turns session)))"

definition rescale_ready_span :: "('t::{linorder,zero,one,plus,minus,times,divide}) \<Rightarrow> 't Trace \<Rightarrow> 't Trace" where
  "rescale_ready_span duration trace =
     (case (least (map (\<lambda>s. case first_arrival_timestamp_ms s of Some t \<Rightarrow> t | None \<Rightarrow> 0) (sessions trace)),
            greatest (map ready_span_end (sessions trace))) of
        (Some t0, Some t1) \<Rightarrow>
          let ratio = duration div max (t1 - t0) 1
          in trace\<lparr>sessions := map (\<lambda>s. map_start (\<lambda>t. (t - t0) * ratio)
            (s\<lparr>turns := take 1 (turns s) @ map (\<lambda>turn. turn\<lparr>delay_after_previous_ms := delay_after_previous_ms turn * ratio\<rparr>)
              (drop 1 (turns s))\<rparr>)) (sessions trace)\<rparr>
      | _ \<Rightarrow> trace)"

definition expand_ids :: "build_env \<Rightarrow> nat \<Rightarrow> u64 \<Rightarrow> u64 list run" where
  "expand_ids E factor hash_id = do {
     base \<leftarrow> u64_checked_mul hash_id (of_nat factor);
     map_run (\<lambda>offset. u64_add E base (of_nat offset)) [0..<factor]
   }"

definition expand_turn :: "build_env \<Rightarrow> nat \<Rightarrow> 't TurnTrace \<Rightarrow> 't TurnTrace run" where
  "expand_turn E factor turn = do {
     assert_run (input_length turn * factor \<le> usize_max);
     ids \<leftarrow> map_run (expand_ids E factor) (hash_ids turn);
     Some (turn\<lparr>input_length := input_length turn * factor, hash_ids := concat ids\<rparr>)
   }"

definition expand_hash_prefix_depth :: "build_env \<Rightarrow> nat \<Rightarrow> 't Trace \<Rightarrow> 't Trace run" where
  "expand_hash_prefix_depth E factor trace =
     (if factor \<le> 1 then Some trace
      else do {
        expanded \<leftarrow> map_run (\<lambda>s. do { ts \<leftarrow> map_run (expand_turn E factor) (turns s); Some (s\<lparr>turns := ts\<rparr>) }) (sessions trace);
        Some (trace\<lparr>sessions := expanded\<rparr>)
      })"

definition all_hash_ids :: "'t Trace \<Rightarrow> u64 list" where
  "all_hash_ids trace = concat (map (\<lambda>s. concat (map hash_ids (turns s))) (sessions trace))"

definition max_hash_id :: "'t Trace \<Rightarrow> u64" where
  "max_hash_id trace = foldl max 0 (all_hash_ids trace)"

definition copy_session :: "nat \<Rightarrow> u64 \<Rightarrow> 't SessionTrace \<Rightarrow> 't SessionTrace run" where
  "copy_session copy_idx offset session = do {
     ts \<leftarrow> map_run (\<lambda>turn. do { ids \<leftarrow> map_run (\<lambda>h. u64_checked_add h offset) (hash_ids turn); Some (turn\<lparr>hash_ids := ids\<rparr>) }) (turns session);
     Some (session\<lparr>session_id := session_id session @ '':copy_'' @ dec_string copy_idx, turns := ts\<rparr>)
   }"

definition duplicate_hash_space :: "build_env \<Rightarrow> nat \<Rightarrow> 't Trace \<Rightarrow> 't Trace run" where
  "duplicate_hash_space E copies trace =
     (if copies \<le> 1 then Some trace
      else do {
        offset_base \<leftarrow> u64_add E (max_hash_id trace) 1;
        duplicated \<leftarrow> map_run (\<lambda>copy_idx. do {
          offset \<leftarrow> u64_mul E offset_base (of_nat copy_idx);
          map_run (copy_session copy_idx offset) (sessions trace)
        }) [0..<copies];
        Some (trace\<lparr>sessions := concat duplicated\<rparr>)
      })"

datatype SessionPartitionSpec = Random nat u64 | RoundRobin nat

text \<open>The partition a session goes to; \<open>pick\<close> is the generator seeded with the seed of the specification.\<close>

definition partition_index :: "(u64 \<Rightarrow> nat \<Rightarrow> nat \<Rightarrow> nat) \<Rightarrow> SessionPartitionSpec \<Rightarrow> nat \<Rightarrow> nat" where
  "partition_index pick spec session_idx =
     (case spec of
        Random n seed \<Rightarrow> pick seed (max n 1) session_idx
      | RoundRobin n \<Rightarrow> session_idx mod max n 1)"

definition num_partitions :: "SessionPartitionSpec \<Rightarrow> nat" where
  "num_partitions spec = (case spec of Random n _ \<Rightarrow> max n 1 | RoundRobin n \<Rightarrow> max n 1)"

fun partition_loop :: "(nat \<Rightarrow> nat) \<Rightarrow> nat \<Rightarrow> 't SessionTrace list \<Rightarrow> 't Trace list \<Rightarrow> 't Trace list run" where
  "partition_loop place session_idx [] partitions = Some partitions"
| "partition_loop place session_idx (session # rest) partitions = do {
     part \<leftarrow> index_run partitions (place session_idx);
     partition_loop place (Suc session_idx) rest
       (partitions[place session_idx := part\<lparr>sessions := sessions part @ [session]\<rparr>])
   }"

definition partition_by_session :: "(u64 \<Rightarrow> nat \<Rightarrow> nat \<Rightarrow> nat) \<Rightarrow> SessionPartitionSpec \<Rightarrow> 't Trace \<Rightarrow> 't Trace list run" where
  "partition_by_session pick spec trace =
     partition_loop (partition_index pick spec) 0 (sessions trace)
       (replicate (num_partitions spec) \<lparr>trace_block_size = trace_block_size trace, sessions = []\<rparr>)"

definition is_single_turn :: "'t Trace \<Rightarrow> bool" where
  "is_single_turn trace = list_all (\<lambda>s. length (turns s) = 1) (sessions trace)"

fun single_turn_loop :: "build_env \<Rightarrow> random_source \<Rightarrow> nat \<Rightarrow> 't SessionTrace list \<Rightarrow> nat \<Rightarrow> ((load_error + 't ArrivingRequest list) \<times> nat) run" where
  "single_turn_loop E R bs [] d = Some (Inr [], d)"
| "single_turn_loop E R bs (session # rest) d =
     (if length (turns session) \<noteq> 1 then Some (Inl (NotSingleTurn (session_id session) (length (turns session))), d)
      else do {
        made \<leftarrow> to_direct_request E bs (draw_uuid R d) (first_arrival_timestamp_ms session) (turns session ! 0);
        (case made of
           Inl e \<Rightarrow> Some (Inl e, Suc d)
         | Inr request \<Rightarrow> do {
             (others, d1) \<leftarrow> single_turn_loop E R bs rest (Suc d);
             Some (case others of Inl e \<Rightarrow> Inl e | Inr made_more \<Rightarrow> Inr (request # made_more), d1)
           })
      })"

definition to_single_turn_requests :: "build_env \<Rightarrow> random_source \<Rightarrow> 't Trace \<Rightarrow> nat \<Rightarrow> ((load_error + 't ArrivingRequest list) \<times> nat) run" where
  "to_single_turn_requests E R trace d = single_turn_loop E R (trace_block_size trace) (sessions trace) d"

section \<open>What the transformations keep\<close>

subsection \<open>Partitions\<close>

lemma partition_loop_ok:
  assumes "\<And>i. place i < length ps"
  shows "\<exists>ps'. partition_loop place i ss ps = Some ps' \<and> length ps' = length ps \<and>
    (\<forall>k < length ps. ps' ! k = (ps ! k)\<lparr>sessions := sessions (ps ! k) @ map snd (filter (\<lambda>(j, s). place j = k) (enumerate i ss))\<rparr>)"
  using assms
proof (induction ss arbitrary: i ps)
  case (Cons s ss)
  let ?p = "place i"
  let ?ps = "ps[?p := (ps ! ?p)\<lparr>sessions := sessions (ps ! ?p) @ [s]\<rparr>]"
  have p: "?p < length ps" using Cons.prems by blast
  obtain ps' where r: "partition_loop place (Suc i) ss ?ps = Some ps'" "length ps' = length ps"
    "\<forall>k < length ps. ps' ! k = (?ps ! k)\<lparr>sessions := sessions (?ps ! k) @ map snd (filter (\<lambda>(j, s). place j = k) (enumerate (Suc i) ss))\<rparr>"
    using Cons.IH [of ?ps "Suc i"] Cons.prems by auto
  have "partition_loop place i (s # ss) ps = Some ps'" using r(1) p by (simp add: index_run_def)
  moreover have "ps' ! k = (ps ! k)\<lparr>sessions := sessions (ps ! k) @ map snd (filter (\<lambda>(j, s). place j = k) (enumerate i (s # ss)))\<rparr>"
    if "k < length ps" for k
    using r(3) that p by (cases "k = ?p") simp_all
  ultimately show ?case using r(2) by blast
qed simp

lemma partition_by_session_ok:
  assumes "\<And>seed n i. 0 < n \<Longrightarrow> pick seed n i < n"
  shows "partition_by_session pick spec trace = Some (map (\<lambda>k. trace\<lparr>sessions :=
    map snd (filter (\<lambda>(j, s). partition_index pick spec j = k) (enumerate 0 (sessions trace)))\<rparr>) [0..<num_partitions spec])"
proof -
  let ?ps = "replicate (num_partitions spec) \<lparr>trace_block_size = trace_block_size trace, sessions = []\<rparr>"
  have "partition_index pick spec i < length ?ps" for i
    using assms by (simp add: partition_index_def num_partitions_def split: SessionPartitionSpec.splits)
  from partition_loop_ok [of "partition_index pick spec" ?ps, OF this] obtain ps' where
    p: "partition_loop (partition_index pick spec) 0 (sessions trace) ?ps = Some ps'" "length ps' = num_partitions spec"
    "\<forall>k < num_partitions spec. ps' ! k = (?ps ! k)\<lparr>sessions := sessions (?ps ! k) @
      map snd (filter (\<lambda>(j, s). partition_index pick spec j = k) (enumerate 0 (sessions trace)))\<rparr>"
    by (metis length_replicate)
  have "ps' = map (\<lambda>k. trace\<lparr>sessions :=
      map snd (filter (\<lambda>(j, s). partition_index pick spec j = k) (enumerate 0 (sessions trace)))\<rparr>) [0..<num_partitions spec]"
    using p by (intro nth_equalityI) simp_all
  then show ?thesis using p(1) by (simp add: partition_by_session_def)
qed

subsection \<open>Deeper and wider hash spaces\<close>

lemma expand_ids_eq:
  assumes "expand_ids E factor h = Some ids" "unat h * factor + factor \<le> 2 ^ 64"
  shows "ids = map (\<lambda>j. of_nat (unat h * factor + j)) [0..<factor]"
proof -
  have f: "factor \<le> 2 ^ 64" using assms(2) by simp
  have base: "u64_checked_mul h (of_nat factor) = Some (h * of_nat factor)"
    using assms(1) by (auto simp: expand_ids_def run_simps u64_checked_mul_def split: if_splits)
  have "h * of_nat factor + of_nat j = (of_nat (unat h * factor + j) :: u64)" for j by simp
  moreover have "u64_add E (h * of_nat factor) (of_nat j) = Some y \<Longrightarrow> y = h * of_nat factor + of_nat j" for j y
    by (simp add: u64_add_def split: if_splits)
  ultimately show ?thesis
    using assms(1) base unfolding expand_ids_def
    by (auto simp: map_run_Some list_all2_conv_all_nth intro!: nth_equalityI)
qed

lemma expand_turn_fields:
  assumes "expand_turn E factor turn = Some turn'" "\<forall>h \<in> set (hash_ids turn). unat h * factor + factor \<le> 2 ^ 64"
  shows "hash_ids turn' = concat (map (\<lambda>h. map (\<lambda>j. of_nat (unat h * factor + j)) [0..<factor]) (hash_ids turn))"
    "input_length turn' = input_length turn * factor" "turn_max_output_tokens turn' = turn_max_output_tokens turn"
    "delay_after_previous_ms turn' = delay_after_previous_ms turn"
proof -
  obtain ids where m: "map_run (expand_ids E factor) (hash_ids turn) = Some ids"
    and t: "turn' = turn\<lparr>input_length := input_length turn * factor, hash_ids := concat ids\<rparr>"
    using assms(1) by (auto simp: expand_turn_def run_simps)
  have "ids = map (\<lambda>h. map (\<lambda>j. of_nat (unat h * factor + j)) [0..<factor]) (hash_ids turn)"
    using m assms(2) unfolding map_run_Some list_all2_conv_all_nth
    by (intro nth_equalityI) (auto dest!: expand_ids_eq)
  then show "hash_ids turn' = concat (map (\<lambda>h. map (\<lambda>j. of_nat (unat h * factor + j)) [0..<factor]) (hash_ids turn))" by (simp add: t)
qed (use assms(1) in \<open>auto simp: expand_turn_def run_simps\<close>)

lemma word_eq_of_nat: "m < 2 ^ 64 \<Longrightarrow> n < 2 ^ 64 \<Longrightarrow> (of_nat m :: u64) = of_nat n \<longleftrightarrow> m = n"
  by (simp add: word_of_nat_eq_iff take_bit_nat_eq_self)

lemma unat_of_nat_le: "unat (of_nat n :: u64) \<le> n"
  by (simp add: unat_of_nat)

lemma take_concat_blocks: "(\<And>x. x \<in> set xs \<Longrightarrow> length (f x) = n) \<Longrightarrow> take (k * n) (concat (map f xs)) = concat (map f (take k xs))"
proof (induction xs arbitrary: k)
  case (Cons x xs)
  then show ?case by (cases k) simp_all
qed simp

lemma concat_blocks_inj:
  "(\<And>x. length (f x) = n) \<Longrightarrow> (\<And>x y. x \<in> set xs \<union> set ys \<Longrightarrow> y \<in> set xs \<union> set ys \<Longrightarrow> f x = f y \<Longrightarrow> x = y) \<Longrightarrow> 0 < n \<Longrightarrow>
     concat (map f xs) = concat (map f ys) \<longleftrightarrow> xs = ys"
proof (induction xs arbitrary: ys)
  case Nil
  then show ?case by (cases ys) (auto dest: arg_cong [where f = length])
next
  case (Cons x xs)
  show ?case
  proof (cases ys)
    case Nil
    then show ?thesis using Cons.prems(1,3) by (auto dest: arg_cong [where f = length])
  next
    case ys: (Cons y ys')
    have "concat (map f (x # xs)) = concat (map f ys) \<longleftrightarrow> f x = f y \<and> concat (map f xs) = concat (map f ys')"
      using Cons.prems(1) ys by (simp add: append_eq_append_conv)
    also have "\<dots> \<longleftrightarrow> x = y \<and> xs = ys'"
      using Cons.IH [of ys'] Cons.prems ys by (metis Un_iff list.set_intros)
    finally show ?thesis using ys by simp
  qed
qed

text \<open>Two turns share exactly the blocks that they shared before.\<close>

lemma expand_prefix:
  assumes "expand_turn E factor a = Some a'" "expand_turn E factor b = Some b'" "0 < factor"
    and "\<forall>h \<in> set (hash_ids a) \<union> set (hash_ids b). unat h * factor + factor \<le> 2 ^ 64"
  shows "take (k * factor) (hash_ids a') = take (k * factor) (hash_ids b') \<longleftrightarrow> take k (hash_ids a) = take k (hash_ids b)"
proof -
  let ?f = "\<lambda>h :: u64. map (\<lambda>j. of_nat (unat h * factor + j) :: u64) [0..<factor]"
  have small: "unat h * factor < 2 ^ 64" if "h \<in> set (hash_ids a) \<union> set (hash_ids b)" for h :: u64
  proof -
    have "unat h * factor + factor \<le> 2 ^ 64" using assms(4) that by blast
    then show ?thesis using assms(3) by linarith
  qed
  have "x = y" if "x \<in> set (hash_ids a) \<union> set (hash_ids b)" "y \<in> set (hash_ids a) \<union> set (hash_ids b)" "?f x = ?f y" for x y
  proof -
    have "?f x ! 0 = ?f y ! 0" by (rule arg_cong [where f = "\<lambda>l. l ! 0", OF that(3)])
    then have "(of_nat (unat x * factor) :: u64) = of_nat (unat y * factor)" using assms(3) by simp
    then have "unat x * factor = unat y * factor" using word_eq_of_nat small that(1,2) by blast
    then show ?thesis using assms(3) by (simp add: word_unat_eq_iff)
  qed
  then have "concat (map ?f (take k (hash_ids a))) = concat (map ?f (take k (hash_ids b))) \<longleftrightarrow> take k (hash_ids a) = take k (hash_ids b)"
    using assms(3) by (intro concat_blocks_inj [where n = factor]) (auto dest: in_set_takeD)
  moreover have "hash_ids a' = concat (map ?f (hash_ids a))" "hash_ids b' = concat (map ?f (hash_ids b))"
    using expand_turn_fields(1) [OF assms(1)] expand_turn_fields(1) [OF assms(2)] assms(4) by auto
  ultimately show ?thesis using take_concat_blocks [where n = factor and f = ?f] by simp
qed

lemma foldl_max_ge: "m \<le> foldl max m xs \<and> (\<forall>x \<in> set xs. x \<le> foldl max (m :: 'a::linorder) xs)"
proof (induction xs arbitrary: m)
  case (Cons x xs)
  have "max m x \<le> foldl max (max m x) xs" "\<forall>y \<in> set xs. y \<le> foldl max (max m x) xs" using Cons.IH [of "max m x"] by auto
  then show ?case by simp
qed simp

lemma max_hash_id_ge:
  "session \<in> set (sessions trace) \<Longrightarrow> turn \<in> set (turns session) \<Longrightarrow> h \<in> set (hash_ids turn) \<Longrightarrow> h \<le> max_hash_id trace"
  using foldl_max_ge [of 0 "all_hash_ids trace"] by (auto simp: max_hash_id_def all_hash_ids_def)

definition shift_session :: "nat \<Rightarrow> u64 \<Rightarrow> 't SessionTrace \<Rightarrow> 't SessionTrace" where
  "shift_session i offset session = session\<lparr>session_id := session_id session @ '':copy_'' @ dec_string i,
     turns := map (\<lambda>turn. turn\<lparr>hash_ids := map (\<lambda>h. h + offset) (hash_ids turn)\<rparr>) (turns session)\<rparr>"

lemma copy_session_eq:
  assumes "\<And>turn h. turn \<in> set (turns session) \<Longrightarrow> h \<in> set (hash_ids turn) \<Longrightarrow> unat h + unat offset < 2 ^ 64"
  shows "copy_session i offset session = Some (shift_session i offset session)"
proof -
  have ids: "map_run (\<lambda>h. u64_checked_add h offset) (hash_ids turn) = Some (map (\<lambda>h. h + offset) (hash_ids turn))" if "turn \<in> set (turns session)" for turn
    using assms [OF that] by (intro map_run_total) (simp add: u64_checked_add_def)
  have "map_run (\<lambda>turn. do { ids \<leftarrow> map_run (\<lambda>h. u64_checked_add h offset) (hash_ids turn); Some (turn\<lparr>hash_ids := ids\<rparr>) }) (turns session) =
      Some (map (\<lambda>turn. turn\<lparr>hash_ids := map (\<lambda>h. h + offset) (hash_ids turn)\<rparr>) (turns session))"
    by (rule map_run_total) (simp add: ids)
  then show ?thesis by (simp add: copy_session_def shift_session_def)
qed

lemma duplicate_hash_space_eq:
  assumes "1 < copies" "(unat (max_hash_id trace) + 1) * copies \<le> 2 ^ 64"
  shows "duplicate_hash_space E copies trace = Some (trace\<lparr>sessions :=
    concat (map (\<lambda>i. map (shift_session i (of_nat ((unat (max_hash_id trace) + 1) * i))) (sessions trace)) [0..<copies])\<rparr>)"
proof -
  let ?m = "unat (max_hash_id trace) + 1"
  have m: "?m < 2 ^ 64" "0 < ?m" using assms mult_le_mono2 [of 2 copies ?m] by simp_all
  have base: "u64_add E (max_hash_id trace) 1 = Some (of_nat ?m)" using m by (simp add: u64_add_def)
  have "copy_session i (of_nat (?m * i)) session = Some (shift_session i (of_nat (?m * i)) session)"
    if i: "i < copies" and s: "session \<in> set (sessions trace)" for i session
  proof (rule copy_session_eq)
    fix turn h
    assume "turn \<in> set (turns session)" "h \<in> set (hash_ids turn)"
    then have "unat h \<le> unat (max_hash_id trace)" using max_hash_id_ge [OF s] by (simp add: word_le_nat_alt)
    moreover have "unat (of_nat (?m * i) :: u64) \<le> ?m * i" by (rule unat_of_nat_le)
    moreover have "?m * Suc i \<le> ?m * copies" using i by (intro mult_le_mono2) simp
    ultimately show "unat h + unat (of_nat (?m * i) :: u64) < 2 ^ 64" using assms(2) by simp
  qed
  then have copies: "map_run (copy_session i (of_nat (?m * i))) (sessions trace) = Some (map (shift_session i (of_nat (?m * i))) (sessions trace))"
    if "i < copies" for i using that by (intro map_run_total) blast
  have mul: "u64_mul E (of_nat ?m) (of_nat i) = Some (of_nat (?m * i))" if "i < copies" for i
  proof -
    have "?m * Suc i \<le> ?m * copies" using that by (intro mult_le_mono2) simp
    then have "?m * i < 2 ^ 64" using assms(2) m by simp
    moreover have "unat (of_nat ?m :: u64) * unat (of_nat i :: u64) \<le> ?m * i" by (intro mult_le_mono unat_of_nat_le)
    ultimately have "unat (of_nat ?m :: u64) * unat (of_nat i :: u64) < 2 ^ 64" by linarith
    then show ?thesis by (simp add: u64_mul_def ring_distribs)
  qed
  have "map_run (\<lambda>i. do { offset \<leftarrow> u64_mul E (of_nat ?m) (of_nat i); map_run (copy_session i offset) (sessions trace) }) [0..<copies] =
      Some (map (\<lambda>i. map (shift_session i (of_nat (?m * i))) (sessions trace)) [0..<copies])"
  proof (rule map_run_total)
    fix i
    assume "i \<in> set [0..<copies]"
    then have "i < copies" by simp
    then show "do { offset \<leftarrow> u64_mul E (of_nat ?m) (of_nat i); map_run (copy_session i offset) (sessions trace) } =
        Some (map (shift_session i (of_nat (?m * i))) (sessions trace))"
      by (simp only: mul copies bind.bind_lunit)
  qed
  then show ?thesis using assms(1) base by (simp add: duplicate_hash_space_def)
qed

section \<open>Properties\<close>

definition session_hash_ids :: "'t SessionTrace \<Rightarrow> u64 set" where
  "session_hash_ids session = (\<Union>turn \<in> set (turns session). set (hash_ids turn))"

text \<open>
  Where the hash ids of all copies fit into 64 bits, duplicating the hash space of a
  trace gives every copy the ids of the original shifted by a multiple of one more than the largest
  id, and no two copies have an id in common.
\<close>

lemma duplicate_hash_space_disjoint:
  assumes "1 < copies" and "(unat (max_hash_id trace) + 1) * copies \<le> 2 ^ 64"
  defines "offset \<equiv> \<lambda>i. of_nat ((unat (max_hash_id trace) + 1) * i)"
  shows "duplicate_hash_space E copies trace = Some (trace\<lparr>sessions :=
      concat (map (\<lambda>i. map (shift_session i (offset i)) (sessions trace)) [0..<copies])\<rparr>) \<and>
    (\<forall>i < copies. \<forall>j < copies. \<forall>s \<in> set (sessions trace). \<forall>s' \<in> set (sessions trace). i \<noteq> j \<longrightarrow>
      session_hash_ids (shift_session i (offset i) s) \<inter> session_hash_ids (shift_session j (offset j) s') = {})"
proof -
  let ?m = "unat (max_hash_id trace) + 1"
  have val: "\<exists>n. unat x = n + ?m * i \<and> n < ?m" if "x \<in> session_hash_ids (shift_session i (offset i) s)" "s \<in> set (sessions trace)" "i < copies" for x i s
  proof -
    have "\<exists>turn \<in> set (turns s). \<exists>h \<in> set (hash_ids turn). x = h + offset i"
      using that(1) by (auto simp: session_hash_ids_def shift_session_def)
    then obtain turn h where h: "turn \<in> set (turns s)" "h \<in> set (hash_ids turn)" "x = h + offset i" by blast
    have le: "unat h < ?m" using max_hash_id_ge [OF that(2) h(1,2)] by (simp add: word_le_nat_alt)
    have "?m * Suc i \<le> ?m * copies" using that(3) by (intro mult_le_mono2) simp
    then have lt: "unat h + ?m * i < 2 ^ 64" using assms(2) le by simp
    have "x = of_nat (unat h + ?m * i)" by (simp add: h(3) offset_def)
    then have "unat x = unat h + ?m * i" using lt by (simp only: unat_of_nat) simp
    then show ?thesis using le by blast
  qed
  have "session_hash_ids (shift_session i (offset i) s) \<inter> session_hash_ids (shift_session j (offset j) s') = {}"
    if c: "i < copies" "j < copies" "s \<in> set (sessions trace)" "s' \<in> set (sessions trace)" "i \<noteq> j" for i j s s'
  proof (rule ccontr)
    assume "\<not> ?thesis"
    then obtain x where "x \<in> session_hash_ids (shift_session i (offset i) s)" "x \<in> session_hash_ids (shift_session j (offset j) s')" by blast
    then obtain n n' where n: "n + ?m * i = n' + ?m * j" "n < ?m" "n' < ?m" using val c by metis
    then have "(n + ?m * i) div ?m = (n' + ?m * j) div ?m" by simp
    then show False using n(2,3) c(5) by (simp only: div_mult_self2) simp
  qed
  then show ?thesis using duplicate_hash_space_eq [OF assms(1,2)] unfolding offset_def by blast
qed

text \<open>
  C38 (duplicate_hash_space_wraps). In a release build the largest id may overflow the offset unnoticed: with an id
  \<open>u64::MAX\<close> in the trace all the copies get the ids of the original, so that they share everything.
\<close>

theorem duplicate_hash_space_wraps:
  assumes "\<not> debug_assertions E" and "1 < copies" and "max_hash_id trace = - 1"
  shows "duplicate_hash_space E copies trace =
    Some (trace\<lparr>sessions := concat (map (\<lambda>i. map (shift_session i 0) (sessions trace)) [0..<copies])\<rparr>)"
proof -
  have "u64_add E (max_hash_id trace) 1 = Some 0" using assms(1,3) by (simp add: u64_add_def)
  moreover have "copy_session i 0 s = Some (shift_session i 0 s)" for i and s :: "'a SessionTrace"
    by (rule copy_session_eq) (use unsigned_less [where 'b = 64 and 'a = nat] in simp)
  then have "map_run (copy_session i 0) (sessions trace) = Some (map (shift_session i 0) (sessions trace))" for i
    by (intro map_run_total) blast
  then have "map_run (\<lambda>i. do { offset \<leftarrow> u64_mul E 0 (of_nat i); map_run (copy_session i offset) (sessions trace) }) [0..<copies] =
      Some (map (\<lambda>i. map (shift_session i 0) (sessions trace)) [0..<copies])"
    by (intro map_run_total) (simp add: u64_mul_def)
  ultimately show ?thesis using assms(2) by (simp add: duplicate_hash_space_def)
qed

section \<open>Witnesses\<close>

definition demo_turn :: "u64 list \<Rightarrow> int TurnTrace" where
  "demo_turn ids = \<lparr>input_length = 1, turn_max_output_tokens = 1, hash_ids = ids, delay_after_previous_ms = 0\<rparr>"

definition demo_trace :: "u64 \<Rightarrow> int Trace" where
  "demo_trace h = \<lparr>trace_block_size = 2, sessions = [\<lparr>session_id = ''a'', first_arrival_timestamp_ms = Some 0, turns = [demo_turn [h]]\<rparr>]\<rparr>"

lemma demo_max: "max_hash_id (demo_trace h) = h"
  by (simp add: demo_trace_def demo_turn_def max_hash_id_def all_hash_ids_def)

theorem duplicate_hash_space_wraps_witness:
  "\<exists>trace'. duplicate_hash_space (demo_env\<lparr>debug_assertions := False\<rparr>) 2 (demo_trace (- 1)) = Some trace' \<and>
     map (\<lambda>s. map hash_ids (turns s)) (sessions trace') = [[[- 1]], [[- 1]]]"
  using duplicate_hash_space_wraps [of "demo_env\<lparr>debug_assertions := False\<rparr>" 2 "demo_trace (- 1)"]
  by (simp add: demo_max) (simp add: demo_trace_def demo_turn_def shift_session_def upt_rec)

end
