(* ===== verification/Cluster.thy ===== *)
theory Cluster
  imports LocalKvCache
begin

text \<open>
  Several workers and the LMCache they share. Each worker is a \<open>LocalVllmKvCache\<close> with the handle of
  the shared adapter; every movement of a worker may store blocks there. The lemmas follow what a
  movement of one worker does to the shared adapter and show that every block resident on some worker
  can be reused by all of them, and that the signals of the sequences drive the caches without a panic.
\<close>

section \<open>An unlimited shared cache\<close>

definition lm_open :: "'f LmCacheMockAdapter \<Rightarrow> bool" where
  "lm_open A = (lm_inv A \<and> (enable_l1 (lm_config A) \<or> enable_l2 (lm_config A)) \<and>
     l1_capacity_blocks (lm_config A) = 0 \<and> l2_capacity_blocks (lm_config A) = 0)"

definition grows :: "'f LmCacheMockAdapter \<Rightarrow> 'f LmCacheMockAdapter \<Rightarrow> bool" where
  "grows A A' = (lm_open A \<longrightarrow> lm_open A' \<and> (\<forall>h. contains_block A h \<longrightarrow> contains_block A' h))"

lemma grows_refl [simp]: "grows A A"
  by (simp add: grows_def)

lemma grows_trans: "grows A A' \<Longrightarrow> grows A' A'' \<Longrightarrow> grows A A''"
  by (simp add: grows_def)

lemma grows_store: "grows A (store_block A meta)"
  using store_visible(3) [of A] lm_inv_store [of A meta] by (auto simp: grows_def lm_open_def)

lemma save_grows: "grows (heap a) (save_to_lmcache k heap h lh p ids a)"
  by (simp add: save_to_lmcache_def grows_store split: option.splits)

lemma save_contains: "kc_lmcache k = Some a \<Longrightarrow> lm_open (heap a) \<Longrightarrow> contains_block (save_to_lmcache k heap h lh p ids a) h"
  using store_visible(1) [of "heap a" "\<lparr>m_sequence_hash = h, m_local_hash = lh, m_parent_hash = p, m_token_ids = ids,
    m_stored_at_ms = None\<rparr>"] by (auto simp: save_to_lmcache_def lm_open_def)

section \<open>What a worker holds is in the shared cache\<close>

text \<open>
  All blocks of a worker, held by requests or left in its eviction cache, are named by the lineage hash \<open>f\<close> gives them
  and stored in the shared cache.
\<close>

definition covered :: "(u64 \<Rightarrow> PositionalLineageHash) \<Rightarrow> 'f LmCacheMockAdapter \<Rightarrow> LocalVllmKvCache \<Rightarrow> bool" where
  "covered f A k = ((\<forall>h e. hm_get (active_full k) h = Some e \<longrightarrow> entry_plh e = f h \<and> contains_block A h) \<and>
     (\<forall>p t h. hm_get (ec_blocks (inactive k)) p = Some (t, h) \<longrightarrow> p = f h \<and> contains_block A h))"

lemma covered_same:
  "active_full k' = active_full k \<Longrightarrow> ec_blocks (inactive k') = ec_blocks (inactive k) \<Longrightarrow> covered f A k' = covered f A k"
  by (simp add: covered_def)

lemma covered_fewer:
  "covered f A k \<Longrightarrow> active_full k' = active_full k \<Longrightarrow> hm_get (ec_blocks (inactive k')) \<subseteq>\<^sub>m hm_get (ec_blocks (inactive k)) \<Longrightarrow> covered f A k'"
  by (auto simp: covered_def map_le_def dom_def) (metis option.distinct(1) option.inject)+

lemma covered_grows: "grows A A' \<Longrightarrow> lm_open A \<Longrightarrow> covered f A k \<Longrightarrow> covered f A' k"
  by (auto simp: covered_def grows_def)

lemma covered_add:
  "covered f A k \<Longrightarrow> contains_block A h \<Longrightarrow> entry_plh e = f h \<Longrightarrow> covered f A (k\<lparr>active_full := hm_insert h e (active_full k)\<rparr>)"
  by (auto simp: covered_def split: if_splits)

lemma covered_resident: "inj f \<Longrightarrow> covered f A k \<Longrightarrow> resident f k h \<Longrightarrow> contains_block A h"
  unfolding covered_def resident_def hm_contains_get by (metis injD not_None_eq surj_pair)

text \<open>A step of a worker that uses the shared cache \<open>a\<close>.\<close>

definition shares :: "(u64 \<Rightarrow> PositionalLineageHash) \<Rightarrow> nat \<Rightarrow> LocalVllmKvCache \<Rightarrow> 'f lm_heap \<Rightarrow> LocalVllmKvCache \<Rightarrow> 'f lm_heap \<Rightarrow> bool" where
  "shares f a k heap k' heap' = (grows (heap a) (heap' a) \<and> kc_lmcache k' = kc_lmcache k \<and>
     (kc_lmcache k = Some a \<longrightarrow> lm_open (heap a) \<longrightarrow> covered f (heap a) k \<longrightarrow> covered f (heap' a) k'))"

lemma shares_trans: "shares f a k heap k1 heap1 \<Longrightarrow> shares f a k1 heap1 k2 heap2 \<Longrightarrow> shares f a k heap k2 heap2"
  by (auto simp: shares_def grows_def)

lemma shares_publish: "publish_kv_event E k bs hs p s ids = Some k' \<Longrightarrow> shares f a k heap k' heap"
  by (auto simp: shares_def covered_def dest!: publish_fields)

lemma match_block_fewer: "match_block c p = (m, c') \<Longrightarrow> hm_get (ec_blocks c') \<subseteq>\<^sub>m hm_get (ec_blocks c)"
  by (auto simp: match_block_def map_le_def dom_def split: if_splits)

lemma shares_fewer:
  "active_full k' = active_full k \<Longrightarrow> kc_lmcache k' = kc_lmcache k \<Longrightarrow> hm_get (ec_blocks (inactive k')) \<subseteq>\<^sub>m hm_get (ec_blocks (inactive k)) \<Longrightarrow> shares f a k heap k' heap"
  using covered_fewer by (fastforce simp: shares_def)

lemma reserve_shares:
  assumes "reserve_one_slot E k = Some (ok, k')"
  shows "shares f a k heap k' heap"
proof (cases "used_slots k < max_capacity k")
  case True
  then show ?thesis using assms by (simp add: reserve_one_slot_def shares_def)
next
  case full: False
  obtain v c' where ev: "evict_lru (inactive k) = (v, c')" by fastforce
  show ?thesis
  proof (cases v)
    case None
    then have "k' = k" using assms full ev evict_lru_None [of "inactive k" c'] by (auto simp: reserve_one_slot_def)
    then show ?thesis by (simp add: shares_def)
  next
    case (Some x)
    obtain p h where x: "x = (p, h)" by fastforce
    let ?k = "k\<lparr>inactive := c', registered_blocks := hm_remove p (registered_blocks k)\<rparr>"
    have "hm_get (ec_blocks c') \<subseteq>\<^sub>m hm_get (ec_blocks (inactive k))"
      using ev Some x by (auto simp: evict_lru_def Let_def map_le_def dom_def split: if_splits)
    then have "shares f a k heap ?k heap" by (intro shares_fewer) simp_all
    moreover have "publish_kv_event E ?k [h] [] None False None = Some k'"
      using assms full ev Some x by (auto simp: reserve_one_slot_def run_simps)
    ultimately show ?thesis using shares_trans shares_publish by blast
  qed
qed

text \<open>A new full block goes into the shared cache, one that is found in the eviction cache is there already.\<close>

lemma shares_store:
  assumes "shares f a k heap k1 heap" "entry_plh e = f h" "kc_lmcache k2 = kc_lmcache k1" "active_full k2 = hm_insert h e (active_full k1)"
    "inactive k2 = inactive k1"
  shows "shares f a k heap k2 (save_to_lmcache k2 heap h lh p ids)"
proof -
  let ?heap = "save_to_lmcache k2 heap h lh p ids"
  have g: "grows (heap a) (?heap a)" by (rule save_grows)
  have "covered f (?heap a) k2" if c: "kc_lmcache k = Some a" "lm_open (heap a)" "covered f (heap a) k"
  proof -
    have "covered f (?heap a) k1" using assms(1) c covered_grows [OF g c(2)] by (simp add: shares_def)
    moreover have "contains_block (?heap a) h" using save_contains [of k2 a heap h] assms(1,3) c by (simp add: shares_def)
    ultimately have "covered f (?heap a) (k1\<lparr>active_full := hm_insert h e (active_full k1)\<rparr>)" using assms(2) by (rule covered_add)
    then show ?thesis by (simp add: covered_def assms(4,5))
  qed
  then show ?thesis using assms(1,3) g by (simp add: shares_def)
qed

lemma shares_reactivate:
  fixes heap :: "'f lm_heap"
  assumes "inj f" "match_block (inactive k) (f h) = (Some x, c')" "entry_plh e = f h"
  shows "shares f a k heap (k\<lparr>inactive := c', active_full := hm_insert h e (active_full k)\<rparr>) heap"
proof -
  obtain t where t: "hm_get (ec_blocks (inactive k)) (f h) = Some (t, x)" using assms(2) by (auto simp: match_block_def)
  have "covered f A (k\<lparr>inactive := c', active_full := hm_insert h e (active_full k)\<rparr>)" if c: "covered f A k" for A :: "'f LmCacheMockAdapter"
  proof -
    have "f h = f x" "contains_block A x" using c t unfolding covered_def by blast+
    then have "contains_block A h" using assms(1) by (metis injD)
    moreover have "covered f A (k\<lparr>inactive := c'\<rparr>)" using covered_fewer [OF c] match_block_fewer [OF assms(2)] by simp
    ultimately have "covered f A (k\<lparr>inactive := c'\<rparr>\<lparr>active_full := hm_insert h e (active_full (k\<lparr>inactive := c'\<rparr>))\<rparr>)" using assms(3) by (intro covered_add)
    then show ?thesis by simp
  qed
  then show ?thesis by (simp add: shares_def)
qed

lemma shares_ref: "hm_get (active_full k) h = Some e \<Longrightarrow> entry_plh e' = entry_plh e \<Longrightarrow> shares f a k heap (k\<lparr>active_full := hm_insert h e' (active_full k)\<rparr>) heap"
  by (auto simp: shares_def covered_def split: if_splits)

lemma use_block_shares:
  assumes inj: "inj f" and run: "use_block E hs ps ids mp idx b (k, heap) = Some (r, k', heap')"
    and plh: "\<And>h. b = FullBlock h \<Longrightarrow> idx < length ps \<and> ps ! idx = f h"
  shows "shares f a k heap k' heap'"
proof (cases b)
  case (FullBlock h)
  have ix: "index_run ps idx = Some (f h)" using plh [OF FullBlock] by (simp add: index_run_def)
  show ?thesis
  proof (cases "hm_get (active_full k) h")
    case (Some e)
    then show ?thesis using run FullBlock by (auto simp: use_block_def intro!: shares_ref [OF Some])
  next
    case None
    obtain m c' where m: "match_block (inactive k) (f h) = (m, c')" by fastforce
    show ?thesis
    proof (cases m)
      case (Some x)
      then show ?thesis using run FullBlock None ix m by (auto simp: use_block_def intro!: shares_reactivate [OF inj m [unfolded Some]])
    next
      case none: None
      then obtain ok k1 where res: "reserve_one_slot E (k\<lparr>inactive := c'\<rparr>) = Some (ok, k1)"
        using run FullBlock None ix m by (auto simp: use_block_def run_simps)
      have "shares f a k heap (k\<lparr>inactive := c'\<rparr>) heap" by (rule shares_fewer) (use match_block_fewer [OF m] in simp_all)
      then have k1: "shares f a k heap k1 heap" using shares_trans reserve_shares [OF res] by blast
      show ?thesis
      proof (cases ok)
        case True
        then have "heap' = save_to_lmcache k' heap h (unwrap_or 0 (get_opt hs idx)) mp (Option.bind ids (\<lambda>ids. get_opt ids idx))"
          "active_full k' = hm_insert h \<lparr>refcount = 1, entry_plh = f h\<rparr> (active_full k1)" "kc_lmcache k' = kc_lmcache k1" "inactive k' = inactive k1"
          using run FullBlock None ix m none res by (auto simp: use_block_def Let_def)
        then show ?thesis using shares_store [OF k1, of "\<lparr>refcount = 1, entry_plh = f h\<rparr>" h k'] by simp
      next
        case False
        then show ?thesis using run FullBlock None ix m none res k1 by (auto simp: use_block_def)
      qed
    qed
  qed
next
  case (PartialBlock u)
  show ?thesis
  proof (cases "hm_contains (active_partial k) u")
    case True
    then show ?thesis using run PartialBlock by (simp add: use_block_def shares_def)
  next
    case False
    obtain ok k1 where res: "reserve_one_slot E k = Some (ok, k1)" "heap' = heap" "active_full k' = active_full k1" "kc_lmcache k' = kc_lmcache k1" "inactive k' = inactive k1"
      using run PartialBlock False by (auto simp: use_block_def run_simps split: if_splits)
    have "shares f a k1 heap k' heap" by (rule shares_fewer) (use res in simp_all)
    then show ?thesis using shares_trans reserve_shares [OF res(1)] res(2) by blast
  qed
qed

lemma use_block_idx:
  assumes "use_block E hs ps ids mp idx b (k, heap) = Some (Some (outcome, i), k', heap')"
  shows "i = next_idx b idx"
proof (cases b)
  case (FullBlock h)
  show ?thesis
  proof (cases "hm_get (active_full k) h")
    case None
    then obtain plh where ix: "index_run ps idx = Some plh" using assms FullBlock by (auto simp: use_block_def run_simps)
    obtain m c' where "match_block (inactive k) plh = (m, c')" by fastforce
    then show ?thesis using assms FullBlock None ix
      by (cases m) (auto simp: use_block_def next_idx_def run_simps Let_def split: if_splits)
  qed (use assms FullBlock in \<open>auto simp: use_block_def next_idx_def\<close>)
qed (use assms in \<open>auto simp: use_block_def next_idx_def run_simps split: if_splits\<close>)

lemma use_loop_shares:
  assumes "inj f" "use_loop E hs ps ids blocks acc (k, heap) = Some (acc', k', heap')" "drop (plh_idx acc) ps = map f (full_hashes blocks)"
  shows "shares f a k heap k' heap'"
  using assms(2,3)
proof (induction blocks arbitrary: acc k heap)
  case Nil
  then show ?case by (simp add: shares_def)
next
  case (Cons b blocks)
  have plh: "plh_idx acc < length ps \<and> ps ! plh_idx acc = f h" if b: "b = FullBlock h" for h
  proof
    show lt: "plh_idx acc < length ps" using Cons.prems(2) b by (cases "plh_idx acc < length ps") auto
    show "ps ! plh_idx acc = f h" using Cons.prems(2) b by (simp add: Cons_nth_drop_Suc [OF lt, symmetric])
  qed
  obtain r k1 heap1 where ub: "use_block E hs ps ids (metadata_parent acc) (plh_idx acc) b (k, heap) = Some (r, k1, heap1)"
    using Cons.prems(1) by (auto simp: run_simps)
  note sh = use_block_shares [OF assms(1) ub plh]
  show ?case
  proof (cases r)
    case None
    then show ?thesis using Cons.prems(1) ub sh by auto
  next
    case (Some oi)
    obtain outcome i where oi: "oi = (outcome, i)" by fastforce
    obtain acc1 where rest: "use_loop E hs ps ids blocks (acc1\<lparr>plh_idx := i\<rparr>) (k1, heap1) = Some (acc', k', heap')"
      using Cons.prems(1) ub Some oi by (auto simp: run_simps)
    have "i = next_idx b (plh_idx acc)" using use_block_idx [OF ub [unfolded Some oi]] .
    then have "drop (plh_idx (acc1\<lparr>plh_idx := i\<rparr>)) ps = map f (full_hashes blocks)"
      using Cons.prems(2) plh by (cases b) (auto simp: next_idx_def drop_Suc drop_tl)
    then show ?thesis using shares_trans [OF sh Cons.IH [OF rest]] by blast
  qed
qed

lemma deref_block_shares: "deref_block b k = Some k' \<Longrightarrow> shares f a k heap k' heap"
  by (auto simp: deref_block_def shares_def covered_def ec_insert_def Let_def split: UniqueBlock.splits option.splits if_splits)

lemma process_deref_shares: "process_deref bs k = Some k' \<Longrightarrow> shares f a k heap k' heap"
proof (induction bs arbitrary: k)
  case (Cons b bs)
  obtain k1 where k1: "deref_block b k = Some k1" "process_deref bs k1 = Some k'" using Cons.prems by (auto simp: run_simps)
  then show ?case using shares_trans [OF deref_block_shares [OF k1(1)] Cons.IH [OF k1(2)]] by blast
qed (simp add: shares_def)

lemma promote_shares:
  assumes inj: "inj f" and run: "process_promote E u h p lh (f h) ids (k, heap) = Some (k', heap')"
  shows "shares f a k heap k' heap'"
proof -
  define k1 where "k1 = k\<lparr>active_partial := hm_remove u (active_partial k)\<rparr>"
  have k1: "shares f a k heap k1 heap" by (rule shares_fewer) (simp_all add: k1_def)
  have run1: "promote_full E h p lh (f h) ids k1 heap = Some (k', heap')"
    using run by (auto simp: process_promote_def run_simps k1_def)
  have "shares f a k1 heap k' heap'"
  proof (cases "hm_get (active_full k1) h")
    case (Some e)
    then show ?thesis using run1 by (auto simp: promote_full_def intro!: shares_ref [OF Some])
  next
    case None
    obtain m c' where m: "match_block (inactive k1) (f h) = (m, c')" by fastforce
    show ?thesis
    proof (cases m)
      case (Some x)
      then show ?thesis using run1 None m by (auto simp: promote_full_def intro!: shares_reactivate [OF inj m [unfolded Some]])
    next
      case none: None
      define k2 where "k2 = k1\<lparr>inactive := c', active_full := hm_insert h \<lparr>refcount = 1, entry_plh = f h\<rparr> (active_full k1),
        registered_blocks := hm_insert (f h) \<lparr>ri_seq_hash = h, ri_parent_hash = p, ri_local_hash = lh, ri_token_ids = ids\<rparr> (registered_blocks k1)\<rparr>"
      have k2: "active_full k2 = hm_insert h \<lparr>refcount = 1, entry_plh = f h\<rparr> (active_full (k1\<lparr>inactive := c'\<rparr>))" "inactive k2 = c'" "kc_lmcache k2 = kc_lmcache k1"
        "publish_kv_event E k2 [h] [lh] p True (map_option (\<lambda>t. [t]) ids) = Some k'" "heap' = save_to_lmcache k2 heap h lh p ids"
        using run1 None m none by (auto simp: promote_full_def run_simps Let_def k2_def)
      have "shares f a k1 heap (k1\<lparr>inactive := c'\<rparr>) heap" by (rule shares_fewer) (use match_block_fewer [OF m] in simp_all)
      then have "shares f a k1 heap k2 heap'" using shares_store [of f a k1 heap "k1\<lparr>inactive := c'\<rparr>" "\<lparr>refcount = 1, entry_plh = f h\<rparr>" h k2] k2 by simp
      then show ?thesis using shares_trans shares_publish [OF k2(4)] by blast
    qed
  qed
  then show ?thesis using shares_trans k1 by blast
qed

lemma process_shares:
  assumes inj: "inj f" and match: "plhs_match f ev" and run: "process E ev (k, heap) = Some (n, k', heap')"
  shows "shares f a k heap k' heap'"
proof (cases ev)
  case (Use blocks hs ps ids parent)
  obtain mp acc k1 ph where
    loop: "use_loop E hs ps ids blocks \<lparr>blocks_stored = [], stored_local_hashes = [],
      stored_token_ids = map_option (\<lambda>_. []) ids, parent_block = parent, metadata_parent = mp, plh_idx = 0,
      allocated = 0\<rparr> (k, heap) = Some (acc, k1, heap')"
    and pub: "publish_kv_event E k1 (blocks_stored acc) (stored_local_hashes acc) ph True (stored_token_ids acc) = Some k'"
    using run Use unfolding process_def process_use_def Let_def bind_Some_iff by (auto simp: run_simps)
  have "shares f a k heap k1 heap'" using use_loop_shares [OF inj loop] match Use by simp
  then show ?thesis using shares_trans shares_publish [OF pub] by blast
next
  case (Deref bs)
  then show ?thesis using run process_deref_shares by (auto simp: process_def run_simps)
next
  case (Promote u h p lh plh ids)
  then show ?thesis using match run promote_shares [OF inj] by (auto simp: process_def run_simps)
qed

section \<open>A cluster of workers\<close>

text \<open>
  Workers that are built with the handle \<open>a\<close> of one fresh shared cache, with or without event publishers; they move
  blocks in any order, and anyone may look up prefixes in the shared cache. \<open>f\<close> gives the lineage hash
  of a block, which every movement carries.
\<close>

inductive cluster_reach :: "build_env \<Rightarrow> (u64 \<Rightarrow> PositionalLineageHash) \<Rightarrow> nat \<Rightarrow>
    (nat \<Rightarrow> LocalVllmKvCache) \<times> ('f :: {zero, plus}) lm_heap \<Rightarrow> bool" for E f a where
  cluster_start: "(\<And>i. \<exists>capacity bs pubs rank k. kc_new E capacity bs pubs rank = Some k \<and> ws i = set_lmcache k (Some a)) \<Longrightarrow>
    heap a = lm_new cfg \<Longrightarrow> lm_open (heap a) \<Longrightarrow> cluster_reach E f a (ws, heap)"
| cluster_move: "cluster_reach E f a (ws, heap) \<Longrightarrow> process E ev (ws i, heap) = Some (n, k', heap') \<Longrightarrow>
    plhs_match f ev \<Longrightarrow> cluster_reach E f a (ws(i := k'), heap')"
| cluster_lookup: "cluster_reach E f a (ws, heap) \<Longrightarrow>
    cluster_reach E f a (ws, heap(a := snd (lookup_prefix (heap a) s)))"

definition cluster_inv :: "(u64 \<Rightarrow> PositionalLineageHash) \<Rightarrow> nat \<Rightarrow> (nat \<Rightarrow> LocalVllmKvCache) \<Rightarrow> 'f lm_heap \<Rightarrow> bool" where
  "cluster_inv f a ws heap = (lm_open (heap a) \<and> (\<forall>i. kc_lmcache (ws i) = Some a \<and> covered f (heap a) (ws i)))"

lemma lookup_same: "lm_open (snd (lookup_prefix A s)) = lm_open A" "contains_block (snd (lookup_prefix A s)) = contains_block A"
  by (auto simp: lm_open_def lm_inv_def contains_block_def tier_of_def lookup_prefix_def fun_eq_iff split: prod.splits)

lemma cluster_reach_inv:
  assumes "inj f" and "cluster_reach E f a st"
  shows "cluster_inv f a (fst st) (snd st)"
  using assms(2)
proof (induction rule: cluster_reach.induct)
  case (cluster_start ws heap cfg)
  have "kc_lmcache (ws i) = Some a \<and> covered f (heap a) (ws i)" for i
    using cluster_start(1) [of i] by (auto simp: kc_new_def run_simps set_lmcache_def covered_def ec_default_def)
  then show ?case using cluster_start by (simp add: cluster_inv_def)
next
  case (cluster_move ws heap ev i n k' heap')
  have sh: "shares f a (ws i) heap k' heap'" by (rule process_shares [OF assms(1) cluster_move.hyps(3,2)])
  have inv: "lm_open (heap a)" "\<And>j. kc_lmcache (ws j) = Some a \<and> covered f (heap a) (ws j)"
    using cluster_move.IH by (simp_all add: cluster_inv_def)
  have "covered f (heap' a) (ws j)" for j using covered_grows [OF _ inv(1)] inv(2) sh by (auto simp: shares_def)
  then show ?case using sh inv by (simp add: cluster_inv_def shares_def grows_def)
next
  case (cluster_lookup ws heap s)
  then show ?case by (simp add: cluster_inv_def lookup_same covered_def)
qed

lemma takeWhile_at_least: "n \<le> length xs \<Longrightarrow> \<forall>x \<in> set (take n xs). P x \<Longrightarrow> n \<le> length (takeWhile P xs)"
proof (induction xs arbitrary: n)
  case (Cons x xs)
  then show ?case by (cases n) auto
qed simp

section \<open>Properties\<close>

text \<open>
  C6 (cluster_reuse): with an unlimited shared cache, for workers with or without event publishers and after
  any movements of blocks, the prefill cost any worker computes counts as cached at least the whole
  prefix of a request that is resident on some worker of the cluster. Lineage hashes must not
  collide: every movement names a block \<open>h\<close> by \<open>f h\<close>, for one injective \<open>f\<close>. With a collision a worker takes
  the block of another hash from its eviction cache and does not store the one it asked for.
\<close>

theorem cluster_reuse:
  assumes "inj f" and "cluster_reach E f a (ws, heap)" and "enable_prefix_caching s" and "n \<le> length (unique_blocks s)"
    and "\<forall>b \<in> set (take n (unique_blocks s)). \<exists>h i. b = FullBlock h \<and> resident f (ws i) h"
  shows "min (n * kc_block_size (ws j)) (num_input_tokens s) \<le> cached_tokens (get_prefill_cost (ws j) heap s)"
proof -
  have inv: "cluster_inv f a ws heap" using cluster_reach_inv [OF assms(1,2)] by simp
  have "contains_block (heap a) h" if "resident f (ws i) h" for h i
    using inv that covered_resident [OF assms(1)] by (auto simp: cluster_inv_def)
  then have "cached_at (ws j) heap (plhs s) (m, b)" if "b \<in> set (take n (unique_blocks s))" for m b
    using assms(5) that inv by (force simp: cached_at_def cluster_inv_def)
  then have "\<forall>x \<in> set (take n (List.enumerate 0 (unique_blocks s))). cached_at (ws j) heap (plhs s) x"
    by (auto simp: enumerate_eq_zip take_zip dest: set_zip_rightD)
  then have "n \<le> overlap_from (ws j) heap (plhs s) 0 (unique_blocks s)"
    unfolding overlap_from_eq using assms(4) by (intro takeWhile_at_least) simp_all
  then show ?thesis using assms(3) by (simp add: get_prefill_cost_def Let_def min_le_iff_disj mult_le_mono1)
qed

text \<open>
  The scheduler may send the allocation signal of any sequence to any
  cache: building the signal and processing it always returns, and grants a prefix of the blocks.
\<close>

lemma allocation_never_panics:
  assumes "as_reach E R s" and "kc_reach E (k, heap)"
  shows "\<exists>signal. prepare_allocation s c = Some signal \<and>
    (case signal of
       None \<Rightarrow> blocks_for s c \<le> blocks_for s (num_allocated_tokens s)
     | Some ev \<Rightarrow> \<exists>n k' heap'. process E ev (k, heap) = Some (n, k', heap') \<and>
         n \<le> blocks_for s c - blocks_for s (num_allocated_tokens s) \<and> kc_inv k')"
proof -
  obtain signal where sg: "prepare_allocation s c = Some signal"
    "if blocks_for s c \<le> blocks_for s (num_allocated_tokens s) then signal = None
     else \<exists>hs ps ids parent. signal = Some (Use (take (blocks_for s c - blocks_for s (num_allocated_tokens s))
         (drop (blocks_for s (num_allocated_tokens s)) (unique_blocks s))) hs ps ids parent) \<and>
       move_ok (Use (take (blocks_for s c - blocks_for s (num_allocated_tokens s))
         (drop (blocks_for s (num_allocated_tokens s)) (unique_blocks s))) hs ps ids parent)"
    using prepare_allocation_ok [OF as_reach_inv [OF assms(1)], of c] by blast
  show ?thesis
  proof (cases "blocks_for s c \<le> blocks_for s (num_allocated_tokens s)")
    case True
    then show ?thesis using sg by simp
  next
    case False
    then obtain hs ps ids parent where u: "signal = Some (Use (take (blocks_for s c - blocks_for s (num_allocated_tokens s))
         (drop (blocks_for s (num_allocated_tokens s)) (unique_blocks s))) hs ps ids parent)"
      and ok: "move_ok (Use (take (blocks_for s c - blocks_for s (num_allocated_tokens s))
         (drop (blocks_for s (num_allocated_tokens s)) (unique_blocks s))) hs ps ids parent)"
      using sg(2) by auto
    have "kc_inv k" using kc_reach_inv [OF assms(2)] by simp
    from process_use_ok [OF this ok, of E heap] u sg(1) show ?thesis by (auto simp: process_def)
  qed
qed

lemma process_all_derefs:
  "process_deref bs k = Some k' \<Longrightarrow> process_all E (map (\<lambda>b. Deref [b]) bs) (k, heap) = Some (k', heap)"
  by (induction bs arbitrary: k) (auto simp: process_def run_simps)

lemma partial_once:
  assumes "as_inv E s"
  shows "count_list (take n (unique_blocks s)) (PartialBlock u) \<le> 1"
proof -
  obtain fulls tail where "block_ids s fulls tail" "tail_ok s (length (block_hashes s)) tail"
    using assms by (rule as_lenE)
  then have "unique_blocks s = map FullBlock fulls @ tail" "length tail \<le> 1"
    by (auto simp: block_ids_def elim!: tail_ok_cases)
  moreover have "count_list (map FullBlock hs) (PartialBlock u) = 0" for hs by (induction hs) auto
  moreover have "count_list xs x \<le> length xs" for xs :: "UniqueBlock list" and x by (rule count_le_length)
  ultimately have "count_list (unique_blocks s) (PartialBlock u) \<le> 1"
    by (metis add_0 count_list_append le_trans)
  moreover have "count_list (take n (unique_blocks s)) (PartialBlock u) \<le> count_list (unique_blocks s) (PartialBlock u)"
    by (metis append_take_drop_id count_list_append le_add1)
  ultimately show ?thesis by simp
qed

text \<open>
  A request that was admitted with all its blocks and is preempted at once
  gives everything back: the signals of \<open>free_signal\<close> are processed without a panic and leave every
  reference count and the partial blocks as before the admission. Its partial block must be new to
  the cache, as the random identities make it.
\<close>

lemma request_lifecycle:
  assumes "as_reach E R s" and "kc_reach E (k, heap)" and "num_allocated_tokens s = 0"
    and "allocate_blocks_for_chunk s c = Some (Some ev, s1)"
    and "process E ev (k, heap) = Some (blocks_for s c, k1, heap1)"
    and "\<forall>u. PartialBlock u \<in> set (unique_blocks s) \<longrightarrow> \<not> hm_contains (active_partial k) u"
  shows "\<exists>evs k2. free_signal s1 = Some evs \<and> process_all E evs (k1, heap1) = Some (k2, heap1) \<and>
    full_refs k2 = full_refs k \<and> (\<forall>u. hm_contains (active_partial k2) u = hm_contains (active_partial k) u)"
proof -
  let ?n = "blocks_for s c"
  have inv: "as_inv E s" using as_reach_inv [OF assms(1)] .
  then have bs: "as_block_size s \<noteq> 0" by (auto simp: as_inv_def)
  then have zero: "blocks_for s (num_allocated_tokens s) = 0"
    using assms(3) by (simp add: blocks_for_def div_ceil_def)
  have prep: "prepare_allocation s c = Some (Some ev)" and s1: "s1 = commit_allocation s c"
    using assms(4) by (auto simp: allocate_blocks_for_chunk_def run_simps)
  obtain hs ps ids parent where ev: "ev = Use (take ?n (unique_blocks s)) hs ps ids parent"
    using prepare_allocation_ok [OF inv, of c] prep zero by (auto split: if_splits)
  have run: "process_use E (take ?n (unique_blocks s)) hs ps ids parent (k, heap) = Some (?n, k1, heap1)"
    using assms(5) ev by (simp add: process_def)
  have "\<forall>u. count_list (take ?n (unique_blocks s)) (PartialBlock u) \<le> 1 \<and>
      (PartialBlock u \<in> set (take ?n (unique_blocks s)) \<longrightarrow> \<not> hm_contains (active_partial k) u)"
    using partial_once [OF inv] assms(6) by (auto dest: in_set_takeD)
  from use_deref_ok [OF _ run this] kc_reach_inv [OF assms(2)] obtain k2 where
    k2: "process_deref (rev (take ?n (unique_blocks s))) k1 = Some k2" "full_refs k2 = full_refs k"
      "\<forall>u. hm_contains (active_partial k2) u = hm_contains (active_partial k) u"
    by auto
  have "free_signal s1 = Some (map (\<lambda>b. Deref [b]) (rev (take ?n (unique_blocks s))))"
    using bs by (simp add: s1 free_signal_def free_signal_for_tokens_def commit_allocation_def blocks_for_def)
  then show ?thesis using process_all_derefs [OF k2(1)] k2(2,3) by blast
qed

section \<open>Witnesses\<close>

text \<open>Workers that publish no events.\<close>

definition silent_pubs :: KvEventPublishers where
  "silent_pubs = \<lparr>has_event_sink = False, has_raw_sink = False\<rparr>"

definition demo_worker :: LocalVllmKvCache where
  "demo_worker = set_lmcache (demo_cache\<lparr>kv_event_publishers := silent_pubs\<rparr>) (Some 0)"

definition demo_shared :: "int lm_heap" where
  "demo_shared = (\<lambda>_. lm_new (lm_config_default 5 20 2))"

definition demo_plh :: "u64 \<Rightarrow> PositionalLineageHash" where
  "demo_plh h = PositionalLineageHash (ucast h)"

lemma demo_plh_inj: "inj demo_plh"
proof (rule injI)
  fix x y
  assume "demo_plh x = demo_plh y"
  then have "(ucast (ucast x :: u128) :: u64) = ucast (ucast y :: u128)" by (simp add: demo_plh_def)
  then show "x = y" by (simp add: ucast_down_ucast_id is_down)
qed

lemma demo_cluster:
  "\<exists>k' heap'. cluster_reach demo_env demo_plh 0 ((\<lambda>_. demo_worker)(0 := k'), heap' :: int lm_heap) \<and> resident demo_plh k' 5"
proof -
  have "lm_open (demo_shared 0)"
    using lm_inv_new by (simp add: lm_open_def demo_shared_def) (simp add: lm_new_def lm_config_default_def)
  then have start: "cluster_reach demo_env demo_plh 0 (\<lambda>_. demo_worker, demo_shared)"
  proof (intro cluster_reach.cluster_start [where cfg = "lm_config_default 5 20 2"])
    have "kc_new demo_env (max_capacity demo_cache) (kc_block_size demo_cache) silent_pubs (kc_dp_rank demo_cache) = Some (demo_cache\<lparr>kv_event_publishers := silent_pubs\<rparr>)"
      by (simp add: kc_new_def demo_cache_def)
    then show "\<exists>capacity bs pubs rank k. kc_new demo_env capacity bs pubs rank = Some k \<and> demo_worker = set_lmcache k (Some 0)" for i :: nat
      unfolding demo_worker_def by blast
  qed (simp_all add: demo_shared_def)
  let ?ev = "Use [FullBlock 5] [50] [demo_plh 5] None None"
  obtain n k' heap' where run: "process demo_env ?ev (demo_worker, demo_shared) = Some (n, k', heap')"
    and r: "resident demo_plh k' 5"
    by (simp add: cache_eval demo_worker_def set_lmcache_def resident_def silent_pubs_def publishers_is_empty_def)
  have "cluster_reach demo_env demo_plh 0 ((\<lambda>_. demo_worker)(0 := k'), heap')"
    using cluster_reach.cluster_move [OF start run] by simp
  then show ?thesis using r by blast
qed

theorem cluster_reuse_witness:
  "\<exists>ws heap s. cluster_reach demo_env demo_plh 0 (ws, heap :: int lm_heap) \<and> num_input_tokens s = 5 \<and>
     2 \<le> cached_tokens (get_prefill_cost (ws 1) heap s)"
proof (rule demo_sequence)
  fix s0 :: ActiveSequence and d'
  obtain k' and heap' :: "int lm_heap" where k': "cluster_reach demo_env demo_plh 0 ((\<lambda>_. demo_worker)(0 := k'), heap')"
    "resident demo_plh k' 5" using demo_cluster by blast
  let ?ws = "(\<lambda>_ :: nat. demo_worker)(0 := k')"
  let ?s = "s0\<lparr>unique_blocks := [FullBlock 5, PartialBlock 3], enable_prefix_caching := True, num_input_tokens := 5\<rparr>"
  have "\<forall>b \<in> set (take 1 (unique_blocks ?s)). \<exists>h i. b = FullBlock h \<and> resident demo_plh (?ws i) h"
    using k'(2) by (auto intro!: exI [of _ 0])
  from cluster_reuse [OF demo_plh_inj k'(1) _ _ this, of 1]
  have "min (1 * kc_block_size (?ws 1)) (num_input_tokens ?s) \<le> cached_tokens (get_prefill_cost (?ws 1) heap' ?s)"
    by simp
  moreover have "kc_block_size (?ws 1) = 2" by (simp add: demo_worker_def set_lmcache_def demo_cache_def)
  ultimately show ?thesis using k'(1) by (intro exI [of _ ?ws] exI [of _ heap'] exI [of _ ?s]) simp
qed

end
