(* ===== verification/KvLedger.thy ===== *)
theory KvLedger
  imports Cluster
begin

text \<open>
  The KV cache as its clients see it: a ledger that says how often each block is held. The interface
  \<open>block_ledger\<close> states what the three kinds of \<open>MoveBlock\<close> do to it, and its lemmas follow the lists of
  signals a scheduler sends; the cache of \<open>LocalKvCache\<close> provides it.
\<close>

section \<open>The interface\<close>

definition one_if :: "bool \<Rightarrow> nat" where
  "one_if P = (if P then 1 else 0)"

lemma count_list_Cons_one: "count_list (b # bs) c = one_if (c = b) + count_list bs c"
  by (simp add: one_if_def)

lemma count_list_once: "count_list xs x \<le> 1 \<Longrightarrow> count_list xs x = one_if (x \<in> set xs)"
  using count_list_0_iff [of xs x] by (auto simp: one_if_def le_Suc_eq)

lemma count_list_distinct: "distinct xs \<Longrightarrow> count_list xs x = one_if (x \<in> set xs)"
  by (induction xs) (auto simp: one_if_def)

lemma count_list_take: "count_list (take n xs) x \<le> count_list xs x"
  by (metis append_take_drop_id count_list_append le_add1)

text \<open>Blocks that can be requested: the partial ones among them are not held yet and named once.\<close>

definition requestable :: "(UniqueBlock \<Rightarrow> nat) \<Rightarrow> UniqueBlock list \<Rightarrow> bool" where
  "requestable ledger blocks = (\<forall>u. PartialBlock u \<in> set blocks \<longrightarrow>
     ledger (PartialBlock u) = 0 \<and> count_list blocks (PartialBlock u) \<le> 1)"

fun run_all :: "(MoveBlock \<Rightarrow> 'w \<Rightarrow> (nat \<times> 'w) run) \<Rightarrow> MoveBlock list \<Rightarrow> 'w \<Rightarrow> 'w run" where
  "run_all proc [] w = Some w"
| "run_all proc (ev # evs) w = do { (n, w1) \<leftarrow> proc ev w; run_all proc evs w1 }"

locale block_ledger =
  fixes inv :: "'w \<Rightarrow> bool" and ledger :: "'w \<Rightarrow> UniqueBlock \<Rightarrow> nat" and proc :: "MoveBlock \<Rightarrow> 'w \<Rightarrow> (nat \<times> 'w) run"
  assumes use_law: "inv w \<Longrightarrow> move_ok (Use blocks hs ps ids parent) \<Longrightarrow> requestable (ledger w) blocks \<Longrightarrow>
      \<exists>n w'. proc (Use blocks hs ps ids parent) w = Some (n, w') \<and> inv w' \<and> n \<le> length blocks \<and>
        (\<forall>b. ledger w' b = ledger w b + count_list (take n blocks) b)"
    and deref_law: "inv w \<Longrightarrow> ledger w b \<noteq> 0 \<Longrightarrow>
      \<exists>w'. proc (Deref [b]) w = Some (1, w') \<and> inv w' \<and> (\<forall>c. ledger w' c = ledger w c - one_if (c = b))"
    and promote_law: "inv w \<Longrightarrow> ledger w (PartialBlock u) \<noteq> 0 \<Longrightarrow>
      \<exists>w'. proc (Promote u h p lh plh tids) w = Some (1, w') \<and> inv w' \<and>
        (\<forall>c. ledger w' c + one_if (c = PartialBlock u) = ledger w c + one_if (c = FullBlock h))"
begin

text \<open>Releasing blocks one by one, as \<open>free_signal\<close> does.\<close>

lemma release:
  "inv w \<Longrightarrow> \<forall>b. count_list bs b \<le> ledger w b \<Longrightarrow>
     \<exists>w'. run_all proc (map (\<lambda>b. Deref [b]) bs) w = Some w' \<and> inv w' \<and> (\<forall>b. ledger w' b + count_list bs b = ledger w b)"
proof (induction bs arbitrary: w)
  case Nil
  then show ?case by simp
next
  case (Cons b bs)
  have "ledger w b \<noteq> 0" using Cons.prems(2) [rule_format, of b] by simp
  then obtain w1 where w1: "proc (Deref [b]) w = Some (1, w1)" "inv w1" "\<forall>c. ledger w1 c = ledger w c - one_if (c = b)"
    using deref_law Cons.prems(1) by blast
  have "count_list bs c \<le> ledger w1 c" for c
    using Cons.prems(2) [rule_format, of c] w1(3) by (auto simp: one_if_def)
  then obtain w' where w': "run_all proc (map (\<lambda>b. Deref [b]) bs) w1 = Some w'" "inv w'"
    and "\<forall>c. ledger w' c + count_list bs c = ledger w1 c"
    using Cons.IH [OF w1(2)] by blast
  moreover have "ledger w1 c + one_if (c = b) = ledger w c" for c
    using Cons.prems(2) [rule_format, of c] w1(3) by (auto simp: one_if_def)
  ultimately have "ledger w' c + count_list (b # bs) c = ledger w c" for c
    unfolding count_list_Cons_one by (metis add.assoc add.commute)
  then show ?case using w1(1) w' by auto
qed

text \<open>A new partial block is either granted or refused without any change.\<close>

lemma use_partial:
  assumes "inv w" "ledger w (PartialBlock v) = 0"
  obtains w' where "proc (Use [PartialBlock v] [] [] None None) w = Some (1, w')" "inv w'"
      "\<forall>b. ledger w' b = ledger w b + one_if (b = PartialBlock v)"
  | w' where "proc (Use [PartialBlock v] [] [] None None) w = Some (0, w')" "inv w'" "\<forall>b. ledger w' b = ledger w b"
proof -
  have "requestable (ledger w) [PartialBlock v]" "move_ok (Use [PartialBlock v] [] [] None None)"
    using assms(2) by (auto simp: requestable_def)
  then obtain n w' where n: "proc (Use [PartialBlock v] [] [] None None) w = Some (n, w')" "inv w'" "n \<le> 1"
    "\<forall>b. ledger w' b = ledger w b + count_list (take n [PartialBlock v]) b"
    using use_law [OF assms(1), of "[PartialBlock v]" "[]" "[]" None None] by auto
  show thesis
  proof (cases "n = 0")
    case True
    then show ?thesis using n that(2) by auto
  next
    case False
    then have "n = 1" using n(3) by simp
    then show ?thesis using n that(1) by (auto simp: one_if_def)
  qed
qed

end

text \<open>A cache of bounded size refuses a block only when it is full of blocks that are held.\<close>

locale bounded_ledger = block_ledger +
  fixes capacity :: "'a \<Rightarrow> nat"
  assumes capacity_law: "inv w \<Longrightarrow> proc ev w = Some (n, w') \<Longrightarrow> inv w' \<and> capacity w' = capacity w"
    and refusal_law: "inv w \<Longrightarrow> proc (Use blocks hs ps ids parent) w = Some (n, w') \<Longrightarrow> n \<noteq> length blocks \<Longrightarrow>
      capacity w' \<le> card {b. ledger w' b \<noteq> 0}"
begin

lemma run_all_capacity: "inv w \<Longrightarrow> run_all proc evs w = Some w' \<Longrightarrow> capacity w' = capacity w"
proof (induction evs arbitrary: w)
  case (Cons ev evs)
  then obtain n w1 where "proc ev w = Some (n, w1)" "run_all proc evs w1 = Some w'" by (auto simp: run_simps)
  then show ?case using Cons capacity_law by metis
qed simp

text \<open>A client is refused only when more blocks are held than it can account for.\<close>

lemma refused:
  assumes "inv w" "proc (Use blocks hs ps ids parent) w = Some (n, w')" "n \<noteq> length blocks" "\<forall>b. ledger w' b \<le> count_list mine b"
  shows "capacity w' \<le> length mine"
proof -
  have "b \<in> set mine" if "ledger w' b \<noteq> 0" for b
    using assms(4) [rule_format, of b] that count_list_0_iff [of mine b] by auto
  then have "{b. ledger w' b \<noteq> 0} \<subseteq> set mine" by blast
  then have "card {b. ledger w' b \<noteq> 0} \<le> card (set mine)" by (simp add: card_mono)
  also have "\<dots> \<le> length mine" by (rule card_length)
  finally show ?thesis using refusal_law [OF assms(1-3)] by linarith
qed

end

section \<open>The cache provides it\<close>

definition kv_ledger :: "LocalVllmKvCache \<Rightarrow> UniqueBlock \<Rightarrow> nat" where
  "kv_ledger k b = (case b of FullBlock h \<Rightarrow> full_refs k h | PartialBlock u \<Rightarrow> one_if (hm_contains (active_partial k) u))"

lemma kv_ledger_holds: "kc_inv k \<Longrightarrow> (kv_ledger k b = 0) = (\<not> holds k b)"
  using full_refs_0 by (cases b) (auto simp: kv_ledger_def one_if_def holds_def)

lemma run_all_process: "run_all (process E) evs w = process_all E evs w"
proof (induction evs arbitrary: w)
  case (Cons ev evs)
  then show ?case by (cases "process E ev w") auto
qed simp

interpretation kv: block_ledger "\<lambda>w. kc_inv (fst w)" "\<lambda>w. kv_ledger (fst w)" "process E" for E
proof (unfold_locales, goal_cases)
  case (1 w blocks hs ps ids parent)
  obtain k heap where w: "w = (k, heap)" by fastforce
  obtain n k' heap' where r: "process_use E blocks hs ps ids parent (k, heap) = Some (n, k', heap')" "kc_inv k'"
    "n \<le> length blocks" "use_result k (take n blocks) k'"
    using process_use_ok [of k, OF _ 1(2), of E heap] 1(1) w by auto
  have "kv_ledger k' b = kv_ledger k b + count_list (take n blocks) b" for b
  proof (cases b)
    case (PartialBlock u)
    have "count_list blocks b \<le> 1"
      using 1(3) PartialBlock count_list_0_iff [of blocks b] by (auto simp: requestable_def)
    then have "count_list (take n blocks) b = one_if (b \<in> set (take n blocks))"
      using count_list_take le_trans count_list_once by metis
    then show ?thesis
      using r(4) 1(3) PartialBlock w by (auto simp: kv_ledger_def use_result_def requestable_def one_if_def dest!: in_set_takeD)
  qed (use r(4) in \<open>simp add: kv_ledger_def use_result_def\<close>)
  then show ?case using r w by (auto simp: process_def)
next
  case (2 w b)
  obtain k heap where w: "w = (k, heap)" by fastforce
  obtain k' where "deref_block b k = Some k'" "kc_inv k'"
    "\<forall>h. full_refs k' h = full_refs k h - (if b = FullBlock h then 1 else 0)"
    "\<forall>u. hm_contains (active_partial k') u = (hm_contains (active_partial k) u \<and> b \<noteq> PartialBlock u)"
    using deref_block_ok [of k b] kv_ledger_holds [of k b] 2 w by auto
  then show ?case
    using w by (auto simp: process_def kv_ledger_def one_if_def split: UniqueBlock.splits)
next
  case (3 w u h p lh plh ids)
  obtain k heap where w: "w = (k, heap)" by fastforce
  have u: "hm_contains (active_partial k) u" using 3(2) w by (simp add: kv_ledger_def one_if_def split: if_splits)
  obtain k' heap' where "process_promote E u h p lh plh ids (k, heap) = Some (k', heap')" "kc_inv k'"
    "\<forall>h'. full_refs k' h' = full_refs k h' + (if h' = h then 1 else 0)"
    "\<forall>u'. hm_contains (active_partial k') u' = (hm_contains (active_partial k) u' \<and> u' \<noteq> u)"
    using process_promote_ok [of k u E h p lh plh ids heap] 3(1) w u by auto
  then show ?case
    using w u by (auto simp: process_def kv_ledger_def one_if_def split: UniqueBlock.splits)
qed


lemma held_blocks:
  assumes "kc_inv k"
  shows "{b. kv_ledger k b \<noteq> 0} = PartialBlock ` hm_keys (active_partial k) \<union> FullBlock ` hm_keys (active_full k)"
proof (rule set_eqI)
  show "b \<in> {b. kv_ledger k b \<noteq> 0} \<longleftrightarrow> b \<in> PartialBlock ` hm_keys (active_partial k) \<union> FullBlock ` hm_keys (active_full k)" for b
    using kv_ledger_holds [OF assms, of b] by (cases b) (auto simp: holds_def hm_contains_keys)
qed

lemma num_active_card:
  assumes "kc_inv k"
  shows "num_active_blocks k = card {b. kv_ledger k b \<noteq> 0}"
proof -
  have "card (PartialBlock ` hm_keys (active_partial k) \<union> FullBlock ` hm_keys (active_full k)) =
      card (hm_keys (active_partial k)) + card (hm_keys (active_full k))"
    by (subst card_Un_disjoint) (auto simp: card_image inj_on_def)
  moreover have "hm_wf (active_partial k)" "hm_wf (active_full k)" using assms by (simp_all add: kc_inv_def)
  ultimately show ?thesis unfolding held_blocks [OF assms] by (simp add: num_active_blocks_def hm_len_card)
qed


interpretation kv: bounded_ledger "\<lambda>w. kc_inv (fst w)" "\<lambda>w. kv_ledger (fst w)" "process E" "\<lambda>w. max_capacity (fst w)" for E
proof (unfold_locales, goal_cases)
  case (1 w ev n w')
  then show ?case using process_inv [of "fst w" E ev "snd w" n "fst w'" "snd w'"] by simp
next
  case (2 w blocks hs ps ids parent n w')
  then have run: "process_use E blocks hs ps ids parent (fst w, snd w) = Some (n, fst w', snd w')" by (simp add: process_def)
  from process_use_ok [OF 2(1) process_use_move_ok [OF run], of E "snd w"] run 2(3) show ?case by (auto simp: num_active_card)
qed

end
