(* ===== verification/VllmBudget.thy ===== *)
theory VllmBudget
  imports VllmCore
begin

text \<open>
  Bounds on what a pass of \<open>VllmCore\<close> does, whatever the state: the tokens it schedules stay within
  its budget although preemptions give tokens back, and the running queue stays within
  \<open>max_num_seqs\<close>.
\<close>

section \<open>The token budget\<close>

text \<open>What is left of the budget and what is spent add up to at most the budget of the pass.\<close>

definition spent_and_left :: "pass_acc \<Rightarrow> nat" where
  "spent_and_left acc = hm_sum total_tokens (scheduled acc) + token_budget acc"

lemma undo_work_budget:
  assumes "hm_wf (scheduled acc)"
  shows "hm_wf (scheduled (undo_work args u acc))" "spent_and_left (undo_work args u acc) = spent_and_left acc"
    "token_budget acc \<le> token_budget (undo_work args u acc)"
  using assms hm_sum_remove [OF assms, of u _ total_tokens]
  by (auto simp: undo_work_def spent_and_left_def Let_def split: option.splits)

lemma try_allocate_target: "try_allocate E uuid target core = Some ((c, enough), core') \<Longrightarrow> c \<le> target"
  by (erule try_allocate_cases) (auto simp: commit_granted_def Let_def)

lemma schedule_loop_budget:
  "schedule_loop E uuid target acc core = Some (r, acc', core') \<Longrightarrow> hm_wf (scheduled acc) \<Longrightarrow>
     hm_wf (scheduled acc') \<and> spent_and_left acc' = spent_and_left acc \<and> token_budget acc \<le> token_budget acc' \<and>
     (\<forall>c. r = Some c \<longrightarrow> c \<le> target)"
proof (induction E uuid target acc core rule: schedule_loop.induct)
  case (1 E uuid target acc core)
  obtain computed enough core1 where t: "try_allocate E uuid target core = Some ((computed, enough), core1)"
    using "1.prems"(1) by (subst (asm) schedule_loop.simps) (auto split: option.splits)
  have c: "computed \<le> target" using try_allocate_target [OF t] .
  show ?case
  proof (cases enough)
    case True
    then show ?thesis using "1.prems" t c by (subst (asm) schedule_loop.simps) auto
  next
    case False
    then obtain victim state where p: "preempt E (preemption_mode (vc_args core1)) (vc_state core1) = Some (victim, state)"
      using "1.prems"(1) t by (subst (asm) schedule_loop.simps) (auto split: option.splits)
    show ?thesis
    proof (cases victim)
      case None
      then show ?thesis using "1.prems" t False p c by (subst (asm) schedule_loop.simps) auto
    next
      case (Some pr)
      then obtain w where w: "process_all E (pr_signals pr) (world core1) = Some w"
        using "1.prems"(1) t False p by (subst (asm) schedule_loop.simps) (auto split: option.splits)
      let ?core2 = "set_world w (core1\<lparr>vc_state := state\<rparr>)"
      let ?acc1 = "undo_work (vc_args ?core2) (pr_uuid pr) acc"
      note u = undo_work_budget [OF "1.prems"(2), of "vc_args ?core2" "pr_uuid pr"]
      show ?thesis
      proof (cases "pr_uuid pr = uuid")
        case True
        then show ?thesis using "1.prems" t False p Some w u by (subst (asm) schedule_loop.simps) auto
      next
        case other: False
        have "schedule_loop E uuid target ?acc1 ?core2 = Some (r, acc', core')"
          using "1.prems"(1) t False p Some w other by (subst (asm) schedule_loop.simps) (simp add: Let_def)
        from "1.IH" [OF t refl refl False p refl Some w refl refl other this u(1)] u show ?thesis by auto
      qed
    qed
  qed
qed

lemma account_budget:
  assumes "account_work E uuid from_waiting cached before plen actual acc core = Some (r, acc', core')"
    and "hm_wf (scheduled acc)" "actual - before \<le> token_budget acc"
  shows "hm_wf (scheduled acc') \<and> spent_and_left acc' \<le> spent_and_left acc"
proof -
  have ins: "hm_sum total_tokens (hm_insert uuid work (scheduled acc)) \<le> hm_sum total_tokens (scheduled acc) + total_tokens work" for work
    using hm_sum_update [of "scheduled acc" uuid _ total_tokens work] hm_sum_new [of "scheduled acc" uuid total_tokens work]
    by (cases "hm_get (scheduled acc) uuid") fastforce+
  let ?work = "\<lparr>total_tokens = actual - before, prompt_tokens = min actual plen - min before plen, prefix_tokens = min before plen,
    prompt_len = plen, sequence_len = request_sequence_len (requests (vc_state core)) uuid\<rparr>"
  have "acc' = acc \<or> (scheduled acc' = hm_insert uuid ?work (scheduled acc) \<and> token_budget acc' = token_budget acc - (actual - before))"
    using assms(1) by (auto simp: account_work_def run_simps Let_def split: if_splits option.splits)
  then show ?thesis
  proof (elim disjE conjE)
    assume s: "scheduled acc' = hm_insert uuid ?work (scheduled acc)" "token_budget acc' = token_budget acc - (actual - before)"
    have "hm_sum total_tokens (scheduled acc') \<le> hm_sum total_tokens (scheduled acc) + (actual - before)" using ins [of ?work] s(1) by simp
    then have "spent_and_left acc' \<le> spent_and_left acc" using s(2) assms(3) unfolding spent_and_left_def by linarith
    then show ?thesis using s(1) assms(2) by simp
  qed (use assms(2) in simp)
qed

lemma schedule_request_budget:
  assumes "schedule_request E uuid from_waiting acc core = Some (r, acc', core')" "hm_wf (scheduled acc)"
  shows "hm_wf (scheduled acc') \<and> spent_and_left acc' \<le> spent_and_left acc"
  using assms(1)
proof (cases rule: schedule_request_cases)
  case (victim request desired)
  then show ?thesis using schedule_loop_budget assms(2) by fastforce
next
  case (worked request desired actual acc1 core1)
  let ?before = "num_computed_tokens request + cached_prefix core request"
  have l: "hm_wf (scheduled acc1)" "spent_and_left acc1 = spent_and_left acc" "token_budget acc \<le> token_budget acc1" "actual \<le> ?before + desired"
    using schedule_loop_budget [OF worked(4) assms(2)] by auto
  then have "actual - ?before \<le> token_budget acc1" using worked(3) by simp
  then show ?thesis using account_budget [OF worked(5) l(1)] l(2) by simp
qed (use assms(2) in simp)

lemma running_loop_budget:
  "running_loop E i acc adm core = Some (acc', adm', core') \<Longrightarrow> hm_wf (scheduled acc) \<Longrightarrow>
     hm_wf (scheduled acc') \<and> spent_and_left acc' \<le> spent_and_left acc \<and> vc_args core' = vc_args core \<and>
     length (running (vc_state core')) \<le> length (running (vc_state core))"
proof (induction E i acc adm core rule: running_loop.induct)
  case (1 E i acc adm core)
  show ?case
  proof (cases "i < length (running (vc_state core)) \<and> 0 < token_budget acc")
    case False
    then show ?thesis using "1.prems" by (subst (asm) running_loop.simps) auto
  next
    case True
    obtain r acc1 core1 where s: "schedule_request E (running (vc_state core) ! i) False acc core = Some (r, acc1, core1)"
      using "1.prems"(1) True by (subst (asm) running_loop.simps) (auto split: option.splits)
    note b = schedule_request_budget [OF s "1.prems"(2)] and q = schedule_request_queue(1,3) [OF s]
    show ?thesis
    proof (cases r)
      case (Scheduled used admission)
      then show ?thesis
        using "1.IH"(1) [OF True s refl Scheduled refl] "1.prems"(1) True s b q by (subst (asm) running_loop.simps) fastforce
    next
      case Blocked
      then show ?thesis using "1.prems"(1) True s b q by (subst (asm) running_loop.simps) auto
    next
      case CurrentPreempted
      then show ?thesis
        using "1.IH"(2) [OF True s refl CurrentPreempted refl] "1.prems"(1) True s b q by (subst (asm) running_loop.simps) fastforce
    qed
  qed
qed


lemma account_running:
  assumes "account_work E uuid from_waiting cached before plen actual acc core = Some (r, acc', core')"
  shows "length (running (vc_state core')) \<le> Suc (length (running (vc_state core)))"
  using assms by (auto simp: account_work_def run_simps Let_def transition_to_running_def remove_from_waiting_def
      split: if_splits option.splits list.splits)

lemma schedule_request_running:
  assumes "schedule_request E uuid from_waiting acc core = Some (r, acc', core')"
  shows "length (running (vc_state core')) \<le> Suc (length (running (vc_state core)))"
  using assms
proof (cases rule: schedule_request_cases)
  case (victim request desired)
  then show ?thesis using schedule_loop_queue by fastforce
next
  case (worked request desired actual acc1 core1)
  then show ?thesis using account_running [OF worked(5)] schedule_loop_queue [OF worked(4)] by auto
qed simp

lemma waiting_loop_budget:
  "waiting_loop E n acc adm core = Some (acc', adm', core') \<Longrightarrow> hm_wf (scheduled acc) \<Longrightarrow>
     hm_wf (scheduled acc') \<and> spent_and_left acc' \<le> spent_and_left acc \<and> vc_args core' = vc_args core \<and>
     length (running (vc_state core')) \<le> max n (length (running (vc_state core)))"
proof (induction E n acc adm core rule: waiting_loop.induct)
  case (1 E n acc adm core)
  show ?case
  proof (cases "\<not> preempted_any acc \<and> length (running (vc_state core)) < n")
    case False
    then show ?thesis using "1.prems" by (subst (asm) waiting_loop.simps) auto
  next
    case True
    obtain u state where nw: "next_waiting_uuid (vc_state core) = (u, state)" by fastforce
    have run: "running state = running (vc_state core)" using next_waiting_front [OF nw] by blast
    show ?thesis
    proof (cases u)
      case None
      then show ?thesis using "1.prems" True nw run by (subst (asm) waiting_loop.simps) auto
    next
      case (Some v)
      then obtain r acc1 core1 where s: "schedule_request E v True acc (core\<lparr>vc_state := state\<rparr>) = Some (r, acc1, core1)"
        using "1.prems"(1) True nw by (subst (asm) waiting_loop.simps) (auto split: option.splits)
      note b = schedule_request_budget [OF s "1.prems"(2)]
      have q: "vc_args core1 = vc_args core" "length (running (vc_state core1)) \<le> n"
        using schedule_request_queue(3) [OF s] schedule_request_running [OF s] run True by simp_all
      show ?thesis
      proof (cases r)
        case (Scheduled used admission)
        let ?adm = "case admission of Some a \<Rightarrow> adm @ [a] | None \<Rightarrow> adm"
        show ?thesis
        proof (cases "used = 0 \<and> token_budget acc1 = 0")
          case True
          then show ?thesis using "1.prems"(1) \<open>\<not> preempted_any acc \<and> _\<close> nw Some s Scheduled b q
            by (subst (asm) waiting_loop.simps) (auto simp: Let_def)
        next
          case False
          have "waiting_loop E n acc1 ?adm core1 = Some (acc', adm', core')"
            using "1.prems"(1) True nw Some s Scheduled False by (subst (asm) waiting_loop.simps) (simp add: Let_def)
          from "1.IH" [OF True nw [symmetric] Some s refl Scheduled refl refl False this] b q show ?thesis by auto
        qed
      qed (use "1.prems"(1) True nw Some s b q in \<open>subst (asm) waiting_loop.simps, auto\<close>)+
    qed
  qed
qed

end
