(* ===== verification/VllmInv.thy ===== *)
theory VllmInv
  imports KvLedger VllmBudget
begin

text \<open>
  The invariant of the scheduler: the queues agree with the requests (\<open>SchedQueues\<close>), every sequence
  with its tokens (\<open>ActiveSeq\<close>), and the books balance: the cache holds every block exactly as often as
  the requests hold it together, over the interface \<open>block_ledger\<close> of \<open>KvLedger\<close>. Every operation of
  \<open>VllmCore\<close> returns on a state with the invariant and keeps it: allocation, preemption, the two loops
  of a pass, the emission of tokens with its retries, dropping and receiving requests.
\<close>


section \<open>What a sequence keeps\<close>

text \<open>The fields no operation on the blocks touches.\<close>

definition same_request :: "ActiveSequence \<Rightarrow> ActiveSequence \<Rightarrow> bool" where
  "same_request a a' = (as_block_size a' = as_block_size a \<and> max_output_tokens a' = max_output_tokens a \<and>
    num_input_tokens a' = num_input_tokens a \<and> num_allocated_tokens a' = num_allocated_tokens a)"

lemma promote_last_keeps: "promote_last R u a d = Some ((signal, a'), d') \<Longrightarrow> same_request a a' \<and> d \<le> d' \<and> d' \<le> d + 2"
  by (auto simp: promote_last_def run_simps Let_def same_request_def split: if_splits)

text \<open>A push names at most one new partial block, and draws its identity.\<close>

lemma start_block_keeps:
  assumes "start_block R a d = Some ((signals, a'), d')"
  shows "same_request a a' \<and> d < d' \<and> d' \<le> d + 3 \<and> last (unique_blocks a') = PartialBlock (draw_uuid R (d' - 1))"
proof -
  obtain sg a1 d1 where "same_request a a1" "d \<le> d1" "d1 \<le> d + 2" "signals = sg @ [Use [PartialBlock (draw_uuid R d1)] [] [] None None]"
    "a' = a1\<lparr>unique_blocks := unique_blocks a1 @ [PartialBlock (draw_uuid R d1)]\<rparr>" "d' = Suc d1"
    using assms by (auto simp: start_block_def unique_block_default_def run_simps same_request_def
        split: if_splits UniqueBlock.splits dest: promote_last_keeps)
  then show ?thesis by (simp add: same_request_def)
qed

lemma as_push_keeps:
  assumes "as_push E R a t d = Some ((signals, a'), d')"
  shows "same_request a a'" and "signals = None \<Longrightarrow> d' = d" and "d' \<le> d + 3"
    and "signals = Some sg \<Longrightarrow> d < d' \<and> last (unique_blocks a') = PartialBlock (draw_uuid R (d' - 1))"
proof -
  obtain r tokens where t: "tbs_append E (as_tokens a) t = Some (r, tokens)"
    using assms by (auto simp: as_push_def run_simps)
  let ?a1 = "a\<lparr>as_tokens := tokens, generated_tokens := generated_tokens a + 1\<rparr>"
  consider "signals = None" "a' = ?a1" "d' = d" | sg' where "signals = Some sg'" "start_block R ?a1 d = Some ((sg', a'), d')"
    using assms t by (cases r) (auto simp: as_push_def run_simps Let_def split: if_splits)
  then have "same_request a a' \<and> (signals = None \<longrightarrow> d' = d) \<and> d' \<le> d + 3 \<and>
      (\<forall>sg. signals = Some sg \<longrightarrow> d < d' \<and> last (unique_blocks a') = PartialBlock (draw_uuid R (d' - 1)))"
  proof cases
    case (2 sg')
    then show ?thesis using start_block_keeps [OF 2(2)] by (simp add: same_request_def)
  qed (simp add: same_request_def)
  then show "same_request a a'" "signals = None \<Longrightarrow> d' = d" "d' \<le> d + 3"
    "signals = Some sg \<Longrightarrow> d < d' \<and> last (unique_blocks a') = PartialBlock (draw_uuid R (d' - 1))" by blast+
qed

lemma as_pop_keeps:
  assumes "as_pop E a = Some a'"
  shows "same_request a a' \<and> unique_blocks a' = (if as_block_size a dvd as_len a' then butlast (unique_blocks a) else unique_blocks a)"
proof -
  obtain r tokens where "tbs_pop E (as_tokens a) = Some (r, tokens)"
    and "a' = (let a1 = a\<lparr>as_tokens := tokens, generated_tokens := generated_tokens a - 1\<rparr> in
      if as_block_size a dvd tbs_total_tokens tokens then a1\<lparr>unique_blocks := butlast (unique_blocks a)\<rparr> else a1)"
    using assms by (auto simp: as_pop_def run_simps Let_def split: if_splits)
  then show ?thesis by (simp add: as_len_def Let_def same_request_def)
qed

lemma cache_blocks_full:
  "cache_blocks R caching pos bs d = Some ((us, hs, ps), d') \<Longrightarrow> list_all is_full us \<and> d \<le> d'"
proof (induction bs arbitrary: pos d us hs ps d')
  case (Cons b bs)
  then show ?case by (fastforce simp: run_simps split: if_splits)
qed simp

lemma as_new_draws:
  assumes "as_new E R ts max_out bs caching emit d = Some (a, d')"
  shows "d \<le> d'" and "PartialBlock v \<in> set (unique_blocks a) \<Longrightarrow> \<exists>i. d \<le> i \<and> i < d' \<and> v = draw_uuid R i"
    and "count_list (unique_blocks a) (PartialBlock v) \<le> 1"
proof -
  obtain s hs ps where "create_sequence_cache R s (case bs of None \<Rightarrow> 64 | Some n \<Rightarrow> n) caching d = Some ((unique_blocks a, hs, ps), d')"
    using assms by (auto simp: as_new_def run_simps Let_def)
  then obtain us d1 where c: "cache_blocks R caching 0 (s_blocks s) d = Some ((us, hs, ps), d1)"
    and u: "(unique_blocks a = us \<and> d' = d1) \<or> (unique_blocks a = us @ [PartialBlock (draw_uuid R d1)] \<and> d' = Suc d1)"
    by (auto simp: create_sequence_cache_def unique_block_default_def run_simps split: if_splits)
  have f: "list_all is_full us" "d \<le> d1" using cache_blocks_full [OF c] by auto
  then have p: "PartialBlock x \<notin> set us" for x by (auto simp: list_all_iff)
  show "d \<le> d'" using u f by auto
  show "PartialBlock v \<in> set (unique_blocks a) \<Longrightarrow> \<exists>i. d \<le> i \<and> i < d' \<and> v = draw_uuid R i" using u f p by auto
  show "count_list (unique_blocks a) (PartialBlock v) \<le> 1" using u p by (auto simp: count_notin)
qed

lemma allocated_simps [simp]:
  "as_len (a\<lparr>num_allocated_tokens := c\<rparr>) = as_len a" "blocks_for (a\<lparr>num_allocated_tokens := c\<rparr>) n = blocks_for a n"
  by (simp_all add: as_len_def blocks_for_def)

lemma blocks_for_mono: "m \<le> n \<Longrightarrow> blocks_for a m \<le> blocks_for a n"
  unfolding blocks_for_def div_ceil_def by (intro min.mono div_le_mono) simp_all

section \<open>Adding up what the requests hold\<close>

definition tally :: "('v \<Rightarrow> UniqueBlock list) \<Rightarrow> ('k, 'v) hmap \<Rightarrow> UniqueBlock \<Rightarrow> nat" where
  "tally f m b = hm_sum (\<lambda>v. count_list (f v) b) m"

lemma tally_new: "hm_get m k = None \<Longrightarrow> tally f (hm_insert k y m) b = tally f m b + count_list (f y) b"
  by (simp add: tally_def hm_sum_new)

lemma tally_update:
  "hm_get m k = Some x \<Longrightarrow> tally f (hm_insert k y m) b + count_list (f x) b = tally f m b + count_list (f y) b"
  unfolding tally_def by (rule hm_sum_update)

lemma tally_remove:
  "hm_wf m \<Longrightarrow> hm_get m k = Some x \<Longrightarrow> tally f (hm_remove k m) b + count_list (f x) b = tally f m b"
  unfolding tally_def by (rule hm_sum_remove)

lemma tally_ge: "hm_get m k = Some x \<Longrightarrow> count_list (f x) b \<le> tally f m b"
  unfolding tally_def by (rule hm_sum_ge)

lemma tally_mono: "(\<And>x. count_list (f x) b \<le> count_list (g x) b) \<Longrightarrow> tally f m b \<le> tally g m b"
  unfolding tally_def by (rule hm_sum_mono)

lemma tally_less:
  "hm_get m k = Some x \<Longrightarrow> count_list (f x) b < count_list (g x) b \<Longrightarrow> (\<And>x. count_list (f x) b \<le> count_list (g x) b) \<Longrightarrow>
     tally f m b < tally g m b"
  unfolding tally_def by (rule hm_sum_less)

section \<open>The invariant of the scheduler\<close>

definition names :: "VllmRequestState \<Rightarrow> UniqueBlock list" where
  "names rq = unique_blocks (rq_sequence rq)"

definition rq_inv :: "build_env \<Rightarrow> MockEngineArgs \<Rightarrow> VllmRequestState \<Rightarrow> bool" where
  "rq_inv E args rq = (let a = rq_sequence rq in as_inv E a \<and> as_block_size a = arg_block_size args \<and>
     num_computed_tokens rq \<le> num_allocated_tokens a \<and> num_allocated_tokens a \<le> as_len a \<and>
     as_len a = num_input_tokens a + generated_tokens a \<and> generated_tokens a \<le> max_output_tokens a \<and>
     (num_input_tokens a + max_output_tokens a) div arg_block_size args \<le> 16777216)"

text \<open>
  The books balance: the cache holds exactly what the requests hold together, and the identities of
  partial blocks are drawn and name one block of one request.
\<close>

definition drawn :: "random_source \<Rightarrow> nat \<Rightarrow> nat \<Rightarrow> Uuid set" where
  "drawn R d d' = draw_uuid R ` {d..<d'}"

definition books :: "random_source \<Rightarrow> nat \<Rightarrow> requests \<Rightarrow> LocalVllmKvCache \<Rightarrow> bool" where
  "books R d reqs kv = ((\<forall>b. tally held reqs b = kv_ledger kv b) \<and>
     (\<forall>v. tally names reqs (PartialBlock v) \<le> one_if (v \<in> drawn R 0 d)))"

definition core_inv :: "build_env \<Rightarrow> random_source \<Rightarrow> nat \<Rightarrow> 'f VllmCore \<Rightarrow> bool" where
  "core_inv E R d core = (queue_inv (vc_state core) \<and> kc_inv (vc_kv core) \<and>
     (\<forall>u rq. hm_get (requests (vc_state core)) u = Some rq \<longrightarrow> rq_inv E (vc_args core) rq) \<and>
     books R d (requests (vc_state core)) (vc_kv core))"

lemma world_fst [simp]: "fst (world core) = vc_kv core"
  by (simp add: world_def)

lemma set_world_kv [simp]: "vc_kv (set_world w core) = fst w"
  by (simp add: set_world_def)

lemma set_request_kv [simp]: "vc_kv (set_request u rq core) = vc_kv core"
  by (simp add: set_request_def)

lemma set_request_state: "vc_state (set_request u rq core) =
    (vc_state core)\<lparr>requests := hm_insert u rq (requests (vc_state core))\<rparr>"
  by (simp add: set_request_def)

lemma held_names: "count_list (held rq) b \<le> count_list (names rq) b"
  by (simp add: held_def names_def count_list_take)

text \<open>The first \<open>N\<close> identities the source draws are distinct, and \<open>d\<close> is one of the first \<open>N\<close> draws.\<close>

definition ids_ok :: "random_source \<Rightarrow> nat \<Rightarrow> nat \<Rightarrow> bool" where
  "ids_ok R N d = (inj_on (draw_uuid R) {..<N} \<and> d \<le> N)"

lemma ids_ok_mono: "ids_ok R N d' \<Longrightarrow> d \<le> d' \<Longrightarrow> ids_ok R N d"
  by (simp add: ids_ok_def)

lemma drawn_disjoint: "ids_ok R N d' \<Longrightarrow> v \<in> drawn R 0 d \<Longrightarrow> v \<notin> drawn R d d'"
  by (auto simp: drawn_def ids_ok_def dest: inj_onD)

lemma drawn_split: "d \<le> d' \<Longrightarrow> v \<in> drawn R 0 d' \<longleftrightarrow> v \<in> drawn R 0 d \<or> v \<in> drawn R d d'"
proof -
  assume "d \<le> d'"
  then have "{0..<d'} = {0..<d} \<union> {d..<d'}" by auto
  then show ?thesis by (auto simp: drawn_def)
qed

lemma drawn_once: "ids_ok R N d' \<Longrightarrow> d \<le> d' \<Longrightarrow> one_if (v \<in> drawn R 0 d) + one_if (v \<in> drawn R d d') \<le> one_if (v \<in> drawn R 0 d')"
  using drawn_split [of d d' v R] drawn_disjoint [of R N d' v d] by (auto simp: one_if_def)

text \<open>One request and the cache change together.\<close>

lemma books_update:
  assumes b: "books R d reqs kv" and inj: "ids_ok R N d'" and d: "d \<le> d'" and get: "hm_get reqs u = Some rq"
    and held: "\<forall>b. kv_ledger kv' b + count_list (held rq) b = kv_ledger kv b + count_list (held rq') b"
    and names: "\<forall>v. count_list (names rq') (PartialBlock v) \<le> count_list (names rq) (PartialBlock v) + one_if (v \<in> drawn R d d')"
  shows "books R d' (hm_insert u rq' reqs) kv'"
  unfolding books_def
proof (intro conjI allI)
  show "tally held (hm_insert u rq' reqs) b = kv_ledger kv' b" for b
    using tally_update [OF get, of held rq' b] held [rule_format, of b] b by (simp add: books_def)
  show "tally names (hm_insert u rq' reqs) (PartialBlock v) \<le> one_if (v \<in> drawn R 0 d')" for v
  proof -
    have "tally names (hm_insert u rq' reqs) (PartialBlock v) \<le> tally names reqs (PartialBlock v) + one_if (v \<in> drawn R d d')"
      using tally_update [OF get, of names rq' "PartialBlock v"] names [rule_format, of v] by linarith
    also have "\<dots> \<le> one_if (v \<in> drawn R 0 d) + one_if (v \<in> drawn R d d')" using b by (simp add: books_def)
    also have "\<dots> \<le> one_if (v \<in> drawn R 0 d')" using drawn_once [OF inj d] .
    finally show ?thesis .
  qed
qed

text \<open>Changing one request and the cache in step keeps the invariant.\<close>

lemma core_inv_update:
  assumes inv: "core_inv E R d core" and inj: "ids_ok R N d'" and d: "d \<le> d'"
    and get: "hm_get (requests (vc_state core)) u = Some rq" and rq': "rq_inv E (vc_args core) rq'" "rq_status rq' = rq_status rq"
    and kv: "kc_inv (fst w)" "\<forall>b. kv_ledger (fst w) b + count_list (held rq) b = kv_ledger (vc_kv core) b + count_list (held rq') b"
    and names: "\<forall>v. count_list (names rq') (PartialBlock v) \<le> count_list (names rq) (PartialBlock v) + one_if (v \<in> drawn R d d')"
  shows "core_inv E R d' (set_request u rq' (set_world w core))"
proof -
  have "queue_inv (vc_state (set_request u rq' (set_world w core)))"
    using set_request_inv [OF _ get rq'(2)] inv by (simp add: core_inv_def set_request_state)
  moreover have "books R d' (hm_insert u rq' (requests (vc_state core))) (fst w)"
    using books_update [OF _ inj d get kv(2) names] inv by (simp add: core_inv_def)
  ultimately show ?thesis using inv kv(1) rq'(1) by (auto simp: core_inv_def)
qed

lemma core_invD:
  assumes "core_inv E R d core"
  shows "queue_inv (vc_state core)" "kc_inv (vc_kv core)"
    "hm_get (requests (vc_state core)) u = Some rq \<Longrightarrow> rq_inv E (vc_args core) rq"
    "kv_ledger (vc_kv core) b = tally held (requests (vc_state core)) b"
    "tally names (requests (vc_state core)) (PartialBlock v) \<le> one_if (v \<in> drawn R 0 d)"
  using assms by (auto simp: core_inv_def books_def)

lemma rq_invD:
  assumes "rq_inv E args rq"
  shows "as_inv E (rq_sequence rq)" "as_block_size (rq_sequence rq) = arg_block_size args"
    "num_computed_tokens rq \<le> num_allocated_tokens (rq_sequence rq)"
    "num_allocated_tokens (rq_sequence rq) \<le> as_len (rq_sequence rq)"
    "as_len (rq_sequence rq) = num_input_tokens (rq_sequence rq) + generated_tokens (rq_sequence rq)"
    "generated_tokens (rq_sequence rq) \<le> max_output_tokens (rq_sequence rq)"
    "(num_input_tokens (rq_sequence rq) + max_output_tokens (rq_sequence rq)) div arg_block_size args \<le> 16777216"
  using assms by (simp_all add: rq_inv_def Let_def)

lemma rq_inv_alloc:
  assumes "rq_inv E args rq" "c \<le> m" "m \<le> as_len (rq_sequence rq)"
  shows "rq_inv E args (rq\<lparr>rq_sequence := (rq_sequence rq)\<lparr>num_allocated_tokens := m\<rparr>, num_computed_tokens := c\<rparr>)"
  using assms by (simp add: rq_inv_def Let_def)

text \<open>A block that a request names but does not hold is not in the cache, when it is partial.\<close>

lemma not_held_yet:
  assumes inv: "core_inv E R d core" and get: "hm_get (requests (vc_state core)) u = Some rq"
    and v: "PartialBlock v \<in> set (drop (length (held rq)) (names rq))"
  shows "kv_ledger (vc_kv core) (PartialBlock v) = 0"
proof -
  let ?b = "PartialBlock v" and ?reqs = "requests (vc_state core)"
  have "names rq = held rq @ drop (length (held rq)) (names rq)"
    by (simp add: held_def names_def blocks_for_def min_def)
  then have "count_list (names rq) ?b = count_list (held rq) ?b + count_list (drop (length (held rq)) (names rq)) ?b"
    by (metis count_list_append)
  moreover have "count_list (drop (length (held rq)) (names rq)) ?b \<noteq> 0" using v by (simp add: count_list_0_iff)
  ultimately have "tally held ?reqs ?b < tally names ?reqs ?b"
    using tally_less [OF get, of held ?b names] held_names by simp
  moreover have "tally names ?reqs ?b \<le> 1" using core_invD(5) [OF inv, of v] by (simp add: one_if_def split: if_splits)
  ultimately show ?thesis using core_invD(4) [OF inv] by simp
qed


section \<open>Allocating\<close>

text \<open>A request with other numbers of allocated and computed tokens.\<close>

definition progressed :: "VllmRequestState \<Rightarrow> nat \<Rightarrow> nat \<Rightarrow> VllmRequestState" where
  "progressed rq m c = rq\<lparr>rq_sequence := (rq_sequence rq)\<lparr>num_allocated_tokens := m\<rparr>, num_computed_tokens := c\<rparr>"

lemma set_world_world [simp]: "set_world (world core) core = core"
  by (simp add: set_world_def world_def)

lemma progressed_simps [simp]:
  "names (progressed rq m c) = names rq" "rq_status (progressed rq m c) = rq_status rq"
  "held (progressed rq m c) = take (blocks_for (rq_sequence rq) m) (names rq)"
  "num_computed_tokens (progressed rq m c) = c" "num_allocated_tokens (rq_sequence (progressed rq m c)) = m"
  "as_len (rq_sequence (progressed rq m c)) = as_len (rq_sequence rq)"
  by (simp_all add: progressed_def names_def held_def)

lemma progressed_inv:
  assumes inv: "core_inv E R d core" "ids_ok R N d" and get: "hm_get (requests (vc_state core)) u = Some rq"
    and c: "c \<le> m" "m \<le> as_len (rq_sequence rq)" and kv: "kc_inv (fst w)"
    and ledger: "\<forall>b. kv_ledger (fst w) b + count_list (held rq) b =
      kv_ledger (vc_kv core) b + count_list (take (blocks_for (rq_sequence rq) m) (names rq)) b"
  shows "core_inv E R d (set_request u (progressed rq m c) (set_world w core))"
  using core_inv_update [OF inv le_refl get _ _ kv, of "progressed rq m c"] ledger c
    rq_inv_alloc [OF core_invD(3) [OF inv(1) get] c]
  by (simp add: progressed_def [symmetric])

lemma count_list_drop: "count_list (drop n xs) x \<le> count_list xs x"
  by (metis append_take_drop_id count_list_append le_add2)

lemma blocks_requestable:
  assumes inv: "core_inv E R d core" and get: "hm_get (requests (vc_state core)) u = Some rq"
  shows "requestable (kv_ledger (vc_kv core)) (take n (drop (length (held rq)) (names rq)))"
  unfolding requestable_def
proof (intro allI impI conjI)
  fix v
  assume v: "PartialBlock v \<in> set (take n (drop (length (held rq)) (names rq)))"
  then show "kv_ledger (vc_kv core) (PartialBlock v) = 0" using not_held_yet [OF inv get] in_set_takeD by fast
  have "count_list (take n (drop (length (held rq)) (names rq))) (PartialBlock v) \<le> count_list (names rq) (PartialBlock v)"
    using count_list_take count_list_drop le_trans by metis
  also have "\<dots> \<le> 1"
    using partial_once [OF rq_invD(1) [OF core_invD(3) [OF inv get]], of "length (names rq)" v] by (simp add: names_def)
  finally show "count_list (take n (drop (length (held rq)) (names rq))) (PartialBlock v) \<le> 1" .
qed

lemma take_more: "take (p + n) xs = take p xs @ take n (drop p xs)"
  by (simp add: take_add)

lemma try_allocate_ok:
  assumes inv: "core_inv E R d core" "ids_ok R N d" and get: "hm_get (requests (vc_state core)) u = Some rq"
    and target: "target \<le> as_len (rq_sequence rq)"
  obtains c m w enough where "try_allocate E u target core = Some ((c, enough), set_request u (progressed rq m c) (set_world w core))"
    "core_inv E R d (set_request u (progressed rq m c) (set_world w core))" "c \<le> target" "enough \<Longrightarrow> c = target"
    "\<not> enough \<Longrightarrow> blocks_for (rq_sequence rq) m < blocks_for (rq_sequence rq) target"
proof -
  let ?a = "rq_sequence rq" and ?n = "as_block_size (rq_sequence rq)"
  note rq = rq_invD [OF core_invD(3) [OF inv(1) get]]
  have n: "0 < ?n" using rq(1) by (simp add: as_inv_def)
  show thesis
  proof (cases "target \<le> num_allocated_tokens ?a")
    case True
    have "try_allocate E u target core = Some ((target, True), set_request u (progressed rq (num_allocated_tokens ?a) target) (set_world (world core) core))"
      using get True by (simp add: try_allocate_def progressed_def)
    moreover have "core_inv E R d (set_request u (progressed rq (num_allocated_tokens ?a) target) (set_world (world core) core))"
      using rq(4) True core_invD(2) [OF inv(1)] by (intro progressed_inv [OF inv get]) (simp_all add: held_def names_def)
    ultimately show ?thesis using that by blast
  next
    case False
    define p q where "p = blocks_for ?a (num_allocated_tokens ?a)" and "q = blocks_for ?a target"
    have pq: "p \<le> q" using False blocks_for_mono by (simp add: p_def q_def)
    have p: "length (held rq) = p" by (simp add: held_def p_def blocks_for_def)
    show ?thesis
    proof (cases "q = p")
      case True
      have "prepare_allocation ?a target = Some None"
        using prepare_allocation_ok [OF rq(1), of target] True by (auto simp: p_def q_def)
      then have "try_allocate E u target core = Some ((target, True), set_request u (progressed rq target target) (set_world (world core) core))"
        using get False by (simp add: try_allocate_def progressed_def commit_allocation_def)
      moreover have "core_inv E R d (set_request u (progressed rq target target) (set_world (world core) core))"
        using True target core_invD(2) [OF inv(1)]
        by (intro progressed_inv [OF inv get]) (simp_all add: held_def names_def p_def q_def)
      ultimately show ?thesis using that by blast
    next
      case ne: False
      let ?blocks = "take (q - p) (drop p (names rq))"
      obtain hs ps ids parent where prep: "prepare_allocation ?a target = Some (Some (Use ?blocks hs ps ids parent))"
        and ok: "move_ok (Use ?blocks hs ps ids parent)"
        using prepare_allocation_ok [OF rq(1), of target] ne pq unfolding p_def q_def names_def by (auto split: if_splits)
      obtain g w where g: "process E (Use ?blocks hs ps ids parent) (world core) = Some (g, w)" "kc_inv (fst w)"
        "g \<le> length ?blocks" "\<forall>b. kv_ledger (fst w) b = kv_ledger (vc_kv core) b + count_list (take g ?blocks) b"
        using kv.use_law [of "world core" _ hs ps ids parent E, OF _ ok] blocks_requestable [OF inv(1) get, of "q - p"]
          core_invD(2) [OF inv(1)] unfolding p world_fst by blast
      have len: "length ?blocks = q - p" by (simp add: p_def q_def blocks_for_def names_def)
      define c where "c = fst (commit_granted rq target (length ?blocks) g)"
      have c: "c \<le> target" "g = length ?blocks \<Longrightarrow> c = target" "blocks_for ?a c = p + g"
      proof -
        have div: "div_ceil k ?n \<le> j \<longleftrightarrow> k \<le> j * ?n" for k j using div_ceil_le_iff [OF n] .
        have "(p + g) * ?n \<le> target" "blocks_for ?a ((p + g) * ?n) = p + g" if "g \<noteq> q - p"
        proof -
          have lt: "p + g < q" using that g(3) pq unfolding len by linarith
          then have "\<not> div_ceil target ?n \<le> p + g" by (simp add: q_def blocks_for_def)
          then show "(p + g) * ?n \<le> target" using div by simp
          show "blocks_for ?a ((p + g) * ?n) = p + g" using lt n by (simp add: q_def blocks_for_def)
        qed
        moreover have "c = (if g = q - p then target else min target ((p + g) * ?n))"
          unfolding c_def len commit_granted_def Let_def by (simp add: p_def blocks_for_def)
        ultimately show "c \<le> target" "g = length ?blocks \<Longrightarrow> c = target" "blocks_for ?a c = p + g"
          unfolding len using pq by (auto simp: q_def split: if_splits)
      qed
      have cg: "commit_granted rq target (length ?blocks) g = (c, progressed rq c c)"
        by (auto simp: c_def commit_granted_def Let_def progressed_def commit_allocation_def min.commute)
      have run: "try_allocate E u target core = Some ((c, g = length ?blocks), set_request u (progressed rq c c) (set_world w core))"
        using get False prep g(1) cg n by (simp add: try_allocate_def)
      have "take (p + g) (names rq) = held rq @ take g ?blocks"
        using g(3) len by (simp add: take_more held_def names_def p_def min.absorb1)
      then have "core_inv E R d (set_request u (progressed rq c c) (set_world w core))"
        using g(2,4) c target by (intro progressed_inv [OF inv get]) simp_all
      moreover have "blocks_for ?a c < blocks_for ?a target" if "g \<noteq> length ?blocks"
        using that g(3) pq c(3) unfolding len by (simp add: q_def)
      ultimately show ?thesis using that [OF run] c by blast
    qed
  qed
qed


section \<open>Preempting\<close>

lemma preempted_simps [simp]:
  "names (preempted_request rq) = names rq" "rq_status (preempted_request rq) = Preempted"
  by (simp_all add: preempted_request_def names_def)

lemma preempted_held: "as_inv E (rq_sequence rq) \<Longrightarrow> held (preempted_request rq) = []"
  by (simp add: preempted_request_def held_def blocks_for_def as_inv_def div_ceil_def)

lemma preempted_rq_inv: "rq_inv E args rq \<Longrightarrow> rq_inv E args (preempted_request rq)"
  by (simp add: rq_inv_def Let_def preempted_request_def)

text \<open>Processing the signals of a release takes exactly the named blocks off the books.\<close>

lemma release_ok:
  assumes "kc_inv (fst w)" "\<forall>b. count_list bs b \<le> kv_ledger (fst w) b"
  obtains w' where "process_all E (map (\<lambda>b. Deref [b]) bs) w = Some w'" "kc_inv (fst w')"
    "\<forall>b. kv_ledger (fst w') b + count_list bs b = kv_ledger (fst w) b"
  using kv.release [OF assms, of E] unfolding run_all_process by blast

lemma preempt_ok:
  assumes inv: "core_inv E R d core" "ids_ok R N d"
  obtains (none) "running_members (vc_state core) = {}"
      "preempt E mode (vc_state core) = Some (None, (vc_state core)\<lparr>running := []\<rparr>)"
      "core_inv E R d (core\<lparr>vc_state := (vc_state core)\<lparr>running := []\<rparr>\<rparr>)"
  | (victim) u rq q dead w where "u \<in> running_members (vc_state core)" "hm_get (requests (vc_state core)) u = Some rq"
      "running (vc_state core) = around mode q [u] dead" "set dead \<inter> running_members (vc_state core) = {}"
      "preempt E mode (vc_state core) =
        Some (Some \<lparr>pr_uuid = u, pr_signals = map (\<lambda>b. Deref [b]) (rev (held rq))\<rparr>, preempted_state u rq q (vc_state core))"
      "process_all E (map (\<lambda>b. Deref [b]) (rev (held rq))) (world core) = Some w"
      "core_inv E R d (set_world w (core\<lparr>vc_state := preempted_state u rq q (vc_state core)\<rparr>))"
proof (cases "running_members (vc_state core) = {}")
  case True
  note q = core_invD(1) [OF inv(1)]
  have "queue_inv ((vc_state core)\<lparr>running := []\<rparr>)" using queue_inv_running [OF q] True by simp
  then have "core_inv E R d (core\<lparr>vc_state := (vc_state core)\<lparr>running := []\<rparr>\<rparr>)" using inv(1) by (simp add: core_inv_def)
  then show ?thesis using none preempt_none [OF q True] True by blast
next
  case False
  let ?s = "vc_state core"
  note q = core_invD(1) [OF inv(1)]
  have seq: "as_inv E (rq_sequence rq)" if "hm_get (requests ?s) u = Some rq" for u rq
    using rq_invD(1) [OF core_invD(3) [OF inv(1) that]] .
  obtain u rq q' dead where v: "u \<in> running_members ?s" "hm_get (requests ?s) u = Some rq"
    "running ?s = around mode q' [u] dead" "set dead \<inter> running_members ?s = {}"
    "preempt E mode ?s = Some (Some \<lparr>pr_uuid = u, pr_signals = map (\<lambda>b. Deref [b]) (rev (held rq))\<rparr>, preempted_state u rq q' ?s)"
    by (rule preempt_some [OF q False seq])
  have k: "kc_inv (fst (world core))" "\<forall>b. count_list (rev (held rq)) b \<le> kv_ledger (fst (world core)) b"
    using tally_ge [OF v(2), of held] core_invD(2,4) [OF inv(1)] by simp_all
  obtain w where w: "process_all E (map (\<lambda>b. Deref [b]) (rev (held rq))) (world core) = Some w" "kc_inv (fst w)"
    "\<forall>b. kv_ledger (fst w) b + count_list (rev (held rq)) b = kv_ledger (fst (world core)) b"
    by (rule release_ok [OF k])
  have "books R d (hm_insert u (preempted_request rq) (requests ?s)) (fst w)"
    using inv(1) w(3) preempted_held [OF seq [OF v(2)]]
    by (intro books_update [where kv = "vc_kv core", OF _ inv(2) le_refl v(2)]) (simp_all add: core_inv_def)
  then have "core_inv E R d (set_world w (core\<lparr>vc_state := preempted_state u rq q' ?s\<rparr>))"
    using inv(1) w(2) preempted_state_inv(1) [OF q v(1-4)] preempted_rq_inv core_invD(3) [OF inv(1) v(2)]
    by (auto simp: core_inv_def preempted_state_def)
  then show ?thesis using victim v w(1) by blast
qed

section \<open>Scheduling one request\<close>

text \<open>The same requests, in whatever state.\<close>

definition same_keys :: "'f VllmCore \<Rightarrow> 'f VllmCore \<Rightarrow> bool" where
  "same_keys core core' = (hm_keys (requests (vc_state core')) = hm_keys (requests (vc_state core)))"

lemma same_keys_trans: "same_keys core core1 \<Longrightarrow> same_keys core1 core2 \<Longrightarrow> same_keys core core2"
  by (simp add: same_keys_def)

lemma same_keys_insert: "hm_get m u = Some rq \<Longrightarrow> hm_keys (hm_insert u rq' m) = hm_keys m"
  using hm_get_keys [of m u] by auto

text \<open>Every entry of the running queue is live.\<close>

definition all_live :: "'f VllmCore \<Rightarrow> bool" where
  "all_live core = (set (running (vc_state core)) = running_members (vc_state core))"

lemma progressed_twice [simp]: "progressed (progressed rq m c) m' c' = progressed rq m' c'"
  by (simp add: progressed_def)

lemma preempted_live:
  assumes "all_live core" "core_inv E R d core" "u \<in> running_members (vc_state core)" "hm_get (requests (vc_state core)) u = Some rq"
    "running (vc_state core) = around mode q [u] dead" "set dead \<inter> running_members (vc_state core) = {}"
  shows "all_live (set_world w (core\<lparr>vc_state := preempted_state u rq q (vc_state core)\<rparr>))"
  using preempted_state_inv(2) [OF core_invD(1) [OF assms(2)] assms(3-6)] assms(1) core_invD(1) [OF assms(2)]
  by (simp add: all_live_def compacted_inv_def)

lemma schedule_loop_ok:
  assumes "core_inv E R d core" "ids_ok R N d" "all_live core"
    and "hm_get (requests (vc_state core)) uuid = Some rq" "target \<le> as_len (rq_sequence rq)"
  shows "\<exists>r acc' core'. schedule_loop E uuid target acc core = Some (r, acc', core') \<and> core_inv E R d core' \<and> all_live core' \<and> same_keys core core' \<and>
    (\<forall>c. r = Some c \<longrightarrow> c \<le> target \<and> (\<exists>m. hm_get (requests (vc_state core')) uuid = Some (progressed rq m c)))"
  using assms
proof (induction E uuid target acc core arbitrary: rq rule: schedule_loop.induct)
  case (1 E uuid target acc core)
  note inv = "1.prems"(1,2) and get = "1.prems"(4)
  obtain c m w enough where
    t: "try_allocate E uuid target core = Some ((c, enough), set_request uuid (progressed rq m c) (set_world w core))"
    and core1: "core_inv E R d (set_request uuid (progressed rq m c) (set_world w core))" and c: "c \<le> target"
    using try_allocate_ok [OF inv get "1.prems"(5)] by metis
  define core1 where "core1 = set_request uuid (progressed rq m c) (set_world w core)"
  have get1: "hm_get (requests (vc_state core1)) uuid = Some (progressed rq m c)" and live1: "all_live core1"
    and keys1: "same_keys core core1"
    using "1.prems"(3) same_keys_insert [OF get] by (simp_all add: core1_def all_live_def same_keys_def)
  note t = t [folded core1_def] and core1 = core1 [folded core1_def]
  show ?case
  proof (cases enough)
    case True
    then have "schedule_loop E uuid target acc core = Some (Some c, acc, core1)"
      using t by (subst schedule_loop.simps) simp
    then show ?thesis using core1 get1 live1 keys1 c by auto
  next
    case False
    show ?thesis
      using core1 inv(2)
    proof (cases rule: preempt_ok [where mode = "preemption_mode (vc_args core1)"])
      case none
      then have "schedule_loop E uuid target acc core = Some (Some c, acc, core1\<lparr>vc_state := (vc_state core1)\<lparr>running := []\<rparr>\<rparr>)"
        using t False by (subst schedule_loop.simps) simp
      then show ?thesis using none get1 keys1 c by (auto simp: all_live_def same_keys_def)
    next
      case (victim u rq' q dead w')
      let ?core2 = "set_world w' (core1\<lparr>vc_state := preempted_state u rq' q (vc_state core1)\<rparr>)"
      let ?pr = "\<lparr>pr_uuid = u, pr_signals = map (\<lambda>b. Deref [b]) (rev (held rq'))\<rparr>"
      let ?acc1 = "undo_work (vc_args ?core2) (pr_uuid ?pr) acc"
      have live2: "all_live ?core2" using preempted_live [OF live1 core1 victim(1-4)] .
      have keys2: "same_keys core ?core2"
        using keys1 same_keys_insert [OF victim(2)] by (simp add: same_keys_def preempted_state_def)
      have step: "schedule_loop E uuid target acc core =
          (if u = uuid then Some (None, ?acc1, ?core2) else schedule_loop E uuid target ?acc1 ?core2)"
        using t False victim(5,6) by (subst schedule_loop.simps) (simp add: Let_def)
      show ?thesis
      proof (cases "u = uuid")
        case True
        then show ?thesis using step victim(7) live2 keys2 by auto
      next
        case other: False
        have get2: "hm_get (requests (vc_state ?core2)) uuid = Some (progressed rq m c)"
          using get1 other by (simp add: preempted_state_def)
        have p: "process_all E (pr_signals ?pr) (world core1) = Some w'" and ne: "pr_uuid ?pr \<noteq> uuid" using victim(6) other by simp_all
        have "\<exists>r acc' core'. schedule_loop E uuid target ?acc1 ?core2 = Some (r, acc', core') \<and> core_inv E R d core' \<and> all_live core' \<and> same_keys ?core2 core' \<and>
            (\<forall>c'. r = Some c' \<longrightarrow> c' \<le> target \<and> (\<exists>m'. hm_get (requests (vc_state core')) uuid = Some (progressed (progressed rq m c) m' c')))"
          using "1.IH" [OF t refl refl False victim(5) refl refl p refl refl ne victim(7) inv(2) live2 get2] "1.prems"(5) by simp
        then show ?thesis using step other same_keys_trans [OF keys2] by auto
      qed
    qed
  qed
qed


lemma rq_request_invariants: "rq_inv E args rq \<Longrightarrow> request_invariants E rq = Some () \<and> request_progress E rq = Some ()"
  using rq_invD(3,4) [of E args rq] by (auto simp: request_invariants_def request_progress_def assert_run_def)

lemma admitted_inv:
  assumes inv: "core_inv E R d core" "ids_ok R N d" and live: "all_live core" and w: "uuid \<in> waiting_members (vc_state core)"
  shows "core_inv E R d (core\<lparr>vc_state := transition_to_running uuid (vc_state core)\<rparr>)"
    and "all_live (core\<lparr>vc_state := transition_to_running uuid (vc_state core)\<rparr>)"
    and "same_keys core (core\<lparr>vc_state := transition_to_running uuid (vc_state core)\<rparr>)"
proof -
  let ?s = "vc_state core"
  have c: "compacted_inv ?s" using live core_invD(1) [OF inv(1)] by (simp add: compacted_inv_def all_live_def)
  obtain rq where rq: "hm_get (requests ?s) uuid = Some rq" using queue_invD(5) [OF core_invD(1) [OF inv(1)]] w by blast
  have reqs: "requests (transition_to_running uuid ?s) = hm_insert uuid (rq\<lparr>rq_status := Running\<rparr>) (requests ?s)"
    using rq by (auto simp: transition_to_running_def remove_from_waiting_def Let_def split: list.splits option.splits)
  have same: "held (rq\<lparr>rq_status := Running\<rparr>) = held rq" "names (rq\<lparr>rq_status := Running\<rparr>) = names rq"
    by (simp_all add: held_def names_def)
  then have "books R d (requests (transition_to_running uuid ?s)) (vc_kv core)"
    unfolding reqs using inv(1)
    by (intro books_update [where kv = "vc_kv core", OF _ inv(2) le_refl rq]) (simp_all add: core_inv_def)
  moreover have "rq_inv E (vc_args core) (rq\<lparr>rq_status := Running\<rparr>)"
    using core_invD(3) [OF inv(1) rq] by (simp add: rq_inv_def Let_def)
  ultimately show "core_inv E R d (core\<lparr>vc_state := transition_to_running uuid ?s\<rparr>)"
    using inv(1) transition_inv(1) [OF c w] reqs by (auto simp: core_inv_def compacted_inv_def)
  show "same_keys core (core\<lparr>vc_state := transition_to_running uuid ?s\<rparr>)"
    using same_keys_insert [OF rq] by (simp add: same_keys_def reqs)
  show "all_live (core\<lparr>vc_state := transition_to_running uuid ?s\<rparr>)"
    using transition_inv(1) [OF c w] by (simp add: all_live_def compacted_inv_def)
qed

lemma cached_prefix_le:
  assumes "rq_inv E args rq"
  shows "num_computed_tokens rq + cached_prefix core rq \<le> as_len (rq_sequence rq)"
  using rq_invD(3-5) [OF assms] by (auto simp: cached_prefix_def get_prefill_cost_def Let_def)

lemma schedule_request_ok:
  assumes inv: "core_inv E R d core" "ids_ok R N d" and live: "all_live core"
    and get: "hm_get (requests (vc_state core)) uuid = Some rq"
    and waiting: "from_waiting \<Longrightarrow> uuid \<in> waiting_members (vc_state core)"
  shows "\<exists>r acc' core'. schedule_request E uuid from_waiting acc core = Some (r, acc', core') \<and>
    core_inv E R d core' \<and> all_live core' \<and> same_keys core core'"
proof -
  let ?before = "num_computed_tokens rq + cached_prefix core rq" and ?plen = "num_input_tokens (rq_sequence rq)"
  define desired where "desired = min (as_len (rq_sequence rq) - ?before) (token_budget acc)"
  have rqi: "rq_inv E (vc_args core) rq" using core_invD(3) [OF inv(1) get] .
  have "?before + desired \<le> as_len (rq_sequence rq)" using cached_prefix_le [OF rqi, of core] by (simp add: desired_def)
  then obtain r acc1 core1 where loop: "schedule_loop E uuid (?before + desired) acc core = Some (r, acc1, core1)"
    and c1: "core_inv E R d core1" "all_live core1" "same_keys core core1"
    and reached: "\<forall>c. r = Some c \<longrightarrow> (\<exists>m. hm_get (requests (vc_state core1)) uuid = Some (progressed rq m c))"
    using schedule_loop_ok [OF inv live get] by blast
  have ri: "request_invariants E rq = Some ()" using rq_request_invariants [OF rqi] by blast
  note start = schedule_request_eq [OF get ri, of from_waiting acc, folded desired_def, unfolded loop]
  have account: "\<exists>r' acc' core'. account_work E uuid from_waiting (cached_prefix core rq) ?before ?plen actual acc1 core1 = Some (r', acc', core') \<and>
      core_inv E R d core' \<and> all_live core' \<and> same_keys core core'" if reach: "r = Some actual" for actual
  proof -
    obtain m where get1: "hm_get (requests (vc_state core1)) uuid = Some (progressed rq m actual)" using reached reach by blast
    have "uuid \<in> waiting_members (vc_state core1)" if from_waiting
      using queue_invD(5) [OF core_invD(1) [OF c1(1)]] queue_invD(5) [OF core_invD(1) [OF inv(1)]] waiting [OF that] get get1 by auto
    then show ?thesis
      using admitted_inv [OF c1(1) inv(2) c1(2)] same_keys_trans [OF c1(3)] c1 get1 rq_request_invariants [OF core_invD(3) [OF c1(1) get1]]
      by (auto simp: account_work_def Let_def)
  qed
  show ?thesis
    unfolding start using account inv(1) live c1 by (cases r) (auto simp: same_keys_def)
qed

section \<open>A pass keeps the invariant\<close>

lemma running_loop_ok:
  assumes "core_inv E R d core" "ids_ok R N d" "all_live core"
  shows "\<exists>acc' adm' core'. running_loop E i acc adm core = Some (acc', adm', core') \<and> core_inv E R d core' \<and> all_live core' \<and>
    same_keys core core'"
  using assms
proof (induction E i acc adm core rule: running_loop.induct)
  case (1 E i acc adm core)
  show ?case
  proof (cases "i < length (running (vc_state core)) \<and> 0 < token_budget acc")
    case False
    then show ?thesis using "1.prems" by (subst running_loop.simps) (auto simp: same_keys_def)
  next
    case True
    let ?u = "running (vc_state core) ! i"
    have "?u \<in> running_members (vc_state core)" using True "1.prems"(3) by (auto simp: all_live_def dest: nth_mem)
    then obtain rq where "hm_get (requests (vc_state core)) ?u = Some rq"
      using queue_invD(6) [OF core_invD(1) [OF "1.prems"(1)]] by blast
    then obtain r acc1 core1 where s: "schedule_request E ?u False acc core = Some (r, acc1, core1)"
      and c1: "core_inv E R d core1" "all_live core1" and keys: "same_keys core core1"
      using schedule_request_ok [OF "1.prems", of ?u rq False acc] by blast
    show ?thesis
    proof (cases r)
      case (Scheduled used admission)
      then show ?thesis
        using "1.IH"(1) [OF True s refl Scheduled refl c1(1) "1.prems"(2) c1(2)] s True same_keys_trans [OF keys]
        by (subst running_loop.simps) auto
    next
      case Blocked
      then show ?thesis using s True c1 keys by (subst running_loop.simps) simp
    next
      case CurrentPreempted
      then show ?thesis
        using "1.IH"(2) [OF True s refl CurrentPreempted refl c1(1) "1.prems"(2) c1(2)] s True same_keys_trans [OF keys]
        by (subst running_loop.simps) auto
    qed
  qed
qed

lemma next_waiting_core:
  assumes "core_inv E R d core" "all_live core" "next_waiting_uuid (vc_state core) = (u, state)"
  shows "core_inv E R d (core\<lparr>vc_state := state\<rparr>)" "all_live (core\<lparr>vc_state := state\<rparr>)" "same_keys core (core\<lparr>vc_state := state\<rparr>)"
    "u = Some v \<Longrightarrow> v \<in> waiting_members state \<and> (\<exists>rq. hm_get (requests state) v = Some rq)"
proof -
  note q = core_invD(1) [OF assms(1)]
  note n = next_waiting_inv [OF q assms(3)]
  show "core_inv E R d (core\<lparr>vc_state := state\<rparr>)" using assms(1) n by (simp add: core_inv_def)
  show "all_live (core\<lparr>vc_state := state\<rparr>)" using assms(2) n by (simp add: all_live_def)
  show "same_keys core (core\<lparr>vc_state := state\<rparr>)" using n by (simp add: same_keys_def)
  show "u = Some v \<Longrightarrow> v \<in> waiting_members state \<and> (\<exists>rq. hm_get (requests state) v = Some rq)"
    using n queue_invD(5) [OF q] by auto
qed

lemma waiting_loop_ok:
  assumes "core_inv E R d core" "ids_ok R N d" "all_live core"
  shows "\<exists>acc' adm' core'. waiting_loop E n acc adm core = Some (acc', adm', core') \<and> core_inv E R d core' \<and> all_live core' \<and>
    same_keys core core'"
  using assms
proof (induction E n acc adm core rule: waiting_loop.induct)
  case (1 E n acc adm core)
  show ?case
  proof (cases "\<not> preempted_any acc \<and> length (running (vc_state core)) < n")
    case False
    then show ?thesis using "1.prems" by (subst waiting_loop.simps) (auto simp: same_keys_def)
  next
    case True
    obtain u state where nw: "next_waiting_uuid (vc_state core) = (u, state)" by fastforce
    note c = next_waiting_core [OF "1.prems"(1,3) nw]
    show ?thesis
    proof (cases u)
      case None
      then show ?thesis using True nw c by (subst waiting_loop.simps) simp
    next
      case (Some v)
      then obtain rq where v: "v \<in> waiting_members state" "hm_get (requests state) v = Some rq" using c(4) by blast
      obtain r acc1 core1 where s: "schedule_request E v True acc (core\<lparr>vc_state := state\<rparr>) = Some (r, acc1, core1)"
        and c1: "core_inv E R d core1" "all_live core1" and keys: "same_keys core core1"
        using schedule_request_ok [OF c(1) "1.prems"(2) c(2), of v rq True acc] v same_keys_trans [OF c(3)] by auto
      show ?thesis
      proof (cases r)
        case (Scheduled used admission)
        then show ?thesis
          using "1.IH" [OF True nw [symmetric] Some s refl Scheduled refl refl _ c1(1) "1.prems"(2) c1(2)] s True nw Some c1 keys same_keys_trans [OF keys]
          by (subst waiting_loop.simps) (auto simp: Let_def)
      qed (use s True nw Some c1 keys in \<open>subst waiting_loop.simps, simp\<close>)+
    qed
  qed
qed


section \<open>Emitting a token\<close>

lemma process_signals_append:
  "process_signals E (xs @ ys) w = (case process_signals E xs w of
     None \<Rightarrow> None | Some (done, w1) \<Rightarrow> if done then process_signals E ys w1 else Some (False, w1))"
proof (induction xs arbitrary: w)
  case (Cons x xs)
  show ?case
  proof (cases "process E x w")
    case None
    then show ?thesis by simp
  next
    case (Some r)
    obtain n w1 where r: "r = (n, w1)" by (rule prod.exhaust)
    show ?thesis
    proof (cases "0 < n")
      case True
      then show ?thesis using Some r Cons by simp
    next
      case False
      then show ?thesis using Some r by (cases x) (simp_all add: is_full.simps)
    qed
  qed
qed simp

lemma process_signals_release:
  "process_all E (map (\<lambda>b. Deref [b]) bs) w = Some w' \<Longrightarrow> process_signals E (map (\<lambda>b. Deref [b]) bs) w = Some (True, w')"
  by (induction bs arbitrary: w) (auto simp: process_def run_simps)

text \<open>A new identity is not in the cache.\<close>

lemma fresh_partial:
  assumes "core_inv E R d core" "ids_ok R N (Suc i)" "d \<le> i"
  shows "kv_ledger (vc_kv core) (PartialBlock (draw_uuid R i)) = 0"
proof -
  have "draw_uuid R i \<notin> drawn R 0 d" using assms(2,3) by (auto simp: drawn_def ids_ok_def dest: inj_onD)
  then have "tally names (requests (vc_state core)) (PartialBlock (draw_uuid R i)) = 0"
    using core_invD(5) [OF assms(1), of "draw_uuid R i"] by (simp add: one_if_def)
  then show ?thesis
    using core_invD(4) [OF assms(1)] tally_mono [of held "PartialBlock (draw_uuid R i)" names "requests (vc_state core)"] held_names by (metis le_zero_eq)
qed

text \<open>The three ways a push changes the blocks of a sequence.\<close>

lemma push_signals_cases:
  assumes "push_signals_ok a a' pushed"
  obtains (inside) "as_len a mod as_block_size a \<noteq> 0" "pushed = None" "unique_blocks a' = unique_blocks a"
  | (plain) v where "as_len a mod as_block_size a = 0" "pushed = Some [Use [PartialBlock v] [] [] None None]"
      "unique_blocks a' = unique_blocks a @ [PartialBlock v]"
  | (promote) u v h p b plh tids where "as_len a mod as_block_size a = 0" "unique_blocks a \<noteq> []" "last (unique_blocks a) = PartialBlock u"
      "pushed = Some [Promote u h p b plh tids, Use [PartialBlock v] [] [] None None]"
      "unique_blocks a' = butlast (unique_blocks a) @ [FullBlock h, PartialBlock v]"
proof (cases "as_len a mod as_block_size a = 0")
  case False
  then show ?thesis using inside assms by (simp add: push_signals_ok_def)
next
  case border: True
  show ?thesis
  proof (cases "unique_blocks a \<noteq> [] \<and> \<not> is_full (last (unique_blocks a))")
    case True
    then obtain u where u: "last (unique_blocks a) = PartialBlock u" by (cases "last (unique_blocks a)") auto
    then show ?thesis
      using assms border True promote [OF border _ u] unfolding push_signals_ok_def by (simp only: u if_False simp_thms option.case UniqueBlock.case) blast
  next
    case False
    then show ?thesis
      using assms border plain unfolding push_signals_ok_def by (cases "last (unique_blocks a)") (auto split: if_splits)
  qed
qed

text \<open>
  Processing what a push signals: all of it, or, when there is no room for the new partial block,
  all of it but this block, which a following \<open>pop\<close> takes back.
\<close>

definition ledger_moves :: "LocalVllmKvCache \<Rightarrow> UniqueBlock list \<Rightarrow> UniqueBlock list \<Rightarrow> LocalVllmKvCache \<Rightarrow> bool" where
  "ledger_moves k old new k' = (kc_inv k' \<and> (\<forall>b. kv_ledger k' b + count_list old b = kv_ledger k b + count_list new b))"

lemma push_processed:
  assumes k: "kc_inv (fst w0)" "\<forall>b. count_list (unique_blocks a) b \<le> kv_ledger (fst w0) b"
    and new: "\<And>v. last (unique_blocks a') = PartialBlock v \<Longrightarrow> as_len a mod as_block_size a = 0 \<Longrightarrow> kv_ledger (fst w0) (PartialBlock v) = 0"
    and sg: "push_signals_ok a a' pushed"
  obtains (granted) w where "process_signals E (case pushed of None \<Rightarrow> [] | Some ms \<Rightarrow> ms) w0 = Some (True, w)"
      "ledger_moves (fst w0) (unique_blocks a) (unique_blocks a') (fst w)"
  | (short) w where "as_len a mod as_block_size a = 0" "process_signals E (case pushed of None \<Rightarrow> [] | Some ms \<Rightarrow> ms) w0 = Some (False, w)"
      "ledger_moves (fst w0) (unique_blocks a) (butlast (unique_blocks a')) (fst w)"
  using sg
proof (cases rule: push_signals_cases)
  case inside
  then show ?thesis using granted [of w0] k by (simp add: ledger_moves_def)
next
  case (plain v)
  have "kv_ledger (fst w0) (PartialBlock v) = 0" using new plain by simp
  with k(1) show ?thesis
  proof (cases rule: kv.use_partial [where w = w0 and E = E])
    case (1 w2)
    then show ?thesis using granted [of w2] plain by (auto simp: ledger_moves_def one_if_def)
  next
    case (2 w2)
    then show ?thesis using short [of w2] plain by (simp add: ledger_moves_def)
  qed
next
  case (promote u v h p b plh tids)
  have split: "unique_blocks a = butlast (unique_blocks a) @ [PartialBlock u]" using promote(2,3) by (metis append_butlast_last_id)
  have nv: "kv_ledger (fst w0) (PartialBlock v) = 0" using new promote by simp
  have "count_list (unique_blocks a) (PartialBlock u) \<noteq> 0" by (subst split) simp
  then have "kv_ledger (fst w0) (PartialBlock u) \<noteq> 0" using k(2) [rule_format, of "PartialBlock u"] by linarith
  then obtain w1 where w1: "process E (Promote u h p b plh tids) w0 = Some (1, w1)" "kc_inv (fst w1)"
    "\<forall>c. kv_ledger (fst w1) c + one_if (c = PartialBlock u) = kv_ledger (fst w0) c + one_if (c = FullBlock h)"
    using kv.promote_law [OF k(1)] by blast
  have "kv_ledger (fst w1) (PartialBlock v) = 0" using w1(3) [rule_format, of "PartialBlock v"] nv by (simp add: one_if_def)
  with w1(2) show ?thesis
  proof (cases rule: kv.use_partial [where w = w1 and E = E])
    case (1 w2)
    have "kv_ledger (fst w2) c + count_list (unique_blocks a) c = kv_ledger (fst w0) c + count_list (unique_blocks a') c" for c
      using 1(3) [rule_format, of c] w1(3) [rule_format, of c]
      by (subst split, subst promote(5)) (auto simp: one_if_def)
    then show ?thesis using granted [of w2] promote(4) w1(1) 1 by (simp add: ledger_moves_def)
  next
    case (2 w2)
    have "kv_ledger (fst w2) c + count_list (unique_blocks a) c = kv_ledger (fst w0) c + count_list (butlast (unique_blocks a')) c" for c
      using 2(3) [rule_format, of c] w1(3) [rule_format, of c]
      by (subst split, subst promote(5)) (auto simp: one_if_def butlast_append)
    then show ?thesis using short [of w2] promote(1,4) w1(1) 2 by (simp add: ledger_moves_def)
  qed
qed

text \<open>A request leaves, and everything it held is released.\<close>

lemma core_inv_complete:
  assumes inv: "core_inv E R d core" and get: "hm_get (requests (vc_state core)) u = Some rq" and kv: "kc_inv (fst w)"
    and ledger: "\<forall>b. kv_ledger (fst w) b + count_list (held rq) b = kv_ledger (vc_kv core) b"
  shows "core_inv E R d ((set_world w core)\<lparr>vc_state := complete u (vc_state core)\<rparr>)"
proof -
  let ?reqs = "requests (vc_state core)"
  have rem: "tally f (hm_remove u ?reqs) b + count_list (f rq) b = tally f ?reqs b" for f :: "VllmRequestState \<Rightarrow> UniqueBlock list" and b
    using queue_invD(1) [OF core_invD(1) [OF inv]] get by (intro tally_remove)
  have "tally held (hm_remove u ?reqs) b = kv_ledger (fst w) b" for b
    using rem [of held b] ledger [rule_format, of b] core_invD(4) [OF inv, of b] by simp
  moreover have "tally names (hm_remove u ?reqs) (PartialBlock v) \<le> one_if (v \<in> drawn R 0 d)" for v
    using rem [of names "PartialBlock v"] core_invD(5) [OF inv, of v] by linarith
  ultimately show ?thesis
    using inv kv complete_inv by (auto simp: core_inv_def books_def complete_def set_world_def split: if_splits)
qed

lemma push_names:
  assumes "push_signals_ok a a' pushed"
  shows "as_len a mod as_block_size a = 0 \<Longrightarrow> \<exists>v rest sg. pushed = Some sg \<and> unique_blocks a' = rest @ [PartialBlock v] \<and>
    (\<forall>u. count_list rest (PartialBlock u) \<le> count_list (unique_blocks a) (PartialBlock u))"
  using assms
proof (cases rule: push_signals_cases)
  case (promote u v h p b plh tids)
  have "count_list (butlast (unique_blocks a) @ [FullBlock h]) (PartialBlock x) \<le> count_list (unique_blocks a) (PartialBlock x)" for x
    using count_list_take [of "length (unique_blocks a) - 1" "unique_blocks a"] by (auto simp: butlast_conv_take)
  then show ?thesis using promote(4,5) by (intro exI [of _ v] exI [of _ "butlast (unique_blocks a) @ [FullBlock h]"]) simp
qed auto

lemma core_inv_mono: "core_inv E R d core \<Longrightarrow> d \<le> d' \<Longrightarrow> core_inv E R d' core"
  by (auto simp: core_inv_def books_def drawn_split one_if_def split: if_splits)

text \<open>One attempt of a request that is ready to produce its next token.\<close>

definition ready :: "VllmRequestState \<Rightarrow> bool" where
  "ready rq = (as_len (rq_sequence rq) \<le> num_computed_tokens rq \<and>
     generated_tokens (rq_sequence rq) < max_output_tokens (rq_sequence rq))"

lemma ready_holds_all:
  assumes "rq_inv E args rq" "ready rq"
  shows "num_allocated_tokens (rq_sequence rq) = as_len (rq_sequence rq)" "num_computed_tokens rq = as_len (rq_sequence rq)"
    "held rq = unique_blocks (rq_sequence rq)"
proof -
  show a: "num_allocated_tokens (rq_sequence rq) = as_len (rq_sequence rq)" "num_computed_tokens rq = as_len (rq_sequence rq)"
    using rq_invD(3,4) [OF assms(1)] assms(2) by (simp_all add: ready_def)
  show "held rq = unique_blocks (rq_sequence rq)"
    using a as_inv_length [OF rq_invD(1) [OF assms(1)]] by (simp add: held_def blocks_for_def)
qed

lemma full_hold: "as_inv E a \<Longrightarrow> held (rq\<lparr>rq_sequence := a\<lparr>num_allocated_tokens := as_len a\<rparr>\<rparr>) = unique_blocks a"
  using as_inv_length by (simp add: held_def blocks_for_def)

text \<open>The sequence after a token was generated, and after that token was taken back.\<close>

definition grown :: "nat \<Rightarrow> ActiveSequence \<Rightarrow> ActiveSequence \<Rightarrow> bool" where
  "grown k a a' = (same_request a a' \<and> generated_tokens a' = generated_tokens a + k)"

lemma emit_attempt:
  fixes d :: nat
  assumes inv: "core_inv E R d core" "ids_ok R N (d + 4)" and get: "hm_get (requests (vc_state core)) u = Some rq" and rdy: "ready rq"
  obtains (again) signals a' d' w where "generate E R (rq_sequence rq) d = Some ((signals, a'), d')" "d \<le> d' \<and> d' \<le> d + 4"
      "process_signals E signals (world core) = Some (True, w)" "generated_tokens a' < max_output_tokens a'"
      "core_inv E R d' (set_request u (rq\<lparr>rq_sequence := commit_allocation a' (as_len a')\<rparr>) (set_world w core))"
      "grown 1 (rq_sequence rq) a'"
  | (finished) signals a' d' w where "generate E R (rq_sequence rq) d = Some ((signals, a'), d')" "d \<le> d' \<and> d' \<le> d + 4"
      "process_signals E signals (world core) = Some (True, w)" "\<not> generated_tokens a' < max_output_tokens a'"
      "core_inv E R d' ((set_world w core)\<lparr>vc_state := complete u (vc_state core)\<rparr>)"
      "request_progress E (rq\<lparr>rq_sequence := a'\<rparr>) = Some ()" "grown 1 (rq_sequence rq) a'"
  | (undone) signals a' d' w a2 where "generate E R (rq_sequence rq) d = Some ((signals, a'), d')" "d \<le> d' \<and> d' \<le> d + 4"
      "process_signals E signals (world core) = Some (False, w)" "as_pop E a' = Some a2" "ready (rq\<lparr>rq_sequence := a2\<rparr>)"
      "core_inv E R d' (set_request u (rq\<lparr>rq_sequence := a2\<rparr>) (set_world w core))"
      "grown 0 (rq_sequence rq) a2" "as_len (rq_sequence rq) mod as_block_size (rq_sequence rq) = 0"
proof -
  let ?a = "rq_sequence rq" and ?n = "as_block_size (rq_sequence rq)"
  note rqi = core_invD(3) [OF inv(1) get]
  note rq = rq_invD [OF rqi] and all = ready_holds_all [OF rqi rdy]
  have more: "generated_tokens ?a < max_output_tokens ?a" using rdy by (simp add: ready_def)
  have "(as_len ?a + 1) div ?n \<le> (num_input_tokens ?a + max_output_tokens ?a) div ?n"
    using rq(5) more by (intro div_le_mono) simp
  then have room: "fits (as_tokens ?a) (as_len ?a + 1)" using rq(1,2,7) by (simp add: fits_def as_inv_def)
  obtain pushed a' d' where push: "as_push E R ?a (draw_u32 R d) (Suc d) = Some ((pushed, a'), d')"
    and a': "as_inv E a'" "generated_tokens a' = generated_tokens ?a + 1"
    and gen: "generate E R ?a d = Some (((case pushed of None \<Rightarrow> [] | Some ms \<Rightarrow> ms) @
      (if generated_tokens a' = max_output_tokens a' then map (\<lambda>b. Deref [b]) (rev (unique_blocks a')) else []), a'), d')"
    using generate_ok [OF rq(1) room more] by metis
  have sg: "push_signals_ok ?a a' pushed" and toks: "seq_tokens (as_tokens a') = seq_tokens (as_tokens ?a) @ [draw_u32 R d]"
    using as_push_ok [OF rq(1) room, of R "draw_u32 R d" "Suc d"] push by auto
  have len': "as_len a' = as_len ?a + 1" using toks as_len_tokens [OF a'(1)] as_len_tokens [OF rq(1)] by simp
  have same: "same_request ?a a'" using as_push_keeps(1) [OF push] .
  have grown: "grown 1 ?a a'" using same a'(2) by (simp add: grown_def)
  define signals where "signals = (case pushed of None \<Rightarrow> [] | Some ms \<Rightarrow> ms)"
  let ?freed = "map (\<lambda>b. Deref [b]) (rev (unique_blocks a'))"
  have d: "d \<le> d'" "d \<le> d' \<and> d' \<le> d + 4" using as_push_keeps(2,3,4) [OF push] by (cases pushed; auto)+
  have ids: "ids_ok R N d'" using ids_ok_mono [OF inv(2)] d(2) by blast
  have id: "v = draw_uuid R (d' - 1) \<and> d \<le> d' - 1 \<and> v \<in> drawn R d d'"
    if "last (unique_blocks a') = PartialBlock v" "as_len ?a mod ?n = 0" for v
    using push_names [OF sg that(2)] as_push_keeps(4) [OF push] that(1) by (auto simp: drawn_def)
  have names: "count_list (unique_blocks a') (PartialBlock v) \<le> count_list (unique_blocks ?a) (PartialBlock v) + one_if (v \<in> drawn R d d')" for v
  proof (cases "as_len ?a mod ?n = 0")
    case True
    then obtain v0 rest where "unique_blocks a' = rest @ [PartialBlock v0]"
      "count_list rest (PartialBlock v) \<le> count_list (unique_blocks ?a) (PartialBlock v)" using push_names [OF sg] by auto
    then show ?thesis using id [of v0] True by (auto simp: one_if_def)
  qed (use sg in \<open>auto simp: push_signals_ok_def\<close>)
  have k: "kc_inv (fst (world core))" "\<forall>b. count_list (unique_blocks ?a) b \<le> kv_ledger (fst (world core)) b"
    using tally_ge [OF get, of held] core_invD(2,4) [OF inv(1)] all(3) by simp_all
  have fresh: "kv_ledger (fst (world core)) (PartialBlock v) = 0"
    if "last (unique_blocks a') = PartialBlock v" "as_len ?a mod ?n = 0" for v
    using fresh_partial [OF inv(1), of N "d' - 1"] id [OF that] ids_ok_mono [OF ids, of "Suc (d' - 1)"] d as_push_keeps(2,4) [OF push]
    by (cases pushed) auto
  show thesis
  proof (rule push_processed [where E = E, OF k fresh sg], goal_cases)
    case (3 w)
    note granted = 3
    have kw: "kc_inv (fst w)" "\<forall>b. kv_ledger (fst w) b + count_list (unique_blocks ?a) b = kv_ledger (vc_kv core) b + count_list (unique_blocks a') b"
      using granted(2) by (simp_all add: ledger_moves_def)
    show thesis
    proof (cases "generated_tokens a' = max_output_tokens a'")
      case False
      let ?rq = "rq\<lparr>rq_sequence := commit_allocation a' (as_len a')\<rparr>"
      have "rq_inv E (vc_args core) ?rq"
        using rq rdy a' len' same False by (simp add: rq_inv_def Let_def commit_allocation_def same_request_def ready_def)
      moreover have "held ?rq = unique_blocks a'" "names ?rq = unique_blocks a'"
        using full_hold [OF a'(1), of rq] by (simp_all add: commit_allocation_def names_def)
      ultimately have "core_inv E R d' (set_request u ?rq (set_world w core))"
        using kw all(3) names by (intro core_inv_update [OF inv(1) ids d(1) get]) (simp_all add: names_def)
      moreover have "generated_tokens a' < max_output_tokens a'" using False a'(2) more same by (simp add: same_request_def)
      ultimately show thesis using again [OF gen d(2)] granted(1) False grown by simp
    next
      case True
      have "count_list (rev (unique_blocks a')) b \<le> kv_ledger (fst w) b" for b
        using kw(2) [rule_format, of b] k(2) [rule_format, of b] unfolding world_fst count_list_rev by linarith
      then obtain w2 where w2: "process_all E ?freed w = Some w2" "kc_inv (fst w2)"
        "\<forall>b. kv_ledger (fst w2) b + count_list (rev (unique_blocks a')) b = kv_ledger (fst w) b"
        using release_ok [OF kw(1)] by metis
      have "process_signals E (signals @ ?freed) (world core) = Some (True, w2)"
        using granted(1) process_signals_release [OF w2(1)] by (simp add: process_signals_append signals_def)
      moreover have "kv_ledger (fst w2) b + count_list (held rq) b = kv_ledger (vc_kv core) b" for b
        using w2(3) [rule_format, of b] kw(2) [rule_format, of b] unfolding all(3) count_list_rev by linarith
      then have "core_inv E R d' ((set_world w2 core)\<lparr>vc_state := complete u (vc_state core)\<rparr>)"
        using core_inv_mono [OF core_inv_complete [OF inv(1) get w2(2)] d(1)] by blast
      moreover have "request_progress E (rq\<lparr>rq_sequence := a'\<rparr>) = Some ()"
        using all len' same by (simp add: request_progress_def request_invariants_def assert_run_def same_request_def)
      ultimately show thesis using finished [OF gen d(2)] True grown by (simp add: signals_def)
    qed
  next
    case (4 w)
    note short = 4
    obtain v rest where uniq: "unique_blocks a' = rest @ [PartialBlock v]"
      "\<forall>x. count_list rest (PartialBlock x) \<le> count_list (unique_blocks ?a) (PartialBlock x)"
      using push_names [OF sg short(1)] by blast
    obtain a2 where pop: "as_pop E a' = Some a2" and a2: "as_inv E a2" "seq_tokens (as_tokens a2) = seq_tokens (as_tokens ?a)"
      "generated_tokens a2 = generated_tokens ?a"
      using as_pop_ok [OF a'(1)] uniq(1) toks a'(2) by auto
    have len2: "as_len a2 = as_len ?a" using as_len_tokens [OF a2(1)] as_len_tokens [OF rq(1)] a2(2) by simp
    have same2: "same_request ?a a2" "unique_blocks a2 = rest"
      using as_pop_keeps [OF pop] same uniq(1) len2 short(1) by (auto simp: same_request_def dvd_eq_mod_eq_0)
    let ?rq = "rq\<lparr>rq_sequence := a2\<rparr>"
    have rq2: "rq_inv E (vc_args core) ?rq" "ready ?rq"
      using rq rdy a2 len2 same2(1) by (simp_all add: rq_inv_def Let_def same_request_def ready_def)
    have "held ?rq = rest" using ready_holds_all(3) [OF rq2] same2(2) by simp
    then have "core_inv E R d' (set_request u ?rq (set_world w core))"
      using short(3) all(3) uniq same2(2) rq2(1) by (intro core_inv_update [OF inv(1) ids d(1) get])
        (simp_all add: names_def ledger_moves_def trans_le_add1)
    moreover have "process_signals E (signals @ (if generated_tokens a' = max_output_tokens a' then ?freed else [])) (world core) = Some (False, w)"
      using short(2) by (simp add: process_signals_append signals_def)
    moreover have "grown 0 ?a a2" using same2(1) a2(3) by (simp add: grown_def)
    ultimately show thesis using undone [OF gen d(2) _ pop] rq2(2) short(1) by (simp add: signals_def)
  qed
qed


text \<open>What a request's emission may do to the others: preempt them, and nothing else.\<close>

definition spares :: "Uuid \<Rightarrow> 'f VllmCore \<Rightarrow> 'f VllmCore \<Rightarrow> bool" where
  "spares uuid core core' = (vc_args core' = vc_args core \<and>
     length (running (vc_state core')) \<le> length (running (vc_state core)) \<and>
     (\<forall>u. u \<noteq> uuid \<longrightarrow> u \<in> running_members (vc_state core') \<longrightarrow> u \<in> running_members (vc_state core) \<and>
       hm_get (requests (vc_state core')) u = hm_get (requests (vc_state core)) u))"

lemma spares_trans: "spares u core core1 \<Longrightarrow> spares u core1 core2 \<Longrightarrow> spares u core core2"
  by (auto simp: spares_def)

lemma spares_request [simp]: "spares u core (set_request u rq (set_world w core))"
  by (simp add: spares_def)

lemma spares_preempt: "length q \<le> length (running (vc_state core)) \<Longrightarrow> spares u core (set_world w (core\<lparr>vc_state := preempted_state v rq q (vc_state core)\<rparr>))"
  by (auto simp: spares_def preempted_state_def)

definition ready_or_gone :: "'f VllmCore \<Rightarrow> Uuid \<Rightarrow> bool" where
  "ready_or_gone core u = (u \<in> running_members (vc_state core) \<longrightarrow>
     (\<exists>rq. hm_get (requests (vc_state core)) u = Some rq \<and> ready rq))"

lemma ready_to_decode_ok:
  assumes "core_inv E R d core"
  shows "ready_to_decode E (requests (vc_state core)) u = Some ()"
  using core_invD(3) [OF assms, of u]
  by (auto simp: ready_to_decode_def assert_run_def rq_inv_def Let_def split: option.splits)

text \<open>The state a request leaves behind that emitted its last token, once it is removed.\<close>

definition emitted_ok :: "build_env \<Rightarrow> random_source \<Rightarrow> nat \<Rightarrow> Uuid \<Rightarrow> bool \<Rightarrow> 'f VllmCore \<Rightarrow> bool" where
  "emitted_ok E R d uuid completed core =
     (if completed then core_inv E R d (core\<lparr>vc_state := complete uuid (vc_state core)\<rparr>) \<and>
        (\<exists>rq. hm_get (requests (vc_state core)) uuid = Some rq \<and> request_progress E rq = Some ())
      else core_inv E R d core)"

lemma emit_one_ok:
  assumes "core_inv E R d core" "ids_ok R N (d + 4 * Suc (length (running (vc_state core))))" "ready_or_gone core uuid"
  shows "\<exists>emitted completed core' d'. emit_one E R uuid core d = Some ((emitted, completed), core', d') \<and>
    d \<le> d' \<and> d' \<le> d + 4 * Suc (length (running (vc_state core))) \<and>
    (completed \<longrightarrow> emitted) \<and> emitted_ok E R d' uuid completed core' \<and> spares uuid core core'"
  using assms
proof (induction E R uuid core d rule: emit_one.induct)
  case (1 E R uuid core d)
  note inv = "1.prems"(1) and rd = ready_to_decode_ok [OF "1.prems"(1), of uuid]
  have ids: "ids_ok R N (d + 4)" using ids_ok_mono [OF "1.prems"(2)] by simp
  show ?case
  proof (cases "uuid \<in> running_members (vc_state core)")
    case False
    then have "emit_one E R uuid core d = Some ((False, False), core, d)"
      using rd by (subst emit_one.simps) (simp add: running_sequence_def)
    then show ?thesis using inv by (auto simp: emitted_ok_def spares_def)
  next
    case True
    then obtain rq where get: "hm_get (requests (vc_state core)) uuid = Some rq" and rdy: "ready rq"
      using "1.prems"(3) by (auto simp: ready_or_gone_def)
    have rs: "running_sequence (vc_state core) uuid = Some (rq_sequence rq)" using True get by (simp add: running_sequence_def)
    show ?thesis
      using inv ids get rdy
    proof (cases rule: emit_attempt)
      case (again signals a' d' w)
      let ?core' = "set_request uuid (rq\<lparr>rq_sequence := commit_allocation a' (as_len a')\<rparr>) (set_world w core)"
      have "emit_one E R uuid core d = Some ((True, False), ?core', d')"
        using rd rs again get by (subst emit_one.simps) (simp add: Let_def set_sequence_def commit_allocation_def)
      then show ?thesis using again by (auto simp: emitted_ok_def)
    next
      case (finished signals a' d' w)
      let ?core' = "set_request uuid (rq\<lparr>rq_sequence := a'\<rparr>) (set_world w core)"
      have "emit_one E R uuid core d = Some ((True, True), ?core', d')"
        using rd rs finished get by (subst emit_one.simps) (simp add: Let_def set_sequence_def)
      moreover have "?core'\<lparr>vc_state := complete uuid (vc_state ?core')\<rparr> = (set_world w core)\<lparr>vc_state := complete uuid (vc_state core)\<rparr>"
        by (simp add: complete_def set_request_def hm_remove_insert)
      ultimately show ?thesis using finished by (auto simp: emitted_ok_def)
    next
      case (undone signals a' d' w a2)
      let ?core1 = "set_request uuid (rq\<lparr>rq_sequence := a2\<rparr>) (set_world w core)"
      have set1: "set_sequence uuid a2 (set_world w core) = ?core1" using get by (simp add: set_sequence_def)
      have sp1: "spares uuid core ?core1" by simp
      show ?thesis
        using undone(6) ids_ok_mono [OF ids conjunct2 [OF undone(2)]]
      proof (cases rule: preempt_ok [where mode = "preemption_mode (vc_args ?core1)"])
        case none
        then have "emit_one E R uuid core d = Some ((False, False), ?core1\<lparr>vc_state := (vc_state ?core1)\<lparr>running := []\<rparr>\<rparr>, d')"
          using rd rs undone set1 by (subst emit_one.simps) (simp add: Let_def)
        then show ?thesis using none undone(2) by (auto simp: emitted_ok_def spares_def)
      next
        case (victim u rq' q dead w')
        let ?pr = "\<lparr>pr_uuid = u, pr_signals = map (\<lambda>b. Deref [b]) (rev (held rq'))\<rparr>"
        let ?core2 = "set_world w' (?core1\<lparr>vc_state := preempted_state u rq' q (vc_state ?core1)\<rparr>)"
        have step: "emit_one E R uuid core d = (if u = uuid then Some ((False, False), ?core2, d') else emit_one E R uuid ?core2 d')"
          using rd rs undone victim(5,6) set1 by (subst emit_one.simps) (simp add: Let_def)
        have q: "Suc (length q) \<le> length (running (vc_state core))"
          using victim(3) by (auto simp: around_def split: PreemptionMode.splits)
        then have sp2: "spares uuid core ?core2" using spares_trans [OF sp1 spares_preempt [of q ?core1]] by simp
        show ?thesis
        proof (cases "u = uuid")
          case True
          then show ?thesis using step victim(7) sp2 undone(2) by (auto simp: emitted_ok_def)
        next
          case False
          have p: "process_all E (pr_signals ?pr) (world ?core1) = Some w'" and ne: "pr_uuid ?pr \<noteq> uuid" using victim(6) False by simp_all
          have rdy2: "ready_or_gone ?core2 uuid" using undone(5) False by (simp add: ready_or_gone_def preempted_state_def)
          have run2: "running (vc_state ?core2) = q" by (simp add: preempted_state_def)
          have d2: "d' + 4 * Suc (length (running (vc_state ?core2))) \<le> d + 4 * Suc (length (running (vc_state core)))"
            unfolding run2 using undone(2) q by simp
          obtain em co core' d2 where "emit_one E R uuid ?core2 d' = Some ((em, co), core', d2)" "d' \<le> d2"
            "d2 \<le> d' + 4 * Suc (length (running (vc_state ?core2)))" "co \<longrightarrow> em" "emitted_ok E R d2 uuid co core'" "spares uuid ?core2 core'"
            using "1.IH" [OF rd rs undone(1) refl refl undone(3) refl refl undone(4) set1 [symmetric] victim(5) refl refl p refl ne victim(7)
                ids_ok_mono [OF "1.prems"(2) d2] rdy2] by blast
          then show ?thesis using step False undone(2) spares_trans [OF sp2, of core'] d2 by (intro exI [of _ em] exI [of _ co] exI [of _ core'] exI [of _ d2]) simp
        qed
      qed
    qed
  qed
qed

text \<open>One round of the loop over the requests that are ready.\<close>

lemma emit_loop_step:
  assumes inv: "core_inv E R d core" and ids: "ids_ok R N (d + 4 * Suc (length (running (vc_state core))) * length (u # us))"
    and us: "distinct (u # us)" "\<forall>v \<in> set (u # us). ready_or_gone core v"
  obtains emitted completed core1 d1 core2 where
    "emit_one E R u core d = Some ((emitted, completed), core1, d1)" "completed \<longrightarrow> emitted"
    "core2 = (if completed then core1\<lparr>vc_state := complete u (vc_state core1)\<rparr> else core1)"
    "\<And>outs. emit_loop E R (u # us) outs core d =
      emit_loop E R us (if emitted then outs @ [\<lparr>out_uuid = u, out_completed = completed\<rparr>] else outs) core2 d1"
    "d \<le> d1" "core_inv E R d1 core2" "vc_args core2 = vc_args core" "length (running (vc_state core2)) \<le> length (running (vc_state core))"
    "ids_ok R N (d1 + 4 * Suc (length (running (vc_state core2))) * length us)" "\<forall>v \<in> set us. ready_or_gone core2 v"
    "d1 + 4 * Suc (length (running (vc_state core2))) * length us \<le> d + 4 * Suc (length (running (vc_state core))) * length (u # us)"
proof -
  let ?L = "length (running (vc_state core))"
  obtain emitted completed core1 d1 where one: "emit_one E R u core d = Some ((emitted, completed), core1, d1)" "d \<le> d1 \<and> d1 \<le> d + 4 * Suc ?L"
    "completed \<longrightarrow> emitted" "emitted_ok E R d1 u completed core1" "spares u core core1"
    using emit_one_ok [OF inv ids_ok_mono [OF ids], of u] us(2) by auto
  define core2 where "core2 = (if completed then core1\<lparr>vc_state := complete u (vc_state core1)\<rparr> else core1)"
  have inv2: "core_inv E R d1 core2" using one(4) by (simp add: emitted_ok_def core2_def split: if_splits)
  have prog: "(case hm_get (requests (vc_state core1)) u of Some request \<Rightarrow> request_progress E request | None \<Rightarrow> Some ()) = Some ()"
    using one(4) core_invD(3) [of E R d1 core1 u] rq_request_invariants
    by (auto simp: emitted_ok_def split: if_splits option.splits)
  have same: "vc_args core2 = vc_args core" "length (running (vc_state core2)) \<le> ?L" using one(5) by (simp_all add: spares_def core2_def complete_def)
  have rest: "\<forall>v \<in> set us. ready_or_gone core2 v"
  proof
    fix v
    assume v: "v \<in> set us"
    then have "v \<noteq> u" "ready_or_gone core v" using us by auto
    then show "ready_or_gone core2 v"
      using one(5) by (auto simp: ready_or_gone_def spares_def core2_def complete_def split: if_splits)
  qed
  have "d1 + 4 * Suc (length (running (vc_state core2))) * length us \<le> d + 4 * Suc ?L * length (u # us)"
  proof -
    have "Suc (length (running (vc_state core2))) * length us \<le> Suc ?L * length us" using same(2) by (intro mult_le_mono1) simp
    then have "4 * Suc (length (running (vc_state core2))) * length us \<le> 4 * Suc ?L * length us" by simp
    moreover have "d1 \<le> d + 4 * Suc ?L" using one(2) by blast
    moreover have "4 * Suc ?L * length (u # us) = 4 * Suc ?L + 4 * Suc ?L * length us" by simp
    ultimately show ?thesis by linarith
  qed
  moreover have "emit_loop E R (u # us) outs core d =
      emit_loop E R us (if emitted then outs @ [\<lparr>out_uuid = u, out_completed = completed\<rparr>] else outs) core2 d1" for outs
    using one(1,3) prog by (cases emitted) (simp_all add: core2_def)
  ultimately show thesis using that one(1-3) core2_def inv2 same rest ids_ok_mono [OF ids] by blast
qed

lemma emit_loop_ok:
  assumes "core_inv E R d core" "ids_ok R N (d + 4 * Suc (length (running (vc_state core))) * length us)" "distinct us" "\<forall>u \<in> set us. ready_or_gone core u"
  shows "\<exists>outs' core' d'. emit_loop E R us outs core d = Some (outs', core', d') \<and> d \<le> d' \<and> core_inv E R d' core' \<and> vc_args core' = vc_args core \<and>
    length (running (vc_state core')) \<le> length (running (vc_state core)) \<and> d' \<le> d + 4 * Suc (length (running (vc_state core))) * length us"
  using assms
proof (induction us arbitrary: outs core d)
  case Nil
  then show ?case by auto
next
  case (Cons u us)
  from Cons.prems show ?case
  proof (rule emit_loop_step, goal_cases)
    case (1 emitted completed core1 d1 core2)
    let ?outs = "if emitted then outs @ [\<lparr>out_uuid = u, out_completed = completed\<rparr>] else outs"
    have "distinct us" using Cons.prems(3) by simp
    then obtain outs' core' d' where r: "emit_loop E R us ?outs core2 d1 = Some (outs', core', d')" "d1 \<le> d'" "core_inv E R d' core'"
      "vc_args core' = vc_args core2" "length (running (vc_state core')) \<le> length (running (vc_state core2))"
      "d' \<le> d1 + 4 * Suc (length (running (vc_state core2))) * length us"
      using Cons.IH [OF 1(6,9) _ 1(10)] by blast
    have "d' \<le> d + 4 * Suc (length (running (vc_state core))) * length (u # us)" by (rule le_trans [OF r(6) 1(11)])
    then show ?case using r(1-5) 1(4,5,7,8) by (simp del: emit_loop.simps)
  qed
qed


lemma compact_core:
  assumes "core_inv E R d core"
  shows "core_inv E R d (core\<lparr>vc_state := compact_running (vc_state core)\<rparr>)" and "all_live (core\<lparr>vc_state := compact_running (vc_state core)\<rparr>)"
  using compact_running_inv [OF core_invD(1) [OF assms]] assms by (auto simp: core_inv_def all_live_def compacted_inv_def)

lemma emit_ready_tokens_ok:
  assumes inv: "core_inv E R d core" "ids_ok R N (d + 4 * Suc (length (running (vc_state core))) * length (running (vc_state core)))"
  shows "\<exists>res core' d'. emit_ready_tokens E R core d = Some (res, core', d') \<and> d \<le> d' \<and> core_inv E R d' core' \<and> vc_args core' = vc_args core \<and>
    length (running (vc_state core')) \<le> length (running (vc_state core)) \<and>
    d' \<le> d + 4 * Suc (length (running (vc_state core))) * length (running (vc_state core))"
proof -
  let ?ready = "ready_requests (vc_state core)"
  have len: "d + 4 * Suc (length (running (vc_state core))) * length ?ready \<le>
      d + 4 * Suc (length (running (vc_state core))) * length (running (vc_state core))"
    by (intro add_left_mono mult_le_mono2) (simp add: ready_requests_def)
  have "distinct ?ready" using queue_invD(2) [OF core_invD(1) [OF inv(1)]] by (simp add: ready_requests_def)
  moreover have "\<forall>u \<in> set ?ready. ready_or_gone core u"
    by (auto simp: ready_requests_def ready_or_gone_def ready_def split: option.splits)
  ultimately obtain outs core1 d1 where r: "emit_loop E R ?ready [] core d = Some (outs, core1, d1)" "d \<le> d1" "core_inv E R d1 core1"
    "vc_args core1 = vc_args core" "length (running (vc_state core1)) \<le> length (running (vc_state core))"
    "d1 \<le> d + 4 * Suc (length (running (vc_state core))) * length ?ready"
    using emit_loop_ok [OF inv(1) ids_ok_mono [OF inv(2) len]] by blast
  have "d1 \<le> d + 4 * Suc (length (running (vc_state core))) * length (running (vc_state core))" by (rule le_trans [OF r(6) len])
  moreover have "length (running (compact_running (vc_state core1))) \<le> length (running (vc_state core1))"
    using compact_running_inv(1) [OF core_invD(1) [OF r(3)]] by simp
  ultimately show ?thesis using r(1-5) inv(1) compact_core(1) [of E R d1 core1] by (auto simp: emit_ready_tokens_def Let_def simp del: mult_Suc mult_Suc_right)
qed

lemma scheduler_state_ok:
  assumes "core_inv E R d core"
  shows "scheduler_state_ok (vc_state core)"
proof -
  let ?s = "vc_state core"
  note q = queue_invD [OF core_invD(1) [OF assms]]
  have "card (waiting_members ?s) \<le> length (waiting ?s)" "card (running_members ?s) \<le> length (running ?s)"
    using q(3,4) by (meson List.finite_set card_length card_mono le_trans)+
  moreover have "num_computed_tokens rq \<le> as_len (rq_sequence rq) \<and> num_allocated_tokens (rq_sequence rq) \<le> as_len (rq_sequence rq)"
    if "hm_get (requests ?s) u = Some rq" for u rq
    using rq_invD(3,4) [OF core_invD(3) [OF assms that]] by simp
  ultimately show ?thesis
    unfolding scheduler_state_ok_def using q(5,6) by (auto split: option.splits)
qed

text \<open>A pass draws at most four numbers for each attempt, and each of at most \<open>n\<close> requests has at most \<open>n + 1\<close> attempts.\<close>

definition pass_draws :: "'f VllmCore \<Rightarrow> nat" where
  "pass_draws core = 4 * Suc (hm_len (requests (vc_state core))) * hm_len (requests (vc_state core))"

lemma running_le_requests:
  assumes "core_inv E R d core" "all_live core"
  shows "length (running (vc_state core)) \<le> hm_len (requests (vc_state core))"
proof -
  note q = queue_invD [OF core_invD(1) [OF assms(1)]]
  have "running_members (vc_state core) \<subseteq> hm_keys (requests (vc_state core))"
    using q(6) hm_get_keys [of "requests (vc_state core)"] by (metis option.distinct(1) subsetI)
  then have "card (set (running (vc_state core))) \<le> card (hm_keys (requests (vc_state core)))"
    using assms(2) by (simp add: all_live_def card_mono)
  then show ?thesis using q(1,2) by (simp add: hm_len_card distinct_card)
qed

lemma emit_draws:
  assumes "core_inv E R d core" "core_inv E R d core3" "all_live core3" "same_keys core core3"
  shows "d + 4 * Suc (length (running (vc_state core3))) * length (running (vc_state core3)) \<le> d + pass_draws core"
proof -
  have "hm_len (requests (vc_state core3)) = hm_len (requests (vc_state core))"
    using assms(4) queue_invD(1) [OF core_invD(1) [OF assms(1)]] queue_invD(1) [OF core_invD(1) [OF assms(2)]] by (simp add: same_keys_def hm_len_card)
  then have "length (running (vc_state core3)) \<le> hm_len (requests (vc_state core))" using running_le_requests [OF assms(2,3)] by simp
  then show ?thesis unfolding pass_draws_def by (intro add_left_mono mult_le_mono) simp_all
qed

lemma execute_pass_ok:
  assumes inv: "core_inv E R d core" "ids_ok R N (d + pass_draws core)"
  shows "\<exists>res core' d'. execute_pass E R core d = Some (res, core', d') \<and> d \<le> d' \<and> d' \<le> d + pass_draws core \<and> core_inv E R d' core' \<and>
    vc_args core' = vc_args core \<and> length (running (vc_state core')) \<le>
      max (case max_num_seqs (vc_args core) of Some n \<Rightarrow> n | None \<Rightarrow> usize_max) (length (running (vc_state core)))"
proof -
  let ?core1 = "core\<lparr>vc_state := compact_running (vc_state core)\<rparr>"
  have ids: "ids_ok R N d" using ids_ok_mono [OF inv(2)] by simp
  obtain acc2 adm2 core2 where r: "running_loop E 0 (pass_start (vc_args ?core1)) [] ?core1 = Some (acc2, adm2, core2)"
    "core_inv E R d core2" "all_live core2" "same_keys ?core1 core2"
    using running_loop_ok [OF compact_core(1) [OF inv(1)] ids compact_core(2) [OF inv(1)]] by blast
  obtain acc3 adm3 core3 where w: "waiting_loop E (case max_num_seqs (vc_args core2) of Some n \<Rightarrow> n | None \<Rightarrow> usize_max) acc2 adm2 core2 = Some (acc3, adm3, core3)"
    "core_inv E R d core3" "all_live core3" "same_keys core2 core3"
    using waiting_loop_ok [OF r(2) ids r(3)] by blast
  have "same_keys core core3"
    using same_keys_trans [OF r(4) w(4)] compact_running_inv(1) [OF core_invD(1) [OF inv(1)]] by (simp add: same_keys_def)
  note draws = emit_draws [OF inv(1) w(2,3) this]
  have wf: "hm_wf (scheduled (pass_start args))" for args by (simp add: pass_start_def)
  note rb = running_loop_budget [OF r(1) wf]
  note wb = waiting_loop_budget [OF w(1)]
  obtain decode outs core4 d4 where e: "emit_ready_tokens E R core3 d = Some ((decode, outs), core4, d4)" "d \<le> d4" "core_inv E R d4 core4"
    "vc_args core4 = vc_args core3" "length (running (vc_state core4)) \<le> length (running (vc_state core3))"
    "d4 \<le> d + 4 * Suc (length (running (vc_state core3))) * length (running (vc_state core3))"
    using emit_ready_tokens_ok [OF w(2) ids_ok_mono [OF inv(2) draws]] by (metis prod.exhaust)
  have d4: "d4 \<le> d + pass_draws core" by (rule le_trans [OF e(6) draws])
  have "length (running (compact_running (vc_state core))) \<le> length (running (vc_state core))"
    using compact_running_inv(1) [OF core_invD(1) [OF inv(1)]] by simp
  then show ?thesis
    using r(1) w(1) e(1-5) d4 rb wb scheduler_state_ok [OF e(3)] by (auto simp: execute_pass_def Let_def split: option.splits)
qed

lemma drop_request_ok:
  assumes inv: "core_inv E R d core"
  shows "\<exists>core'. drop_request E u core = Some core' \<and> core_inv E R d core' \<and> vc_args core' = vc_args core \<and>
    running (vc_state core') = running (vc_state core)"
proof (cases "hm_get (requests (vc_state core)) u")
  case None
  then show ?thesis using inv by (simp add: drop_request_def)
next
  case (Some rq)
  have k: "kc_inv (fst (world core))" "\<forall>b. count_list (rev (held rq)) b \<le> kv_ledger (fst (world core)) b"
    using tally_ge [OF Some, of held] core_invD(2,4) [OF inv] by simp_all
  obtain w where w: "process_all E (map (\<lambda>b. Deref [b]) (rev (held rq))) (world core) = Some w" "kc_inv (fst w)"
    "\<forall>b. kv_ledger (fst w) b + count_list (rev (held rq)) b = kv_ledger (fst (world core)) b"
    by (rule release_ok [OF k])
  have "free_signal (rq_sequence rq) = Some (map (\<lambda>b. Deref [b]) (rev (held rq)))"
    using free_signal_ok [OF rq_invD(1) [OF core_invD(3) [OF inv Some]]] by (simp add: free_signal_def held_def)
  then show ?thesis
    using Some w core_inv_complete [OF inv Some w(2)] by (simp add: drop_request_def complete_def)
qed

section \<open>Receiving requests\<close>

lemma books_new:
  assumes b: "books R d reqs kv" and inj: "ids_ok R N d'" and d: "d \<le> d'" and get: "hm_get reqs u = None"
    and held: "held rq = []" and names: "\<forall>v. count_list (names rq) (PartialBlock v) \<le> one_if (v \<in> drawn R d d')"
  shows "books R d' (hm_insert u rq reqs) kv"
  unfolding books_def
proof (intro conjI allI)
  show "tally held (hm_insert u rq reqs) b = kv_ledger kv b" for b
    using tally_new [OF get, of held rq b] held b by (simp add: books_def)
  show "tally names (hm_insert u rq reqs) (PartialBlock v) \<le> one_if (v \<in> drawn R 0 d')" for v
  proof -
    have "tally names (hm_insert u rq reqs) (PartialBlock v) \<le> tally names reqs (PartialBlock v) + one_if (v \<in> drawn R d d')"
      using tally_new [OF get, of names rq "PartialBlock v"] names by simp
    also have "\<dots> \<le> one_if (v \<in> drawn R 0 d) + one_if (v \<in> drawn R d d')" using b by (simp add: books_def)
    also have "\<dots> \<le> one_if (v \<in> drawn R 0 d')" using drawn_once [OF inj d] .
    finally show ?thesis .
  qed
qed

definition request_id :: "random_source \<Rightarrow> DirectRequest \<Rightarrow> nat \<Rightarrow> Uuid" where
  "request_id R request d = (case dr_uuid request of Some u \<Rightarrow> u | None \<Rightarrow> draw_uuid R d)"

text \<open>A request that the engine can take: a new id, and blocks for all the tokens it may come to have.\<close>

definition acceptable :: "random_source \<Rightarrow> DirectRequest \<Rightarrow> 'f VllmCore \<Rightarrow> nat \<Rightarrow> bool" where
  "acceptable R request core d = (hm_get (requests (vc_state core)) (request_id R request d) = None \<and>
     (length (dr_tokens request) + dr_max_output_tokens request) div arg_block_size (vc_args core) \<le> 16777216)"

lemma receive_ok:
  assumes inv: "core_inv E R d core" and ok: "acceptable R request core d"
    and bs: "2 \<le> arg_block_size (vc_args core)" "arg_block_size (vc_args core) < 4294967296"
  shows "\<exists>core' d'. receive E R request core d = Some ((request_id R request d, core'), d') \<and> d \<le> d' \<and>
    (\<forall>N. ids_ok R N d' \<longrightarrow> core_inv E R d' core') \<and> vc_args core' = vc_args core \<and> running (vc_state core') = running (vc_state core)"
proof -
  let ?u = "request_id R request d" and ?n = "arg_block_size (vc_args core)"
  define d1 where "d1 = (case dr_uuid request of Some u \<Rightarrow> d | None \<Rightarrow> Suc d)"
  have "length (dr_tokens request) div ?n \<le> (length (dr_tokens request) + dr_max_output_tokens request) div ?n"
    by (intro div_le_mono) simp
  then have "length (dr_tokens request) div ?n \<le> 16777216" using ok by (simp add: acceptable_def)
  then obtain a d2 where a: "as_new E R (dr_tokens request) (dr_max_output_tokens request) (Some ?n)
      (arg_prefix_caching (vc_args core)) (zmq_kv_events_port (vc_args core) \<noteq> None) d1 = Some (a, d2)"
    "as_inv E a" "seq_tokens (as_tokens a) = dr_tokens request" "as_block_size a = ?n" "num_input_tokens a = length (dr_tokens request)"
    "generated_tokens a = 0" "num_allocated_tokens a = 0" "max_output_tokens a = dr_max_output_tokens request"
    using as_new_ok [OF bs] by metis
  define rq where "rq = \<lparr>rq_sequence = a, rq_status = Waiting, num_computed_tokens = 0, num_preemptions = 0\<rparr>"
  have dd: "d \<le> d1" "d1 \<le> d2" using as_new_draws(1) [OF a(1)] by (auto simp: d1_def split: option.splits)
  have rqi: "rq_inv E (vc_args core) rq"
    using a ok as_len_tokens [OF a(2)] by (simp add: rq_inv_def rq_def acceptable_def)
  have "held rq = []" using a(2,7) by (simp add: rq_def held_def blocks_for_def div_ceil_def as_inv_def)
  moreover have "count_list (names rq) (PartialBlock v) \<le> one_if (v \<in> drawn R d d2)" for v
    using as_new_draws(2,3) [OF a(1), of v] dd
    by (auto simp: names_def rq_def one_if_def drawn_def count_list_0_iff)
  ultimately have bk: "books R d2 (hm_insert ?u rq (requests (vc_state core))) (vc_kv core)" if "ids_ok R N d2" for N
    using ok inv dd that by (intro books_new [where d = d, OF _ that]) (auto simp: core_inv_def acceptable_def)
  let ?core' = "(set_request ?u rq core)\<lparr>vc_state := push_waiting ?u (vc_state (set_request ?u rq core))\<rparr>"
  have reqs: "requests (vc_state ?core') = hm_insert ?u rq (requests (vc_state core))" "running (vc_state ?core') = running (vc_state core)"
    by (simp_all add: push_waiting_def)
  have "queue_inv (vc_state ?core')"
    using receive_inv [of "vc_state core" ?u rq] core_invD(1) [OF inv] ok
    by (simp add: set_request_state rq_def acceptable_def)
  then have "core_inv E R d2 ?core'" if "ids_ok R N d2" for N
    using inv bk [OF that] rqi reqs by (auto simp: core_inv_def)
  moreover have "receive E R request core d = Some ((?u, ?core'), d2)"
    using a(1) rq_request_invariants [OF rqi] reqs unfolding receive_def request_id_def d1_def rq_def [symmetric]
    by (cases "dr_uuid request") (simp_all add: Let_def rq_def)
  ultimately show ?thesis using reqs dd by auto
qed

end
