(* ===== verification/VllmLive.thy ===== *)
theory VllmLive
  imports VllmInv
begin

text \<open>
  Progress of the scheduler. Under LIFO preemption, with a cache that has room for any one of the
  requests and a token budget that covers them all, every pass lets the first running request emit a
  token: the victims of a shortage come off the end of the running queue, and a request that is alone
  is never refused a block. So the tokens that are still owed go down with every pass.
\<close>

section \<open>A request that is alone\<close>

text \<open>All blocks are held by one request.\<close>

definition sole :: "Uuid \<Rightarrow> 'f VllmCore \<Rightarrow> bool" where
  "sole u core = (\<forall>v rq. v \<noteq> u \<longrightarrow> hm_get (requests (vc_state core)) v = Some rq \<longrightarrow> held rq = [])"

text \<open>The whole request fits into the cache.\<close>

definition roomy :: "nat \<Rightarrow> VllmRequestState \<Rightarrow> bool" where
  "roomy cap rq = (div_ceil (num_input_tokens (rq_sequence rq) + max_output_tokens (rq_sequence rq)) (as_block_size (rq_sequence rq)) \<le> cap)"

lemma tally_sole:
  assumes "hm_wf reqs" "hm_get reqs u = Some rq" "\<forall>v rq. v \<noteq> u \<longrightarrow> hm_get reqs v = Some rq \<longrightarrow> held rq = []"
  shows "tally held reqs b = count_list (held rq) b"
proof -
  have "tally held (hm_remove u reqs) b = 0"
    using assms by (auto simp: tally_def hm_sum_0)
  then show ?thesis using tally_remove [OF assms(1,2), of held b] by simp
qed

lemma sole_ledger:
  assumes "core_inv E R d core" "hm_get (requests (vc_state core)) u = Some rq" "sole u core"
  shows "kv_ledger (vc_kv core) b = count_list (held rq) b"
  using tally_sole [OF queue_invD(1) [OF core_invD(1) [OF assms(1)]] assms(2), of b] assms(3) core_invD(4) [OF assms(1)]
  by (simp add: sole_def)

lemma sole_enough:
  assumes inv: "core_inv E R d core" "ids_ok R N d" and get: "hm_get (requests (vc_state core)) u = Some rq"
    and target: "target \<le> as_len (rq_sequence rq)" and "sole u core" and room: "roomy (max_capacity (vc_kv core)) rq"
    and run: "try_allocate E u target core = Some ((c, enough), core1)"
  shows enough
proof (rule ccontr)
  assume short: "\<not> enough"
  obtain m w where core1: "core1 = set_request u (progressed rq m c) (set_world w core)" "core_inv E R d core1"
    and less: "blocks_for (rq_sequence rq) m < blocks_for (rq_sequence rq) target"
    using try_allocate_ok [OF inv get target] run short by (metis Pair_inject option.inject)
  have get1: "hm_get (requests (vc_state core1)) u = Some (progressed rq m c)" and "sole u core1"
    using core1(1) assms(5) by (simp_all add: sole_def)
  note ledger = sole_ledger [OF core1(2) this]
  have kv1: "vc_kv core1 = fst w" using core1(1) by simp
  show False
    using run
  proof (cases rule: try_allocate_cases)
    case (asked request blocks hs ps ids parent granted w')
    have w: "fst w' = fst w" using asked(6) kv1 by simp
    have "max_capacity (fst w') = max_capacity (vc_kv core)"
      using kv.capacity_law [OF _ asked(4)] core_invD(2) [OF inv(1)] by simp
    moreover have "max_capacity (fst w') \<le> length (held (progressed rq m c))"
      using kv.refused [OF _ asked(4), of "held (progressed rq m c)"] core_invD(2) [OF inv(1)] asked(5) short ledger kv1 w by simp
    moreover have "length (held (progressed rq m c)) \<le> blocks_for (rq_sequence rq) m" by simp
    moreover have "blocks_for (rq_sequence rq) target \<le> div_ceil target (as_block_size (rq_sequence rq))" by (simp add: blocks_for_def)
    moreover have "\<dots> \<le> div_ceil (num_input_tokens (rq_sequence rq) + max_output_tokens (rq_sequence rq)) (as_block_size (rq_sequence rq))"
      using target rq_invD(5,6) [OF core_invD(3) [OF inv(1) get]] by (intro div_ceil_mono) simp
    ultimately show False using less room by (simp add: roomy_def)
  qed (use short in simp_all)
qed


section \<open>What scheduling leaves alone\<close>

text \<open>The request as it was sent, and how many tokens it has already got.\<close>

definition job :: "VllmRequestState \<Rightarrow> nat \<times> nat \<times> nat" where
  "job rq = (num_input_tokens (rq_sequence rq), max_output_tokens (rq_sequence rq), generated_tokens (rq_sequence rq))"

definition steady :: "'f VllmCore \<Rightarrow> 'f VllmCore \<Rightarrow> bool" where
  "steady core core' = (vc_args core' = vc_args core \<and> max_capacity (vc_kv core') = max_capacity (vc_kv core) \<and>
     (\<forall>u. map_option job (hm_get (requests (vc_state core')) u) = map_option job (hm_get (requests (vc_state core)) u)))"

lemma steady_refl [simp]: "steady core core"
  by (simp add: steady_def)

lemma steady_trans: "steady core core1 \<Longrightarrow> steady core1 core2 \<Longrightarrow> steady core core2"
  by (simp add: steady_def)

lemma job_simps [simp]: "job (progressed rq m c) = job rq" "job (preempted_request rq) = job rq" "job (rq\<lparr>rq_status := s\<rparr>) = job rq"
  by (simp_all add: job_def progressed_def preempted_request_def)

lemma steady_preempt:
  "hm_get (requests (vc_state core)) u = Some rq \<Longrightarrow> max_capacity (fst w) = max_capacity (vc_kv core) \<Longrightarrow>
     steady core (set_world w (core\<lparr>vc_state := preempted_state u rq q (vc_state core)\<rparr>))"
  by (simp add: steady_def preempted_state_def)

lemma try_allocate_capacity:
  assumes "kc_inv (vc_kv core)" "try_allocate E u target core = Some (r, core')"
  shows "max_capacity (vc_kv core') = max_capacity (vc_kv core)"
  using assms(2)
proof (cases rule: try_allocate_cases)
  case (asked request blocks hs ps ids parent granted w)
  then show ?thesis using kv.capacity_law [OF _ asked(4)] assms(1) by simp
qed simp_all

lemma process_all_capacity:
  assumes "kc_inv (fst w)" "process_all E evs w = Some w'"
  shows "max_capacity (fst w') = max_capacity (fst w)"
  using kv.run_all_capacity [OF assms(1), of E evs w'] assms(2) by (simp add: run_all_process)

text \<open>Waiting requests hold nothing, with at most one exception.\<close>

definition idle_but :: "Uuid set \<Rightarrow> 'f VllmCore \<Rightarrow> bool" where
  "idle_but us core = (\<forall>v rq. v \<notin> us \<longrightarrow> v \<notin> running_members (vc_state core) \<longrightarrow>
     hm_get (requests (vc_state core)) v = Some rq \<longrightarrow> held rq = [])"

text \<open>The work of a pass that is on the books belongs to running requests, and is no more than their tokens.\<close>

definition lean :: "pass_acc \<Rightarrow> 'f VllmCore \<Rightarrow> bool" where
  "lean acc core = (hm_wf (scheduled acc) \<and> (\<forall>v work. hm_get (scheduled acc) v = Some work \<longrightarrow>
     v \<in> running_members (vc_state core) \<and> (\<exists>rq. hm_get (requests (vc_state core)) v = Some rq \<and> total_tokens work \<le> as_len (rq_sequence rq))))"

lemma undo_work_get: "hm_get (scheduled (undo_work args u acc)) = (hm_get (scheduled acc))(u := None)"
  by (auto simp: undo_work_def Let_def fun_eq_iff split: option.splits)

lemma lean_preempt:
  assumes "lean acc core"
  shows "lean (undo_work args u acc) (set_world w (core\<lparr>vc_state := preempted_state u rq q (vc_state core)\<rparr>))"
  using assms undo_work_budget(1) [of acc args u] by (auto simp: lean_def undo_work_get preempted_state_def)

lemma lean_progressed:
  assumes "lean acc core" "hm_get (requests (vc_state core)) u = Some rq"
  shows "lean acc (set_request u (progressed rq m c) (set_world w core))"
  using assms by (fastforce simp: lean_def)


section \<open>The loop that makes room\<close>

text \<open>
  Under LIFO preemption the victims come off the end of the running queue. A request that asks for room
  in vain is preempted itself only when others run before it.
\<close>

definition room_made :: "Uuid \<Rightarrow> nat \<Rightarrow> VllmRequestState \<Rightarrow> 'f VllmCore \<Rightarrow> nat option \<Rightarrow> 'f VllmCore \<Rightarrow> bool" where
  "room_made u target rq core r core' =
     (case r of
        Some c \<Rightarrow> c = target \<and> (\<exists>m. hm_get (requests (vc_state core')) u = Some (progressed rq m target)) \<and>
          (u \<in> running_members (vc_state core) \<longrightarrow> u \<in> running_members (vc_state core')) \<and>
          (\<exists>ys. running (vc_state core) = running (vc_state core') @ ys)
      | None \<Rightarrow> running (vc_state core') \<noteq> [] \<and> (\<exists>ys. running (vc_state core) = running (vc_state core') @ u # ys))"

lemma schedule_loop_live:
  assumes "core_inv E R d core" "ids_ok R N d" "all_live core" "preemption_mode (vc_args core) = Lifo"
    and "hm_get (requests (vc_state core)) uuid = Some rq" "target \<le> as_len (rq_sequence rq)"
    and "roomy (max_capacity (vc_kv core)) rq" "idle_but {uuid} core" "lean acc core"
  shows "\<exists>r acc' core'. schedule_loop E uuid target acc core = Some (r, acc', core') \<and> room_made uuid target rq core r core' \<and>
    core_inv E R d core' \<and> all_live core' \<and> steady core core' \<and> idle_but (if r = None then {} else {uuid}) core' \<and> lean acc' core' \<and> spares uuid core core' \<and>
    hm_get (scheduled acc') \<subseteq>\<^sub>m hm_get (scheduled acc)"
  using assms
proof (induction E uuid target acc core arbitrary: rq rule: schedule_loop.induct)
  case (1 E uuid target acc core)
  note inv = "1.prems"(1,2) and get = "1.prems"(5)
  obtain c m w enough where
    t: "try_allocate E uuid target core = Some ((c, enough), set_request uuid (progressed rq m c) (set_world w core))"
    and core1: "core_inv E R d (set_request uuid (progressed rq m c) (set_world w core))" and c: "enough \<Longrightarrow> c = target"
    using try_allocate_ok [OF inv get "1.prems"(6)] by metis
  define core1 where "core1 = set_request uuid (progressed rq m c) (set_world w core)"
  note t = t [folded core1_def] and core1 = core1 [folded core1_def]
  have get1: "hm_get (requests (vc_state core1)) uuid = Some (progressed rq m c)" and live1: "all_live core1"
    and run1: "running (vc_state core1) = running (vc_state core)" "running_members (vc_state core1) = running_members (vc_state core)"
    and idle1: "idle_but {uuid} core1" and sp1: "spares uuid core core1" and mode1: "preemption_mode (vc_args core1) = Lifo"
    using "1.prems"(3,4,8) by (simp_all add: core1_def all_live_def idle_but_def)
  have lean1: "lean acc core1" unfolding core1_def using lean_progressed [OF "1.prems"(9) get] .
  have cap: "max_capacity (vc_kv core1) = max_capacity (vc_kv core)"
    using try_allocate_capacity [OF core_invD(2) [OF inv(1)] t] .
  then have st1: "steady core core1" using get by (simp add: steady_def core1_def)
  show ?case
  proof (cases enough)
    case True
    then have "schedule_loop E uuid target acc core = Some (Some c, acc, core1)"
      using t by (subst schedule_loop.simps) simp
    moreover have "room_made uuid target rq core (Some c) core1" using c [OF True] get1 run1 by (auto simp: room_made_def)
    ultimately show ?thesis using core1 live1 st1 idle1 sp1 lean1 map_le_refl by auto
  next
    case False
    have not_sole: "\<not> sole uuid core" using sole_enough [OF inv get "1.prems"(6) _ "1.prems"(7) t] False by blast
    show ?thesis
      using core1 inv(2)
    proof (cases rule: preempt_ok [where mode = "preemption_mode (vc_args core1)"])
      case none
      then have "sole uuid core" using "1.prems"(8) run1 by (auto simp: idle_but_def sole_def)
      then show ?thesis using not_sole by blast
    next
      case (victim u rq' q dead w')
      let ?core2 = "set_world w' (core1\<lparr>vc_state := preempted_state u rq' q (vc_state core1)\<rparr>)"
      let ?pr = "\<lparr>pr_uuid = u, pr_signals = map (\<lambda>b. Deref [b]) (rev (held rq'))\<rparr>"
      let ?acc1 = "undo_work (vc_args ?core2) (pr_uuid ?pr) acc"
      have live2: "all_live ?core2" using preempted_live [OF live1 core1 victim(1-4)] .
      have "set dead \<subseteq> running_members (vc_state core1)" using victim(3) live1 mode1 by (auto simp: all_live_def around_def)
      then have dead: "dead = []" using victim(4) by (simp add: inf.absorb1)
      then have q: "running (vc_state core) = q @ [u]" using victim(3) run1 mode1 by (simp add: around_def)
      have lean2: "lean ?acc1 ?core2" using lean_preempt [OF lean1] by simp
      have idle2: "idle_but ({uuid} - {u}) ?core2"
        using idle1 preempted_held [OF rq_invD(1) [OF core_invD(3) [OF core1 victim(2)]]] by (auto simp: idle_but_def preempted_state_def)
      have cap2: "max_capacity (vc_kv ?core2) = max_capacity (vc_kv core1)"
        using process_all_capacity [OF _ victim(6)] core_invD(2) [OF core1] by simp
      then have st2: "steady core ?core2" using steady_trans [OF st1 steady_preempt [OF victim(2)]] by simp
      have map2: "hm_get (scheduled ?acc1) \<subseteq>\<^sub>m hm_get (scheduled acc)" by (simp add: undo_work_get map_le_def)
      have sp2: "spares uuid core ?core2"
        using spares_trans [OF sp1 spares_preempt [of q core1]] q run1 by simp
      have step: "schedule_loop E uuid target acc core =
          (if u = uuid then Some (None, ?acc1, ?core2) else schedule_loop E uuid target ?acc1 ?core2)"
        using t False victim(5,6) by (subst schedule_loop.simps) (simp add: Let_def)
      show ?thesis
      proof (cases "u = uuid")
        case True
        have "q \<noteq> []"
        proof
          assume "q = []"
          then have "running_members (vc_state core) = {uuid}" using q True "1.prems"(3) by (simp add: all_live_def)
          then have "sole uuid core" using "1.prems"(8) by (auto simp: idle_but_def sole_def)
          then show False using not_sole by blast
        qed
        then have "room_made uuid target rq core None ?core2" using True q by (simp add: room_made_def preempted_state_def)
        then show ?thesis using True step victim(7) live2 st2 idle2 lean2 sp2 map2 by simp
      next
        case other: False
        have get2: "hm_get (requests (vc_state ?core2)) uuid = Some (progressed rq m c)"
          using get1 other by (simp add: preempted_state_def)
        have p: "process_all E (pr_signals ?pr) (world core1) = Some w'" and ne: "pr_uuid ?pr \<noteq> uuid" using victim(6) other by simp_all
        have room2: "roomy (max_capacity (vc_kv ?core2)) (progressed rq m c)"
          using "1.prems"(7) cap cap2 by (simp add: roomy_def progressed_def)
        have mode2: "preemption_mode (vc_args ?core2) = Lifo" using mode1 by simp
        obtain r acc' core' where s: "schedule_loop E uuid target ?acc1 ?core2 = Some (r, acc', core')"
          and made: "room_made uuid target (progressed rq m c) ?core2 r core'"
          and rest: "core_inv E R d core'" "all_live core'" "steady ?core2 core'" "idle_but (if r = None then {} else {uuid}) core'" "lean acc' core'" "spares uuid ?core2 core'"
            "hm_get (scheduled acc') \<subseteq>\<^sub>m hm_get (scheduled ?acc1)"
          using "1.IH" [OF t refl refl False victim(5) refl refl p refl refl ne victim(7) inv(2) live2 mode2 get2 _ room2 _ lean2]
            "1.prems"(6) idle2 other by auto
        have "room_made uuid target rq core r core'"
          using made q other by (cases r) (auto simp: room_made_def preempted_state_def run1)
        then show ?thesis using step other s rest steady_trans [OF st2] spares_trans [OF sp2] map_le_trans [OF rest(7) map2] by auto
      qed
    qed
  qed
qed


section \<open>Scheduling with budget to spare\<close>

text \<open>
  Requests that a worker can finish, each on its own: no request is done already, and the cache has
  room for the whole of any one of them.
\<close>

definition drainable :: "'f VllmCore \<Rightarrow> bool" where
  "drainable core = (preemption_mode (vc_args core) = Lifo \<and>
     (\<forall>u rq. hm_get (requests (vc_state core)) u = Some rq \<longrightarrow>
        generated_tokens (rq_sequence rq) < max_output_tokens (rq_sequence rq) \<and>
        div_ceil (num_input_tokens (rq_sequence rq) + max_output_tokens (rq_sequence rq)) (arg_block_size (vc_args core)) \<le> max_capacity (vc_kv core)))"

lemma steady_get:
  assumes "steady core core'" "hm_get (requests (vc_state core')) u = Some rq'"
  obtains rq where "hm_get (requests (vc_state core)) u = Some rq" "job rq' = job rq"
proof -
  have "map_option job (hm_get (requests (vc_state core)) u) = Some (job rq')"
    using assms unfolding steady_def by (metis option.simps(9))
  then show thesis using that by auto
qed

lemma drainable_steady:
  assumes "steady core core'" "drainable core"
  shows "drainable core'"
proof -
  have "generated_tokens (rq_sequence rq') < max_output_tokens (rq_sequence rq') \<and>
      div_ceil (num_input_tokens (rq_sequence rq') + max_output_tokens (rq_sequence rq')) (arg_block_size (vc_args core)) \<le> max_capacity (vc_kv core)"
    if "hm_get (requests (vc_state core')) u = Some rq'" for u rq'
    using steady_get [OF assms(1) that] assms(2) unfolding drainable_def job_def by (metis prod.inject)
  then show ?thesis using assms by (simp add: drainable_def steady_def)
qed

lemma drainable_roomy:
  "drainable core \<Longrightarrow> core_inv E R d core \<Longrightarrow> hm_get (requests (vc_state core)) u = Some rq \<Longrightarrow> roomy (max_capacity (vc_kv core)) rq"
  using rq_invD(2) [OF core_invD(3), of E R d core u rq] by (simp add: drainable_def roomy_def)

definition caught_up :: "'f VllmCore \<Rightarrow> Uuid \<Rightarrow> bool" where
  "caught_up core u = (\<exists>rq. hm_get (requests (vc_state core)) u = Some rq \<and> as_len (rq_sequence rq) \<le> num_computed_tokens rq)"

definition outcome_live :: "Uuid \<Rightarrow> bool \<Rightarrow> 'f VllmCore \<Rightarrow> ScheduleOutcome \<Rightarrow> 'f VllmCore \<Rightarrow> bool" where
  "outcome_live u from_waiting core r core' =
     ((\<forall>v. v \<noteq> u \<longrightarrow> v \<in> running_members (vc_state core') \<longrightarrow> hm_get (requests (vc_state core')) v = hm_get (requests (vc_state core)) v) \<and>
      (case r of
         Scheduled used admission \<Rightarrow> caught_up core' u \<and> u \<in> set (running (vc_state core')) \<and>
           (\<exists>xs ys. running (vc_state core) = xs @ ys \<and> running (vc_state core') = xs @ (if from_waiting then [u] else []))
       | CurrentPreempted \<Rightarrow> \<not> from_waiting \<and> running (vc_state core') \<noteq> [] \<and>
           (\<exists>ys. running (vc_state core) = running (vc_state core') @ u # ys)
       | Blocked \<Rightarrow> False))"

lemma account_work_all:
  assumes "hm_get (requests (vc_state core)) u = Some rq" "request_invariants E rq = Some ()" "as_len (rq_sequence rq) = actual"
    and "hm_get (scheduled acc) u = None" "actual \<le> token_budget acc"
  shows "\<exists>used admission acc'. account_work E u from_waiting cached before plen actual acc core = Some (Scheduled used admission, acc',
      if from_waiting then core\<lparr>vc_state := transition_to_running u (vc_state core)\<rparr> else core) \<and>
    spent_and_left acc' = spent_and_left acc \<and> (\<exists>work. scheduled acc' = hm_insert u work (scheduled acc) \<and> total_tokens work \<le> actual)"
  using assms by (auto simp: account_work_def Let_def request_sequence_len_def spent_and_left_def hm_sum_new)

lemma schedule_request_live:
  assumes inv: "core_inv E R d core" "ids_ok R N d" and live: "all_live core" and drain: "drainable core"
    and get: "hm_get (requests (vc_state core)) uuid = Some rq" and idle: "idle_but {} core" and lean: "lean acc core"
    and budget: "as_len (rq_sequence rq) \<le> token_budget acc" and new: "hm_get (scheduled acc) uuid = None"
    and queue: "if from_waiting then uuid \<in> waiting_members (vc_state core) else uuid \<in> running_members (vc_state core)"
  shows "\<exists>r acc' core'. schedule_request E uuid from_waiting acc core = Some (r, acc', core') \<and> outcome_live uuid from_waiting core r core' \<and>
    core_inv E R d core' \<and> all_live core' \<and> steady core core' \<and> idle_but {} core' \<and> lean acc' core' \<and> spent_and_left acc' = spent_and_left acc \<and>
    dom (hm_get (scheduled acc')) \<subseteq> insert uuid (dom (hm_get (scheduled acc)))"
proof -
  let ?before = "num_computed_tokens rq + cached_prefix core rq" and ?plen = "num_input_tokens (rq_sequence rq)" and ?len = "as_len (rq_sequence rq)"
  have rqi: "rq_inv E (vc_args core) rq" using core_invD(3) [OF inv(1) get] .
  have before: "?before \<le> ?len" using cached_prefix_le [OF rqi, of core] .
  have plen: "?plen \<le> ?len" using rq_invD(5) [OF rqi] by simp
  have lifo: "preemption_mode (vc_args core) = Lifo" using drain by (simp add: drainable_def)
  have idle1: "idle_but {uuid} core" using idle by (auto simp: idle_but_def)
  obtain r acc1 core1 where loop: "schedule_loop E uuid ?len acc core = Some (r, acc1, core1)"
    and made: "room_made uuid ?len rq core r core1"
    and c1: "core_inv E R d core1" "all_live core1" "steady core core1" "idle_but (if r = None then {} else {uuid}) core1" "lean acc1 core1" "spares uuid core core1"
      "hm_get (scheduled acc1) \<subseteq>\<^sub>m hm_get (scheduled acc)"
    using schedule_loop_live [OF inv live lifo get le_refl drainable_roomy [OF drain inv(1) get] idle1 lean] by blast
  have wf: "hm_wf (scheduled acc)" using lean by (simp add: lean_def)
  note bud = schedule_loop_budget [OF loop wf]
  have ri: "request_invariants E rq = Some ()" using rq_request_invariants [OF rqi] by blast
  have start: "schedule_request E uuid from_waiting acc core = (case r of None \<Rightarrow> Some (CurrentPreempted, acc1, core1)
      | Some actual \<Rightarrow> account_work E uuid from_waiting (cached_prefix core rq) ?before ?plen actual acc1 core1)"
    using schedule_request_eq [OF get ri, of from_waiting acc] budget before plen loop by (auto simp: min_def)
  show ?thesis
  proof (cases r)
    case None
    then obtain ys where m: "running (vc_state core1) \<noteq> []" "running (vc_state core) = running (vc_state core1) @ uuid # ys"
      using made by (auto simp: room_made_def)
    have "uuid \<in> running_members (vc_state core)" using m(2) live by (auto simp: all_live_def)
    then have fw: "\<not> from_waiting" using queue queue_invD(5,6) [OF core_invD(1) [OF inv(1)], of uuid] by auto
    have "outcome_live uuid from_waiting core CurrentPreempted core1" using m fw c1(6) by (simp add: outcome_live_def spares_def)
    then show ?thesis using start None c1 bud map_le_implies_dom_le [OF c1(7)] by auto
  next
    case (Some actual)
    then obtain m where act: "actual = ?len" and get1: "hm_get (requests (vc_state core1)) uuid = Some (progressed rq m ?len)"
      and here: "uuid \<in> running_members (vc_state core) \<longrightarrow> uuid \<in> running_members (vc_state core1)"
      and pre: "\<exists>ys. running (vc_state core) = running (vc_state core1) @ ys"
      using made by (auto simp: room_made_def)
    define core' where "core' = (if from_waiting then core1\<lparr>vc_state := transition_to_running uuid (vc_state core1)\<rparr> else core1)"
    have w: "uuid \<in> waiting_members (vc_state core1)" if from_waiting
      using queue_invD(5) [OF core_invD(1) [OF c1(1)]] queue_invD(5) [OF core_invD(1) [OF inv(1)]] queue that get get1 by auto
    have comp: "compacted_inv (vc_state core1)" using c1(2) core_invD(1) [OF c1(1)] by (simp add: compacted_inv_def all_live_def)
    have still: "rq_status (progressed rq m ?len) = Running" "uuid \<in> running_members (vc_state core1)" if "\<not> from_waiting"
      using that queue here get1 queue_invD(6) [OF core_invD(1) [OF c1(1)], of uuid] by auto
    have get': "hm_get (requests (vc_state core')) = (hm_get (requests (vc_state core1)))(uuid \<mapsto> progressed rq m ?len\<lparr>rq_status := Running\<rparr>)"
      using get1 still(1) by (auto simp: core'_def transition_to_running_def remove_from_waiting_def Let_def fun_eq_iff split: list.splits option.splits)
    have run': "running (vc_state core') = running (vc_state core1) @ (if from_waiting then [uuid] else [])"
      "running_members (vc_state core') = insert uuid (running_members (vc_state core1))"
      using transition_inv [OF comp w] still(2) comp by (auto simp: core'_def compacted_inv_def)
    obtain used admission acc' where acc: "account_work E uuid from_waiting (cached_prefix core rq) ?before ?plen actual acc1 core1 =
        Some (Scheduled used admission, acc', core')" "spent_and_left acc' = spent_and_left acc1"
        "\<exists>work. scheduled acc' = hm_insert uuid work (scheduled acc1) \<and> total_tokens work \<le> ?len"
    proof -
      have "hm_get (scheduled acc1) uuid = None" using c1(7) new by (metis domIff map_le_implies_dom_le subsetD)
      then have "\<exists>used admission acc'. account_work E uuid from_waiting (cached_prefix core rq) ?before ?plen actual acc1 core1 =
          Some (Scheduled used admission, acc', core') \<and> spent_and_left acc' = spent_and_left acc1 \<and>
          (\<exists>work. scheduled acc' = hm_insert uuid work (scheduled acc1) \<and> total_tokens work \<le> actual)"
        using rq_request_invariants [OF core_invD(3) [OF c1(1) get1]] bud budget act
        unfolding core'_def by (intro account_work_all [OF get1]) simp_all
      then show thesis using that act by blast
    qed
    have inv': "core_inv E R d core'" "all_live core'"
      using admitted_inv(1,2) [OF c1(1) inv(2) c1(2) w] c1 by (auto simp: core'_def)
    have "steady core1 core'" using get' get1 by (auto simp: steady_def core'_def fun_eq_iff)
    moreover have "idle_but {} core'" using c1(4) Some run' get' by (auto simp: idle_but_def)
    moreover have "lean acc' core'" using c1(5) acc(3) run' get' get1 by (fastforce simp: lean_def)
    moreover have "outcome_live uuid from_waiting core (Scheduled used admission) core'"
      using get' run' pre c1(6) inv'(2) by (auto simp: outcome_live_def caught_up_def all_live_def spares_def)
    moreover have "dom (hm_get (scheduled acc')) \<subseteq> insert uuid (dom (hm_get (scheduled acc)))"
    proof -
      have "dom (hm_get (scheduled acc')) = insert uuid (dom (hm_get (scheduled acc1)))" using acc(3) by auto
      then show ?thesis using map_le_implies_dom_le [OF c1(7)] by blast
    qed
    ultimately show ?thesis using start Some acc(1,2) inv' steady_trans [OF c1(3)] bud by auto
  qed
qed


text \<open>The budget covers every request that is not scheduled yet.\<close>

definition all_tokens :: "'f VllmCore \<Rightarrow> nat" where
  "all_tokens core = hm_sum (\<lambda>rq. as_len (rq_sequence rq)) (requests (vc_state core))"

lemma all_tokens_steady:
  assumes "core_inv E R d core" "core_inv E R d' core'" "steady core core'"
  shows "all_tokens core' \<le> all_tokens core"
  unfolding all_tokens_def
proof (rule hm_sum_le)
  show "hm_wf (requests (vc_state core))" "hm_wf (requests (vc_state core'))"
    using queue_invD(1) [OF core_invD(1) [OF assms(1)]] queue_invD(1) [OF core_invD(1) [OF assms(2)]] by auto
  show "\<exists>rq. hm_get (requests (vc_state core)) u = Some rq \<and> as_len (rq_sequence rq') \<le> as_len (rq_sequence rq)"
    if get': "hm_get (requests (vc_state core')) u = Some rq'" for u rq'
  proof (rule steady_get [OF assms(3) get'])
    fix rq
    assume "hm_get (requests (vc_state core)) u = Some rq" "job rq' = job rq"
    then show ?thesis using rq_invD(5) [OF core_invD(3) [OF assms(1)]] rq_invD(5) [OF core_invD(3) [OF assms(2) get']] by (auto simp: job_def)
  qed
qed

lemma budget_covers:
  assumes inv: "core_inv E R d core" and lean: "lean acc core" and all: "all_tokens core \<le> spent_and_left acc"
    and get: "hm_get (requests (vc_state core)) u = Some rq" and new: "hm_get (scheduled acc) u = None"
  shows "as_len (rq_sequence rq) \<le> token_budget acc"
proof -
  let ?work = "\<lparr>total_tokens = as_len (rq_sequence rq), prompt_tokens = 0, prefix_tokens = 0, prompt_len = 0, sequence_len = 0\<rparr>"
  have "hm_sum total_tokens (hm_insert u ?work (scheduled acc)) \<le> all_tokens core"
    unfolding all_tokens_def using lean get queue_invD(1) [OF core_invD(1) [OF inv]]
    by (intro hm_sum_le) (auto simp: lean_def split: if_splits)
  then show ?thesis using all hm_sum_new [OF new, of total_tokens ?work] by (simp add: spent_and_left_def)
qed

definition ready_first :: "'f VllmCore \<Rightarrow> bool" where
  "ready_first core = (running (vc_state core) \<noteq> [] \<and> caught_up core (hd (running (vc_state core))))"

lemma ready_first_kept:
  assumes "ready_first core" "running (vc_state core) = running (vc_state core') @ ys" "running (vc_state core') \<noteq> []" "all_live core'"
    and "\<forall>v. v \<noteq> u \<longrightarrow> v \<in> running_members (vc_state core') \<longrightarrow> hm_get (requests (vc_state core')) v = hm_get (requests (vc_state core)) v"
    and "hd (running (vc_state core)) \<noteq> u"
  shows "ready_first core'"
proof -
  have "hd (running (vc_state core')) = hd (running (vc_state core))" using assms(2,3) by simp
  moreover have "hd (running (vc_state core')) \<in> running_members (vc_state core')"
    using hd_in_set [OF assms(3)] assms(4) by (simp add: all_live_def)
  ultimately show ?thesis using assms(1,3,5,6) by (auto simp: ready_first_def caught_up_def)
qed

lemma distinct_position:
  assumes "distinct xs" "i < length xs"
  shows "xs = ys @ zs \<Longrightarrow> xs ! i \<in> set ys \<Longrightarrow> i < length ys" and "xs = ys @ xs ! i # zs \<Longrightarrow> i = length ys"
proof -
  show "i < length ys" if "xs = ys @ zs" "xs ! i \<in> set ys"
  proof (rule ccontr)
    assume "\<not> i < length ys"
    then have "xs ! i \<in> set zs" using that(1) assms(2) by (simp add: nth_append)
    then show False using assms(1) that by auto
  qed
  show "i = length ys" if "xs = ys @ xs ! i # zs"
    using assms that by (metis length_append length_Cons less_add_Suc1 nth_append_length nth_eq_iff_index_eq add_Suc_right)
qed

lemma running_loop_live:
  assumes "core_inv E R d core" "ids_ok R N d" "all_live core" "drainable core" "idle_but {} core" "lean acc core"
    and "all_tokens core \<le> spent_and_left acc" "dom (hm_get (scheduled acc)) \<subseteq> set (take i (running (vc_state core)))"
    and "0 < i \<Longrightarrow> ready_first core"
  shows "\<exists>acc' adm' core'. running_loop E i acc adm core = Some (acc', adm', core') \<and> core_inv E R d core' \<and> all_live core' \<and>
    steady core core' \<and> idle_but {} core' \<and> lean acc' core' \<and> spent_and_left acc' = spent_and_left acc \<and>
    (running (vc_state core) \<noteq> [] \<longrightarrow> ready_first core')"
  using assms
proof (induction E i acc adm core rule: running_loop.induct)
  case (1 E i acc adm core)
  note q = queue_invD [OF core_invD(1) [OF "1.prems"(1)]]
  have entry: "\<exists>rq. hm_get (requests (vc_state core)) u = Some rq" if "u \<in> set (running (vc_state core))" for u
    using q(6) [of u] "1.prems"(3) that by (auto simp: all_live_def)
  show ?case
  proof (cases "i < length (running (vc_state core)) \<and> 0 < token_budget acc")
    case False
    have "ready_first core" if ne: "running (vc_state core) \<noteq> []"
    proof (cases i)
      case 0
      then have "token_budget acc = 0" and empty: "dom (hm_get (scheduled acc)) = {}" using False ne "1.prems"(8) by auto
      obtain rq where rq: "hm_get (requests (vc_state core)) (hd (running (vc_state core))) = Some rq" using entry ne by fastforce
      have "hm_get (scheduled acc) (hd (running (vc_state core))) = None" using empty by auto
      then have "as_len (rq_sequence rq) \<le> 0" using budget_covers [OF "1.prems"(1,6,7) rq] \<open>token_budget acc = 0\<close> by simp
      then show ?thesis using rq ne by (simp add: ready_first_def caught_up_def)
    qed (use "1.prems"(9) in simp)
    then show ?thesis using False "1.prems" by (subst running_loop.simps) auto
  next
    case True
    let ?u = "running (vc_state core) ! i"
    have u: "?u \<in> set (running (vc_state core))" using True by simp
    then have um: "?u \<in> running_members (vc_state core)" using "1.prems"(3) by (simp add: all_live_def)
    obtain rq where rq: "hm_get (requests (vc_state core)) ?u = Some rq" using entry [OF u] by blast
    have "?u \<notin> set (take i (running (vc_state core)))" using True q(2) by (auto simp: in_set_conv_nth nth_eq_iff_index_eq)
    then have new: "hm_get (scheduled acc) ?u = None" using "1.prems"(8) by auto
    obtain r acc1 core1 where s: "schedule_request E ?u False acc core = Some (r, acc1, core1)" and out: "outcome_live ?u False core r core1"
      and c1: "core_inv E R d core1" "all_live core1" "steady core core1" "idle_but {} core1" "lean acc1 core1" "spent_and_left acc1 = spent_and_left acc"
        "dom (hm_get (scheduled acc1)) \<subseteq> insert ?u (dom (hm_get (scheduled acc)))"
      using schedule_request_live [OF "1.prems"(1-4) rq "1.prems"(5,6) budget_covers [OF "1.prems"(1,6,7) rq new] new, of False] um by auto
    have drain1: "drainable core1" using drainable_steady [OF c1(3) "1.prems"(4)] .
    have all1: "all_tokens core1 \<le> spent_and_left acc1" using all_tokens_steady [OF "1.prems"(1) c1(1,3)] "1.prems"(7) c1(6) by simp
    have same: "\<forall>v. v \<noteq> ?u \<longrightarrow> v \<in> running_members (vc_state core1) \<longrightarrow> hm_get (requests (vc_state core1)) v = hm_get (requests (vc_state core)) v"
      using out by (simp add: outcome_live_def)
    have hd_other: "hd (running (vc_state core)) \<noteq> ?u" if "0 < i"
      using True q(2) that by (cases "running (vc_state core)") (auto simp: nth_Cons')
    show ?thesis
    proof (cases r)
      case (Scheduled used admission)
      obtain ys where ys: "running (vc_state core) = running (vc_state core1) @ ys" "?u \<in> set (running (vc_state core1))" "caught_up core1 ?u"
        using out Scheduled by (auto simp: outcome_live_def)
      have i: "i < length (running (vc_state core1))" using distinct_position(1) [OF q(2)] True ys(1,2) by blast
      then have ne: "running (vc_state core1) \<noteq> []" by auto
      have first: "ready_first core1"
      proof (cases "i = 0")
        case True
        then have "?u = hd (running (vc_state core1))" using ys(1) ne by (simp add: hd_conv_nth nth_append)
        then show ?thesis using ys(3) ne by (simp add: ready_first_def)
      next
        case False
        then show ?thesis using ready_first_kept [OF "1.prems"(9) ys(1) ne c1(2) same hd_other] by blast
      qed
      have nth: "running (vc_state core1) ! i = ?u" using ys(1) i by (simp add: nth_append)
      have "dom (hm_get (scheduled acc1)) \<subseteq> set (take (i + 1) (running (vc_state core1)))"
        using c1(7) "1.prems"(8) ys(1) i nth by (auto simp: take_Suc_conv_app_nth)
      then show ?thesis
        using "1.IH"(1) [OF True s refl Scheduled refl c1(1) "1.prems"(2) c1(2) drain1 c1(4,5) all1 _ first] s True Scheduled
          steady_trans [OF c1(3)] c1(6) ne by (subst running_loop.simps) auto
    next
      case Blocked
      then show ?thesis using out by (simp add: outcome_live_def)
    next
      case CurrentPreempted
      obtain ys where ys: "running (vc_state core) = running (vc_state core1) @ ?u # ys" "running (vc_state core1) \<noteq> []"
        using out CurrentPreempted by (auto simp: outcome_live_def)
      have i: "i = length (running (vc_state core1))" using distinct_position(2) [OF q(2)] True ys(1) by blast
      then have pos: "0 < i" using ys(2) by simp
      have first: "ready_first core1" using ready_first_kept [OF "1.prems"(9) [OF pos] ys(1,2) c1(2) same hd_other [OF pos]] .
      have "dom (hm_get (scheduled acc1)) \<subseteq> set (take i (running (vc_state core1)))"
        using c1(2,5) i by (auto simp: lean_def all_live_def)
      then show ?thesis
        using "1.IH"(2) [OF True s refl CurrentPreempted refl c1(1) "1.prems"(2) c1(2) drain1 c1(4,5) all1 _ first] s True CurrentPreempted
          steady_trans [OF c1(3)] c1(6) ys(2) by (subst running_loop.simps) auto
    qed
  qed
qed


lemma next_waiting_live:
  assumes "core_inv E R d core" "all_live core" "next_waiting_uuid (vc_state core) = (u, state)"
  defines "core0 \<equiv> core\<lparr>vc_state := state\<rparr>"
  shows "core_inv E R d core0" "all_live core0" "steady core core0" "idle_but {} core \<Longrightarrow> idle_but {} core0" "lean acc core \<Longrightarrow> lean acc core0"
    "running (vc_state core0) = running (vc_state core)" "requests (vc_state core0) = requests (vc_state core)"
    "running_members (vc_state core0) = running_members (vc_state core)"
    "u = None \<Longrightarrow> waiting_members (vc_state core) = {}" "u = Some v \<Longrightarrow> v \<in> waiting_members (vc_state core0)"
proof -
  show "core_inv E R d core0" "all_live core0" "steady core core0" "idle_but {} core \<Longrightarrow> idle_but {} core0" "lean acc core \<Longrightarrow> lean acc core0"
    "running (vc_state core0) = running (vc_state core)" "requests (vc_state core0) = requests (vc_state core)"
    "running_members (vc_state core0) = running_members (vc_state core)" "u = Some v \<Longrightarrow> v \<in> waiting_members (vc_state core0)"
    using next_waiting_core [OF assms(1-3)] next_waiting_inv [OF core_invD(1) [OF assms(1)] assms(3)]
    by (auto simp: core0_def steady_def idle_but_def lean_def)
  show "waiting_members (vc_state core) = {}" if "u = None"
    using that next_waiting_first [OF core_invD(1) [OF assms(1)]] assms(3) queue_invD(3) [OF core_invD(1) [OF assms(1)]]
    by (auto simp: find_None_iff2)
qed

lemma waiting_loop_live:
  assumes "core_inv E R d core" "ids_ok R N d" "all_live core" "drainable core" "idle_but {} core" "lean acc core"
    and "all_tokens core \<le> spent_and_left acc"
    and "running (vc_state core) \<noteq> [] \<Longrightarrow> ready_first core"
  shows "\<exists>acc' adm' core'. waiting_loop E n acc adm core = Some (acc', adm', core') \<and> core_inv E R d core' \<and> all_live core' \<and>
    steady core core' \<and> idle_but {} core' \<and>
    (running (vc_state core) \<noteq> [] \<or> \<not> preempted_any acc \<and> 0 < n \<and> waiting_members (vc_state core) \<noteq> {} \<longrightarrow> ready_first core')"
  using assms
proof (induction E n acc adm core rule: waiting_loop.induct)
  case (1 E n acc adm core)
  show ?case
  proof (cases "\<not> preempted_any acc \<and> length (running (vc_state core)) < n")
    case False
    then have "running (vc_state core) \<noteq> []" if "\<not> preempted_any acc" "0 < n" using that by auto
    then show ?thesis using False "1.prems" by (subst waiting_loop.simps) auto
  next
    case True
    obtain u state where nw: "next_waiting_uuid (vc_state core) = (u, state)" by fastforce
    let ?core0 = "core\<lparr>vc_state := state\<rparr>"
    note c0 = next_waiting_live [OF "1.prems"(1,3) nw]
    have first0: "ready_first ?core0" if "running (vc_state core) \<noteq> []"
      using "1.prems"(8) [OF that] c0(6,7) by (simp add: ready_first_def caught_up_def)
    show ?thesis
    proof (cases u)
      case None
      then show ?thesis using True nw c0 first0 "1.prems"(5) by (subst waiting_loop.simps) simp
    next
      case (Some v)
      have w: "v \<in> waiting_members (vc_state ?core0)" using c0(10) Some by blast
      note q0 = queue_invD [OF core_invD(1) [OF c0(1)]]
      obtain rq where rq: "hm_get (requests (vc_state ?core0)) v = Some rq" "rq_status rq \<noteq> Running" using q0(5) [of v] w by auto
      have nr: "v \<notin> running_members (vc_state ?core0)" using q0(6) [of v] rq by auto
      have lean0: "lean acc ?core0" using c0(5) "1.prems"(6) by blast
      have all0: "all_tokens ?core0 \<le> spent_and_left acc" using "1.prems"(7) c0(7) by (simp add: all_tokens_def)
      have new: "hm_get (scheduled acc) v = None"
        using lean0 nr by (cases "hm_get (scheduled acc) v") (auto simp: lean_def)
      obtain r acc1 core1 where s: "schedule_request E v True acc ?core0 = Some (r, acc1, core1)" and out: "outcome_live v True ?core0 r core1"
        and c1: "core_inv E R d core1" "all_live core1" "steady ?core0 core1" "idle_but {} core1" "lean acc1 core1" "spent_and_left acc1 = spent_and_left acc"
        using schedule_request_live [OF c0(1) "1.prems"(2) c0(2) drainable_steady [OF c0(3) "1.prems"(4)] rq(1) c0(4) [OF "1.prems"(5)] lean0
            budget_covers [OF c0(1) lean0 all0 rq(1) new] new, of True] w by auto
      have st: "steady core core1" using steady_trans [OF c0(3) c1(3)] .
      obtain used admission where r: "r = Scheduled used admission" using out by (auto simp: outcome_live_def split: ScheduleOutcome.splits)
      obtain xs ys where xs: "running (vc_state ?core0) = xs @ ys" "running (vc_state core1) = xs @ [v]" and cu: "caught_up core1 v"
        using out r by (auto simp: outcome_live_def)
      have first1: "ready_first core1"
      proof (cases xs)
        case Nil
        then show ?thesis using xs(2) cu by (simp add: ready_first_def)
      next
        case (Cons x xs')
        then have "x \<in> running_members (vc_state core1)" "x \<noteq> v" using xs c1(2) nr c0(2) by (auto simp: all_live_def)
        then have "hm_get (requests (vc_state core1)) x = hm_get (requests (vc_state ?core0)) x" using out by (simp add: outcome_live_def)
        moreover have "ready_first ?core0" using first0 c0(6) xs(1) Cons by simp
        ultimately show ?thesis using Cons xs by (simp add: ready_first_def caught_up_def)
      qed
      have drain1: "drainable core1" using drainable_steady [OF st "1.prems"(4)] .
      have all1: "all_tokens core1 \<le> spent_and_left acc1" using all_tokens_steady [OF "1.prems"(1) c1(1) st] "1.prems"(7) c1(6) by simp
      show ?thesis
      proof (cases "used = 0 \<and> token_budget acc1 = 0")
        case stop: True
        then show ?thesis using True nw Some s r c1 st first1 by (subst waiting_loop.simps) (simp add: Let_def)
      next
        case False
        have ne: "running (vc_state core1) \<noteq> []" using xs(2) by simp
        show ?thesis
          using "1.IH" [OF True nw [symmetric] Some s refl r refl refl False c1(1) "1.prems"(2) c1(2) drain1 c1(4,5) all1 first1]
            True nw Some s r False steady_trans [OF st] ne by (subst waiting_loop.simps) (auto simp: Let_def)
      qed
    qed
  qed
qed


section \<open>Emitting\<close>

text \<open>A decode step that gets no block finds the cache full.\<close>

lemma process_signals_refused:
  "kc_inv (fst w) \<Longrightarrow> process_signals E sg w = Some (granted, w') \<Longrightarrow> kc_inv (fst w') \<and> max_capacity (fst w') = max_capacity (fst w) \<and>
     (\<not> granted \<longrightarrow> max_capacity (fst w') \<le> card {b. kv_ledger (fst w') b \<noteq> 0})"
proof (induction sg arbitrary: w)
  case (Cons ev sg)
  then obtain n w1 where ev: "process E ev w = Some (n, w1)" by (auto simp: run_simps)
  note c = kv.capacity_law [OF Cons.prems(1) ev]
  show ?case
  proof (cases "0 < n")
    case True
    then have "process_signals E sg w1 = Some (granted, w')" using Cons.prems(2) ev by simp
    then show ?thesis using Cons.IH [of w1] c by auto
  next
    case False
    then obtain blocks hs ps ids parent where use: "ev = Use blocks hs ps ids parent" "length blocks = 1" and w': "w' = w1" "\<not> granted"
      using Cons.prems(2) ev by (cases ev) (auto simp: run_simps split: if_splits)
    then have "max_capacity (fst w1) \<le> card {b. kv_ledger (fst w1) b \<noteq> 0}"
      using kv.refusal_law [OF Cons.prems(1), of E blocks hs ps ids parent n w1] ev False by simp
    then show ?thesis using c w' by simp
  qed
qed simp

lemma card_ledger: "\<forall>b. kv_ledger k b = count_list mine b \<Longrightarrow> card {b. kv_ledger k b \<noteq> 0} \<le> length mine"
proof -
  assume "\<forall>b. kv_ledger k b = count_list mine b"
  then have "{b. kv_ledger k b \<noteq> 0} = set mine" using count_list_0_iff [of mine] by auto
  then show ?thesis by (simp add: card_length)
qed

text \<open>A request that is alone gets the block for its next token.\<close>

lemma sole_emits:
  assumes inv: "core_inv E R d core" and inv1: "core_inv E R d' (set_request u (rq\<lparr>rq_sequence := a2\<rparr>) (set_world w core))"
    and get: "hm_get (requests (vc_state core)) u = Some rq" and rdy: "ready rq" "ready (rq\<lparr>rq_sequence := a2\<rparr>)"
    and a2: "grown 0 (rq_sequence rq) a2" and border: "as_len (rq_sequence rq) mod as_block_size (rq_sequence rq) = 0"
    and "sole u core" and room: "roomy (max_capacity (vc_kv core)) rq"
    and run: "process_signals E signals (world core) = Some (False, w)"
  shows False
proof -
  let ?rq = "rq\<lparr>rq_sequence := a2\<rparr>" and ?core1 = "set_request u (rq\<lparr>rq_sequence := a2\<rparr>) (set_world w core)" and ?n = "as_block_size (rq_sequence rq)"
  have "sole u ?core1" using assms(8) by (simp add: sole_def)
  then have "\<forall>b. kv_ledger (fst w) b = count_list (held ?rq) b" using sole_ledger [OF inv1, of u ?rq] by simp
  then have card: "card {b. kv_ledger (fst w) b \<noteq> 0} \<le> length (held ?rq)" by (rule card_ledger)
  have rqi: "rq_inv E (vc_args core) rq" using core_invD(3) [OF inv get] .
  have rqi1: "rq_inv E (vc_args core) ?rq" using core_invD(3) [OF inv1, of u ?rq] by simp
  have "length (held ?rq) = div_ceil (as_len a2) ?n"
    using ready_holds_all(3) [OF rqi1 rdy(2)] as_inv_length [OF rq_invD(1) [OF rqi1]] a2 by (simp add: grown_def same_request_def)
  also have "as_len a2 = as_len (rq_sequence rq)" using rq_invD(5) [OF rqi] rq_invD(5) [OF rqi1] a2 by (simp add: grown_def same_request_def)
  also have "div_ceil (as_len (rq_sequence rq)) ?n < div_ceil (as_len (rq_sequence rq) + 1) ?n"
  proof -
    have n: "0 < ?n" using rq_invD(1) [OF rqi] by (simp add: as_inv_def)
    obtain k where k: "as_len (rq_sequence rq) = k * ?n" using border by (metis dvd_def mod_0_imp_dvd mult.commute)
    have "\<not> div_ceil (k * ?n + 1) ?n \<le> k" using div_ceil_le_iff [OF n, of "k * ?n + 1" k] by simp
    then show ?thesis using k n by simp
  qed
  also have "\<dots> \<le> div_ceil (num_input_tokens (rq_sequence rq) + max_output_tokens (rq_sequence rq)) ?n"
    using rq_invD(5) [OF rqi] rdy(1) by (intro div_ceil_mono) (simp add: ready_def)
  finally have "length (held ?rq) < max_capacity (vc_kv core)" using room by (simp add: roomy_def)
  then show False using process_signals_refused [OF _ run] core_invD(2) [OF inv] card by simp
qed


text \<open>What an emission does to the requests: one of them gets a token, or none does.\<close>

definition one_more :: "Uuid \<Rightarrow> bool \<Rightarrow> bool \<Rightarrow> 'f VllmCore \<Rightarrow> 'f VllmCore \<Rightarrow> bool" where
  "one_more u emitted completed core core' = (vc_args core' = vc_args core \<and> max_capacity (vc_kv core') = max_capacity (vc_kv core) \<and>
     (\<forall>v. v \<noteq> u \<or> \<not> emitted \<longrightarrow> map_option job (hm_get (requests (vc_state core')) v) = map_option job (hm_get (requests (vc_state core)) v)) \<and>
     (emitted \<longrightarrow> (\<exists>rq rq'. hm_get (requests (vc_state core)) u = Some rq \<and> hm_get (requests (vc_state core')) u = Some rq' \<and>
        job rq' = (num_input_tokens (rq_sequence rq), max_output_tokens (rq_sequence rq), generated_tokens (rq_sequence rq) + 1) \<and>
        completed = (max_output_tokens (rq_sequence rq) \<le> generated_tokens (rq_sequence rq) + 1))))"

lemma one_more_steady: "one_more u False completed core core' = steady core core'"
  by (auto simp: one_more_def steady_def)

lemma one_more_trans:
  assumes "steady core core1" "one_more u emitted completed core1 core2"
  shows "one_more u emitted completed core core2"
proof (cases emitted)
  case True
  then obtain rq1 rq' where r: "hm_get (requests (vc_state core1)) u = Some rq1" "hm_get (requests (vc_state core2)) u = Some rq'"
    "job rq' = (num_input_tokens (rq_sequence rq1), max_output_tokens (rq_sequence rq1), generated_tokens (rq_sequence rq1) + 1)"
    "completed = (max_output_tokens (rq_sequence rq1) \<le> generated_tokens (rq_sequence rq1) + 1)"
    using assms(2) by (auto simp: one_more_def)
  obtain rq where "hm_get (requests (vc_state core)) u = Some rq" "job rq1 = job rq" by (rule steady_get [OF assms(1) r(1)])
  then show ?thesis using True r assms by (auto simp: one_more_def steady_def job_def)
qed (use assms in \<open>auto simp: one_more_def steady_def\<close>)

definition first_in_line :: "Uuid \<Rightarrow> 'f VllmCore \<Rightarrow> bool" where
  "first_in_line u core = (all_live core \<and> running (vc_state core) \<noteq> [] \<and> hd (running (vc_state core)) = u)"

lemma emit_one_live:
  assumes "core_inv E R d core" "ids_ok R N (d + 4 * Suc (length (running (vc_state core))))" "ready_or_gone core uuid"
    and "drainable core" "idle_but {} core"
  shows "\<exists>emitted completed core' d'. emit_one E R uuid core d = Some ((emitted, completed), core', d') \<and>
    one_more uuid emitted completed core core' \<and> idle_but {} core' \<and> (first_in_line uuid core \<longrightarrow> emitted)"
  using assms
proof (induction E R uuid core d rule: emit_one.induct)
  case (1 E R uuid core d)
  note inv = "1.prems"(1) and rd = ready_to_decode_ok [OF "1.prems"(1), of uuid]
  have ids: "ids_ok R N (d + 4)" using ids_ok_mono [OF "1.prems"(2)] by simp
  show ?case
  proof (cases "uuid \<in> running_members (vc_state core)")
    case False
    then have "emit_one E R uuid core d = Some ((False, False), core, d)"
      using rd by (subst emit_one.simps) (simp add: running_sequence_def)
    moreover have "\<not> first_in_line uuid core" using False hd_in_set [of "running (vc_state core)"] by (auto simp: first_in_line_def all_live_def)
    ultimately show ?thesis using "1.prems"(5) one_more_steady [of uuid False core core] by auto
  next
    case True
    then obtain rq where get: "hm_get (requests (vc_state core)) uuid = Some rq" and rdy: "ready rq"
      using "1.prems"(3) by (auto simp: ready_or_gone_def)
    have rs: "running_sequence (vc_state core) uuid = Some (rq_sequence rq)" using True get by (simp add: running_sequence_def)
    have kc: "kc_inv (fst (world core))" using core_invD(2) [OF inv] by simp
    show ?thesis
      using inv ids get rdy
    proof (cases rule: emit_attempt)
      case (again signals a' d' w)
      let ?core' = "set_request uuid (rq\<lparr>rq_sequence := commit_allocation a' (as_len a')\<rparr>) (set_world w core)"
      have "emit_one E R uuid core d = Some ((True, False), ?core', d')"
        using rd rs again get by (subst emit_one.simps) (simp add: Let_def set_sequence_def commit_allocation_def)
      moreover have "one_more uuid True False core ?core'"
        using conjunct1 [OF conjunct2 [OF process_signals_refused [OF kc again(3)]]] again(4,6) get
        by (simp add: one_more_def job_def grown_def same_request_def commit_allocation_def)
      moreover have "idle_but {} ?core'" using "1.prems"(5) True by (auto simp: idle_but_def)
      ultimately show ?thesis by blast
    next
      case (finished signals a' d' w)
      let ?core' = "set_request uuid (rq\<lparr>rq_sequence := a'\<rparr>) (set_world w core)"
      have "emit_one E R uuid core d = Some ((True, True), ?core', d')"
        using rd rs finished get by (subst emit_one.simps) (simp add: Let_def set_sequence_def)
      moreover have "one_more uuid True True core ?core'"
        using conjunct1 [OF conjunct2 [OF process_signals_refused [OF kc finished(3)]]] finished(4,7) get
        by (simp add: one_more_def job_def grown_def same_request_def)
      moreover have "idle_but {} ?core'" using "1.prems"(5) True by (auto simp: idle_but_def)
      ultimately show ?thesis by blast
    next
      case (undone signals a' d' w a2)
      let ?core1 = "set_request uuid (rq\<lparr>rq_sequence := a2\<rparr>) (set_world w core)"
      have set1: "set_sequence uuid a2 (set_world w core) = ?core1" using get by (simp add: set_sequence_def)
      have cap1: "max_capacity (fst w) = max_capacity (vc_kv core)" using process_signals_refused [OF kc undone(3)] by simp
      have st1: "steady core ?core1"
        using cap1 undone(7) get by (simp add: steady_def job_def grown_def same_request_def)
      have idle1: "idle_but {} ?core1" using "1.prems"(5) True by (auto simp: idle_but_def)
      have drain1: "drainable ?core1" using drainable_steady [OF st1 "1.prems"(4)] .
      have lifo: "preemption_mode (vc_args ?core1) = Lifo" using drain1 by (simp add: drainable_def)
      have not_sole: "\<not> sole uuid core"
        using sole_emits [OF inv undone(6) get rdy undone(5,7,8) _ drainable_roomy [OF "1.prems"(4) inv get] undone(3)] by blast
      show ?thesis
        using undone(6) ids_ok_mono [OF ids conjunct2 [OF undone(2)]]
      proof (cases rule: preempt_ok [where mode = "preemption_mode (vc_args ?core1)"])
        case none
        then show ?thesis using True by simp
      next
        case (victim u rq' q dead w')
        let ?pr = "\<lparr>pr_uuid = u, pr_signals = map (\<lambda>b. Deref [b]) (rev (held rq'))\<rparr>"
        let ?core2 = "set_world w' (?core1\<lparr>vc_state := preempted_state u rq' q (vc_state ?core1)\<rparr>)"
        have step: "emit_one E R uuid core d = (if u = uuid then Some ((False, False), ?core2, d') else emit_one E R uuid ?core2 d')"
          using rd rs undone victim(5,6) set1 by (subst emit_one.simps) (simp add: Let_def)
        have ql: "Suc (length q) \<le> length (running (vc_state core))"
          using victim(3) by (auto simp: around_def split: PreemptionMode.splits)
        have "max_capacity (fst w') = max_capacity (fst w)"
          using process_all_capacity [OF _ victim(6)] core_invD(2) [OF undone(6)] by simp
        then have st2: "steady core ?core2" using steady_trans [OF st1 steady_preempt [OF victim(2)]] by simp
        have idle2: "idle_but {} ?core2"
          using idle1 preempted_held [OF rq_invD(1) [OF core_invD(3) [OF undone(6) victim(2)]]] by (auto simp: idle_but_def preempted_state_def)
        have line: "u \<noteq> uuid \<and> first_in_line uuid ?core2" if first: "first_in_line uuid core"
        proof -
          have live1: "all_live ?core1" using first by (simp add: first_in_line_def all_live_def)
          then have live2: "all_live ?core2" using preempted_live [OF _ undone(6) victim(1-4)] by blast
          have "set dead \<subseteq> running_members (vc_state ?core1)" using victim(3) live1 lifo by (auto simp: all_live_def around_def)
          then have "dead = []" using victim(4) by (simp add: inf.absorb1)
          then have q: "running (vc_state core) = q @ [u]" using victim(3) lifo by (simp add: around_def)
          have "q \<noteq> []"
          proof
            assume "q = []"
            then have "running_members (vc_state core) = {uuid}" using q first by (auto simp: first_in_line_def all_live_def)
            then have "sole uuid core" using "1.prems"(5) by (auto simp: idle_but_def sole_def)
            then show False using not_sole by blast
          qed
          then have "hd q = uuid" using q first by (simp add: first_in_line_def)
          moreover have "u \<noteq> uuid"
            using queue_invD(2) [OF core_invD(1) [OF inv]] q \<open>hd q = uuid\<close> hd_in_set [OF \<open>q \<noteq> []\<close>] by auto
          ultimately show ?thesis using live2 \<open>q \<noteq> []\<close> by (simp add: first_in_line_def preempted_state_def)
        qed
        show ?thesis
        proof (cases "u = uuid")
          case True
          then show ?thesis using step line idle2 one_more_steady [of uuid False core ?core2] st2 by auto
        next
          case False
          have p: "process_all E (pr_signals ?pr) (world ?core1) = Some w'" and ne: "pr_uuid ?pr \<noteq> uuid" using victim(6) False by simp_all
          have rdy2: "ready_or_gone ?core2 uuid" using undone(5) False by (simp add: ready_or_gone_def preempted_state_def)
          have run2: "running (vc_state ?core2) = q" by (simp add: preempted_state_def)
          have d2: "d' + 4 * Suc (length (running (vc_state ?core2))) \<le> d + 4 * Suc (length (running (vc_state core)))"
            unfolding run2 using undone(2) ql by simp
          obtain em co core' d2 where e: "emit_one E R uuid ?core2 d' = Some ((em, co), core', d2)" "one_more uuid em co ?core2 core'"
            "idle_but {} core'" "first_in_line uuid ?core2 \<longrightarrow> em"
            using "1.IH" [OF rd rs undone(1) refl refl undone(3) refl refl undone(4) set1 [symmetric] victim(5) refl refl p refl ne victim(7)
                ids_ok_mono [OF "1.prems"(2) d2] rdy2 drainable_steady [OF st2 "1.prems"(4)] idle2] by blast
          then show ?thesis using step False one_more_trans [OF st2 e(2)] line by auto
        qed
      qed
    qed
  qed
qed


section \<open>What is still owed\<close>

definition owed :: "'f VllmCore \<Rightarrow> nat" where
  "owed core = hm_sum (\<lambda>rq. max_output_tokens (rq_sequence rq) - generated_tokens (rq_sequence rq)) (requests (vc_state core))"

text \<open>All the tokens the requests of a worker may come to have.\<close>

definition demand :: "'f VllmCore \<Rightarrow> nat" where
  "demand core = hm_sum (\<lambda>rq. num_input_tokens (rq_sequence rq) + max_output_tokens (rq_sequence rq)) (requests (vc_state core))"

text \<open>Requests may have left, and the others may have got tokens.\<close>

definition ahead :: "VllmRequestState \<Rightarrow> VllmRequestState \<Rightarrow> bool" where
  "ahead rq rq' = (num_input_tokens (rq_sequence rq') = num_input_tokens (rq_sequence rq) \<and>
     max_output_tokens (rq_sequence rq') = max_output_tokens (rq_sequence rq) \<and>
     generated_tokens (rq_sequence rq) \<le> generated_tokens (rq_sequence rq'))"

definition advanced :: "'f VllmCore \<Rightarrow> 'f VllmCore \<Rightarrow> bool" where
  "advanced core core' = (vc_args core' = vc_args core \<and> max_capacity (vc_kv core') = max_capacity (vc_kv core) \<and>
     (\<forall>u rq'. hm_get (requests (vc_state core')) u = Some rq' \<longrightarrow> (\<exists>rq. hm_get (requests (vc_state core)) u = Some rq \<and> ahead rq rq')))"

lemma ahead_refl [simp]: "ahead rq rq"
  by (simp add: ahead_def)

lemma ahead_trans: "ahead rq rq1 \<Longrightarrow> ahead rq1 rq2 \<Longrightarrow> ahead rq rq2"
  by (simp add: ahead_def)

lemma advanced_refl [simp]: "advanced core core"
  by (simp add: advanced_def)

lemma advanced_trans:
  assumes "advanced core core1" "advanced core1 core2"
  shows "advanced core core2"
  unfolding advanced_def
proof (intro conjI allI impI)
  fix u rq2
  assume "hm_get (requests (vc_state core2)) u = Some rq2"
  then obtain rq1 where "hm_get (requests (vc_state core1)) u = Some rq1" "ahead rq1 rq2" using assms(2) by (auto simp: advanced_def)
  moreover then obtain rq where "hm_get (requests (vc_state core)) u = Some rq" "ahead rq rq1" using assms(1) by (auto simp: advanced_def)
  ultimately show "\<exists>rq. hm_get (requests (vc_state core)) u = Some rq \<and> ahead rq rq2" using ahead_trans by blast
qed (use assms in \<open>simp_all add: advanced_def\<close>)

lemma job_ahead: "job rq' = job rq \<Longrightarrow> ahead rq rq'"
  by (simp add: job_def ahead_def)

lemma steady_advanced: "steady core core' \<Longrightarrow> advanced core core'"
  unfolding advanced_def
proof (intro conjI allI impI)
  fix u rq'
  assume "steady core core'" "hm_get (requests (vc_state core')) u = Some rq'"
  then show "\<exists>rq. hm_get (requests (vc_state core)) u = Some rq \<and> ahead rq rq'" by (rule steady_get) (auto intro: job_ahead)
qed (simp_all add: steady_def)

lemma advanced_sums:
  assumes "hm_wf (requests (vc_state core))" "hm_wf (requests (vc_state core'))" "advanced core core'"
  shows "owed core' \<le> owed core" "demand core' \<le> demand core"
proof -
  have a: "\<exists>rq. hm_get (requests (vc_state core)) u = Some rq \<and> ahead rq rq'" if "hm_get (requests (vc_state core')) u = Some rq'" for u rq'
    using assms(3) that by (simp add: advanced_def)
  show "owed core' \<le> owed core" unfolding owed_def by (rule hm_sum_le [OF assms(1,2)], drule a) (auto simp: ahead_def)
  show "demand core' \<le> demand core" unfolding demand_def by (rule hm_sum_le [OF assms(1,2)], drule a) (auto simp: ahead_def)
qed

lemma emitted_step:
  assumes wf: "hm_wf (requests (vc_state core))" "hm_wf (requests (vc_state core2))" and one: "one_more u emitted completed core core1"
    and drain: "drainable core" and co: "completed \<longrightarrow> emitted"
    and core2_def: "core2 = (if completed then core1\<lparr>vc_state := complete u (vc_state core1)\<rparr> else core1)"
  shows "advanced core core2 \<and> drainable core2 \<and> (emitted \<longrightarrow> owed core2 < owed core)"
proof (cases emitted)
  case False
  then have "steady core core2" using one co by (simp add: one_more_steady core2_def)
  then show ?thesis using steady_advanced drainable_steady drain False by blast
next
  case True
  obtain rq rq' where r: "hm_get (requests (vc_state core)) u = Some rq" "hm_get (requests (vc_state core1)) u = Some rq'"
    "job rq' = (num_input_tokens (rq_sequence rq), max_output_tokens (rq_sequence rq), generated_tokens (rq_sequence rq) + 1)"
    "completed = (max_output_tokens (rq_sequence rq) \<le> generated_tokens (rq_sequence rq) + 1)"
    using one True by (auto simp: one_more_def)
  have more: "generated_tokens (rq_sequence rq) < max_output_tokens (rq_sequence rq)" using drain r(1) by (simp add: drainable_def)
  have others: "\<exists>rqv. hm_get (requests (vc_state core)) v = Some rqv \<and> job rqv' = job rqv"
    if "v \<noteq> u" "hm_get (requests (vc_state core1)) v = Some rqv'" for v rqv'
  proof -
    have "map_option job (hm_get (requests (vc_state core)) v) = Some (job rqv')"
      using one that unfolding one_more_def by (metis option.simps(9))
    then show ?thesis by auto
  qed
  have same: "vc_args core2 = vc_args core" "max_capacity (vc_kv core2) = max_capacity (vc_kv core)"
    using one by (simp_all add: one_more_def core2_def)
  have get2: "hm_get (requests (vc_state core2)) = (hm_get (requests (vc_state core1)))(u := (if completed then None else Some rq'))"
    using r(2) by (auto simp: core2_def complete_def)
  have here: "rq2 = rq' \<and> \<not> completed" if "hm_get (requests (vc_state core2)) u = Some rq2" for rq2
    using that get2 by (auto split: if_splits)
  have there: "\<exists>rqv. hm_get (requests (vc_state core)) v = Some rqv \<and> job rq2 = job rqv"
    if "v \<noteq> u" "hm_get (requests (vc_state core2)) v = Some rq2" for v rq2
    using others [OF that(1)] that get2 by simp
  have "\<exists>rqv. hm_get (requests (vc_state core)) v = Some rqv \<and> ahead rqv rq2" if "hm_get (requests (vc_state core2)) v = Some rq2" for v rq2
  proof (cases "v = u")
    case True
    then show ?thesis using here that r(1,3) by (auto simp: job_def ahead_def)
  qed (use there that job_ahead in blast)
  then have "advanced core core2" using same by (simp add: advanced_def)
  moreover have "generated_tokens (rq_sequence rq2) < max_output_tokens (rq_sequence rq2) \<and>
      div_ceil (num_input_tokens (rq_sequence rq2) + max_output_tokens (rq_sequence rq2)) (arg_block_size (vc_args core2)) \<le> max_capacity (vc_kv core2)"
    if get: "hm_get (requests (vc_state core2)) v = Some rq2" for v rq2
  proof (cases "v = u")
    case True
    then show ?thesis using here get r drain same by (auto simp: job_def drainable_def)
  next
    case False
    obtain rqv where "hm_get (requests (vc_state core)) v = Some rqv" "job rq2 = job rqv" using there [OF False get] by blast
    then show ?thesis using drain same by (auto simp: job_def drainable_def)
  qed
  then have "drainable core2" using drain same by (simp add: drainable_def)
  moreover have "owed core2 < owed core"
  proof -
    let ?f = "\<lambda>rq. max_output_tokens (rq_sequence rq) - generated_tokens (rq_sequence rq)"
    let ?rest = "hm_sum ?f (hm_remove u (requests (vc_state core)))" and ?rest1 = "hm_sum ?f (hm_remove u (requests (vc_state core1)))"
    have "hm_wf (hm_remove u (requests (vc_state core1)))" using wf(2) by (simp add: core2_def complete_def split: if_splits)
    then have "?rest1 \<le> ?rest"
      using wf by (intro hm_sum_le) (auto simp: job_def split: if_splits dest!: others)
    moreover have "?rest + ?f rq = owed core" unfolding owed_def by (rule hm_sum_remove [OF wf(1) r(1)])
    moreover have "?rest1 + ?f rq' = owed core1" if "\<not> completed"
      unfolding owed_def using wf(2) that by (intro hm_sum_remove [OF _ r(2)]) (simp add: core2_def)
    moreover have "owed core2 = (if completed then ?rest1 else owed core1)" by (simp add: core2_def owed_def complete_def)
    ultimately show ?thesis using more r(3,4) by (auto simp: job_def)
  qed
  ultimately show ?thesis by blast
qed


lemma emit_loop_live:
  assumes "core_inv E R d core" "ids_ok R N (d + 4 * Suc (length (running (vc_state core))) * length us)" "distinct us" "\<forall>u \<in> set us. ready_or_gone core u"
    and "drainable core" "idle_but {} core"
  shows "\<exists>outs' core' d'. emit_loop E R us outs core d = Some (outs', core', d') \<and> core_inv E R d' core' \<and> advanced core core' \<and> drainable core' \<and> idle_but {} core' \<and>
    (us \<noteq> [] \<and> first_in_line (hd us) core \<longrightarrow> owed core' < owed core)"
  using assms
proof (induction us arbitrary: outs core d)
  case Nil
  then show ?case by auto
next
  case (Cons u us)
  have ids: "ids_ok R N (d + 4 * Suc (length (running (vc_state core))))" and rg: "ready_or_gone core u"
    using ids_ok_mono [OF Cons.prems(2)] Cons.prems(4) by simp_all
  from Cons.prems(1-4) show ?case
  proof (rule emit_loop_step, goal_cases)
    case (1 emitted completed core1 d1 core2)
    have live: "one_more u emitted completed core core1" "idle_but {} core1" "first_in_line u core \<longrightarrow> emitted"
      using emit_one_live [OF Cons.prems(1) ids rg Cons.prems(5,6)] 1(1) by auto
    have wf: "hm_wf (requests (vc_state core))" "hm_wf (requests (vc_state core2))"
      using queue_invD(1) [OF core_invD(1) [OF Cons.prems(1)]] queue_invD(1) [OF core_invD(1) [OF 1(6)]] .
    note step = emitted_step [OF wf live(1) Cons.prems(5) 1(2,3)]
    have idle2: "idle_but {} core2" using live(2) by (auto simp: 1(3) idle_but_def complete_def split: if_splits)
    let ?outs = "if emitted then outs @ [\<lparr>out_uuid = u, out_completed = completed\<rparr>] else outs"
    have "distinct us" using Cons.prems(3) by simp
    then obtain outs' core' d' where r: "emit_loop E R us ?outs core2 d1 = Some (outs', core', d')" "core_inv E R d' core'" "advanced core2 core'"
      "drainable core'" "idle_but {} core'"
      using Cons.IH [OF 1(6,9) _ 1(10) _ idle2] step by blast
    have "owed core' \<le> owed core2"
      using advanced_sums(1) [OF wf(2) _ r(3)] queue_invD(1) [OF core_invD(1) [OF r(2)]] by blast
    then have "first_in_line u core \<longrightarrow> owed core' < owed core" using step live(3) by auto
    then show ?case using r 1(4) advanced_trans [OF _ r(3)] step by auto
  qed
qed

text \<open>One pass over requests that can all be finished.\<close>

definition token_limit :: "MockEngineArgs \<Rightarrow> nat" where
  "token_limit args = (case max_num_batched_tokens args of Some n \<Rightarrow> n | None \<Rightarrow> usize_max)"

lemma emit_ready_live:
  assumes inv: "core_inv E R d core" "ids_ok R N (d + 4 * Suc (length (running (vc_state core))) * length (running (vc_state core)))"
    and live: "all_live core" "drainable core" "idle_but {} core" "ready_first core"
  shows "\<exists>res core' d'. emit_ready_tokens E R core d = Some (res, core', d') \<and> drainable core' \<and> idle_but {} core' \<and> advanced core core' \<and> owed core' < owed core"
proof -
  let ?ready = "ready_requests (vc_state core)"
  obtain u rest where run: "running (vc_state core) = u # rest" using live(4) by (cases "running (vc_state core)") (auto simp: ready_first_def)
  obtain rq where rq: "hm_get (requests (vc_state core)) u = Some rq" "as_len (rq_sequence rq) \<le> num_computed_tokens rq"
    using live(4) run by (auto simp: ready_first_def caught_up_def)
  moreover have "generated_tokens (rq_sequence rq) < max_output_tokens (rq_sequence rq)" using live(2) rq(1) by (simp add: drainable_def)
  ultimately have head: "?ready \<noteq> []" "hd ?ready = u" using run by (simp_all add: ready_requests_def)
  then have line: "?ready \<noteq> [] \<and> first_in_line (hd ?ready) core" using run live(1) by (simp add: first_in_line_def)
  have len: "d + 4 * Suc (length (running (vc_state core))) * length ?ready \<le>
      d + 4 * Suc (length (running (vc_state core))) * length (running (vc_state core))"
    by (intro add_left_mono mult_le_mono2) (simp add: ready_requests_def)
  have "distinct ?ready" using queue_invD(2) [OF core_invD(1) [OF inv(1)]] by (simp add: ready_requests_def)
  moreover have "\<forall>u \<in> set ?ready. ready_or_gone core u"
    by (auto simp: ready_requests_def ready_or_gone_def ready_def split: option.splits)
  ultimately obtain outs core1 d1 where r: "emit_loop E R ?ready [] core d = Some (outs, core1, d1)" "core_inv E R d1 core1" "advanced core core1"
    "drainable core1" "idle_but {} core1" "owed core1 < owed core"
    using emit_loop_live [OF inv(1) ids_ok_mono [OF inv(2) len] _ _ live(2,3)] line by blast
  let ?core2 = "core1\<lparr>vc_state := compact_running (vc_state core1)\<rparr>"
  have "steady core1 ?core2" "idle_but {} ?core2" "owed ?core2 = owed core1"
    using r(5) compact_running_inv(1) [OF core_invD(1) [OF r(2)]] by (simp_all add: steady_def idle_but_def owed_def)
  then have "drainable ?core2" "idle_but {} ?core2" "advanced core ?core2" "owed ?core2 < owed core"
    using drainable_steady [OF _ r(4)] advanced_trans [OF r(3) steady_advanced] r(6) by auto
  then show ?thesis using r head by (auto simp: emit_ready_tokens_def Let_def)
qed


definition drains :: "'f VllmCore \<Rightarrow> bool" where
  "drains core = (drainable core \<and> idle_but {} core \<and> demand core \<le> token_limit (vc_args core) \<and> max_num_seqs (vc_args core) \<noteq> Some 0)"

lemma steady_same_keys: "steady core core' \<Longrightarrow> same_keys core core'"
  unfolding steady_def same_keys_def set_eq_iff by (metis hm_get_keys option.map_disc_iff)

lemma all_tokens_demand:
  assumes "core_inv E R d core"
  shows "all_tokens core \<le> demand core"
  unfolding all_tokens_def demand_def
proof (rule hm_sum_le)
  show "hm_wf (requests (vc_state core))" "hm_wf (requests (vc_state core))" using queue_invD(1) [OF core_invD(1) [OF assms]] by auto
  show "\<exists>rq'. hm_get (requests (vc_state core)) u = Some rq' \<and>
      as_len (rq_sequence rq) \<le> num_input_tokens (rq_sequence rq') + max_output_tokens (rq_sequence rq')"
    if "hm_get (requests (vc_state core)) u = Some rq" for u rq
    using that rq_invD(5,6) [OF core_invD(3) [OF assms that]] by auto
qed

lemma execute_pass_live:
  assumes inv: "core_inv E R d core" "ids_ok R N (d + pass_draws core)" and drains: "drains core" and busy: "requests (vc_state core) \<noteq> []"
  shows "\<exists>res core' d'. execute_pass E R core d = Some (res, core', d') \<and> d \<le> d' \<and> d' \<le> d + pass_draws core \<and> core_inv E R d' core' \<and>
    drains core' \<and> advanced core core' \<and> owed core' < owed core"
proof -
  let ?core1 = "core\<lparr>vc_state := compact_running (vc_state core)\<rparr>"
  have ids: "ids_ok R N d" using ids_ok_mono [OF inv(2)] by simp
  note q = core_invD(1) [OF inv(1)]
  note cr = compact_running_inv(1) [OF q]
  note c1 = compact_core [OF inv(1)]
  have st1: "steady core ?core1" by (simp add: cr steady_def)
  have d1: "drainable ?core1" "idle_but {} ?core1" "demand ?core1 \<le> token_limit (vc_args ?core1)"
    using drains drainable_steady [OF st1] by (simp_all add: drains_def cr idle_but_def demand_def)
  have start: "lean (pass_start (vc_args core)) ?core1" "all_tokens ?core1 \<le> spent_and_left (pass_start (vc_args core))"
    "dom (hm_get (scheduled (pass_start (vc_args core)))) \<subseteq> set (take 0 (running (vc_state ?core1)))"
    using all_tokens_demand [OF c1(1)] d1(3) by (auto simp: lean_def pass_start_def spent_and_left_def token_limit_def split: option.splits)
  obtain acc2 adm2 core2 where r: "running_loop E 0 (pass_start (vc_args core)) [] ?core1 = Some (acc2, adm2, core2)"
    and c2: "core_inv E R d core2" "all_live core2" "steady ?core1 core2" "idle_but {} core2" "lean acc2 core2"
      "spent_and_left acc2 = spent_and_left (pass_start (vc_args core))" "running (vc_state ?core1) \<noteq> [] \<longrightarrow> ready_first core2"
    using running_loop_live [where adm = "[]", OF c1(1) ids c1(2) d1(1,2) start] by auto
  let ?n = "case max_num_seqs (vc_args core2) of Some n \<Rightarrow> n | None \<Rightarrow> usize_max"
  have n: "0 < ?n" using drains c2(3) by (auto simp: drains_def steady_def usize_max_def split: option.splits)
  have idle: "running (vc_state core2) \<noteq> [] \<or> \<not> preempted_any acc2 \<and> 0 < ?n \<and> waiting_members (vc_state core2) \<noteq> {}"
  proof (cases "running (vc_state ?core1) = []")
    case True
    then have "acc2 = pass_start (vc_args core)" "core2 = ?core1" using r by (subst (asm) running_loop.simps, simp)+
    moreover obtain u rq where u: "hm_get (requests (vc_state ?core1)) u = Some rq"
      using hm_nonempty [OF busy] by (auto simp: cr)
    have "rq_status rq \<noteq> Running" using u True c1(2) queue_invD(6) [OF core_invD(1) [OF c1(1)], of u] by (auto simp: all_live_def)
    then have "u \<in> waiting_members (vc_state ?core1)" using u queue_invD(5) [OF core_invD(1) [OF c1(1)], of u] by auto
    ultimately show ?thesis using n by (auto simp: pass_start_def)
  next
    case False
    then show ?thesis using c2(7) by (simp add: ready_first_def)
  qed
  have first2: "ready_first core2" if "running (vc_state core2) \<noteq> []"
  proof (cases "running (vc_state ?core1) = []")
    case True
    then have "core2 = ?core1" using r by (subst (asm) running_loop.simps) simp
    then show ?thesis using True that by simp
  qed (use c2(7) in blast)
  have all2: "all_tokens core2 \<le> spent_and_left acc2" using all_tokens_steady [OF c1(1) c2(1,3)] start(2) c2(6) by simp
  have drain2: "drainable core2" using drainable_steady [OF c2(3) d1(1)] .
  obtain acc3 adm3 core3 where w: "waiting_loop E ?n acc2 adm2 core2 = Some (acc3, adm3, core3)"
    and c3: "core_inv E R d core3" "all_live core3" "steady core2 core3" "idle_but {} core3" "ready_first core3"
    using waiting_loop_live [OF c2(1) ids c2(2) drain2 c2(4,5) all2 first2] idle by blast
  have st: "steady core core3" using steady_trans [OF steady_trans [OF st1 c2(3)] c3(3)] .
  note draws = emit_draws [OF inv(1) c3(1,2) steady_same_keys [OF st]]
  obtain res4 core4 d4 where e: "emit_ready_tokens E R core3 d = Some (res4, core4, d4)" "drainable core4" "idle_but {} core4" "advanced core3 core4"
    "owed core4 < owed core3"
    using emit_ready_live [OF c3(1) ids_ok_mono [OF inv(2) draws] c3(2) drainable_steady [OF st] c3(4,5)] drains by (auto simp: drains_def)
  obtain res core' d' where p: "execute_pass E R core d = Some (res, core', d')" "d \<le> d'" "d' \<le> d + pass_draws core" "core_inv E R d' core'"
    using execute_pass_ok [OF inv] by blast
  have same: "core' = core4" using p(1) r w e(1) by (cases res4) (auto simp: execute_pass_def Let_def run_simps)
  have adv: "advanced core core'" using advanced_trans [OF steady_advanced [OF st] e(4)] same by simp
  have wf: "hm_wf (requests (vc_state core))" "hm_wf (requests (vc_state core'))" "hm_wf (requests (vc_state core3))"
    using queue_invD(1) [OF core_invD(1) [OF inv(1)]] queue_invD(1) [OF core_invD(1) [OF p(4)]] queue_invD(1) [OF core_invD(1) [OF c3(1)]] by auto
  have "owed core3 \<le> owed core" using advanced_sums(1) [OF wf(1,3) steady_advanced [OF st]] .
  moreover have "demand core' \<le> demand core" using advanced_sums(2) [OF wf(1,2) adv] .
  ultimately have "drains core'" "owed core' < owed core" using drains e same adv by (auto simp: drains_def advanced_def)
  then show ?thesis using p adv by blast
qed


text \<open>Passes one after the other, with no request arriving.\<close>

fun run_passes :: "build_env \<Rightarrow> random_source \<Rightarrow> nat \<Rightarrow> 'f VllmCore \<Rightarrow> nat \<Rightarrow> ('f VllmCore \<times> nat) run" where
  "run_passes E R 0 core d = Some (core, d)"
| "run_passes E R (Suc n) core d = do {
     (res, core1, d1) \<leftarrow> execute_pass E R core d;
     run_passes E R n core1 d1
   }"

lemma pass_draws_advanced:
  assumes "core_inv E R d core" "core_inv E R d' core'" "advanced core core'"
  shows "pass_draws core' \<le> pass_draws core"
proof -
  have "hm_keys (requests (vc_state core')) \<subseteq> hm_keys (requests (vc_state core))"
    using assms(3) hm_get_keys unfolding advanced_def by (metis not_None_eq subsetI)
  then have "hm_len (requests (vc_state core')) \<le> hm_len (requests (vc_state core))"
    using queue_invD(1) [OF core_invD(1) [OF assms(1)]] queue_invD(1) [OF core_invD(1) [OF assms(2)]] by (simp add: hm_len_card card_mono)
  then show ?thesis unfolding pass_draws_def by (intro mult_le_mono) simp_all
qed

lemma run_passes_drain:
  assumes "core_inv E R d core" "ids_ok R N (d + owed core * pass_draws core)" "drains core"
  shows "\<exists>n core' d'. n \<le> owed core \<and> run_passes E R n core d = Some (core', d') \<and> sched_is_empty (vc_state core')"
  using assms
proof (induction "owed core" arbitrary: core d rule: less_induct)
  case less
  show ?case
  proof (cases "requests (vc_state core) = []")
    case True
    then show ?thesis by (intro exI [of _ 0]) (auto simp: sched_is_empty_def)
  next
    case False
    have pos: "0 < owed core"
    proof -
      obtain u rq where u: "hm_get (requests (vc_state core)) u = Some rq" by (rule hm_nonempty [OF False])
      have "0 < max_output_tokens (rq_sequence rq) - generated_tokens (rq_sequence rq)"
        using less.prems(3) u by (simp add: drains_def drainable_def)
      also have "\<dots> \<le> owed core" unfolding owed_def by (rule hm_sum_ge [OF u])
      finally show ?thesis .
    qed
    then have "d + pass_draws core \<le> d + owed core * pass_draws core" by (cases "owed core") simp_all
    then obtain res core1 d1 where p: "execute_pass E R core d = Some (res, core1, d1)" "d1 \<le> d + pass_draws core" "core_inv E R d1 core1"
      "drains core1" "advanced core core1" "owed core1 < owed core"
      using execute_pass_live [OF less.prems(1) ids_ok_mono [OF less.prems(2)] less.prems(3) False] by blast
    have "owed core1 * pass_draws core1 \<le> (owed core - 1) * pass_draws core"
      using p(6) pass_draws_advanced [OF less.prems(1) p(3,5)] by (intro mult_le_mono) simp_all
    then have "d1 + owed core1 * pass_draws core1 \<le> d + pass_draws core + (owed core - 1) * pass_draws core" using p(2) by simp
    also have "\<dots> = d + owed core * pass_draws core" using pos by (cases "owed core") simp_all
    finally obtain n core' d' where "n \<le> owed core1" "run_passes E R n core1 d1 = Some (core', d')" "sched_is_empty (vc_state core')"
      using less.hyps [OF p(6,3) ids_ok_mono [OF less.prems(2)] p(4)] by blast
    then show ?thesis using p(1,6) by (intro exI [of _ "Suc n"]) auto
  qed
qed

end
