(* ===== verification/VllmJobs.thy ===== *)
theory VllmJobs
  imports VllmLive
begin

text \<open>
  What a pass leaves of the requests. Scheduling with all its preemptions changes no prompt, no limit
  and no generated token of any request, and an emission changes those of the request that emits only.
  A request that has reached its limit is never among the ones that emit, so that no pass ever
  completes it.
\<close>

section \<open>Scheduling keeps the requests as they were sent\<close>

definition same_jobs :: "SchedulerState \<Rightarrow> SchedulerState \<Rightarrow> bool" where
  "same_jobs s s' = (\<forall>u. map_option job (hm_get (requests s') u) = map_option job (hm_get (requests s) u))"

lemma same_jobs_refl [simp]: "same_jobs s s" "requests s' = requests s \<Longrightarrow> same_jobs s s'"
  by (simp_all add: same_jobs_def)

lemma same_jobs_trans: "same_jobs s s1 \<Longrightarrow> same_jobs s1 s2 \<Longrightarrow> same_jobs s s2"
  by (simp add: same_jobs_def)

lemma try_allocate_jobs: "try_allocate E u target core = Some (r, core') \<Longrightarrow> same_jobs (vc_state core) (vc_state core')"
  by (erule try_allocate_cases) (auto simp: same_jobs_def job_def commit_granted_def commit_allocation_def Let_def)

lemma preempt_jobs: "preempt E mode s = Some (r, s') \<Longrightarrow> same_jobs s s'"
  by (auto simp: preempt_def same_jobs_def job_def reset_with_signal_def prepend_waiting_def run_simps Let_def split: prod.splits option.splits)

lemma schedule_loop_jobs: "schedule_loop E u target acc core = Some (r, acc', core') \<Longrightarrow> same_jobs (vc_state core) (vc_state core')"
proof (induction E u target acc core rule: schedule_loop.induct)
  case (1 E u target acc core)
  obtain c enough core1 where t: "try_allocate E u target core = Some ((c, enough), core1)"
    using "1.prems" by (subst (asm) schedule_loop.simps) (auto split: option.splits)
  note t' = try_allocate_jobs [OF t]
  show ?case
  proof (cases enough)
    case True
    then show ?thesis using "1.prems" t t' by (subst (asm) schedule_loop.simps) simp
  next
    case False
    obtain pr state where p: "preempt E (preemption_mode (vc_args core1)) (vc_state core1) = Some (pr, state)"
      using "1.prems" t False by (subst (asm) schedule_loop.simps) (auto split: option.splits)
    note p' = same_jobs_trans [OF t' preempt_jobs [OF p]]
    show ?thesis
    proof (cases pr)
      case None
      then show ?thesis using "1.prems" t False p p' by (subst (asm) schedule_loop.simps) auto
    next
      case (Some v)
      obtain w where w: "process_all E (pr_signals v) (world core1) = Some w"
        using "1.prems" t False p Some by (subst (asm) schedule_loop.simps) (auto split: option.splits)
      let ?core2 = "set_world w (core1\<lparr>vc_state := state\<rparr>)"
      let ?acc1 = "undo_work (vc_args ?core2) (pr_uuid v) acc"
      show ?thesis
      proof (cases "pr_uuid v = u")
        case True
        then show ?thesis using "1.prems" t False p Some w p' by (subst (asm) schedule_loop.simps) auto
      next
        case other: False
        then have "schedule_loop E u target ?acc1 ?core2 = Some (r, acc', core')"
          using "1.prems" t False p Some w by (subst (asm) schedule_loop.simps) (auto simp: Let_def)
        then have "same_jobs (vc_state ?core2) (vc_state core')"
          using "1.IH" [OF t refl refl False p refl Some w refl refl other] by blast
        then show ?thesis using same_jobs_trans [OF p'] by simp
      qed
    qed
  qed
qed

lemma transition_jobs: "same_jobs s (transition_to_running u s)"
  by (auto simp: transition_to_running_def remove_from_waiting_def same_jobs_def Let_def split: list.splits option.splits)

lemma schedule_request_jobs:
  assumes "schedule_request E u from_waiting acc core = Some (r, acc', core')"
  shows "same_jobs (vc_state core) (vc_state core')"
  using assms
proof (cases rule: schedule_request_cases)
  case (worked request desired actual acc1 core1)
  have "same_jobs (vc_state core1) (vc_state core')"
    using worked(5) transition_jobs by (auto simp: account_work_def run_simps Let_def split: if_splits)
  then show ?thesis using same_jobs_trans [OF schedule_loop_jobs [OF worked(4)]] by blast
qed (auto dest: schedule_loop_jobs)


lemma running_loop_jobs: "running_loop E i acc adm core = Some (acc', adm', core') \<Longrightarrow> same_jobs (vc_state core) (vc_state core')"
proof (induction E i acc adm core rule: running_loop.induct)
  case (1 E i acc adm core)
  show ?case
  proof (cases "i < length (running (vc_state core)) \<and> 0 < token_budget acc")
    case False
    then show ?thesis using "1.prems" by (subst (asm) running_loop.simps) auto
  next
    case True
    let ?u = "running (vc_state core) ! i"
    obtain r acc1 core1 where s: "schedule_request E ?u False acc core = Some (r, acc1, core1)"
      using "1.prems" True by (subst (asm) running_loop.simps) (auto split: option.splits)
    note s' = schedule_request_jobs [OF s]
    show ?thesis
    proof (cases r)
      case (Scheduled used admission)
      then show ?thesis
        using "1.IH"(1) [OF True s refl Scheduled refl] "1.prems" s True same_jobs_trans [OF s'] by (subst (asm) running_loop.simps) auto
    next
      case Blocked
      then show ?thesis using "1.prems" s True s' by (subst (asm) running_loop.simps) auto
    next
      case CurrentPreempted
      then show ?thesis
        using "1.IH"(2) [OF True s refl CurrentPreempted refl] "1.prems" s True same_jobs_trans [OF s'] by (subst (asm) running_loop.simps) auto
    qed
  qed
qed

lemma next_waiting_jobs: "next_waiting_uuid s = (u, s') \<Longrightarrow> same_jobs s s'"
proof (induction s rule: next_waiting_uuid.induct)
  case (1 s)
  show ?case
  proof (cases "waiting s")
    case Nil
    then show ?thesis using "1.prems" by (subst (asm) next_waiting_uuid.simps) simp
  next
    case (Cons v rest)
    then show ?thesis
      using "1.prems" "1.IH" [OF Cons refl] by (subst (asm) next_waiting_uuid.simps) (auto simp: Let_def same_jobs_def split: option.splits if_splits)
  qed
qed

lemma waiting_loop_jobs: "waiting_loop E n acc adm core = Some (acc', adm', core') \<Longrightarrow> same_jobs (vc_state core) (vc_state core')"
proof (induction E n acc adm core rule: waiting_loop.induct)
  case (1 E n acc adm core)
  show ?case
  proof (cases "\<not> preempted_any acc \<and> length (running (vc_state core)) < n")
    case False
    then show ?thesis using "1.prems" by (subst (asm) waiting_loop.simps) auto
  next
    case True
    obtain u state where nw: "next_waiting_uuid (vc_state core) = (u, state)" by fastforce
    note n' = next_waiting_jobs [OF nw]
    show ?thesis
    proof (cases u)
      case None
      then show ?thesis using "1.prems" True nw n' by (subst (asm) waiting_loop.simps) auto
    next
      case (Some v)
      obtain r acc1 core1 where s: "schedule_request E v True acc (core\<lparr>vc_state := state\<rparr>) = Some (r, acc1, core1)"
        using "1.prems" True nw Some by (subst (asm) waiting_loop.simps) (auto split: option.splits)
      have s': "same_jobs (vc_state core) (vc_state core1)" using same_jobs_trans [OF n'] schedule_request_jobs [OF s] by simp
      show ?thesis
      proof (cases r)
        case (Scheduled used admission)
        then show ?thesis
          using "1.IH" [OF True nw [symmetric] Some s refl Scheduled refl refl] "1.prems" s True nw Some s' same_jobs_trans [OF s']
          by (subst (asm) waiting_loop.simps) (auto simp: Let_def split: if_splits)
      qed (use "1.prems" s True nw Some s' in \<open>subst (asm) waiting_loop.simps, simp\<close>)+
    qed
  qed
qed


section \<open>Emission leaves the others alone\<close>

definition job_of :: "'f VllmCore \<Rightarrow> Uuid \<Rightarrow> (nat \<times> nat \<times> nat) option" where
  "job_of core u = map_option job (hm_get (requests (vc_state core)) u)"

lemma same_jobs_of: "same_jobs (vc_state core) (vc_state core') \<Longrightarrow> job_of core' u = job_of core u"
  by (simp add: same_jobs_def job_of_def)

text \<open>What an emission of \<open>u\<close> leaves of the request \<open>v\<close>: all of it, or at least its place.\<close>

definition spared :: "Uuid \<Rightarrow> Uuid \<Rightarrow> 'f VllmCore \<Rightarrow> 'f VllmCore \<Rightarrow> bool" where
  "spared u v core core' = ((v \<noteq> u \<longrightarrow> job_of core' v = job_of core v) \<and> (job_of core' v = None \<longleftrightarrow> job_of core v = None))"

lemma spared_refl [simp]: "spared u v core core"
  by (simp add: spared_def)

lemma spared_trans: "spared u v core core1 \<Longrightarrow> spared u v core1 core2 \<Longrightarrow> spared u v core core2"
  by (simp add: spared_def)

lemma spared_sequence: "spared u v core (set_sequence u a (set_world w core))"
  by (auto simp: spared_def job_of_def set_sequence_def split: option.splits)

lemma spared_preempt: "preempt E mode (vc_state core) = Some (pr, state) \<Longrightarrow> spared u v core (set_world w (core\<lparr>vc_state := state\<rparr>))"
  "preempt E mode (vc_state core) = Some (pr, state) \<Longrightarrow> spared u v core (core\<lparr>vc_state := state\<rparr>)"
  using same_jobs_of [of core "set_world w (core\<lparr>vc_state := state\<rparr>)"] same_jobs_of [of core "core\<lparr>vc_state := state\<rparr>"]
  by (auto dest!: preempt_jobs simp: spared_def)

lemma emit_one_spares: "emit_one E R uuid core d = Some (r, core', d') \<Longrightarrow> spared uuid v core core'"
proof (induction E R uuid core d rule: emit_one.induct)
  case (1 E R uuid core d)
  note run = "1.prems"
  have rd: "ready_to_decode E (requests (vc_state core)) uuid = Some ()" using run by (subst (asm) emit_one.simps) (auto split: option.splits)
  show ?case
  proof (cases "running_sequence (vc_state core) uuid")
    case None
    then show ?thesis using run rd by (subst (asm) emit_one.simps) auto
  next
    case rs: (Some a)
    obtain signals a1 d1 where g: "generate E R a d = Some ((signals, a1), d1)"
      using run rd rs by (subst (asm) emit_one.simps) (auto split: option.splits)
    obtain ok w where p: "process_signals E signals (world core) = Some (ok, w)"
      using run rd rs g by (subst (asm) emit_one.simps) (auto split: option.splits)
    show ?thesis
    proof (cases ok)
      case True
      then show ?thesis using run rd rs g p by (subst (asm) emit_one.simps) (auto simp: Let_def spared_sequence)
    next
      case False
      obtain a2 where a2: "as_pop E a1 = Some a2" using run rd rs g p False by (subst (asm) emit_one.simps) (auto split: option.splits)
      define core1 where "core1 = set_sequence uuid a2 (set_world w core)"
      have j: "spared uuid v core core1" unfolding core1_def by (rule spared_sequence)
      obtain pr state where pre: "preempt E (preemption_mode (vc_args core1)) (vc_state core1) = Some (pr, state)"
        using run rd rs g p False a2 by (subst (asm) emit_one.simps) (auto simp: Let_def core1_def split: option.splits)
      show ?thesis
      proof (cases pr)
        case None
        then show ?thesis using run rd rs g p False a2 pre spared_trans [OF j spared_preempt(2) [OF pre]]
          by (subst (asm) emit_one.simps) (auto simp: Let_def core1_def [symmetric])
      next
        case (Some x)
        obtain w2 where w2: "process_all E (pr_signals x) (world core1) = Some w2"
          using run rd rs g p False a2 pre Some by (subst (asm) emit_one.simps) (auto simp: Let_def core1_def [symmetric] split: option.splits)
        let ?core2 = "set_world w2 (core1\<lparr>vc_state := state\<rparr>)"
        have j2: "spared uuid v core ?core2" using spared_trans [OF j spared_preempt(1) [OF pre]] .
        show ?thesis
        proof (cases "pr_uuid x = uuid")
          case True
          then show ?thesis using run rd rs g p False a2 pre Some w2 j2 by (subst (asm) emit_one.simps) (auto simp: Let_def core1_def [symmetric])
        next
          case other: False
          then have "emit_one E R uuid ?core2 d1 = Some (r, core', d')"
            using run rd rs g p False a2 pre Some w2 by (subst (asm) emit_one.simps) (auto simp: Let_def core1_def [symmetric])
          then have "spared uuid v ?core2 core'"
            using "1.IH" [OF rd rs g refl refl p refl _ a2 core1_def pre refl Some w2 refl other] False by blast
          then show ?thesis using spared_trans [OF j2] by blast
        qed
      qed
    qed
  qed
qed

definition completed_ids :: "OutputSignal list \<Rightarrow> Uuid list" where
  "completed_ids outs = map out_uuid (filter out_completed outs)"

text \<open>The loop over the ready requests emits for some of them, removes those it reports as completed and keeps all others.\<close>

lemma emit_loop_reports:
  "emit_loop E R us outs core d = Some (outs', core', d') \<Longrightarrow>
     \<exists>new. outs' = outs @ new \<and> (distinct us \<longrightarrow> distinct (map out_uuid new)) \<and> out_uuid ` set new \<subseteq> set us \<and>
       (\<forall>v. v \<notin> set us \<longrightarrow> job_of core' v = job_of core v) \<and>
       (\<forall>v. job_of core' v = None \<longleftrightarrow> job_of core v = None \<or> v \<in> set (completed_ids new))"
proof (induction us arbitrary: outs core d)
  case (Cons u us)
  obtain emitted completed core1 d1 where one: "emit_one E R u core d = Some ((emitted, completed), core1, d1)"
    using Cons.prems by (auto simp: run_simps)
  have sp: "spared u v core core1" for v by (rule emit_one_spares [OF one])
  define core2 where "core2 = (if emitted \<and> completed then core1\<lparr>vc_state := complete u (vc_state core1)\<rparr> else core1)"
  define here where "here = (if emitted then [\<lparr>out_uuid = u, out_completed = completed\<rparr>] else [])"
  have run: "emit_loop E R us (outs @ here) core2 d1 = Some (outs', core', d')"
    using Cons.prems one by (auto simp: run_simps core2_def here_def split: if_splits)
  have j2: "job_of core2 v = (if v = u \<and> emitted \<and> completed then None else job_of core1 v)" for v
    by (simp add: core2_def job_of_def complete_def)
  obtain new where new: "outs' = (outs @ here) @ new" "distinct us \<longrightarrow> distinct (map out_uuid new)" "out_uuid ` set new \<subseteq> set us"
    "\<And>v. v \<notin> set us \<Longrightarrow> job_of core' v = job_of core2 v" "\<And>v. job_of core' v = None \<longleftrightarrow> job_of core2 v = None \<or> v \<in> set (completed_ids new)"
    using Cons.IH [OF run] by auto
  have "outs' = outs @ here @ new" "distinct (u # us) \<longrightarrow> distinct (map out_uuid (here @ new))" "out_uuid ` set (here @ new) \<subseteq> set (u # us)"
    using new(1-3) by (auto simp: here_def)
  moreover have "\<forall>v. v \<notin> set (u # us) \<longrightarrow> job_of core' v = job_of core v" using new(4) j2 sp by (auto simp: spared_def)
  moreover have "set (completed_ids (here @ new)) = (if emitted \<and> completed then {u} else {}) \<union> set (completed_ids new)"
    by (auto simp: here_def completed_ids_def)
  then have "\<forall>v. job_of core' v = None \<longleftrightarrow> job_of core v = None \<or> v \<in> set (completed_ids (here @ new))"
    using new(5) j2 sp by (auto simp: spared_def)
  ultimately show ?case by blast
qed (auto simp: completed_ids_def intro: exI [of _ "[]"])

text \<open>What a pass reports: the requests it completed are gone, all others are still there.\<close>

lemma execute_pass_reports:
  assumes inv: "core_inv E R d core" "ids_ok R N d" and run: "execute_pass E R core d = Some ((res, acc), core', d')"
  shows "distinct (completed_ids (output_signals res))" "v \<in> set (completed_ids (output_signals res)) \<Longrightarrow> job_of core v \<noteq> None"
    "job_of core' v = None \<longleftrightarrow> job_of core v = None \<or> v \<in> set (completed_ids (output_signals res))"
    "distinct (map out_uuid (output_signals res))" "v \<in> out_uuid ` set (output_signals res) \<Longrightarrow> job_of core v \<noteq> None"
proof -
  let ?core1 = "core\<lparr>vc_state := compact_running (vc_state core)\<rparr>"
  obtain acc1 adm1 core2 adm2 core3 decode where r: "running_loop E 0 (pass_start (vc_args core)) [] ?core1 = Some (acc1, adm1, core2)"
    and w: "waiting_loop E (case max_num_seqs (vc_args core2) of Some n \<Rightarrow> n | None \<Rightarrow> usize_max) acc1 adm1 core2 = Some (acc, adm2, core3)"
    and e: "emit_ready_tokens E R core3 d = Some ((decode, output_signals res), core', d')"
    using run by (auto simp: execute_pass_def run_simps Let_def)
  have c2: "core_inv E R d core2" "all_live core2"
    using running_loop_ok [OF compact_core(1) [OF inv(1)] inv(2) compact_core(2) [OF inv(1)], of 0 "pass_start (vc_args core)" "[]"] r by auto
  have c3: "core_inv E R d core3" using waiting_loop_ok [OF c2(1) inv(2) c2(2), of "case max_num_seqs (vc_args core2) of Some n \<Rightarrow> n | None \<Rightarrow> usize_max" acc1 adm1] w by auto
  have dist: "distinct (ready_requests (vc_state core3))" using queue_invD(2) [OF core_invD(1) [OF c3]] by (simp add: ready_requests_def)
  have j1: "job_of ?core1 v = job_of core v" for v by (simp add: job_of_def compact_running_def split: prod.splits)
  have j3: "job_of core3 v = job_of core v" for v
    using j1 same_jobs_of [OF running_loop_jobs [OF r]] same_jobs_of [OF waiting_loop_jobs [OF w]] by simp
  have ready: "job_of core3 v \<noteq> None" if "v \<in> set (ready_requests (vc_state core3))" for v
    using that by (auto simp: ready_requests_def job_of_def split: option.splits)
  obtain new where new: "output_signals res = new" "distinct (map out_uuid new)" "out_uuid ` set new \<subseteq> set (ready_requests (vc_state core3))"
    "\<And>v. job_of core' v = None \<longleftrightarrow> job_of core3 v = None \<or> v \<in> set (completed_ids new)"
  proof (cases "ready_requests (vc_state core3) = []")
    case True
    then show thesis using that [of "[]"] e by (simp add: emit_ready_tokens_def completed_ids_def)
  next
    case False
    obtain core4 where l: "emit_loop E R (ready_requests (vc_state core3)) [] core3 d = Some (output_signals res, core4, d')"
      "\<And>v. job_of core' v = job_of core4 v"
      using e False by (auto simp: emit_ready_tokens_def run_simps Let_def job_of_def compact_running_def split: if_splits prod.splits)
    then show thesis using emit_loop_reports [OF l(1)] dist that by auto
  qed
  show dist: "distinct (map out_uuid (output_signals res))" using new(1,2) by simp
  then show "distinct (completed_ids (output_signals res))" by (simp add: completed_ids_def distinct_map_filter)
  show known: "job_of core v \<noteq> None" if "v \<in> out_uuid ` set (output_signals res)" for v using new(1,3) ready j3 that by auto
  show "v \<in> set (completed_ids (output_signals res)) \<Longrightarrow> job_of core v \<noteq> None"
    by (rule known) (auto simp: completed_ids_def)
  show "job_of core' v = None \<longleftrightarrow> job_of core v = None \<or> v \<in> set (completed_ids (output_signals res))" using new(1,4) j3 by simp
qed

lemma execute_pass_finished:
  assumes run: "execute_pass E R core d = Some ((res, acc), core', d')" and get: "hm_get (requests (vc_state core)) u = Some rq"
    and full: "max_output_tokens (rq_sequence rq) \<le> generated_tokens (rq_sequence rq)"
  shows "job_of core' u = Some (job rq) \<and> u \<notin> out_uuid ` set (output_signals res)"
proof -
  let ?core1 = "core\<lparr>vc_state := compact_running (vc_state core)\<rparr>"
  obtain acc1 adm1 core2 n adm2 core3 decode outs where r: "running_loop E 0 (pass_start (vc_args core)) [] ?core1 = Some (acc1, adm1, core2)"
    and w: "waiting_loop E n acc1 adm1 core2 = Some (acc, adm2, core3)" and e: "emit_ready_tokens E R core3 d = Some ((decode, outs), core', d')"
    and o: "output_signals res = outs"
    using run by (auto simp: execute_pass_def run_simps Let_def)
  have "job_of ?core1 u = Some (job rq)" using get by (simp add: job_of_def compact_running_def split: prod.splits)
  then have j3: "job_of core3 u = Some (job rq)"
    using same_jobs_of [OF running_loop_jobs [OF r]] same_jobs_of [OF waiting_loop_jobs [OF w]] by simp
  then have nr: "u \<notin> set (ready_requests (vc_state core3))" using full by (auto simp: ready_requests_def job_of_def job_def)
  show ?thesis
  proof (cases "ready_requests (vc_state core3) = []")
    case True
    then show ?thesis using e j3 o by (simp add: emit_ready_tokens_def)
  next
    case False
    obtain outs1 core4 where l: "emit_loop E R (ready_requests (vc_state core3)) [] core3 d = Some (outs1, core4, d')" "outs = outs1"
      "job_of core' u = job_of core4 u"
      using e False by (auto simp: emit_ready_tokens_def run_simps Let_def job_of_def compact_running_def split: if_splits prod.splits)
    then show ?thesis using emit_loop_reports [OF l(1)] j3 nr o by auto
  qed
qed

lemma run_passes_finished:
  assumes "run_passes E R n core d = Some (core', d')" "hm_get (requests (vc_state core)) u = Some rq"
    and "max_output_tokens (rq_sequence rq) \<le> generated_tokens (rq_sequence rq)"
  shows "\<exists>rq'. hm_get (requests (vc_state core')) u = Some rq' \<and> job rq' = job rq"
  using assms
proof (induction n arbitrary: core d rq)
  case (Suc n)
  obtain res acc core1 d1 where p: "execute_pass E R core d = Some ((res, acc), core1, d1)" "run_passes E R n core1 d1 = Some (core', d')"
    using Suc.prems(1) by (auto simp: run_simps)
  obtain rq1 where "hm_get (requests (vc_state core1)) u = Some rq1" "job rq1 = job rq"
    using execute_pass_finished [OF p(1) Suc.prems(2,3)] by (auto simp: job_of_def)
  then show ?case using Suc.IH [OF p(2), of rq1] Suc.prems(3) by (auto simp: job_def)
qed simp

end
