(* ===== verification/Scheduler.thy ===== *)
theory Scheduler
  imports VllmJobs
begin

text \<open>
  The properties of the vLLM scheduler. A run starts with \<open>core_new\<close>; requests are received and dropped,
  passes executed, a shared cache attached and changed by others, in any order. The random source is
  only asked for distinct identities: \<open>N\<close> says for how many draws it gives them.
\<close>

section \<open>Reachable schedulers\<close>

inductive core_reach :: "build_env \<Rightarrow> random_source \<Rightarrow> nat \<Rightarrow> 'f VllmCore \<Rightarrow> nat \<Rightarrow> bool" for E R N where
  reach_start: "core_new E args rank pubs heap = Some core \<Longrightarrow> arg_block_size args < 4294967296 \<Longrightarrow> core_reach E R N core 0"
| reach_receive: "core_reach E R N core d \<Longrightarrow> acceptable R request core d \<Longrightarrow>
    receive E R request core d = Some ((u, core'), d') \<Longrightarrow> d' \<le> N \<Longrightarrow> core_reach E R N core' d'"
| reach_pass: "core_reach E R N core d \<Longrightarrow> d + pass_draws core \<le> N \<Longrightarrow>
    execute_pass E R core d = Some (res, core', d') \<Longrightarrow> core_reach E R N core' d'"
| reach_drop: "core_reach E R N core d \<Longrightarrow> drop_request E u core = Some core' \<Longrightarrow> core_reach E R N core' d"
| reach_attach: "core_reach E R N core d \<Longrightarrow> core_reach E R N (core\<lparr>vc_kv := set_lmcache (vc_kv core) lm\<rparr>) d"
| reach_others: "core_reach E R N core d \<Longrightarrow> core_reach E R N (core\<lparr>vc_heap := heap\<rparr>) d"

text \<open>The number of requests that may run at a time.\<close>

definition seq_limit :: "MockEngineArgs \<Rightarrow> nat" where
  "seq_limit args = (case max_num_seqs args of Some n \<Rightarrow> n | None \<Rightarrow> usize_max)"

lemma core_new_fields:
  assumes "core_new E args rank pubs heap = Some core"
  shows "vc_state core = sched_default" "kc_new E (num_gpu_blocks (vc_args core)) (arg_block_size (vc_args core)) pubs rank = Some (vc_kv core)"
    "normalized args = Some (vc_args core)"
  using assms by (auto simp: core_new_def run_simps)

lemma normalized_block_size:
  "normalized args = Some args1 \<Longrightarrow> arg_block_size args1 = (if arg_block_size args = 0 then 64 else arg_block_size args)"
  by (auto simp: normalized_def Let_def split: if_splits)

lemma normalized_seqs: "normalized args = Some args1 \<Longrightarrow> max_num_seqs args1 \<noteq> Some 0"
  by (auto simp: normalized_def Let_def split: if_splits)

lemma kc_new_empty: "kc_new E c bs pubs rank = Some k \<Longrightarrow> active_partial k = [] \<and> active_full k = []"
  by (auto simp: kc_new_def run_simps)

lemma core_new_inv:
  assumes "core_new E args rank pubs heap = Some core"
  shows "core_inv E R 0 core"
proof -
  note f = core_new_fields [OF assms]
  have "kc_inv (vc_kv core)" using kc_reach_inv [OF kc_reach.kc_start [OF f(2)], of "(\<lambda>_. undefined) :: int lm_heap"] by simp
  moreover have "kv_ledger (vc_kv core) b = 0" for b
    using kc_new_empty [OF f(2)] by (simp add: kv_ledger_def full_refs_def hm_contains_def one_if_def split: UniqueBlock.splits)
  ultimately show ?thesis
    using f(1) sched_default_inv by (simp add: core_inv_def books_def sched_default_def tally_def)
qed

lemma receive_block_size:
  assumes "receive E R request core d = Some r"
  shows "2 \<le> arg_block_size (vc_args core)"
  using assms by (auto simp: receive_def as_new_def run_simps Let_def split: option.splits)

lemma core_reach_inv:
  assumes "inj_on (draw_uuid R) {..<N}" "core_reach E R N core d"
  shows "core_inv E R d core \<and> arg_block_size (vc_args core) < 4294967296 \<and>
    length (running (vc_state core)) \<le> seq_limit (vc_args core) \<and> max_num_seqs (vc_args core) \<noteq> Some 0"
  using assms(2)
proof (induction rule: core_reach.induct)
  case (reach_start args rank pubs heap core)
  then show ?case
    using core_new_inv [OF reach_start(1)] core_new_fields(1) [OF reach_start(1)] normalized_block_size [OF core_new_fields(3) [OF reach_start(1)]]
      normalized_seqs [OF core_new_fields(3) [OF reach_start(1)]]
    by (simp add: sched_default_def)
next
  case (reach_receive core d request u core' d')
  obtain core1 d1 where "receive E R request core d = Some ((request_id R request d, core1), d1)" "d \<le> d1"
    "\<forall>N. ids_ok R N d1 \<longrightarrow> core_inv E R d1 core1" "vc_args core1 = vc_args core" "running (vc_state core1) = running (vc_state core)"
    using receive_ok [of E R d core request] receive_block_size [OF reach_receive.hyps(3)] reach_receive.IH reach_receive.hyps(2) by blast
  then show ?case using reach_receive assms(1) by (auto simp: ids_ok_def)
next
  case (reach_pass core d res core' d')
  have ids: "ids_ok R N (d + pass_draws core)" using assms(1) reach_pass.hyps(2) by (simp add: ids_ok_def)
  show ?case
    using execute_pass_ok [OF conjunct1 [OF reach_pass.IH] ids] reach_pass.IH reach_pass.hyps(3) by (auto simp: seq_limit_def)
next
  case (reach_drop core d u core')
  then show ?case using drop_request_ok [of E R d core u] by auto
next
  case (reach_attach core d lm)
  then show ?case
    by (auto simp: core_inv_def books_def set_lmcache_def kc_inv_def used_slots_def kv_ledger_def full_refs_def cong: UniqueBlock.case_cong)
next
  case (reach_others core d heap)
  then show ?case by (simp add: core_inv_def)
qed


section \<open>Properties\<close>

text \<open>
  C1 (scheduler_never_panics). Whatever a worker did before, its next call returns, in debug and
  release builds alike: a pass with all its preemptions and retries, the drop of any request, and the
  receipt of any request that is new and fits. No assertion of the scheduler or of the KV cache fails.
\<close>

theorem scheduler_never_panics:
  assumes "inj_on (draw_uuid R) {..<N}" and "core_reach E R N core d"
  shows "(d + pass_draws core \<le> N \<longrightarrow> (\<exists>res acc core' d'. execute_pass E R core d = Some ((res, acc), core', d'))) \<and>
    (\<exists>core'. drop_request E u core = Some core') \<and>
    (acceptable R request core d \<longrightarrow> 2 \<le> arg_block_size (vc_args core) \<longrightarrow> (\<exists>core' d'. receive E R request core d = Some ((request_id R request d, core'), d')))"
proof -
  have inv: "core_inv E R d core" and bs: "arg_block_size (vc_args core) < 4294967296" using core_reach_inv [OF assms] by auto
  have "\<exists>res acc core' d'. execute_pass E R core d = Some ((res, acc), core', d')" if "d + pass_draws core \<le> N"
    using execute_pass_ok [OF inv, of N] assms(1) that unfolding ids_ok_def by (metis surj_pair)
  moreover have "\<exists>core'. drop_request E u core = Some core'" using drop_request_ok [OF inv] by blast
  moreover have "\<exists>core' d'. receive E R request core d = Some ((request_id R request d, core'), d')"
    if "acceptable R request core d" "2 \<le> arg_block_size (vc_args core)"
    using receive_ok [OF inv that bs] by blast
  ultimately show ?thesis by blast
qed

text \<open>
  C2 (kv_references_exact). The reference count of every full block is exactly the number of times the
  requests hold it, waiting, running and preempted ones together, and the partial blocks of the cache
  are exactly those some request holds.
\<close>

theorem kv_references_exact:
  assumes "inj_on (draw_uuid R) {..<N}" and "core_reach E R N core d"
  shows "full_refs (vc_kv core) h = hm_sum (\<lambda>rq. count_list (held rq) (FullBlock h)) (requests (vc_state core)) \<and>
    (hm_contains (active_partial (vc_kv core)) v \<longleftrightarrow>
      (\<exists>u rq. hm_get (requests (vc_state core)) u = Some rq \<and> PartialBlock v \<in> set (held rq)))"
proof -
  have inv: "core_inv E R d core" using core_reach_inv [OF assms] by simp
  have led: "kv_ledger (vc_kv core) b = hm_sum (\<lambda>rq. count_list (held rq) b) (requests (vc_state core))" for b
    using core_invD(4) [OF inv] by (simp add: tally_def)
  have wf: "hm_wf (requests (vc_state core))" using queue_invD(1) [OF core_invD(1) [OF inv]] .
  have "hm_contains (active_partial (vc_kv core)) v \<longleftrightarrow> kv_ledger (vc_kv core) (PartialBlock v) \<noteq> 0"
    by (simp add: kv_ledger_def one_if_def)
  also have "\<dots> \<longleftrightarrow> (\<exists>u rq. hm_get (requests (vc_state core)) u = Some rq \<and> PartialBlock v \<in> set (held rq))"
    unfolding led hm_sum_0 [OF wf] by (simp add: count_list_0_iff)
  finally show ?thesis using led [of "FullBlock h"] by (simp add: kv_ledger_def)
qed

text \<open>
  C7 (idle_releases_all). When the last request has completed or was dropped, no block of the cache is
  held any more: nothing leaks over the whole life of a worker.
\<close>

theorem idle_releases_all:
  assumes "inj_on (draw_uuid R) {..<N}" and "core_reach E R N core d" and "sched_is_empty (vc_state core)"
  shows "num_active_blocks (vc_kv core) = 0 \<and> num_active_block_refs (vc_kv core) = 0"
proof -
  have inv: "core_inv E R d core" using core_reach_inv [OF assms(1,2)] by simp
  have z: "kv_ledger (vc_kv core) b = 0" for b
    using core_invD(4) [OF inv] assms(3) by (simp add: tally_def sched_is_empty_def)
  have p: "v \<notin> hm_keys (active_partial (vc_kv core))" for v
    using z [of "PartialBlock v"] by (auto simp: kv_ledger_def one_if_def hm_contains_keys split: if_splits)
  have f: "h \<notin> hm_keys (active_full (vc_kv core))" for h
    using z [of "FullBlock h"] kv_ledger_holds [OF core_invD(2) [OF inv], of "FullBlock h"] by (simp add: holds_def hm_contains_keys)
  have "hm_keys (active_partial (vc_kv core)) = {}" "hm_keys (active_full (vc_kv core)) = {}"
    using p f by (simp_all only: set_eq_iff empty_iff simp_thms)
  then show ?thesis by (simp add: num_active_blocks_def num_active_block_refs_def hm_len_def)
qed

text \<open>
  C8 (requests_queued_once). No request is lost or scheduled twice: every request is a member of
  exactly one of the two queues, the one its status says, its queue contains it, and the running queue
  contains it once; members are requests.
\<close>

theorem requests_queued_once:
  assumes "inj_on (draw_uuid R) {..<N}" and "core_reach E R N core d"
  defines "s \<equiv> vc_state core"
  shows "waiting_members s \<union> running_members s = hm_keys (requests s) \<and> waiting_members s \<inter> running_members s = {} \<and>
    waiting_members s \<subseteq> set (waiting s) \<and> (\<forall>u \<in> running_members s. count_list (running s) u = 1) \<and>
    (\<forall>u rq. hm_get (requests s) u = Some rq \<longrightarrow> (u \<in> running_members s \<longleftrightarrow> rq_status rq = Running))"
proof -
  have "core_inv E R d core" using core_reach_inv [OF assms(1,2)] by simp
  note q = queue_invD [OF core_invD(1) [OF this], folded s_def]
  have k: "u \<in> hm_keys (requests s) \<longleftrightarrow> (\<exists>rq. hm_get (requests s) u = Some rq)" for u
    using hm_get_keys [of "requests s" u] by (cases "hm_get (requests s) u") simp_all
  have "waiting_members s \<union> running_members s = hm_keys (requests s)" unfolding set_eq_iff Un_iff k q(5,6) by blast
  moreover have "waiting_members s \<inter> running_members s = {}" using q(5,6) by auto
  moreover have "\<forall>u \<in> running_members s. count_list (running s) u = 1" using q(2,4) by (auto simp: count_list_distinct one_if_def)
  ultimately show ?thesis using q(3,6) by auto
qed


text \<open>
  C9 (batch_budget). The tokens a pass schedules, over all its requests and after everything preempted
  on the way was taken back, never exceed \<open>max_num_batched_tokens\<close>.
\<close>

theorem batch_budget:
  assumes "execute_pass E R core d = Some ((res, acc), core', d')"
  shows "hm_sum total_tokens (scheduled acc) \<le> (case max_num_batched_tokens (vc_args core) of Some n \<Rightarrow> n | None \<Rightarrow> usize_max)"
proof -
  let ?core1 = "core\<lparr>vc_state := compact_running (vc_state core)\<rparr>"
  obtain acc1 adm1 core2 adm2 core3 n where r: "running_loop E 0 (pass_start (vc_args core)) [] ?core1 = Some (acc1, adm1, core2)"
    and w: "waiting_loop E n acc1 adm1 core2 = Some (acc, adm2, core3)"
    using assms by (auto simp: execute_pass_def run_simps Let_def)
  have "hm_wf (scheduled (pass_start (vc_args core)))" by (simp add: pass_start_def)
  note r' = running_loop_budget [OF r this]
  then have "spent_and_left acc \<le> spent_and_left (pass_start (vc_args core))" using waiting_loop_budget [OF w] by linarith
  then show ?thesis by (simp add: spent_and_left_def pass_start_def split: option.splits)
qed

text \<open>
  C12 (running_bound). At no time more than \<open>max_num_seqs\<close> requests are running.
\<close>

theorem running_bound:
  assumes "inj_on (draw_uuid R) {..<N}" and "core_reach E R N core d" and "max_num_seqs (vc_args core) = Some n"
  shows "card (running_members (vc_state core)) \<le> n"
proof -
  have r: "core_inv E R d core" "length (running (vc_state core)) \<le> n"
    using core_reach_inv [OF assms(1,2)] assms(3) by (auto simp: seq_limit_def)
  have "card (running_members (vc_state core)) \<le> card (set (running (vc_state core)))"
    using queue_invD(4) [OF core_invD(1) [OF r(1)]] by (simp add: card_mono)
  then show ?thesis using card_length [of "running (vc_state core)"] r(2) by linarith
qed

text \<open>
  C10 (preemption_contract). On a shortage the victim is the newest running request, or the oldest one
  in FIFO mode, whatever dead entries the queue has; it gives back exactly the blocks it holds, the
  newest first, starts over with no token computed, and is the next one to be admitted. The other
  requests are left alone, and with no request running there is no victim.
\<close>

theorem preemption_contract:
  assumes "inj_on (draw_uuid R) {..<N}" and "core_reach E R N core d"
  defines "s \<equiv> vc_state core"
  defines "live \<equiv> filter (\<lambda>u. u \<in> running_members s) (running s)"
  shows "if live = [] then preempt E mode s = Some (None, s\<lparr>running := []\<rparr>)
    else let u = (case mode of Lifo \<Rightarrow> last live | Fifo \<Rightarrow> hd live) in
      \<exists>rq s'. hm_get (requests s) u = Some rq \<and>
        preempt E mode s = Some (Some \<lparr>pr_uuid = u, pr_signals = map (\<lambda>b. Deref [b]) (rev (held rq))\<rparr>, s') \<and>
        fst (next_waiting_uuid s') = Some u \<and> running_members s' = running_members s - {u} \<and>
        hm_get (requests s') = (hm_get (requests s))(u \<mapsto> rq\<lparr>rq_status := Preempted, num_computed_tokens := 0,
          num_preemptions := num_preemptions rq + 1, rq_sequence := (rq_sequence rq)\<lparr>num_allocated_tokens := 0\<rparr>\<rparr>)"
proof -
  have inv: "core_inv E R d core" using core_reach_inv [OF assms(1,2)] by simp
  have q: "queue_inv s" using core_invD(1) [OF inv] by (simp add: s_def)
  have seq: "as_inv E (rq_sequence rq)" if "hm_get (requests s) u = Some rq" for u rq
    using rq_invD(1) [OF core_invD(3) [OF inv]] that by (simp add: s_def)
  show ?thesis
  proof (cases "live = []")
    case True
    then have "running_members s = {}" using queue_invD(4) [OF q] by (auto simp: live_def filter_empty_conv)
    then show ?thesis using True preempt_none [OF q] by simp
  next
    case False
    then have ne: "running_members s \<noteq> {}" by (auto simp: live_def)
    obtain u rq q' dead where v: "u \<in> running_members s" "hm_get (requests s) u = Some rq"
      "running s = around mode q' [u] dead" "set dead \<inter> running_members s = {}"
      "preempt E mode s = Some (Some \<lparr>pr_uuid = u, pr_signals = map (\<lambda>b. Deref [b]) (rev (held rq))\<rparr>, preempted_state u rq q' s)"
      by (rule preempt_some [OF q ne seq])
    have "filter (\<lambda>u. u \<in> running_members s) dead = []" using v(4) by (auto simp: filter_empty_conv)
    then have "(case mode of Lifo \<Rightarrow> last live | Fifo \<Rightarrow> hd live) = u"
      using v(1,3) by (cases mode) (simp_all add: live_def around_def)
    moreover have "fst (next_waiting_uuid (preempted_state u rq q' s)) = Some u"
      using next_waiting_first [OF preempted_state_inv(1) [OF q v(1-4)]] by (simp add: preempted_state_def)
    ultimately show ?thesis using False v(2,5) by (auto simp: Let_def preempted_state_def preempted_request_def)
  qed
qed







text \<open>
  An engine accepts a block size of one when it is built, but then
  panics on the first request, whatever it is.
\<close>

lemma block_size_one_rejects_all:
  assumes "core_new E args rank pubs heap = Some core" and "arg_block_size args = 1"
  shows "receive E R request core d = None"
proof (rule ccontr)
  assume "receive E R request core d \<noteq> None"
  then have "2 \<le> arg_block_size (vc_args core)" using receive_block_size by blast
  then show False using normalized_block_size [OF core_new_fields(3) [OF assms(1)]] assms(2) by simp
qed

text \<open>
  C39 (reused_id_leaks). A request that is received under the id of one that still holds blocks takes
  its place without a release: some block is from then on held in the cache by no request.
\<close>

theorem reused_id_leaks:
  assumes "inj_on (draw_uuid R) {..<N}" and "core_reach E R N core d"
    and "hm_get (requests (vc_state core)) u = Some rq" and "held rq \<noteq> []"
    and "dr_uuid request = Some u" and "receive E R request core d = Some ((u, core'), d')"
  shows "\<exists>b. hm_sum (\<lambda>rq. count_list (held rq) b) (requests (vc_state core')) < kv_ledger (vc_kv core') b"
proof -
  have inv: "core_inv E R d core" using core_reach_inv [OF assms(1,2)] by simp
  obtain rq' where rq': "requests (vc_state core') = hm_insert u rq' (requests (vc_state core))" "vc_kv core' = vc_kv core"
    "num_allocated_tokens (rq_sequence rq') = 0" "2 \<le> as_block_size (rq_sequence rq')"
    using assms(5,6) by (auto simp: receive_def set_request_def push_waiting_def as_new_def run_simps Let_def split: option.splits if_splits)
  have "held rq' = []" using rq'(3,4) by (simp add: held_def blocks_for_def div_ceil_def)
  moreover obtain b where "b \<in> set (held rq)" using assms(4) by (cases "held rq") auto
  then have "count_list (held rq) b \<noteq> 0" by (simp add: count_list_0_iff)
  ultimately have "tally held (requests (vc_state core')) b < tally held (requests (vc_state core)) b"
    using tally_update [OF assms(3), of held rq' b] rq'(1) by simp
  then show ?thesis using core_invD(4) [OF inv] rq'(2) by (auto simp: tally_def)
qed

text \<open>
  C3 (worker_drains). A worker with LIFO preemption that gets no more requests finishes all it has,
  within as many passes as tokens are still to be generated, whatever preemptions this takes, when its cache
  has room for any one of the requests, the token budget of a pass covers them together, and no
  waiting request holds a block.
\<close>

theorem worker_drains:
  assumes "inj_on (draw_uuid R) {..<N}" and "core_reach E R N core d" and "d + owed core * pass_draws core \<le> N"
    and "preemption_mode (vc_args core) = Lifo"
    and "\<forall>u rq. hm_get (requests (vc_state core)) u = Some rq \<longrightarrow>
      generated_tokens (rq_sequence rq) < max_output_tokens (rq_sequence rq) \<and>
      div_ceil (num_input_tokens (rq_sequence rq) + max_output_tokens (rq_sequence rq)) (arg_block_size (vc_args core)) \<le> max_capacity (vc_kv core) \<and>
      (rq_status rq \<noteq> Running \<longrightarrow> num_allocated_tokens (rq_sequence rq) = 0)"
    and "demand core \<le> token_limit (vc_args core)"
  shows "\<exists>n core' d'. n \<le> owed core \<and> run_passes E R n core d = Some (core', d') \<and> sched_is_empty (vc_state core')"
proof -
  have inv: "core_inv E R d core" using core_reach_inv [OF assms(1,2)] by simp
  have "held rq = []" if "u \<notin> running_members (vc_state core)" "hm_get (requests (vc_state core)) u = Some rq" for u rq
  proof -
    have "rq_status rq \<noteq> Running" using queue_invD(6) [OF core_invD(1) [OF inv], of u] that by simp
    then have "num_allocated_tokens (rq_sequence rq) = 0" using assms(5) that(2) by blast
    then show ?thesis using rq_invD(1) [OF core_invD(3) [OF inv that(2)]] by (simp add: held_def blocks_for_def div_ceil_def as_inv_def)
  qed
  moreover have "max_num_seqs (vc_args core) \<noteq> Some 0" using core_reach_inv [OF assms(1,2)] by simp
  ultimately have "drains core" using assms(4-6) by (simp add: drains_def drainable_def idle_but_def)
  then show ?thesis using run_passes_drain [OF inv] assms(1,3) by (simp add: ids_ok_def)
qed

text \<open>
  C40 (zero_output_never_completes). A request that asks for no output at all is accepted and then never leaves:
  however many passes are run, it is still there, and has got no token.
\<close>

theorem zero_output_never_completes:
  assumes "run_passes E R n core d = Some (core', d')"
    and "hm_get (requests (vc_state core)) u = Some rq" and "max_output_tokens (rq_sequence rq) = 0"
  shows "\<exists>rq'. hm_get (requests (vc_state core')) u = Some rq' \<and> max_output_tokens (rq_sequence rq') = 0 \<and>
    generated_tokens (rq_sequence rq') = generated_tokens (rq_sequence rq)"
  using run_passes_finished [OF assms(1,2)] assms(3) by (auto simp: job_def)

section \<open>Witnesses\<close>

definition demo_args :: MockEngineArgs where
  "demo_args = \<lparr>num_gpu_blocks = 2, arg_block_size = 2, max_num_seqs = Some 1, max_num_batched_tokens = Some 8,
     arg_prefix_caching = True, enable_chunked_prefill = True, dp_size = 1, float_ranges_ok = True, worker_type = Aggregated, zmq_kv_events_port = None,
     preemption_mode = Lifo\<rparr>"

definition demo_core :: "int VllmCore" where
  "demo_core = \<lparr>vc_args = demo_args, vc_state = sched_default, vc_kv = demo_cache, vc_heap = demo_heap\<rparr>"

definition demo_request :: DirectRequest where
  "demo_request = \<lparr>dr_tokens = [1], dr_max_output_tokens = 0, dr_uuid = Some 7\<rparr>"

lemma demo_core_new: "core_new demo_env demo_args 0 demo_pubs demo_heap = Some demo_core"
  using demo_cache_new by (simp add: core_new_def normalized_def demo_args_def demo_core_def Let_def)

lemma demo_ids: "inj_on (draw_uuid demo_random) {..<100}"
proof (rule inj_onI)
  fix m n :: nat
  assume mn: "m \<in> {..<100}" "n \<in> {..<100}" and "draw_uuid demo_random m = draw_uuid demo_random n"
  then have eq: "(word_of_nat (m + 1) :: u128) = word_of_nat (n + 1)" by (simp add: demo_random_def)
  have small: "unat (word_of_nat k :: u128) = k" if "k < 200" for k :: nat using that by (simp add: unat_of_nat)
  have "m + 1 = unat (word_of_nat (m + 1) :: u128)" using small [of "m + 1"] mn(1) by simp
  also have "\<dots> = unat (word_of_nat (n + 1) :: u128)" using eq by (rule arg_cong)
  also have "\<dots> = n + 1" using small [of "n + 1"] mn(2) by simp
  finally show "m = n" by simp
qed

lemma demo_start: "core_reach demo_env demo_random 100 demo_core 0"
  using core_reach.reach_start [OF demo_core_new] by (simp add: demo_args_def)

text \<open>The sequence of a request with one token.\<close>

lemma demo_single:
  fixes k :: nat
  assumes "k < 2"
  obtains a u where "as_new demo_env demo_random [1] k (Some 2) True False 0 = Some (a, 1)" "unique_blocks a = [PartialBlock u]"
    "block_hashes a = []" "plhs a = []" "as_len a = 1" "as_block_size a = 2" "num_allocated_tokens a = 0" "num_input_tokens a = 1"
    "generated_tokens a = 0" "max_output_tokens a = k" "enable_prefix_caching a" "\<not> emit_token_ids a"
proof -
  obtain a d where a: "as_new demo_env demo_random [1] k (Some 2) True False 0 = Some (a, d)" "as_inv demo_env a"
    "seq_tokens (as_tokens a) = [1]" "as_block_size a = 2" "num_input_tokens a = 1"
    "generated_tokens a = 0" "num_allocated_tokens a = 0" "max_output_tokens a = k" "enable_prefix_caching a" "\<not> emit_token_ids a"
    using as_new_ok [of 2 "[1]" demo_env demo_random k True False 0] by auto
  have len: "as_len a = 1" using as_len_tokens [OF a(2)] a(3) by simp
  have "seq_inv demo_env (as_tokens a)" "s_block_size (as_tokens a) = 2" using a(2,4) by (simp_all add: as_inv_def)
  then have blocks: "s_blocks (as_tokens a) = []" using seq_inv_blocks(1) [of demo_env "as_tokens a"] a(3) by simp
  obtain fulls tail where ft: "block_ids a fulls tail" "tail_ok a (length (block_hashes a)) tail" using a(2) by (rule as_lenE)
  have "block_hashes a = []" "plhs a = []" using a(2,9) blocks by (simp_all add: as_inv_def)
  moreover obtain u where "unique_blocks a = [PartialBlock u]"
    using ft calculation len by (cases tail) (auto simp: block_ids_def tail_ok_def split: list.splits UniqueBlock.splits)
  moreover have "d = 1"
  proof -
    obtain s where "into_sequence demo_env [1] 2 (Some 1337) = Some s" "create_sequence_cache demo_random s 2 True 0 = Some ((unique_blocks a, block_hashes a, plhs a), d)"
      "as_tokens a = s"
      using a(1) by (auto simp: as_new_def run_simps Let_def)
    then show ?thesis using blocks len by (simp add: create_sequence_cache_def unique_block_default_def as_len_def)
  qed
  ultimately show thesis using that a len by blast
qed


text \<open>The request of one token after it was received, and after a pass gave it its block.\<close>

definition demo_waiting :: "ActiveSequence \<Rightarrow> int VllmCore" where
  "demo_waiting a = demo_core\<lparr>vc_state := \<lparr>waiting = [7], waiting_members = {7}, running = [], running_members = {},
     requests = [(7, \<lparr>rq_sequence = a, rq_status = Waiting, num_computed_tokens = 0, num_preemptions = 0\<rparr>)]\<rparr>\<rparr>"

definition demo_running :: "ActiveSequence \<Rightarrow> Uuid \<Rightarrow> int VllmCore" where
  "demo_running a u = demo_core\<lparr>vc_kv := demo_cache\<lparr>active_partial := [(u, ())]\<rparr>,
     vc_state := \<lparr>waiting = [], waiting_members = {}, running = [7], running_members = {7},
     requests = [(7, \<lparr>rq_sequence = a\<lparr>num_allocated_tokens := 1\<rparr>, rq_status = Running, num_computed_tokens = 1, num_preemptions = 0\<rparr>)]\<rparr>\<rparr>"

lemmas sched_eval = demo_core_def demo_args_def sched_default_def hm_get_def hm_insert_def hm_len_def

lemma demo_receive:
  assumes "as_new demo_env demo_random [1] k (Some 2) True False 0 = Some (a, 1)" "num_allocated_tokens a = 0"
  shows "receive demo_env demo_random (demo_request\<lparr>dr_max_output_tokens := k\<rparr>) demo_core 0 = Some ((7, demo_waiting a), 1)"
  using assms by (simp add: receive_def demo_request_def demo_waiting_def sched_eval push_waiting_def set_request_def
      request_progress_def request_invariants_def assert_run_def Let_def)

lemma demo_schedule:
  assumes a: "unique_blocks a = [PartialBlock u]" "block_hashes a = []" "plhs a = []" "as_len a = 1" "as_block_size a = 2"
    "num_allocated_tokens a = 0" "num_input_tokens a = 1"
  shows "try_allocate demo_env 7 1 (demo_waiting a) = Some ((1, True), (demo_running a u)\<lparr>vc_state := (vc_state (demo_waiting a))\<lparr>requests :=
     [(7, \<lparr>rq_sequence = a\<lparr>num_allocated_tokens := 1\<rparr>, rq_status = Waiting, num_computed_tokens = 1, num_preemptions = 0\<rparr>)]\<rparr>\<rparr>)"
proof -
  have "prepare_allocation a 1 = Some (Some (Use [PartialBlock u] [] [] None None))"
    using a by (simp add: prepare_allocation_def div_ceil_def)
  moreover have "process demo_env (Use [PartialBlock u] [] [] None None) (demo_cache, demo_heap) = Some (1, demo_cache\<lparr>active_partial := [(u, ())]\<rparr>, demo_heap)"
    by (simp add: cache_eval)
  ultimately show ?thesis
    using a by (simp add: try_allocate_def demo_waiting_def demo_running_def sched_eval world_def set_world_def set_request_def
        commit_granted_def commit_allocation_def Let_def)
qed


lemma demo_pass:
  assumes a: "unique_blocks a = [PartialBlock u]" "block_hashes a = []" "plhs a = []" "as_len a = 1" "as_block_size a = 2"
    "num_allocated_tokens a = 0" "num_input_tokens a = 1" "max_output_tokens a = 0" "generated_tokens a = 0"
  shows "\<exists>res. execute_pass demo_env demo_random (demo_waiting a) 1 = Some (res, demo_running a u, 1)"
proof -
  let ?acc = "pass_start demo_args"
  have "schedule_loop demo_env 7 1 ?acc (demo_waiting a) = Some (Some 1, ?acc, (demo_running a u)\<lparr>vc_state := (vc_state (demo_waiting a))\<lparr>requests :=
     [(7, \<lparr>rq_sequence = a\<lparr>num_allocated_tokens := 1\<rparr>, rq_status = Waiting, num_computed_tokens = 1, num_preemptions = 0\<rparr>)]\<rparr>\<rparr>)"
    using demo_schedule [OF a(1-7)] by (subst schedule_loop.simps) simp
  moreover have "cached_prefix (demo_waiting a) rq = 0" if "rq_sequence rq = a" for rq
    using a that by (simp add: cached_prefix_def get_prefill_cost_def)
  ultimately obtain acc1 where s: "schedule_request demo_env 7 True ?acc (demo_waiting a) =
      Some (Scheduled 1 (Some \<lparr>ad_uuid = 7, reused_input_tokens = 0\<rparr>), acc1, demo_running a u)" "\<not> preempted_any acc1"
    using a by (simp add: schedule_request_def request_invariants_def demo_waiting_def demo_running_def sched_eval account_work_def
        request_sequence_len_def transition_to_running_def remove_from_waiting_def pass_start_def assert_run_def Let_def)
  have compact: "compact_running (vc_state (demo_waiting a)) = vc_state (demo_waiting a)"
    by (simp add: compact_running_def demo_waiting_def)
  have "running_loop demo_env 0 ?acc [] (demo_waiting a) = Some (?acc, [], demo_waiting a)"
    by (subst running_loop.simps) (simp add: demo_waiting_def)
  moreover have "next_waiting_uuid (vc_state (demo_waiting a)) = (Some 7, vc_state (demo_waiting a))"
    by (subst next_waiting_uuid.simps) (simp add: demo_waiting_def hm_get_def)
  then have "\<exists>adm. waiting_loop demo_env 1 ?acc [] (demo_waiting a) = Some (acc1, adm, demo_running a u)"
    using s by (subst waiting_loop.simps, subst waiting_loop.simps) (simp add: pass_start_def demo_waiting_def demo_running_def Let_def)
  moreover have "emit_ready_tokens demo_env demo_random (demo_running a u) 1 = Some ((None, []), demo_running a u, 1)"
    using a by (simp add: emit_ready_tokens_def ready_requests_def demo_running_def hm_get_def)
  moreover have "scheduler_state_ok (vc_state (demo_running a u))"
    using a by (simp add: scheduler_state_ok_def demo_running_def hm_get_def)
  ultimately show ?thesis using compact
    by (auto simp: execute_pass_def Let_def demo_waiting_def demo_running_def demo_core_def demo_args_def)
qed


lemma demo_busy:
  obtains a u where "core_reach demo_env demo_random 100 (demo_waiting a) 1" "core_reach demo_env demo_random 100 (demo_running a u) 1"
    "\<exists>res. execute_pass demo_env demo_random (demo_waiting a) 1 = Some (res, demo_running a u, 1)"
    "\<exists>rq. hm_get (requests (vc_state (demo_running a u))) 7 = Some rq \<and> held rq = [PartialBlock u]"
    "max_output_tokens a = 0 \<and> generated_tokens a = 0"
proof -
  obtain a u where a: "as_new demo_env demo_random [1] 0 (Some 2) True False 0 = Some (a, 1)" "unique_blocks a = [PartialBlock u]"
    "block_hashes a = []" "plhs a = []" "as_len a = 1" "as_block_size a = 2" "num_allocated_tokens a = 0" "num_input_tokens a = 1"
    "max_output_tokens a = 0" "generated_tokens a = 0"
    using demo_single [of 0] by (metis zero_less_numeral)
  have "acceptable demo_random (demo_request\<lparr>dr_max_output_tokens := 0\<rparr>) demo_core 0"
    by (simp add: acceptable_def demo_request_def sched_eval request_id_def)
  then have w: "core_reach demo_env demo_random 100 (demo_waiting a) 1"
    using core_reach.reach_receive [OF demo_start _ demo_receive [OF a(1,7)]] by simp
  obtain res where p: "execute_pass demo_env demo_random (demo_waiting a) 1 = Some (res, demo_running a u, 1)"
    using demo_pass [OF a(2-10)] by blast
  have "1 + pass_draws (demo_waiting a) \<le> 100" by (simp add: pass_draws_def demo_waiting_def hm_len_def)
  then have r: "core_reach demo_env demo_random 100 (demo_running a u) 1" using core_reach.reach_pass [OF w _ p] by blast
  have h: "\<exists>rq. hm_get (requests (vc_state (demo_running a u))) 7 = Some rq \<and> held rq = [PartialBlock u]"
    using a(2,6) by (simp add: demo_running_def hm_get_def held_def blocks_for_def div_ceil_def)
  show thesis using that [OF w r _ h] p a(9,10) by blast
qed

theorem scheduler_never_panics_witness:
  "\<exists>core :: int VllmCore. core_reach demo_env demo_random 100 core 1 \<and> requests (vc_state core) \<noteq> [] \<and>
     (\<exists>res acc core' d'. execute_pass demo_env demo_random core 1 = Some ((res, acc), core', d')) \<and>
     (\<exists>core'. drop_request demo_env 7 core = Some core')"
proof (rule demo_busy)
  fix a u
  assume w: "core_reach demo_env demo_random 100 (demo_waiting a) 1"
  have "1 + pass_draws (demo_waiting a) \<le> 100" by (simp add: pass_draws_def demo_waiting_def hm_len_def)
  then show ?thesis
    using w scheduler_never_panics [OF demo_ids w, of 7] by (intro exI [of _ "demo_waiting a"]) (auto simp: demo_waiting_def)
qed

theorem kv_references_exact_witness:
  "\<exists>(core :: int VllmCore) v u rq. core_reach demo_env demo_random 100 core 1 \<and> hm_contains (active_partial (vc_kv core)) v \<and>
     hm_get (requests (vc_state core)) u = Some rq \<and> PartialBlock v \<in> set (held rq)"
proof (rule demo_busy)
  fix a u
  assume r: "core_reach demo_env demo_random 100 (demo_running a u) 1"
  have "hm_contains (active_partial (vc_kv (demo_running a u))) u" by (simp add: demo_running_def hm_contains_def)
  then show ?thesis using r kv_references_exact [OF demo_ids r, of 0 u] by blast
qed

theorem idle_releases_all_witness:
  "\<exists>core :: int VllmCore. core_reach demo_env demo_random 100 core 1 \<and> sched_is_empty (vc_state core) \<and> num_active_blocks (vc_kv core) = 0"
proof (rule demo_busy)
  fix a u
  assume r: "core_reach demo_env demo_random 100 (demo_running a u) 1"
  obtain core' where c: "drop_request demo_env 7 (demo_running a u) = Some core'"
    using drop_request_ok core_reach_inv [OF demo_ids r] by blast
  have r': "core_reach demo_env demo_random 100 core' 1" using core_reach.reach_drop [OF r c] .
  have "sched_is_empty (vc_state core')"
    using c by (auto simp: drop_request_def demo_running_def hm_get_def complete_def hm_remove_def sched_is_empty_def run_simps)
  then show ?thesis using r' idle_releases_all [OF demo_ids r'] by blast
qed

theorem requests_queued_once_witness:
  "\<exists>core :: int VllmCore. core_reach demo_env demo_random 100 core 1 \<and> 7 \<in> running_members (vc_state core) \<and>
     count_list (running (vc_state core)) 7 = 1"
proof (rule demo_busy)
  fix a u
  assume r: "core_reach demo_env demo_random 100 (demo_running a u) 1"
  have "7 \<in> running_members (vc_state (demo_running a u))" by (simp add: demo_running_def)
  then show ?thesis using r requests_queued_once [OF demo_ids r] by blast
qed

theorem batch_budget_witness:
  "\<exists>(core :: int VllmCore) res acc core'. execute_pass demo_env demo_random core 1 = Some ((res, acc), core', 1) \<and>
     hm_sum total_tokens (scheduled acc) \<le> 8"
proof (rule demo_busy)
  fix a u
  assume "\<exists>res. execute_pass demo_env demo_random (demo_waiting a) 1 = Some (res, demo_running a u, 1)"
  then obtain res acc where p: "execute_pass demo_env demo_random (demo_waiting a) 1 = Some ((res, acc), demo_running a u, 1)"
    by (metis surj_pair)
  then show ?thesis using batch_budget [OF p] by (auto simp: demo_waiting_def sched_eval)
qed

theorem running_bound_witness:
  "\<exists>core :: int VllmCore. core_reach demo_env demo_random 100 core 1 \<and> running_members (vc_state core) \<noteq> {} \<and>
     card (running_members (vc_state core)) \<le> 1"
proof (rule demo_busy)
  fix a u
  assume r: "core_reach demo_env demo_random 100 (demo_running a u) 1"
  have "max_num_seqs (vc_args (demo_running a u)) = Some 1" by (simp add: demo_running_def sched_eval)
  from running_bound [OF demo_ids r this] r show ?thesis
    by (intro exI [of _ "demo_running a u"]) (simp add: demo_running_def)
qed

theorem preemption_contract_witness:
  "\<exists>(core :: int VllmCore) signals s'. core_reach demo_env demo_random 100 core 1 \<and>
     preempt demo_env Lifo (vc_state core) = Some (Some \<lparr>pr_uuid = 7, pr_signals = signals\<rparr>, s') \<and> fst (next_waiting_uuid s') = Some 7"
proof (rule demo_busy)
  fix a u
  assume r: "core_reach demo_env demo_random 100 (demo_running a u) 1"
  have "filter (\<lambda>v. v \<in> running_members (vc_state (demo_running a u))) (running (vc_state (demo_running a u))) = [7]"
    by (simp add: demo_running_def)
  then show ?thesis using r preemption_contract [OF demo_ids r, of Lifo] by (simp add: Let_def) blast
qed


theorem reused_id_leaks_witness:
  "\<exists>(core :: int VllmCore) b. hm_sum (\<lambda>rq. count_list (held rq) b) (requests (vc_state core)) < kv_ledger (vc_kv core) b"
proof (rule demo_busy)
  fix a u
  assume r: "core_reach demo_env demo_random 100 (demo_running a u) 1"
    and h: "\<exists>rq. hm_get (requests (vc_state (demo_running a u))) 7 = Some rq \<and> held rq = [PartialBlock u]"
  obtain a' d' where "as_new demo_env demo_random [1] 0 (Some 2) True False 1 = Some (a', d')" "num_allocated_tokens a' = 0"
    using as_new_ok [of 2 "[1]" demo_env demo_random 0 True False 1] by auto
  then obtain core' where "receive demo_env demo_random demo_request (demo_running a u) 1 = Some ((7, core'), d')"
    by (simp add: receive_def demo_request_def demo_running_def sched_eval push_waiting_def set_request_def
        request_progress_def request_invariants_def assert_run_def Let_def)
  from reused_id_leaks [OF demo_ids r _ _ _ this] h show ?thesis by (auto simp: demo_request_def)
qed


theorem worker_drains_witness:
  "\<exists>(core :: int VllmCore) n core' d'. core_reach demo_env demo_random 100 core 1 \<and> \<not> sched_is_empty (vc_state core) \<and> n \<le> 1 \<and>
     run_passes demo_env demo_random n core 1 = Some (core', d') \<and> sched_is_empty (vc_state core')"
proof -
  obtain a u where a: "as_new demo_env demo_random [1] 1 (Some 2) True False 0 = Some (a, 1)"
    "as_block_size a = 2" "num_allocated_tokens a = 0" "num_input_tokens a = 1" "max_output_tokens a = 1" "generated_tokens a = 0"
    using demo_single [of 1] by (metis one_less_numeral_iff semiring_norm(76))
  have "acceptable demo_random (demo_request\<lparr>dr_max_output_tokens := 1\<rparr>) demo_core 0"
    by (simp add: acceptable_def demo_request_def sched_eval request_id_def)
  then have w: "core_reach demo_env demo_random 100 (demo_waiting a) 1"
    using core_reach.reach_receive [OF demo_start _ demo_receive [OF a(1,3)]] by simp
  have o: "owed (demo_waiting a) = 1" using a by (simp add: owed_def demo_waiting_def)
  have "\<exists>n core' d'. n \<le> owed (demo_waiting a) \<and> run_passes demo_env demo_random n (demo_waiting a) 1 = Some (core', d') \<and> sched_is_empty (vc_state core')"
  proof (rule worker_drains [OF demo_ids w])
    show "1 + owed (demo_waiting a) * pass_draws (demo_waiting a) \<le> 100" unfolding o by (simp add: pass_draws_def demo_waiting_def hm_len_def)
  qed (use a in \<open>simp_all add: demo_waiting_def demo_core_def demo_args_def demo_cache_def hm_get_def div_ceil_def demand_def token_limit_def\<close>)
  moreover have "\<not> sched_is_empty (vc_state (demo_waiting a))" by (simp add: demo_waiting_def sched_is_empty_def)
  ultimately show ?thesis using w unfolding o by blast
qed

theorem zero_output_never_completes_witness:
  "\<exists>(core :: int VllmCore) core' rq'. core_reach demo_env demo_random 100 core 1 \<and> run_passes demo_env demo_random 1 core 1 = Some (core', 1) \<and>
     hm_get (requests (vc_state core')) 7 = Some rq' \<and> generated_tokens (rq_sequence rq') = 0"
proof (rule demo_busy)
  fix a u
  assume w: "core_reach demo_env demo_random 100 (demo_waiting a) 1" and a: "max_output_tokens a = 0 \<and> generated_tokens a = 0"
    and p: "\<exists>res. execute_pass demo_env demo_random (demo_waiting a) 1 = Some (res, demo_running a u, 1)"
  have run: "run_passes demo_env demo_random 1 (demo_waiting a) 1 = Some (demo_running a u, 1)"
    using p run_passes.simps(2) [of demo_env demo_random 0 "demo_waiting a" 1] by auto
  have "\<exists>rq'. hm_get (requests (vc_state (demo_running a u))) 7 = Some rq' \<and> max_output_tokens (rq_sequence rq') = 0 \<and> generated_tokens (rq_sequence rq') = 0"
    using zero_output_never_completes [OF run, of 7] a by (auto simp: demo_waiting_def hm_get_def)
  then show ?thesis using w run by blast
qed

end
