(* ===== verification/LoadDriver.thy ===== *)
theory LoadDriver
  imports Workload Scheduler "HOL-Library.Multiset"
begin

text \<open>
  The load driver of the mocker, \<open>lib/mocker/src/loadgen/driver.rs\<close>. A session has one turn at a time: its first
  turn becomes ready when the session starts, every other one some delay after the turn before it
  completed. The driver hands out the ready turns, the earliest first, within a limit on the turns in
  flight. Sessions that may have a ready turn are in a heap, whose entries can be out of date and are
  then skipped.
\<close>

section \<open>Binary heaps\<close>

text \<open>
  \<open>std::collections::BinaryHeap\<close> gives back the greatest element. It is the list of its elements in descending
  order, so that \<open>peek\<close> and \<open>pop\<close> take the head.
\<close>

fun heap_push :: "'a::linorder \<Rightarrow> 'a list \<Rightarrow> 'a list" where
  "heap_push x [] = [x]"
| "heap_push x (y # ys) = (if y \<le> x then x # y # ys else y # heap_push x ys)"

abbreviation heap_ordered :: "'a::linorder list \<Rightarrow> bool" where
  "heap_ordered h \<equiv> sorted_wrt (\<ge>) h"

lemma heap_push_set [simp]: "set (heap_push x h) = insert x (set h)"
  by (induction h) auto

lemma heap_push_ordered [simp]: "heap_ordered h \<Longrightarrow> heap_ordered (heap_push x h)"
  by (induction h) auto

lemma heap_push_top: "\<forall>y \<in> set h. y \<le> x \<Longrightarrow> heap_push x h = x # h"
  by (cases h) auto

definition heap_of :: "'a::linorder list \<Rightarrow> 'a list" where
  "heap_of xs = foldl (\<lambda>h x. heap_push x h) [] xs"

lemma heap_of_ok: "heap_ordered (heap_of xs) \<and> set (heap_of xs) = set xs"
proof -
  have "heap_ordered h \<Longrightarrow> heap_ordered (foldl (\<lambda>h x. heap_push x h) h xs) \<and> set (foldl (\<lambda>h x. heap_push x h) h xs) = set h \<union> set xs" for h
    by (induction xs arbitrary: h) auto
  from this [of "[]"] show ?thesis by (simp add: heap_of_def)
qed

section \<open>The driver\<close>

datatype DriverMode = TraceMode | ConcurrencyMode

record 't TurnRuntime =
  tr_tokens :: "u32 list"
  tr_max_output_tokens :: nat
  tr_delay_after_previous_ms :: 't
  tr_replay_hashes :: ReplayRequestHashes

record 't SessionRuntime =
  sr_session_id :: string
  sr_turns :: "'t TurnRuntime list"
  next_turn_index :: nat
  next_ready_at_ms :: "'t option"
  sr_in_flight :: "Uuid option"

record InFlightTurn =
  if_session_index :: nat
  if_turn_index :: nat

datatype 't ReadySession = ReadySession (ready_at_ms: 't) (rs_session_index: nat) (rs_turn_index: nat)

text \<open>The order of the heap: the earliest entry is the greatest, then the one of the first session and turn.\<close>

instantiation ReadySession :: (linorder) linorder
begin

definition less_eq_ReadySession :: "'a ReadySession \<Rightarrow> 'a ReadySession \<Rightarrow> bool" where
  "less_eq_ReadySession a b = (ready_at_ms b < ready_at_ms a \<or> ready_at_ms b = ready_at_ms a \<and>
     (rs_session_index b < rs_session_index a \<or> rs_session_index b = rs_session_index a \<and> rs_turn_index b \<le> rs_turn_index a))"

definition less_ReadySession :: "'a ReadySession \<Rightarrow> 'a ReadySession \<Rightarrow> bool" where
  "less_ReadySession a b = (a \<le> b \<and> \<not> b \<le> a)"

instance
  by standard (auto simp: less_eq_ReadySession_def less_ReadySession_def ReadySession.expand)

end

record 't WorkloadDriver =
  dv_mode :: DriverMode
  dv_sessions :: "'t SessionRuntime list"
  dv_in_flight :: "(Uuid, InFlightTurn) hmap"
  ready_sessions :: "'t ReadySession list"
  max_in_flight :: "nat option"

record 't ReadyTurn =
  request_uuid :: Uuid
  rt_session_id :: string
  rt_turn_index :: nat
  scheduled_ready_at_ms :: 't
  rt_replay_hashes :: "ReplayRequestHashes option"
  rt_request :: "'t ArrivingRequest"

definition turn_runtime :: "build_env \<Rightarrow> router_hash \<Rightarrow> nat \<Rightarrow> nat \<Rightarrow> 't TurnTrace \<Rightarrow> (load_error + 't TurnRuntime) run" where
  "turn_runtime E H bs engine_block_size turn =
     and_then (synthesize_tokens E bs turn) (\<lambda>tokens.
     and_then (to_replay_hashes E H bs engine_block_size turn) (\<lambda>hashes.
     Some (Inr \<lparr>tr_tokens = tokens, tr_max_output_tokens = turn_max_output_tokens turn,
       tr_delay_after_previous_ms = delay_after_previous_ms turn, tr_replay_hashes = hashes\<rparr>)))"

definition session_runtime :: "build_env \<Rightarrow> router_hash \<Rightarrow> nat \<Rightarrow> nat \<Rightarrow> DriverMode \<Rightarrow> ('t::zero) SessionTrace \<Rightarrow> (load_error + 't SessionRuntime) run" where
  "session_runtime E H bs engine_block_size mode session =
     and_then (each_then (turn_runtime E H bs engine_block_size) (turns session)) (\<lambda>ts.
     Some (Inr \<lparr>sr_session_id = session_id session, sr_turns = ts, next_turn_index = 0,
       next_ready_at_ms = Some (case mode of
           TraceMode \<Rightarrow> (case first_arrival_timestamp_ms session of Some t \<Rightarrow> t | None \<Rightarrow> 0)
         | ConcurrencyMode \<Rightarrow> 0),
       sr_in_flight = None\<rparr>))"

definition initial_entry :: "nat \<times> 't SessionRuntime \<Rightarrow> 't ReadySession option" where
  "initial_entry = (\<lambda>(i, session). map_option (\<lambda>t. ReadySession t i (next_turn_index session)) (next_ready_at_ms session))"

definition driver_new :: "build_env \<Rightarrow> router_hash \<Rightarrow> ('t::{linorder,zero}) Trace \<Rightarrow> nat \<Rightarrow> DriverMode \<Rightarrow> (load_error + 't WorkloadDriver) run" where
  "driver_new E H trace engine_block_size mode =
     and_then (each_then (session_runtime E H (trace_block_size trace) engine_block_size mode) (sessions trace)) (\<lambda>ss.
     Some (Inr \<lparr>dv_mode = mode, dv_sessions = ss, dv_in_flight = [],
       ready_sessions = heap_of (List.map_filter initial_entry (enumerate 0 ss)), max_in_flight = None\<rparr>))"

definition into_trace_driver_with_block_size :: "build_env \<Rightarrow> router_hash \<Rightarrow> ('t::{linorder,zero} \<Rightarrow> bool) \<Rightarrow> nat \<Rightarrow> 't Trace \<Rightarrow>
    (load_error + 't WorkloadDriver) run" where
  "into_trace_driver_with_block_size E H fin engine_block_size trace =
     and_then (validate_for_trace_mode E fin trace) (\<lambda>_. driver_new E H trace engine_block_size TraceMode)"

definition into_concurrency_driver_with_block_size :: "build_env \<Rightarrow> router_hash \<Rightarrow> ('t::{linorder,zero} \<Rightarrow> bool) \<Rightarrow> nat \<Rightarrow> 't Trace \<Rightarrow>
    (load_error + 't WorkloadDriver) run" where
  "into_concurrency_driver_with_block_size E H fin engine_block_size trace =
     and_then (validate_for_concurrency_mode E fin trace) (\<lambda>_. driver_new E H trace engine_block_size ConcurrencyMode)"

definition into_trace_driver :: "build_env \<Rightarrow> router_hash \<Rightarrow> ('t::{linorder,zero} \<Rightarrow> bool) \<Rightarrow> 't Trace \<Rightarrow> (load_error + 't WorkloadDriver) run" where
  "into_trace_driver E H fin trace = into_trace_driver_with_block_size E H fin (trace_block_size trace) trace"

definition into_concurrency_driver :: "build_env \<Rightarrow> router_hash \<Rightarrow> ('t::{linorder,zero} \<Rightarrow> bool) \<Rightarrow> 't Trace \<Rightarrow> (load_error + 't WorkloadDriver) run" where
  "into_concurrency_driver E H fin trace = into_concurrency_driver_with_block_size E H fin (trace_block_size trace) trace"

definition set_max_in_flight :: "build_env \<Rightarrow> nat \<Rightarrow> 't WorkloadDriver \<Rightarrow> 't WorkloadDriver run" where
  "set_max_in_flight E cap driver = do {
     assert_run (debug_assertions E \<longrightarrow> dv_in_flight driver = []);
     Some (driver\<lparr>max_in_flight := Some cap\<rparr>)
   }"

definition release_cap_slot :: "Uuid \<Rightarrow> 't WorkloadDriver \<Rightarrow> 't WorkloadDriver" where
  "release_cap_slot uuid driver =
     (case hm_get (dv_in_flight driver) uuid of
        None \<Rightarrow> driver
      | Some turn \<Rightarrow>
          let driver1 = driver\<lparr>dv_in_flight := hm_remove uuid (dv_in_flight driver)\<rparr>; i = if_session_index turn in
          if i < length (dv_sessions driver) then
            let session = dv_sessions driver ! i in
            if sr_in_flight session = Some uuid
            then driver1\<lparr>dv_sessions := (dv_sessions driver)[i := session\<lparr>sr_in_flight := None,
              next_turn_index := length (sr_turns session), next_ready_at_ms := None\<rparr>]\<rparr>
            else driver1
          else driver1)"

text \<open>An entry of the heap that its session has outrun.\<close>

definition stale :: "'t SessionRuntime \<Rightarrow> 't ReadySession \<Rightarrow> bool" where
  "stale session entry = (sr_in_flight session \<noteq> None \<or> next_turn_index session \<noteq> rs_turn_index entry \<or>
     next_ready_at_ms session \<noteq> Some (ready_at_ms entry))"

definition ready_turn :: "DriverMode \<Rightarrow> Uuid \<Rightarrow> 't \<Rightarrow> 't SessionRuntime \<Rightarrow> 't TurnRuntime \<Rightarrow> 't ReadyTurn" where
  "ready_turn mode uuid at session turn =
     \<lparr>request_uuid = uuid, rt_session_id = sr_session_id session, rt_turn_index = next_turn_index session,
      scheduled_ready_at_ms = at, rt_replay_hashes = Some (tr_replay_hashes turn),
      rt_request = \<lparr>dr_tokens = tr_tokens turn, dr_max_output_tokens = tr_max_output_tokens turn, dr_uuid = Some uuid,
        arrival_timestamp_ms = (case mode of TraceMode \<Rightarrow> Some at | ConcurrencyMode \<Rightarrow> None)\<rparr>\<rparr>"

text \<open>The loop of \<open>pop_ready\<close>; its last argument but one is the heap, whose head every round takes off.\<close>

fun pop_loop :: "random_source \<Rightarrow> ('t::linorder) \<Rightarrow> nat \<Rightarrow> 't WorkloadDriver \<Rightarrow> 't ReadySession list \<Rightarrow> nat \<Rightarrow>
    (('t ReadyTurn list \<times> 't WorkloadDriver) \<times> nat) run" where
  "pop_loop R now 0 driver heap d = Some (([], driver\<lparr>ready_sessions := heap\<rparr>), d)"
| "pop_loop R now (Suc n) driver [] d = Some (([], driver\<lparr>ready_sessions := []\<rparr>), d)"
| "pop_loop R now (Suc n) driver (entry # heap) d =
     (if now < ready_at_ms entry then Some (([], driver\<lparr>ready_sessions := heap_push entry heap\<rparr>), d)
      else do {
        session \<leftarrow> index_run (dv_sessions driver) (rs_session_index entry);
        if stale session entry then pop_loop R now (Suc n) driver heap d
        else do {
          turn \<leftarrow> index_run (sr_turns session) (next_turn_index session);
          let uuid = draw_uuid R d;
          let driver1 = driver\<lparr>dv_sessions := (dv_sessions driver)[rs_session_index entry :=
                session\<lparr>sr_in_flight := Some uuid, next_ready_at_ms := None\<rparr>],
              dv_in_flight := hm_insert uuid \<lparr>if_session_index = rs_session_index entry, if_turn_index = next_turn_index session\<rparr>
                (dv_in_flight driver)\<rparr>;
          ((emitted, driver2), d2) \<leftarrow> pop_loop R now n driver1 heap (Suc d);
          Some ((ready_turn (dv_mode driver) uuid (ready_at_ms entry) session turn # emitted, driver2), d2)
        }
      })"

definition pop_ready :: "random_source \<Rightarrow> ('t::linorder) \<Rightarrow> nat \<Rightarrow> 't WorkloadDriver \<Rightarrow> nat \<Rightarrow> (('t ReadyTurn list \<times> 't WorkloadDriver) \<times> nat) run" where
  "pop_ready R now limit driver d =
     (let effective_limit = (case max_in_flight driver of
          Some cap \<Rightarrow> min limit (cap - hm_len (dv_in_flight driver)) | None \<Rightarrow> limit)
      in if effective_limit = 0 then Some (([], driver), d)
         else pop_loop R now effective_limit driver (ready_sessions driver) d)"

datatype completion_error = UnknownRequest Uuid | UnknownSession nat | WrongRequest string Uuid "Uuid option"

definition on_complete :: "Uuid \<Rightarrow> ('t::{linorder,plus}) \<Rightarrow> 't WorkloadDriver \<Rightarrow> (completion_error + unit) \<times> 't WorkloadDriver" where
  "on_complete uuid now driver =
     (case hm_get (dv_in_flight driver) uuid of
        None \<Rightarrow> (Inl (UnknownRequest uuid), driver)
      | Some turn \<Rightarrow>
          let driver1 = driver\<lparr>dv_in_flight := hm_remove uuid (dv_in_flight driver)\<rparr>; i = if_session_index turn in
          if length (dv_sessions driver) \<le> i then (Inl (UnknownSession i), driver1)
          else
            let session = dv_sessions driver ! i in
            if sr_in_flight session \<noteq> Some uuid
            then (Inl (WrongRequest (sr_session_id session) uuid (sr_in_flight session)), driver1)
            else
              let next = if_turn_index turn + 1; session1 = session\<lparr>sr_in_flight := None, next_turn_index := next\<rparr> in
              if next < length (sr_turns session)
              then let at = now + tr_delay_after_previous_ms (sr_turns session ! next) in
                (Inr (), driver1\<lparr>dv_sessions := (dv_sessions driver)[i := session1\<lparr>next_ready_at_ms := Some at\<rparr>],
                  ready_sessions := heap_push (ReadySession at i next) (ready_sessions driver)\<rparr>)
              else (Inr (), driver1\<lparr>dv_sessions := (dv_sessions driver)[i := session1\<lparr>next_ready_at_ms := None\<rparr>]\<rparr>))"

fun next_ready_loop :: "'t SessionRuntime list \<Rightarrow> 't ReadySession list \<Rightarrow> ('t option \<times> 't ReadySession list) run" where
  "next_ready_loop ss [] = Some (None, [])"
| "next_ready_loop ss (entry # heap) = do {
     session \<leftarrow> index_run ss (rs_session_index entry);
     if stale session entry then next_ready_loop ss heap
     else Some (Some (ready_at_ms entry), entry # heap)
   }"

definition next_ready_time_ms :: "'t WorkloadDriver \<Rightarrow> ('t option \<times> 't WorkloadDriver) run" where
  "next_ready_time_ms driver =
     (if (case max_in_flight driver of Some cap \<Rightarrow> cap \<le> hm_len (dv_in_flight driver) | None \<Rightarrow> False) then Some (None, driver)
      else do {
        (next, heap) \<leftarrow> next_ready_loop (dv_sessions driver) (ready_sessions driver);
        Some (next, driver\<lparr>ready_sessions := heap\<rparr>)
      })"

definition is_drained :: "'t WorkloadDriver \<Rightarrow> bool" where
  "is_drained driver = (dv_in_flight driver = [] \<and> list_all (\<lambda>s. length (sr_turns s) \<le> next_turn_index s) (dv_sessions driver))"

definition total_turns :: "'t WorkloadDriver \<Rightarrow> nat" where
  "total_turns driver = sum_list (map (\<lambda>s. length (sr_turns s)) (dv_sessions driver))"

section \<open>The invariant\<close>

text \<open>How many turns of a session have been handed out, and those that have not.\<close>

definition issued :: "'t SessionRuntime \<Rightarrow> nat" where
  "issued session = next_turn_index session + (if sr_in_flight session = None then 0 else 1)"

definition pending :: "'t WorkloadDriver \<Rightarrow> 't TurnRuntime list" where
  "pending driver = concat (map (\<lambda>s. drop (issued s) (sr_turns s)) (dv_sessions driver))"

definition session_inv :: "'t WorkloadDriver \<Rightarrow> nat \<Rightarrow> 't SessionRuntime \<Rightarrow> bool" where
  "session_inv driver i session = (next_turn_index session \<le> length (sr_turns session) \<and>
     (case sr_in_flight session of
        Some u \<Rightarrow> next_turn_index session < length (sr_turns session) \<and> next_ready_at_ms session = None \<and>
          hm_get (dv_in_flight driver) u = Some \<lparr>if_session_index = i, if_turn_index = next_turn_index session\<rparr>
      | None \<Rightarrow> (case next_ready_at_ms session of
            None \<Rightarrow> next_turn_index session = length (sr_turns session)
          | Some t \<Rightarrow> next_turn_index session < length (sr_turns session) \<and>
              ReadySession t i (next_turn_index session) \<in> set (ready_sessions driver))))"

definition driver_inv :: "('t::linorder) WorkloadDriver \<Rightarrow> bool" where
  "driver_inv driver = (hm_wf (dv_in_flight driver) \<and> heap_ordered (ready_sessions driver) \<and>
     (\<forall>entry \<in> set (ready_sessions driver). rs_session_index entry < length (dv_sessions driver)) \<and>
     (\<forall>i < length (dv_sessions driver). session_inv driver i (dv_sessions driver ! i)) \<and>
     (\<forall>u turn. hm_get (dv_in_flight driver) u = Some turn \<longrightarrow> if_session_index turn < length (dv_sessions driver) \<and>
       sr_in_flight (dv_sessions driver ! if_session_index turn) = Some u \<and>
       if_turn_index turn = next_turn_index (dv_sessions driver ! if_session_index turn)))"

lemma driver_invD:
  assumes "driver_inv driver"
  shows "hm_wf (dv_in_flight driver)" "heap_ordered (ready_sessions driver)"
    "entry \<in> set (ready_sessions driver) \<Longrightarrow> rs_session_index entry < length (dv_sessions driver)"
    "i < length (dv_sessions driver) \<Longrightarrow> session_inv driver i (dv_sessions driver ! i)"
    "hm_get (dv_in_flight driver) u = Some turn \<Longrightarrow> if_session_index turn < length (dv_sessions driver) \<and>
       sr_in_flight (dv_sessions driver ! if_session_index turn) = Some u \<and>
       if_turn_index turn = next_turn_index (dv_sessions driver ! if_session_index turn)"
  using assms by (simp_all add: driver_inv_def)

text \<open>A change of one session keeps the others, as long as no entry in flight and no live heap entry of theirs is lost.\<close>

lemma driver_inv_update:
  assumes inv: "driver_inv driver" and i: "i < length (dv_sessions driver)"
    and "hm_wf fl" "heap_ordered heap" "\<forall>entry \<in> set heap. rs_session_index entry < length (dv_sessions driver)"
    and heap: "\<forall>j t k. j \<noteq> i \<longrightarrow> ReadySession t j k \<in> set (ready_sessions driver) \<longrightarrow>
      next_ready_at_ms (dv_sessions driver ! j) = Some t \<longrightarrow> next_turn_index (dv_sessions driver ! j) = k \<longrightarrow> ReadySession t j k \<in> set heap"
    and fl: "\<forall>u. sr_in_flight (dv_sessions driver ! i) \<noteq> Some u \<longrightarrow> sr_in_flight session \<noteq> Some u \<longrightarrow> hm_get fl u = hm_get (dv_in_flight driver) u"
    and gone: "\<forall>u. sr_in_flight (dv_sessions driver ! i) = Some u \<longrightarrow> sr_in_flight session \<noteq> Some u \<longrightarrow> hm_get fl u = None"
    and new: "\<forall>u. sr_in_flight session = Some u \<longrightarrow> hm_get fl u = Some \<lparr>if_session_index = i, if_turn_index = next_turn_index session\<rparr> \<and>
      (sr_in_flight (dv_sessions driver ! i) = Some u \<or> hm_get (dv_in_flight driver) u = None)"
    and here: "session_inv (driver\<lparr>dv_sessions := (dv_sessions driver)[i := session], dv_in_flight := fl, ready_sessions := heap\<rparr>) i session"
  shows "driver_inv (driver\<lparr>dv_sessions := (dv_sessions driver)[i := session], dv_in_flight := fl, ready_sessions := heap\<rparr>)"
    (is "driver_inv ?driver")
proof -
  have others: "session_inv ?driver j (dv_sessions driver ! j)" if j: "j < length (dv_sessions driver)" "j \<noteq> i" for j
  proof -
    let ?s = "dv_sessions driver ! j"
    have old: "session_inv driver j ?s" using driver_invD(4) [OF inv j(1)] .
    show ?thesis
    proof (cases "sr_in_flight ?s")
      case None
      then show ?thesis using old heap j(2) by (auto simp: session_inv_def split: option.splits)
    next
      case (Some u)
      have g: "hm_get (dv_in_flight driver) u = Some \<lparr>if_session_index = j, if_turn_index = next_turn_index ?s\<rparr>"
        using old Some by (simp add: session_inv_def)
      have "sr_in_flight (dv_sessions driver ! i) \<noteq> Some u"
      proof
        assume "sr_in_flight (dv_sessions driver ! i) = Some u"
        then have "hm_get (dv_in_flight driver) u = Some \<lparr>if_session_index = i, if_turn_index = next_turn_index (dv_sessions driver ! i)\<rparr>"
          using driver_invD(4) [OF inv i] by (simp add: session_inv_def)
        then show False using g j(2) by simp
      qed
      moreover have "sr_in_flight session \<noteq> Some u" using new g calculation by auto
      ultimately have "hm_get fl u = hm_get (dv_in_flight driver) u" using fl by blast
      then show ?thesis using old Some by (simp add: session_inv_def)
    qed
  qed
  have flights: "if_session_index turn < length (dv_sessions driver) \<and> sr_in_flight (dv_sessions ?driver ! if_session_index turn) = Some u \<and>
      if_turn_index turn = next_turn_index (dv_sessions ?driver ! if_session_index turn)" if get: "hm_get fl u = Some turn" for u turn
  proof (cases "sr_in_flight session = Some u")
    case True
    then show ?thesis using new get i by auto
  next
    case False
    then have "sr_in_flight (dv_sessions driver ! i) \<noteq> Some u" using gone get by auto
    then have g: "hm_get (dv_in_flight driver) u = Some turn" using fl False get by simp
    note b = driver_invD(5) [OF inv g]
    then have "if_session_index turn \<noteq> i" using \<open>sr_in_flight (dv_sessions driver ! i) \<noteq> Some u\<close> by auto
    then show ?thesis using b by simp
  qed
  have "session_inv ?driver j (dv_sessions ?driver ! j)" if "j < length (dv_sessions driver)" for j
    using others [OF that] here i by (cases "j = i") simp_all
  then show ?thesis using assms(3-5) flights by (simp add: driver_inv_def)
qed

lemma driver_inv_stale:
  assumes "driver_inv (driver\<lparr>ready_sessions := entry # heap\<rparr>)" "stale (dv_sessions driver ! rs_session_index entry) entry"
  shows "driver_inv (driver\<lparr>ready_sessions := heap\<rparr>)"
proof -
  have "session_inv (driver\<lparr>ready_sessions := heap\<rparr>) i (dv_sessions driver ! i)" if i: "i < length (dv_sessions driver)" for i
  proof -
    let ?s = "dv_sessions driver ! i"
    have old: "session_inv (driver\<lparr>ready_sessions := entry # heap\<rparr>) i ?s" using driver_invD(4) [OF assms(1), of i] i by simp
    have "entry \<noteq> ReadySession t i (next_turn_index ?s)" if "sr_in_flight ?s = None" "next_ready_at_ms ?s = Some t" for t
      using assms(2) that by (auto simp: stale_def)
    then show ?thesis using old by (auto simp: session_inv_def split: option.splits)
  qed
  then show ?thesis using assms(1) by (auto simp: driver_inv_def)
qed

text \<open>Handing out the turn of a session that is ready.\<close>

definition issue :: "Uuid \<Rightarrow> nat \<Rightarrow> 't WorkloadDriver \<Rightarrow> 't WorkloadDriver" where
  "issue uuid i driver = (let session = dv_sessions driver ! i in
     driver\<lparr>dv_sessions := (dv_sessions driver)[i := session\<lparr>sr_in_flight := Some uuid, next_ready_at_ms := None\<rparr>],
       dv_in_flight := hm_insert uuid \<lparr>if_session_index = i, if_turn_index = next_turn_index session\<rparr> (dv_in_flight driver)\<rparr>)"

lemma live_entry:
  assumes inv: "driver_inv (driver\<lparr>ready_sessions := entry # heap\<rparr>)" and live: "\<not> stale (dv_sessions driver ! rs_session_index entry) entry"
  defines "i \<equiv> rs_session_index entry" and "session \<equiv> dv_sessions driver ! rs_session_index entry"
  shows "i < length (dv_sessions driver)" and "next_turn_index session < length (sr_turns session)" and "sr_in_flight session = None"
    and "next_ready_at_ms session = Some (ready_at_ms entry)"
proof -
  show i: "i < length (dv_sessions driver)" using driver_invD(3) [OF inv, of entry] by (simp add: i_def)
  show idle: "sr_in_flight session = None" "next_ready_at_ms session = Some (ready_at_ms entry)"
    using live by (simp_all add: stale_def session_def)
  have "session_inv (driver\<lparr>ready_sessions := entry # heap\<rparr>) i session" using driver_invD(4) [OF inv, of i] i by (simp add: session_def i_def)
  then show "next_turn_index session < length (sr_turns session)" using idle by (simp add: session_inv_def)
qed

lemma driver_inv_issue:
  assumes inv: "driver_inv (driver\<lparr>ready_sessions := entry # heap\<rparr>)" and live: "\<not> stale (dv_sessions driver ! rs_session_index entry) entry"
    and new: "hm_get (dv_in_flight driver) uuid = None"
  shows "driver_inv ((issue uuid (rs_session_index entry) driver)\<lparr>ready_sessions := heap\<rparr>)"
proof -
  let ?d = "driver\<lparr>ready_sessions := entry # heap\<rparr>" and ?i = "rs_session_index entry"
  let ?session = "dv_sessions driver ! ?i"
  note e = live_entry [OF inv live]
  let ?s = "?session\<lparr>sr_in_flight := Some uuid, next_ready_at_ms := None\<rparr>"
  let ?fl = "hm_insert uuid \<lparr>if_session_index = ?i, if_turn_index = next_turn_index ?session\<rparr> (dv_in_flight driver)"
  have "driver_inv (?d\<lparr>dv_sessions := (dv_sessions ?d)[?i := ?s], dv_in_flight := ?fl, ready_sessions := heap\<rparr>)"
  proof (rule driver_inv_update [OF inv])
    show "hm_wf ?fl" using driver_invD(1) [OF inv] by simp
    show "heap_ordered heap" "\<forall>e \<in> set heap. rs_session_index e < length (dv_sessions ?d)"
      using driver_invD(2) [OF inv] driver_invD(3) [OF inv] by auto
    show "session_inv (?d\<lparr>dv_sessions := (dv_sessions ?d)[?i := ?s], dv_in_flight := ?fl, ready_sessions := heap\<rparr>) ?i ?s"
      using e(2) by (simp add: session_inv_def)
  qed (use e new in auto)
  then show ?thesis by (simp add: issue_def Let_def)
qed

lemma mset_concat_update:
  assumes "i < length xss"
  shows "mset (concat (xss[i := ys])) + mset (xss ! i) = mset (concat xss) + mset ys"
  using assms
proof (induction xss arbitrary: i)
  case (Cons xs xss)
  then show ?case by (cases i) (simp_all add: ac_simps)
qed simp

lemma pending_update:
  assumes "i < length (dv_sessions driver)" "dv_sessions driver' = (dv_sessions driver)[i := session]"
  shows "mset (pending driver') + mset (drop (issued (dv_sessions driver ! i)) (sr_turns (dv_sessions driver ! i))) =
    mset (pending driver) + mset (drop (issued session) (sr_turns session))"
  using mset_concat_update [of i "map (\<lambda>s. drop (issued s) (sr_turns s)) (dv_sessions driver)" "drop (issued session) (sr_turns session)"] assms
  by (simp add: pending_def map_update)

lemma pending_issue:
  assumes "i < length (dv_sessions driver)" "sr_in_flight (dv_sessions driver ! i) = None"
    and "next_turn_index (dv_sessions driver ! i) < length (sr_turns (dv_sessions driver ! i))"
  shows "mset (pending driver) = add_mset (sr_turns (dv_sessions driver ! i) ! next_turn_index (dv_sessions driver ! i)) (mset (pending (issue u i driver)))"
proof -
  let ?s = "dv_sessions driver ! i"
  have "drop (next_turn_index ?s) (sr_turns ?s) = sr_turns ?s ! next_turn_index ?s # drop (Suc (next_turn_index ?s)) (sr_turns ?s)"
    using assms(3) by (simp add: Cons_nth_drop_Suc)
  then show ?thesis
    using pending_update [OF assms(1), of "issue u i driver" "?s\<lparr>sr_in_flight := Some u, next_ready_at_ms := None\<rparr>"] assms(2)
    by (simp add: issue_def Let_def issued_def)
qed

section \<open>What the operations do\<close>

text \<open>The identities a driver has handed out come from the draws before \<open>d\<close>.\<close>

definition known_ids :: "random_source \<Rightarrow> nat \<Rightarrow> 't WorkloadDriver \<Rightarrow> bool" where
  "known_ids R d driver = (hm_keys (dv_in_flight driver) \<subseteq> drawn R 0 d)"

lemma fresh_id: "known_ids R d driver \<Longrightarrow> ids_ok R N (Suc d) \<Longrightarrow> hm_get (dv_in_flight driver) (draw_uuid R d) = None"
  using drawn_disjoint [of R N "Suc d" "draw_uuid R d" d] by (auto simp: known_ids_def hm_get_keys drawn_def)

lemma known_ids_issue: "known_ids R d driver \<Longrightarrow> known_ids R (Suc d) (issue (draw_uuid R d) i driver)"
  by (auto simp: known_ids_def issue_def Let_def drawn_def)

text \<open>The request a turn becomes.\<close>

definition turn_request :: "'t TurnRuntime \<Rightarrow> u32 list \<times> nat" where
  "turn_request turn = (tr_tokens turn, tr_max_output_tokens turn)"

definition emitted_request :: "'t ReadyTurn \<Rightarrow> u32 list \<times> nat" where
  "emitted_request rt = (dr_tokens (rt_request rt), dr_max_output_tokens (rt_request rt))"

definition nothing_ready :: "('t::linorder) \<Rightarrow> 't WorkloadDriver \<Rightarrow> bool" where
  "nothing_ready now driver = (\<forall>session \<in> set (dv_sessions driver). \<forall>t. next_ready_at_ms session = Some t \<longrightarrow> now < t)"

text \<open>A turn that may be handed out: the next one of a session that has none in flight, once it is ready.\<close>

definition next_of_session :: "'t WorkloadDriver \<Rightarrow> nat \<Rightarrow> 't ReadyTurn \<Rightarrow> bool" where
  "next_of_session driver i rt = (i < length (dv_sessions driver) \<and> (let session = dv_sessions driver ! i in sr_in_flight session = None \<and>
     next_ready_at_ms session = Some (scheduled_ready_at_ms rt) \<and> rt_turn_index rt = next_turn_index session \<and>
     rt_session_id rt = sr_session_id session \<and> emitted_request rt = turn_request (sr_turns session ! next_turn_index session)))"

lemma next_of_session_issue: "next_of_session (issue u j driver) i rt \<Longrightarrow> next_of_session driver i rt"
  by (cases "i = j") (auto simp: next_of_session_def issue_def Let_def)

text \<open>
  A run keeps a log of the turns it handed out, each with the index of its session and its own index there.
  \<open>ended\<close> are the sessions that were given up. \<open>P\<close> are the requests of each session.
\<close>

type_synonym handout = "nat \<times> nat \<times> (u32 list \<times> nat)"

definition session_log :: "nat \<Rightarrow> handout list \<Rightarrow> (nat \<times> (u32 list \<times> nat)) list" where
  "session_log i H = map snd (filter (\<lambda>e. fst e = i) H)"

definition session_log_ok :: "(u32 list \<times> nat) list \<Rightarrow> bool \<Rightarrow> 't SessionRuntime \<Rightarrow> (nat \<times> (u32 list \<times> nat)) list \<Rightarrow> bool" where
  "session_log_ok p over s L =
     (if over then next_turn_index s = length (sr_turns s) \<and> sr_in_flight s = None \<and> (\<exists>k. L = take k (enumerate 0 p))
      else L = take (issued s) (enumerate 0 p))"

definition log_ok :: "(u32 list \<times> nat) list list \<Rightarrow> 't WorkloadDriver \<Rightarrow> handout list \<Rightarrow> nat set \<Rightarrow> bool" where
  "log_ok P driver H ended = (map (\<lambda>s. map turn_request (sr_turns s)) (dv_sessions driver) = P \<and> (\<forall>e \<in> set H. fst e < length P) \<and>
     (\<forall>i < length P. session_log_ok (P ! i) (i \<in> ended) (dv_sessions driver ! i) (session_log i H)))"

lemma log_okD:
  assumes "log_ok P driver H ended"
  shows "length P = length (dv_sessions driver)" "i < length (dv_sessions driver) \<Longrightarrow> P ! i = map turn_request (sr_turns (dv_sessions driver ! i))"
    "i < length (dv_sessions driver) \<Longrightarrow> session_log_ok (P ! i) (i \<in> ended) (dv_sessions driver ! i) (session_log i H)"
    "e \<in> set H \<Longrightarrow> fst e < length P"
  using assms by (auto simp: log_ok_def)

text \<open>A change of one session.\<close>

lemma log_ok_update:
  assumes log: "log_ok P driver H ended" and i: "i < length (dv_sessions driver)" and sessions: "dv_sessions driver' = (dv_sessions driver)[i := s]"
    and s: "sr_turns s = sr_turns (dv_sessions driver ! i)" "session_log_ok (P ! i) (i \<in> ended') s (session_log i H')"
    and rest: "\<forall>j. j \<noteq> i \<longrightarrow> session_log j H' = session_log j H \<and> (j \<in> ended' \<longleftrightarrow> j \<in> ended)" "\<forall>e \<in> set H'. fst e = i \<or> e \<in> set H"
  shows "log_ok P driver' H' ended'"
proof -
  note L = log_okD [OF log]
  have "map (\<lambda>s. map turn_request (sr_turns s)) (dv_sessions driver') = P"
    using log i s(1) by (auto simp: log_ok_def sessions map_update list_update_same_conv)
  moreover have "session_log_ok (P ! j) (j \<in> ended') (dv_sessions driver' ! j) (session_log j H')" if "j < length P" for j
    using L(1) L(3) [of j] that rest(1) s(2) i by (cases "j = i") (simp_all add: sessions)
  moreover have "fst e < length P" if "e \<in> set H'" for e using rest(2) that L(1) L(4) [of e] i by auto
  ultimately show ?thesis by (simp add: log_ok_def)
qed

definition turn_entry :: "'t WorkloadDriver \<Rightarrow> 't ReadyTurn \<Rightarrow> handout" where
  "turn_entry driver rt = (if_session_index (the (hm_get (dv_in_flight driver) (request_uuid rt))), rt_turn_index rt, emitted_request rt)"

lemma log_ok_same: "dv_sessions driver' = dv_sessions driver \<Longrightarrow> log_ok P driver' H ended = log_ok P driver H ended"
  by (simp add: log_ok_def)

lemma log_ok_issue:
  assumes log: "log_ok P driver H ended" and i: "i < length (dv_sessions driver)"
    and s: "sr_in_flight (dv_sessions driver ! i) = None" "next_turn_index (dv_sessions driver ! i) < length (sr_turns (dv_sessions driver ! i))"
  shows "log_ok P (issue u i driver) (H @ [(i, next_turn_index (dv_sessions driver ! i),
    turn_request (sr_turns (dv_sessions driver ! i) ! next_turn_index (dv_sessions driver ! i)))]) ended"
proof -
  let ?s = "dv_sessions driver ! i"
  let ?n = "next_turn_index ?s"
  let ?H = "H @ [(i, ?n, turn_request (sr_turns ?s ! ?n))]"
  note L = log_okD [OF log]
  have Pi: "P ! i = map turn_request (sr_turns ?s)" by (rule L(2) [OF i])
  have old: "i \<notin> ended" "session_log i H = take ?n (enumerate 0 (P ! i))" using L(3) [OF i] s by (auto simp: session_log_ok_def issued_def split: if_splits)
  have "take (Suc ?n) (enumerate 0 (P ! i)) = take ?n (enumerate 0 (P ! i)) @ [(?n, turn_request (sr_turns ?s ! ?n))]"
    using s(2) by (simp add: take_Suc_conv_app_nth Pi nth_enumerate_eq)
  then have "session_log_ok (P ! i) (i \<in> ended) (?s\<lparr>sr_in_flight := Some u, next_ready_at_ms := None\<rparr>) (session_log i ?H)"
    using old by (simp add: session_log_ok_def issued_def session_log_def)
  then show ?thesis
    by (intro log_ok_update [OF log i, where s = "?s\<lparr>sr_in_flight := Some u, next_ready_at_ms := None\<rparr>"]) (auto simp: issue_def Let_def session_log_def)
qed

text \<open>What a call of \<open>pop_ready\<close> hands out, as a relation between the driver before and after it.\<close>

definition hands_out :: "random_source \<Rightarrow> ('t::linorder) \<Rightarrow> 't WorkloadDriver \<Rightarrow> nat \<Rightarrow> 't ReadyTurn list \<Rightarrow> 't WorkloadDriver \<Rightarrow> nat \<Rightarrow> bool" where
  "hands_out R now driver d emitted driver' d' = (driver_inv driver' \<and> known_ids R d' driver' \<and> d' = d + length emitted \<and>
     map request_uuid emitted = map (draw_uuid R) [d..<d'] \<and>
     hm_keys (dv_in_flight driver') = hm_keys (dv_in_flight driver) \<union> request_uuid ` set emitted \<and>
     request_uuid ` set emitted \<inter> hm_keys (dv_in_flight driver) = {} \<and>
     (\<forall>u. u \<notin> request_uuid ` set emitted \<longrightarrow> hm_get (dv_in_flight driver') u = hm_get (dv_in_flight driver) u) \<and>
     hm_len (dv_in_flight driver') = hm_len (dv_in_flight driver) + length emitted \<and>
     max_in_flight driver' = max_in_flight driver \<and> dv_mode driver' = dv_mode driver \<and>
     map sr_turns (dv_sessions driver') = map sr_turns (dv_sessions driver) \<and>
     image_mset turn_request (mset (pending driver)) = mset (map emitted_request emitted) + image_mset turn_request (mset (pending driver')) \<and>
     (\<forall>rt \<in> set emitted. scheduled_ready_at_ms rt \<le> now \<and> dr_uuid (rt_request rt) = Some (request_uuid rt) \<and>
       (\<exists>i. hm_get (dv_in_flight driver') (request_uuid rt) = Some \<lparr>if_session_index = i, if_turn_index = rt_turn_index rt\<rparr> \<and> next_of_session driver i rt)) \<and>
     sorted (map scheduled_ready_at_ms emitted) \<and>
     (\<forall>rt \<in> set emitted. \<forall>session \<in> set (dv_sessions driver'). \<forall>t. next_ready_at_ms session = Some t \<longrightarrow> scheduled_ready_at_ms rt \<le> t) \<and>
     (\<forall>P H ended. log_ok P driver H ended \<longrightarrow> log_ok P driver' (H @ map (turn_entry driver') emitted) ended))"

lemma hands_outD:
  assumes "hands_out R now driver d emitted driver' d'"
  shows "driver_inv driver'" "known_ids R d' driver'" "d' = d + length emitted" "map request_uuid emitted = map (draw_uuid R) [d..<d']"
    "hm_keys (dv_in_flight driver') = hm_keys (dv_in_flight driver) \<union> request_uuid ` set emitted"
    "request_uuid ` set emitted \<inter> hm_keys (dv_in_flight driver) = {}"
    "u \<notin> request_uuid ` set emitted \<Longrightarrow> hm_get (dv_in_flight driver') u = hm_get (dv_in_flight driver) u"
    "hm_len (dv_in_flight driver') = hm_len (dv_in_flight driver) + length emitted"
    "max_in_flight driver' = max_in_flight driver" "dv_mode driver' = dv_mode driver"
    "map sr_turns (dv_sessions driver') = map sr_turns (dv_sessions driver)"
    "image_mset turn_request (mset (pending driver)) = mset (map emitted_request emitted) + image_mset turn_request (mset (pending driver'))"
    "rt \<in> set emitted \<Longrightarrow> scheduled_ready_at_ms rt \<le> now" "rt \<in> set emitted \<Longrightarrow> dr_uuid (rt_request rt) = Some (request_uuid rt)"
    "sorted (map scheduled_ready_at_ms emitted)"
    "rt \<in> set emitted \<Longrightarrow> session \<in> set (dv_sessions driver') \<Longrightarrow> next_ready_at_ms session = Some t \<Longrightarrow> scheduled_ready_at_ms rt \<le> t"
    "log_ok P driver H ended \<Longrightarrow> log_ok P driver' (H @ map (turn_entry driver') emitted) ended"
  using assms unfolding hands_out_def by blast+

lemma pop_loop_step:
  assumes inv: "driver_inv (driver\<lparr>ready_sessions := entry # heap\<rparr>)" and live: "\<not> stale (dv_sessions driver ! rs_session_index entry) entry"
    and due: "\<not> now < ready_at_ms entry"
  defines "i \<equiv> rs_session_index entry" and "session \<equiv> dv_sessions driver ! rs_session_index entry"
  shows "pop_loop R now (Suc n) driver (entry # heap) d = Option.bind (pop_loop R now n (issue (draw_uuid R d) i driver) heap (Suc d))
    (\<lambda>((emitted, driver2), d2). Some ((ready_turn (dv_mode driver) (draw_uuid R d) (ready_at_ms entry) session
      (sr_turns session ! next_turn_index session) # emitted, driver2), d2))"
  using live_entry(1,2) [OF inv live] live due
  by (simp add: index_run_def issue_def i_def session_def Let_def)

lemma heap_times:
  assumes "heap_ordered (entry # heap)" "e \<in> set heap"
  shows "ready_at_ms entry \<le> ready_at_ms e"
  using assms by (auto simp: less_eq_ReadySession_def)

lemma pop_loop_ok:
  assumes "driver_inv (driver\<lparr>ready_sessions := heap\<rparr>)" "known_ids R d driver" "ids_ok R N (d + length (pending driver))"
  shows "\<exists>emitted driver' d'. pop_loop R now n driver heap d = Some ((emitted, driver'), d') \<and>
    hands_out R now (driver\<lparr>ready_sessions := heap\<rparr>) d emitted driver' d' \<and> length emitted \<le> n \<and>
    (length emitted < n \<longrightarrow> nothing_ready now driver') \<and> set (ready_sessions driver') \<subseteq> set heap \<and>
    (\<forall>rt \<in> set emitted. \<forall>e. heap \<noteq> [] \<and> e = hd heap \<longrightarrow> ready_at_ms e \<le> scheduled_ready_at_ms rt)"
  using assms
proof (induction R now n driver heap d rule: pop_loop.induct)
  case (1 R now driver heap d)
  then show ?case by (simp add: hands_out_def known_ids_def)
next
  case (2 R now n driver d)
  have "nothing_ready now (driver\<lparr>ready_sessions := []\<rparr>)"
    unfolding nothing_ready_def
  proof (intro ballI allI impI)
    fix session t
    assume s: "session \<in> set (dv_sessions (driver\<lparr>ready_sessions := []\<rparr>))" "next_ready_at_ms session = Some t"
    then obtain i where "i < length (dv_sessions driver)" "session = dv_sessions driver ! i" by (auto simp: in_set_conv_nth)
    then have "session_inv (driver\<lparr>ready_sessions := []\<rparr>) i session" using driver_invD(4) [OF "2.prems"(1)] by auto
    then show "now < t" using s(2) by (auto simp: session_inv_def split: option.splits)
  qed
  then show ?case using "2.prems" by (simp add: hands_out_def known_ids_def)
next
  case (3 R now n driver entry heap d)
  let ?d = "driver\<lparr>ready_sessions := entry # heap\<rparr>"
  note inv = "3.prems"(1)
  have ord: "heap_ordered (entry # heap)" using driver_invD(2) [OF inv] by simp
  have idx: "rs_session_index entry < length (dv_sessions driver)" using driver_invD(3) [OF inv, of entry] by simp
  consider (late) "now < ready_at_ms entry" | (old) "\<not> now < ready_at_ms entry" "stale (dv_sessions driver ! rs_session_index entry) entry"
    | (live) "\<not> now < ready_at_ms entry" "\<not> stale (dv_sessions driver ! rs_session_index entry) entry" by blast
  then show ?case
  proof cases
    case late
    have "nothing_ready now ?d"
      unfolding nothing_ready_def
    proof (intro ballI allI impI)
      fix session t
      assume s: "session \<in> set (dv_sessions ?d)" "next_ready_at_ms session = Some t"
      then obtain i where "i < length (dv_sessions driver)" "session = dv_sessions driver ! i" by (auto simp: in_set_conv_nth)
      then have "session_inv ?d i session" using driver_invD(4) [OF inv] by auto
      then have "ReadySession t i (next_turn_index session) \<in> set (entry # heap)" using s(2) by (auto simp: session_inv_def split: option.splits)
      then have "ready_at_ms entry \<le> t" using heap_times [OF ord] by fastforce
      then show "now < t" using late by simp
    qed
    moreover have "heap_push entry heap = entry # heap" using ord by (intro heap_push_top) simp
    ultimately show ?thesis using late inv "3.prems"(2) by (simp add: hands_out_def known_ids_def)
  next
    case old
    have inv1: "driver_inv (driver\<lparr>ready_sessions := heap\<rparr>)" by (rule driver_inv_stale [OF inv old(2)])
    have run: "index_run (dv_sessions driver) (rs_session_index entry) = Some (dv_sessions driver ! rs_session_index entry)"
      using idx by (simp add: index_run_def)
    obtain emitted driver' d' where r: "pop_loop R now (Suc n) driver heap d = Some ((emitted, driver'), d')"
      "hands_out R now (driver\<lparr>ready_sessions := heap\<rparr>) d emitted driver' d'" "length emitted \<le> Suc n"
      "length emitted < Suc n \<longrightarrow> nothing_ready now driver'" "set (ready_sessions driver') \<subseteq> set heap"
      "\<forall>rt \<in> set emitted. \<forall>e. heap \<noteq> [] \<and> e = hd heap \<longrightarrow> ready_at_ms e \<le> scheduled_ready_at_ms rt"
      using "3.IH"(1) [OF old(1) run old(2) inv1 "3.prems"(2,3)] by blast
    have "ready_at_ms entry \<le> scheduled_ready_at_ms rt" if "rt \<in> set emitted" for rt
    proof (cases heap)
      case Nil
      then have "emitted = []" using r(1) by simp
      then show ?thesis using that by simp
    next
      case (Cons e rest)
      then show ?thesis using r(6) that heap_times [OF ord, of e] by fastforce
    qed
    moreover have "hands_out R now ?d d emitted driver' d'"
      using r(2) unfolding hands_out_def by (elim conjE, intro conjI)
        (simp_all add: pending_def next_of_session_def log_ok_same [of "driver\<lparr>ready_sessions := heap\<rparr>" driver] log_ok_same [of ?d driver])
    moreover have "set (ready_sessions driver') \<subseteq> set (entry # heap)" using r(5) by auto
    ultimately show ?thesis using r(1,3,4) old run by simp
  next
    case live
    let ?i = "rs_session_index entry" and ?u = "draw_uuid R d"
    let ?s = "dv_sessions driver ! ?i"
    note e = live_entry [OF inv live(2)]
    note p = pending_issue [OF e(1,3,2), of ?u]
    have len_p: "length (pending driver) = Suc (length (pending (issue ?u ?i driver)))" using arg_cong [OF p, of size] by simp
    have new: "hm_get (dv_in_flight driver) ?u = None" by (rule fresh_id [OF "3.prems"(2) ids_ok_mono [OF "3.prems"(3)]]) (simp add: len_p)
    note i = driver_inv_issue [OF inv live(2) new]
    note step = pop_loop_step [OF inv live(2,1), of R n]
    have run: "index_run (dv_sessions driver) ?i = Some ?s" "index_run (sr_turns ?s) (next_turn_index ?s) = Some (sr_turns ?s ! next_turn_index ?s)"
      using e(1,2) by (simp_all add: index_run_def)
    have known: "known_ids R (Suc d) (issue ?u ?i driver)" using known_ids_issue [OF "3.prems"(2)] .
    have ids: "ids_ok R N (Suc d + length (pending (issue ?u ?i driver)))" using "3.prems"(3) by (simp add: len_p)
    have eq: "driver\<lparr>dv_sessions := (dv_sessions driver)[?i := ?s\<lparr>sr_in_flight := Some ?u, next_ready_at_ms := None\<rparr>],
        dv_in_flight := hm_insert ?u \<lparr>if_session_index = ?i, if_turn_index = next_turn_index ?s\<rparr> (dv_in_flight driver)\<rparr> = issue ?u ?i driver"
      by (simp add: issue_def Let_def)
    obtain emitted driver' d' where r: "pop_loop R now n (issue ?u ?i driver) heap (Suc d) = Some ((emitted, driver'), d')"
      "hands_out R now ((issue ?u ?i driver)\<lparr>ready_sessions := heap\<rparr>) (Suc d) emitted driver' d'" "length emitted \<le> n"
      "length emitted < n \<longrightarrow> nothing_ready now driver'" "set (ready_sessions driver') \<subseteq> set heap"
      "\<forall>rt \<in> set emitted. \<forall>e. heap \<noteq> [] \<and> e = hd heap \<longrightarrow> ready_at_ms e \<le> scheduled_ready_at_ms rt"
      using "3.IH"(2) [OF live(1) run(1) live(2) run(2) refl refl] i known ids unfolding eq by blast
    let ?rt = "ready_turn (dv_mode driver) ?u (ready_at_ms entry) ?s (sr_turns ?s ! next_turn_index ?s)"
    have later: "ready_at_ms entry \<le> scheduled_ready_at_ms rt" if "rt \<in> set emitted" for rt
    proof (cases heap)
      case Nil
      then have "emitted = []" using r(1) by (cases n) simp_all
      then show ?thesis using that by simp
    next
      case (Cons e rest)
      then show ?thesis using r(6) that heap_times [OF ord, of e] by fastforce
    qed
    have len: "hm_len (hm_insert ?u x (dv_in_flight driver)) = Suc (hm_len (dv_in_flight driver))" for x
      using new driver_invD(1) [OF inv] by (simp add: hm_len_card hm_get_keys card_insert_if)
    have pend: "image_mset turn_request (mset (pending driver)) =
        add_mset (emitted_request ?rt) (image_mset turn_request (mset (pending (issue ?u ?i driver))))"
      using p by (simp add: emitted_request_def ready_turn_def turn_request_def)
    have upt: "[d..<d'] = d # [Suc d..<d']" using r(2) by (simp add: hands_out_def upt_rec)
    have turns: "map sr_turns (dv_sessions (issue ?u ?i driver)) = map sr_turns (dv_sessions driver)"
      using e(1) by (simp add: issue_def Let_def map_update list_update_same_conv)
    let ?d1 = "issue ?u ?i driver"
    have h: "driver_inv driver'" "hm_keys (dv_in_flight driver') = insert ?u (hm_keys (dv_in_flight driver)) \<union> request_uuid ` set emitted"
      "request_uuid ` set emitted \<inter> insert ?u (hm_keys (dv_in_flight driver)) = {}"
      "\<And>v. v \<notin> request_uuid ` set emitted \<Longrightarrow> hm_get (dv_in_flight driver') v = hm_get (dv_in_flight ?d1) v"
      using r(2) by (auto simp: hands_out_def issue_def Let_def)
    have logs: "log_ok P driver' (H @ map (turn_entry driver') emitted) ended" if "log_ok P ?d1 H ended" for P H ended
      using r(2) that log_ok_same [of "?d1\<lparr>ready_sessions := heap\<rparr>" ?d1 P H ended] unfolding hands_out_def by simp
    have slot: "hm_get (dv_in_flight driver') ?u = Some \<lparr>if_session_index = ?i, if_turn_index = next_turn_index ?s\<rparr>"
      using h(3) h(4) [of ?u] by (auto simp: issue_def Let_def)
    have kept: "hm_get (dv_in_flight driver') v = hm_get (dv_in_flight driver) v" if "v \<notin> request_uuid ` set (?rt # emitted)" for v
      using h(4) [of v] that by (auto simp: issue_def Let_def ready_turn_def)
    have nxt: "next_of_session ?d ?i ?rt"
      unfolding next_of_session_def using e by (simp add: ready_turn_def emitted_request_def turn_request_def)
    have slots: "\<exists>i. hm_get (dv_in_flight driver') (request_uuid rt) = Some \<lparr>if_session_index = i, if_turn_index = rt_turn_index rt\<rparr> \<and> next_of_session ?d1 i rt"
      if "rt \<in> set emitted" for rt
    proof -
      have "next_of_session (?d1\<lparr>ready_sessions := heap\<rparr>) i rt = next_of_session ?d1 i rt" for i by (simp add: next_of_session_def)
      then show ?thesis using r(2) that unfolding hands_out_def by blast
    qed
    have others: "\<exists>i. hm_get (dv_in_flight driver') (request_uuid rt) = Some \<lparr>if_session_index = i, if_turn_index = rt_turn_index rt\<rparr> \<and> next_of_session ?d i rt"
      if rt_in: "rt \<in> set emitted" for rt
    proof -
      obtain i where "hm_get (dv_in_flight driver') (request_uuid rt) = Some \<lparr>if_session_index = i, if_turn_index = rt_turn_index rt\<rparr>" "next_of_session ?d1 i rt"
        using slots rt_in by blast
      then show ?thesis using next_of_session_issue [of ?u ?i driver i rt] by (auto simp: next_of_session_def)
    qed
    have here: "ready_at_ms entry \<le> t" if t: "session \<in> set (dv_sessions driver')" "next_ready_at_ms session = Some t" for session t
    proof -
      obtain j where "j < length (dv_sessions driver')" "session = dv_sessions driver' ! j" using t(1) by (auto simp: in_set_conv_nth)
      then have "ReadySession t j (next_turn_index session) \<in> set (ready_sessions driver')"
        using driver_invD(4) [OF h(1), of j] t(2) by (auto simp: session_inv_def split: option.splits)
      then have "ReadySession t j (next_turn_index session) \<in> set heap" using r(5) by blast
      then show ?thesis using heap_times [OF ord] by fastforce
    qed
    have log: "log_ok P driver' (H @ map (turn_entry driver') (?rt # emitted)) ended" if "log_ok P ?d H ended" for P H ended
    proof -
      have "log_ok P driver H ended" using that log_ok_same [of ?d driver] by simp
      note logs [OF log_ok_issue [OF this e(1,3,2), of ?u]]
      moreover have "turn_entry driver' ?rt = (?i, next_turn_index ?s, turn_request (sr_turns ?s ! next_turn_index ?s))"
        using slot by (simp add: turn_entry_def ready_turn_def emitted_request_def turn_request_def)
      ultimately show ?thesis by simp
    qed
    have old: "map request_uuid emitted = map (draw_uuid R) [Suc d..<d']" "d' = Suc d + length emitted" "known_ids R d' driver'"
      "hm_len (dv_in_flight driver') = Suc (hm_len (dv_in_flight driver)) + length emitted" "max_in_flight driver' = max_in_flight driver" "dv_mode driver' = dv_mode driver"
      "map sr_turns (dv_sessions driver') = map sr_turns (dv_sessions driver)" "sorted (map scheduled_ready_at_ms emitted)"
      "image_mset turn_request (mset (pending ?d1)) = mset (map emitted_request emitted) + image_mset turn_request (mset (pending driver'))"
      "\<And>rt. rt \<in> set emitted \<Longrightarrow> scheduled_ready_at_ms rt \<le> now \<and> dr_uuid (rt_request rt) = Some (request_uuid rt)"
      "\<And>rt session t. rt \<in> set emitted \<Longrightarrow> session \<in> set (dv_sessions driver') \<Longrightarrow> next_ready_at_ms session = Some t \<Longrightarrow> scheduled_ready_at_ms rt \<le> t"
      using hands_outD [OF r(2)] len turns by (simp_all add: issue_def Let_def pending_def)
    have rt: "request_uuid ?rt = ?u" "scheduled_ready_at_ms ?rt = ready_at_ms entry" "dr_uuid (rt_request ?rt) = Some ?u" "rt_turn_index ?rt = next_turn_index ?s"
      by (simp_all add: ready_turn_def)
    have pd: "pending ?d = pending driver" by (simp add: pending_def)
    have "hands_out R now ?d d (?rt # emitted) driver' d'"
      unfolding hands_out_def
    proof (intro conjI)
      show "\<forall>rt \<in> set (?rt # emitted). scheduled_ready_at_ms rt \<le> now \<and> dr_uuid (rt_request rt) = Some (request_uuid rt) \<and>
          (\<exists>i. hm_get (dv_in_flight driver') (request_uuid rt) = Some \<lparr>if_session_index = i, if_turn_index = rt_turn_index rt\<rparr> \<and> next_of_session ?d i rt)"
        using live(1) slot nxt others old(10) rt by auto
      show "request_uuid ` set (?rt # emitted) \<inter> hm_keys (dv_in_flight ?d) = {}" using h(3) new rt(1) by (auto simp: hm_get_keys)
      show "\<forall>P H ended. log_ok P ?d H ended \<longrightarrow> log_ok P driver' (H @ map (turn_entry driver') (?rt # emitted)) ended" using log by blast
      show "\<forall>u. u \<notin> request_uuid ` set (?rt # emitted) \<longrightarrow> hm_get (dv_in_flight driver') u = hm_get (dv_in_flight ?d) u" using kept by simp
      show "image_mset turn_request (mset (pending ?d)) = mset (map emitted_request (?rt # emitted)) + image_mset turn_request (mset (pending driver'))"
        unfolding pd pend old(9) by simp
      show "\<forall>rt \<in> set (?rt # emitted). \<forall>session \<in> set (dv_sessions driver'). \<forall>t. next_ready_at_ms session = Some t \<longrightarrow> scheduled_ready_at_ms rt \<le> t"
        using here old(11) rt(2) by auto
    qed (use h(1,2) old later rt upt in \<open>auto simp: ready_turn_def\<close>)
    moreover have "set (ready_sessions driver') \<subseteq> set (entry # heap)" using r(5) by auto
    ultimately show ?thesis using step r(1,3,4) later rt(2) by simp
  qed
qed

lemma pop_ready_ok:
  assumes "driver_inv driver" "known_ids R d driver" "ids_ok R N (d + length (pending driver))"
  shows "\<exists>emitted driver' d'. pop_ready R now limit driver d = Some ((emitted, driver'), d') \<and> hands_out R now driver d emitted driver' d' \<and>
    length emitted \<le> limit \<and> (case max_in_flight driver of None \<Rightarrow> True | Some cap \<Rightarrow> length emitted \<le> cap - hm_len (dv_in_flight driver)) \<and>
    (length emitted < limit \<and> (case max_in_flight driver of None \<Rightarrow> True | Some cap \<Rightarrow> length emitted < cap - hm_len (dv_in_flight driver)) \<longrightarrow>
      nothing_ready now driver')"
proof -
  define n where "n = (case max_in_flight driver of Some cap \<Rightarrow> min limit (cap - hm_len (dv_in_flight driver)) | None \<Rightarrow> limit)"
  have same: "driver\<lparr>ready_sessions := ready_sessions driver\<rparr> = driver" by simp
  show ?thesis
  proof (cases "n = 0")
    case True
    then have "pop_ready R now limit driver d = Some (([], driver), d)" by (simp add: pop_ready_def n_def Let_def)
    moreover have "hands_out R now driver d [] driver d" using assms by (simp add: hands_out_def)
    ultimately show ?thesis using True by (auto simp: n_def split: option.splits)
  next
    case False
    then have run: "pop_ready R now limit driver d = pop_loop R now n driver (ready_sessions driver) d" by (simp add: pop_ready_def n_def Let_def)
    have "\<exists>emitted driver' d'. pop_loop R now n driver (ready_sessions driver) d = Some ((emitted, driver'), d') \<and>
      hands_out R now driver d emitted driver' d' \<and> length emitted \<le> n \<and> (length emitted < n \<longrightarrow> nothing_ready now driver')"
      using pop_loop_ok [where heap = "ready_sessions driver" and driver = driver and R = R and d = d and N = N and n = n and now = now] assms unfolding same by blast
    then show ?thesis unfolding run by (auto simp: n_def split: option.splits)
  qed
qed

lemma on_complete_ok:
  assumes inv: "driver_inv driver" and get: "hm_get (dv_in_flight driver) u = Some turn"
  shows "\<exists>driver'. on_complete u now driver = (Inr (), driver') \<and> driver_inv driver' \<and>
    dv_in_flight driver' = hm_remove u (dv_in_flight driver) \<and> pending driver' = pending driver \<and>
    max_in_flight driver' = max_in_flight driver \<and> dv_mode driver' = dv_mode driver \<and> map sr_turns (dv_sessions driver') = map sr_turns (dv_sessions driver) \<and>
    (\<forall>P H ended. log_ok P driver H ended \<longrightarrow> log_ok P driver' H ended) \<and>
    (let i = if_session_index turn; s = dv_sessions driver ! i; s' = dv_sessions driver' ! i in
      next_turn_index s' = next_turn_index s + 1 \<and> sr_in_flight s' = None \<and>
      next_ready_at_ms s' = (if next_turn_index s' < length (sr_turns s)
        then Some (now + tr_delay_after_previous_ms (sr_turns s ! next_turn_index s')) else None))"
proof -
  define i where "i = if_session_index turn"
  define s where "s = dv_sessions driver ! i"
  have i: "i < length (dv_sessions driver)" and s: "sr_in_flight s = Some u" "if_turn_index turn = next_turn_index s"
    using driver_invD(5) [OF inv get] by (simp_all add: i_def s_def)
  have si: "session_inv driver i s" using driver_invD(4) [OF inv i] by (simp add: s_def)
  define k where "k = next_turn_index s + 1"
  define at where "at = now + tr_delay_after_previous_ms (sr_turns s ! k)"
  define more where "more = (k < length (sr_turns s))"
  define s1 where "s1 = s\<lparr>sr_in_flight := None, next_turn_index := k, next_ready_at_ms := (if more then Some at else None)\<rparr>"
  define heap where "heap = (if more then heap_push (ReadySession at i k) (ready_sessions driver) else ready_sessions driver)"
  define driver' where "driver' = driver\<lparr>dv_sessions := (dv_sessions driver)[i := s1], dv_in_flight := hm_remove u (dv_in_flight driver), ready_sessions := heap\<rparr>"
  have run: "on_complete u now driver = (Inr (), driver')"
    using get i s by (simp add: on_complete_def driver'_def s1_def heap_def more_def at_def k_def s_def i_def Let_def)
  have "driver_inv driver'"
    unfolding driver'_def
  proof (rule driver_inv_update [OF inv i])
    show "hm_wf (hm_remove u (dv_in_flight driver))" using driver_invD(1) [OF inv] by simp
    show "heap_ordered heap" using driver_invD(2) [OF inv] by (simp add: heap_def)
    show "\<forall>entry \<in> set heap. rs_session_index entry < length (dv_sessions driver)"
      using driver_invD(3) [OF inv] i by (auto simp: heap_def)
    show "session_inv (driver\<lparr>dv_sessions := (dv_sessions driver)[i := s1], dv_in_flight := hm_remove u (dv_in_flight driver), ready_sessions := heap\<rparr>) i s1"
      using si s(1) by (auto simp: session_inv_def s1_def heap_def more_def k_def)
  qed (use s in \<open>auto simp: heap_def s1_def s_def\<close>)
  moreover have "pending driver' = pending driver"
  proof -
    have "map (\<lambda>s. drop (issued s) (sr_turns s)) (dv_sessions driver') = map (\<lambda>s. drop (issued s) (sr_turns s)) (dv_sessions driver)"
      using i s(1) by (simp add: driver'_def map_update s1_def issued_def k_def s_def list_update_same_conv)
    then show ?thesis by (simp add: pending_def)
  qed
  moreover have "map sr_turns (dv_sessions driver') = map sr_turns (dv_sessions driver)"
    using i by (simp add: driver'_def map_update s1_def s_def list_update_same_conv)
  moreover have "log_ok P driver' H ended" if log: "log_ok P driver H ended" for P H ended
  proof (rule log_ok_update [OF log i, where s = s1])
    show "session_log_ok (P ! i) (i \<in> ended) s1 (session_log i H)"
      using log_okD(3) [OF log i] s(1) by (auto simp: session_log_ok_def s1_def issued_def k_def s_def split: if_splits)
  qed (simp_all add: driver'_def s1_def s_def)
  ultimately show ?thesis
    using run i by (simp add: driver'_def Let_def i_def [symmetric] s_def [symmetric] s1_def more_def at_def k_def)
qed

lemma on_complete_unknown: "hm_get (dv_in_flight driver) u = None \<Longrightarrow> on_complete u now driver = (Inl (UnknownRequest u), driver)"
  by (simp add: on_complete_def)

definition end_session :: "'t WorkloadDriver \<Rightarrow> Uuid \<Rightarrow> nat set \<Rightarrow> nat set" where
  "end_session driver u ended = (case hm_get (dv_in_flight driver) u of None \<Rightarrow> ended | Some turn \<Rightarrow> insert (if_session_index turn) ended)"

lemma release_cap_slot_ok:
  assumes inv: "driver_inv driver"
  shows "driver_inv (release_cap_slot u driver)" "dv_in_flight (release_cap_slot u driver) = hm_remove u (dv_in_flight driver) \<or>
      hm_get (dv_in_flight driver) u = None \<and> release_cap_slot u driver = driver"
    "max_in_flight (release_cap_slot u driver) = max_in_flight driver" "dv_mode (release_cap_slot u driver) = dv_mode driver"
    "map sr_turns (dv_sessions (release_cap_slot u driver)) = map sr_turns (dv_sessions driver)"
    "log_ok P driver H ended \<Longrightarrow> log_ok P (release_cap_slot u driver) H (end_session driver u ended)"
proof -
  have all: "driver_inv (release_cap_slot u driver) \<and> (dv_in_flight (release_cap_slot u driver) = hm_remove u (dv_in_flight driver) \<or>
      hm_get (dv_in_flight driver) u = None \<and> release_cap_slot u driver = driver) \<and>
    max_in_flight (release_cap_slot u driver) = max_in_flight driver \<and> dv_mode (release_cap_slot u driver) = dv_mode driver \<and>
    map sr_turns (dv_sessions (release_cap_slot u driver)) = map sr_turns (dv_sessions driver) \<and>
    (log_ok P driver H ended \<longrightarrow> log_ok P (release_cap_slot u driver) H (end_session driver u ended))"
  proof (cases "hm_get (dv_in_flight driver) u")
    case None
    then show ?thesis using inv by (simp add: release_cap_slot_def end_session_def)
  next
    case (Some turn)
    define i where "i = if_session_index turn"
    define s where "s = dv_sessions driver ! i"
    have i: "i < length (dv_sessions driver)" and s: "sr_in_flight s = Some u"
      using driver_invD(5) [OF inv Some] by (simp_all add: i_def s_def)
    define s1 where "s1 = s\<lparr>sr_in_flight := None, next_turn_index := length (sr_turns s), next_ready_at_ms := None\<rparr>"
    define driver' where "driver' = driver\<lparr>dv_sessions := (dv_sessions driver)[i := s1], dv_in_flight := hm_remove u (dv_in_flight driver)\<rparr>"
    have run: "release_cap_slot u driver = driver'"
      using Some i s by (simp add: release_cap_slot_def driver'_def s1_def i_def s_def Let_def)
    have "driver_inv (driver\<lparr>dv_sessions := (dv_sessions driver)[i := s1], dv_in_flight := hm_remove u (dv_in_flight driver), ready_sessions := ready_sessions driver\<rparr>)"
    proof (rule driver_inv_update [OF inv i])
      show "hm_wf (hm_remove u (dv_in_flight driver))" using driver_invD(1) [OF inv] by simp
    qed (use driver_invD(2,3) [OF inv] s in \<open>auto simp: s1_def s_def session_inv_def\<close>)
    then have "driver_inv driver'" by (simp add: driver'_def)
    moreover have "log_ok P driver' H (end_session driver u ended)" if log: "log_ok P driver H ended"
    proof (rule log_ok_update [OF log i, where s = s1])
      have over: "end_session driver u ended = insert i ended" using Some by (simp add: end_session_def i_def)
      show "session_log_ok (P ! i) (i \<in> end_session driver u ended) s1 (session_log i H)"
        using log_okD(3) [OF log i] s by (auto simp: over session_log_ok_def s1_def s_def split: if_splits)
      show "\<forall>j. j \<noteq> i \<longrightarrow> session_log j H = session_log j H \<and> (j \<in> end_session driver u ended \<longleftrightarrow> j \<in> ended)" by (simp add: over)
    qed (simp_all add: driver'_def s1_def s_def)
    moreover have "map sr_turns (dv_sessions driver') = map sr_turns (dv_sessions driver)"
      using i by (simp add: driver'_def map_update s1_def s_def list_update_same_conv)
    ultimately show ?thesis unfolding run by (auto simp: driver'_def)
  qed
  then show "driver_inv (release_cap_slot u driver)" "dv_in_flight (release_cap_slot u driver) = hm_remove u (dv_in_flight driver) \<or>
      hm_get (dv_in_flight driver) u = None \<and> release_cap_slot u driver = driver"
    "max_in_flight (release_cap_slot u driver) = max_in_flight driver" "dv_mode (release_cap_slot u driver) = dv_mode driver"
    "map sr_turns (dv_sessions (release_cap_slot u driver)) = map sr_turns (dv_sessions driver)"
    "log_ok P driver H ended \<Longrightarrow> log_ok P (release_cap_slot u driver) H (end_session driver u ended)" by auto
qed

text \<open>The next time at which something becomes ready is the earliest of the sessions' times.\<close>

lemma next_ready_loop_ok:
  assumes "driver_inv (driver\<lparr>ready_sessions := heap\<rparr>)"
  shows "\<exists>next heap'. next_ready_loop (dv_sessions driver) heap = Some (next, heap') \<and> driver_inv (driver\<lparr>ready_sessions := heap'\<rparr>) \<and>
    (case next of
       None \<Rightarrow> \<forall>session \<in> set (dv_sessions driver). next_ready_at_ms session = None
     | Some t \<Rightarrow> (\<exists>session \<in> set (dv_sessions driver). next_ready_at_ms session = Some t) \<and>
         (\<forall>session \<in> set (dv_sessions driver). \<forall>t'. next_ready_at_ms session = Some t' \<longrightarrow> t \<le> t'))"
  using assms
proof (induction heap)
  case Nil
  have "next_ready_at_ms session = None" if s: "session \<in> set (dv_sessions driver)" for session
  proof -
    obtain i where "i < length (dv_sessions driver)" "session = dv_sessions driver ! i" using s by (auto simp: in_set_conv_nth)
    then have "session_inv (driver\<lparr>ready_sessions := []\<rparr>) i session" using driver_invD(4) [OF Nil] by auto
    then show ?thesis by (auto simp: session_inv_def split: option.splits)
  qed
  then show ?case using Nil by simp
next
  case (Cons entry heap)
  let ?s = "dv_sessions driver ! rs_session_index entry"
  have idx: "rs_session_index entry < length (dv_sessions driver)" using driver_invD(3) [OF Cons.prems, of entry] by simp
  show ?case
  proof (cases "stale ?s entry")
    case True
    then show ?thesis using Cons.IH [OF driver_inv_stale [OF Cons.prems True]] idx by (simp add: index_run_def)
  next
    case False
    have ord: "heap_ordered (entry # heap)" using driver_invD(2) [OF Cons.prems] by simp
    have "ready_at_ms entry \<le> t'" if s: "session \<in> set (dv_sessions driver)" "next_ready_at_ms session = Some t'" for session t'
    proof -
      obtain i where "i < length (dv_sessions driver)" "session = dv_sessions driver ! i" using s(1) by (auto simp: in_set_conv_nth)
      then have "session_inv (driver\<lparr>ready_sessions := entry # heap\<rparr>) i session" using driver_invD(4) [OF Cons.prems] by auto
      then have "ReadySession t' i (next_turn_index session) \<in> set (entry # heap)" using s(2) by (auto simp: session_inv_def split: option.splits)
      then show ?thesis using heap_times [OF ord] by fastforce
    qed
    moreover have "next_ready_at_ms ?s = Some (ready_at_ms entry)" "?s \<in> set (dv_sessions driver)" using False idx by (simp_all add: stale_def)
    ultimately show ?thesis using False idx Cons.prems by (auto simp: index_run_def)
  qed
qed

lemma pop_loop_none: "pop_loop R now n driver heap d = Some (([], driver'), d') \<Longrightarrow> dv_sessions driver' = dv_sessions driver"
  by (induction R now n driver heap d rule: pop_loop.induct) (auto simp: run_simps Let_def split: if_splits)

lemma pop_ready_none: "pop_ready R now limit driver d = Some (([], driver'), d') \<Longrightarrow> dv_sessions driver' = dv_sessions driver"
  by (auto simp: pop_ready_def Let_def split: if_splits dest: pop_loop_none)

text \<open>All the requests of a trace, and those of one session as \<open>synthesize_tokens\<close> makes them; a driver is built only when it does.\<close>

definition session_requests :: "build_env \<Rightarrow> 't Trace \<Rightarrow> nat \<Rightarrow> (u32 list \<times> nat) list" where
  "session_requests E trace i = map (\<lambda>turn. (case synthesize_tokens E (trace_block_size trace) turn of Some (Inr tokens) \<Rightarrow> tokens | _ \<Rightarrow> [],
     turn_max_output_tokens turn)) (turns (sessions trace ! i))"

definition trace_requests :: "'t Trace \<Rightarrow> (u32 list \<times> nat) list" where
  "trace_requests trace =
     map (\<lambda>turn. (turn_tokens (trace_block_size trace) turn, turn_max_output_tokens turn)) (concat (map turns (sessions trace)))"

lemma turn_runtime_ok:
  assumes "turn_runtime E H bs ebs turn = Some (Inr rt)"
  shows "turn_request rt = (turn_tokens bs turn, turn_max_output_tokens turn)"
    "tr_delay_after_previous_ms rt = delay_after_previous_ms turn"
  using assms by (auto simp: turn_runtime_def run_simps turn_request_def dest: synthesize_tokens_sound(1))

lemma turn_runtime_request:
  "turn_runtime E H bs ebs turn = Some (Inr rt) \<Longrightarrow>
     turn_request rt = (case synthesize_tokens E bs turn of Some (Inr tokens) \<Rightarrow> tokens | _ \<Rightarrow> [], turn_max_output_tokens turn)"
  by (auto simp: turn_runtime_def run_simps turn_request_def)

lemma turn_runtime_total:
  assumes "length (hash_ids turn) * bs \<le> usize_max" "0 < bs" "input_length turn \<le> length (hash_ids turn) * bs" "0 < ebs" "ebs \<le> u32_max"
  shows "\<exists>rt. turn_runtime E H bs ebs turn = Some (Inr rt)"
  using assms synthesize_tokens_eq [OF assms(1), of E] by (simp add: turn_runtime_def to_replay_hashes_def Let_def)

lemma session_runtime_ok:
  assumes "session_runtime E H bs ebs mode session = Some (Inr sr)"
  shows "map turn_request (sr_turns sr) = map (\<lambda>turn. (turn_tokens bs turn, turn_max_output_tokens turn)) (turns session)"
    "next_turn_index sr = 0" "sr_in_flight sr = None" "\<exists>t. next_ready_at_ms sr = Some t" "length (sr_turns sr) = length (turns session)"
proof -
  have l: "list_all2 (\<lambda>turn rt. turn_runtime E H bs ebs turn = Some (Inr rt)) (turns session) (sr_turns sr)"
    using assms by (auto simp: session_runtime_def run_simps each_then_ok)
  then show "length (sr_turns sr) = length (turns session)" by (simp add: list_all2_lengthD)
  show "map turn_request (sr_turns sr) = map (\<lambda>turn. (turn_tokens bs turn, turn_max_output_tokens turn)) (turns session)"
    using l by (induction rule: list_all2_induct) (simp_all add: turn_runtime_ok(1))
qed (use assms in \<open>auto simp: session_runtime_def run_simps\<close>)

lemma each_then_exists: "(\<And>x. x \<in> set xs \<Longrightarrow> \<exists>y. f x = Some (Inr y)) \<Longrightarrow> \<exists>ys. each_then f xs = Some (Inr ys)"
proof (induction xs)
  case (Cons x xs)
  obtain y where "f x = Some (Inr y)" using Cons.prems [of x] by auto
  moreover obtain ys where "each_then f xs = Some (Inr ys)" using Cons.IH Cons.prems by auto
  ultimately show ?case by simp
qed simp

lemma driver_new_ok:
  assumes run: "driver_new E H trace ebs mode = Some (Inr driver)" and turns: "\<forall>session \<in> set (sessions trace). turns session \<noteq> []"
  shows "driver_inv driver" "known_ids R 0 driver" "dv_in_flight driver = []" "max_in_flight driver = None" "dv_mode driver = mode"
    "map turn_request (pending driver) = trace_requests trace" "length (dv_sessions driver) = length (sessions trace)"
proof -
  obtain ss where ss: "each_then (session_runtime E H (trace_block_size trace) ebs mode) (sessions trace) = Some (Inr ss)"
    and d: "driver = \<lparr>dv_mode = mode, dv_sessions = ss, dv_in_flight = [],
       ready_sessions = heap_of (List.map_filter initial_entry (enumerate 0 ss)), max_in_flight = None\<rparr>"
    using run by (auto simp: driver_new_def run_simps)
  have l: "list_all2 (\<lambda>s sr. session_runtime E H (trace_block_size trace) ebs mode s = Some (Inr sr)) (sessions trace) ss"
    using ss by (simp add: each_then_ok)
  have len: "length ss = length (sessions trace)" using list_all2_lengthD [OF l] by simp
  have rt: "session_runtime E H (trace_block_size trace) ebs mode (sessions trace ! i) = Some (Inr (ss ! i))" if "i < length ss" for i
    using l that len by (simp add: list_all2_conv_all_nth)
  have heap: "ReadySession t i (next_turn_index (ss ! i)) \<in> set (ready_sessions driver)" if "i < length ss" "next_ready_at_ms (ss ! i) = Some t" for i t
  proof -
    have "(i, ss ! i) \<in> set (enumerate 0 ss)" using that(1) by (simp add: in_set_enumerate_eq)
    moreover have "initial_entry (i, ss ! i) = Some (ReadySession t i (next_turn_index (ss ! i)))" using that(2) by (simp add: initial_entry_def)
    ultimately show ?thesis using heap_of_ok [of "List.map_filter initial_entry (enumerate 0 ss)"]
      by (force simp: d List.map_filter_def image_iff)
  qed
  have idx: "rs_session_index entry < length ss" if "entry \<in> set (ready_sessions driver)" for entry
    using that heap_of_ok [of "List.map_filter initial_entry (enumerate 0 ss)"]
    by (auto simp: d List.map_filter_def initial_entry_def in_set_enumerate_eq)
  have "session_inv driver i (ss ! i)" if "i < length ss" for i
  proof -
    have "turns (sessions trace ! i) \<noteq> []" using turns that len by simp
    then show ?thesis using session_runtime_ok [OF rt [OF that]] heap [OF that] by (auto simp: session_inv_def)
  qed
  then show "driver_inv driver" using conjunct1 [OF heap_of_ok] idx by (simp add: driver_inv_def d)
  show "known_ids R 0 driver" "dv_in_flight driver = []" "max_in_flight driver = None" "dv_mode driver = mode"
    "length (dv_sessions driver) = length (sessions trace)" using len by (simp_all add: d known_ids_def)
  have "drop (issued s) (sr_turns s) = sr_turns s" if "s \<in> set ss" for s
    using that session_runtime_ok(2,3) [OF rt] by (auto simp: in_set_conv_nth issued_def)
  then have "pending driver = concat (map sr_turns ss)" by (simp add: pending_def d cong: map_cong)
  also have "map turn_request \<dots> = trace_requests trace"
  proof -
    have "list_all2 (\<lambda>s sr. session_runtime E H bs ebs mode s = Some (Inr sr)) xs ys \<Longrightarrow>
      map turn_request (concat (map sr_turns ys)) = map (\<lambda>turn. (turn_tokens bs turn, turn_max_output_tokens turn)) (concat (map turns xs))" for bs xs ys
      by (induction rule: list_all2_induct) (simp_all add: session_runtime_ok(1))
    then show ?thesis using l by (simp add: trace_requests_def)
  qed
  finally show "map turn_request (pending driver) = trace_requests trace" .
qed

lemma driver_new_log:
  assumes run: "driver_new E H trace ebs mode = Some (Inr driver)"
  shows "log_ok (map (session_requests E trace) [0..<length (sessions trace)]) driver [] {}"
proof -
  have l: "list_all2 (\<lambda>s sr. session_runtime E H (trace_block_size trace) ebs mode s = Some (Inr sr)) (sessions trace) (dv_sessions driver)"
    using run by (auto simp: driver_new_def run_simps each_then_ok)
  have len: "length (dv_sessions driver) = length (sessions trace)" using list_all2_lengthD [OF l] by simp
  have "map turn_request (sr_turns (dv_sessions driver ! i)) = session_requests E trace i \<and> issued (dv_sessions driver ! i) = 0" if "i < length (sessions trace)" for i
  proof -
    have rt: "session_runtime E H (trace_block_size trace) ebs mode (sessions trace ! i) = Some (Inr (dv_sessions driver ! i))"
      using l that len by (simp add: list_all2_conv_all_nth)
    then have "list_all2 (\<lambda>turn r. turn_runtime E H (trace_block_size trace) ebs turn = Some (Inr r)) (turns (sessions trace ! i)) (sr_turns (dv_sessions driver ! i))"
      by (auto simp: session_runtime_def run_simps each_then_ok dest!: sym [of _ "dv_sessions driver ! i"])
    then have "map turn_request (sr_turns (dv_sessions driver ! i)) = session_requests E trace i"
      unfolding session_requests_def by (induction rule: list_all2_induct) (simp_all add: turn_runtime_request)
    then show ?thesis using session_runtime_ok(2,3) [OF rt] by (simp add: issued_def)
  qed
  then show ?thesis using len by (auto simp: log_ok_def session_log_ok_def session_log_def intro: nth_equalityI)
qed

lemma driver_new_total:
  assumes "trace_small trace" "trace_valid fin missing trace" "0 < ebs" "ebs \<le> u32_max"
  shows "\<exists>driver. driver_new E H trace ebs mode = Some (Inr driver)"
proof -
  have "\<exists>sr. session_runtime E H (trace_block_size trace) ebs mode session = Some (Inr sr)" if s: "session \<in> set (sessions trace)" for session
  proof -
    have "\<exists>rt. turn_runtime E H (trace_block_size trace) ebs turn = Some (Inr rt)" if t: "turn \<in> set (turns session)" for turn
    proof (rule turn_runtime_total)
      show "length (hash_ids turn) * trace_block_size trace \<le> usize_max" using assms(1) s t by (simp add: trace_small_def)
      show "0 < trace_block_size trace" "0 < ebs" "ebs \<le> u32_max" using assms by (simp_all add: trace_valid_def)
      show "input_length turn \<le> length (hash_ids turn) * trace_block_size trace"
      proof -
        have "session_valid fin missing (trace_block_size trace) session" using assms(2) s by (simp add: trace_valid_def)
        moreover obtain i where "i < length (turns session)" "turn = turns session ! i" using t by (auto simp: in_set_conv_nth)
        ultimately show ?thesis by (simp add: session_valid_def turn_valid_def)
      qed
    qed
    then obtain ts where "each_then (turn_runtime E H (trace_block_size trace) ebs) (turns session) = Some (Inr ts)"
      using each_then_exists by blast
    then show ?thesis by (simp add: session_runtime_def)
  qed
  then obtain ss where "each_then (session_runtime E H (trace_block_size trace) ebs mode) (sessions trace) = Some (Inr ss)"
    using each_then_exists by blast
  then show ?thesis by (simp add: driver_new_def)
qed

section \<open>Runs of a driver\<close>

text \<open>
  A driver made from a trace that passed its check, and any sequence of calls, in one build. The run keeps the log of the turns
  that were handed out and the sessions that \<open>release_cap_slot\<close> gave up.
\<close>

definition into_driver :: "build_env \<Rightarrow> router_hash \<Rightarrow> ('t::{linorder,zero} \<Rightarrow> bool) \<Rightarrow> nat \<Rightarrow> DriverMode \<Rightarrow> 't Trace \<Rightarrow> (load_error + 't WorkloadDriver) run" where
  "into_driver E H fin ebs mode trace = (case mode of
     TraceMode \<Rightarrow> into_trace_driver_with_block_size E H fin ebs trace
   | ConcurrencyMode \<Rightarrow> into_concurrency_driver_with_block_size E H fin ebs trace)"

inductive driver_reach :: "build_env \<Rightarrow> random_source \<Rightarrow> nat \<Rightarrow> ('t::{linorder,zero,plus}) Trace \<Rightarrow> 't WorkloadDriver \<Rightarrow> nat \<Rightarrow>
    handout list \<Rightarrow> nat set \<Rightarrow> bool" for E R N trace where
  driver_start: "into_driver E H fin ebs mode trace = Some (Inr driver) \<Longrightarrow> driver_reach E R N trace driver 0 [] {}"
| driver_cap: "driver_reach E R N trace driver d log ended \<Longrightarrow> set_max_in_flight E cap driver = Some driver' \<Longrightarrow> driver_reach E R N trace driver' d log ended"
| driver_pop: "driver_reach E R N trace driver d log ended \<Longrightarrow> d + length (pending driver) \<le> N \<Longrightarrow>
    pop_ready R now limit driver d = Some ((emitted, driver'), d') \<Longrightarrow> driver_reach E R N trace driver' d' (log @ map (turn_entry driver') emitted) ended"
| driver_draw: "driver_reach E R N trace driver d log ended \<Longrightarrow> driver_reach E R N trace driver (d + n) log ended"
| driver_complete: "driver_reach E R N trace driver d log ended \<Longrightarrow> on_complete u now driver = (res, driver') \<Longrightarrow> driver_reach E R N trace driver' d log ended"
| driver_release: "driver_reach E R N trace driver d log ended \<Longrightarrow> driver_reach E R N trace (release_cap_slot u driver) d log (end_session driver u ended)"
| driver_peek: "driver_reach E R N trace driver d log ended \<Longrightarrow> next_ready_time_ms driver = Some (t, driver') \<Longrightarrow> driver_reach E R N trace driver' d log ended"

definition under_cap :: "'t WorkloadDriver \<Rightarrow> bool" where
  "under_cap driver = (case max_in_flight driver of None \<Rightarrow> True | Some cap \<Rightarrow> hm_len (dv_in_flight driver) \<le> cap)"

lemma into_driver_new:
  assumes "into_driver E H fin ebs mode trace = Some (Inr driver)"
  shows "driver_new E H trace ebs mode = Some (Inr driver)" "\<forall>session \<in> set (sessions trace). turns session \<noteq> []"
  using assms validate_sound [of E fin _ trace]
  by (auto simp: into_driver_def into_trace_driver_with_block_size_def into_concurrency_driver_with_block_size_def
      validate_for_trace_mode_def validate_for_concurrency_mode_def run_simps trace_valid_def session_valid_def split: DriverMode.splits)

lemma hm_len_remove_le: "hm_len (hm_remove k m) \<le> hm_len m"
  by (simp add: hm_len_def hm_remove_def AList.delete_eq)

lemma known_ids_mono: "known_ids R d driver \<Longrightarrow> d \<le> d' \<Longrightarrow> known_ids R d' driver"
  unfolding known_ids_def drawn_def by (meson image_mono ivl_subset le_refl order_trans subset_trans)

lemma known_ids_sub: "known_ids R d driver \<Longrightarrow> hm_keys (dv_in_flight driver') \<subseteq> hm_keys (dv_in_flight driver) \<Longrightarrow> known_ids R d driver'"
  by (auto simp: known_ids_def)

definition below_cap :: "'t WorkloadDriver \<Rightarrow> bool" where
  "below_cap driver = (case max_in_flight driver of None \<Rightarrow> True | Some cap \<Rightarrow> hm_len (dv_in_flight driver) < cap)"

lemma next_ready_ok:
  assumes inv: "driver_inv driver"
  obtains t heap where "next_ready_time_ms driver = Some (t, driver\<lparr>ready_sessions := heap\<rparr>)" "driver_inv (driver\<lparr>ready_sessions := heap\<rparr>)"
    "\<not> below_cap driver \<Longrightarrow> t = None"
    "below_cap driver \<Longrightarrow> t = None \<Longrightarrow> \<forall>session \<in> set (dv_sessions driver). next_ready_at_ms session = None"
    "\<And>t0. t = Some t0 \<Longrightarrow> (\<exists>session \<in> set (dv_sessions driver). next_ready_at_ms session = Some t0) \<and>
      (\<forall>session \<in> set (dv_sessions driver). \<forall>t'. next_ready_at_ms session = Some t' \<longrightarrow> t0 \<le> t')"
proof (cases "below_cap driver")
  case False
  then have "next_ready_time_ms driver = Some (None, driver\<lparr>ready_sessions := ready_sessions driver\<rparr>)"
    by (auto simp: next_ready_time_ms_def below_cap_def split: option.splits)
  then show thesis using that [of None "ready_sessions driver"] inv False by simp
next
  case True
  obtain t heap where r: "next_ready_loop (dv_sessions driver) (ready_sessions driver) = Some (t, heap)" "driver_inv (driver\<lparr>ready_sessions := heap\<rparr>)"
    "case t of None \<Rightarrow> \<forall>session \<in> set (dv_sessions driver). next_ready_at_ms session = None
     | Some t \<Rightarrow> (\<exists>session \<in> set (dv_sessions driver). next_ready_at_ms session = Some t) \<and>
         (\<forall>session \<in> set (dv_sessions driver). \<forall>t'. next_ready_at_ms session = Some t' \<longrightarrow> t \<le> t')"
    using next_ready_loop_ok [where driver = driver and heap = "ready_sessions driver"] inv by auto
  have "next_ready_time_ms driver = Some (t, driver\<lparr>ready_sessions := heap\<rparr>)"
    using True r(1) by (auto simp: next_ready_time_ms_def below_cap_def split: option.splits)
  then show thesis using that [of t heap] r(2,3) True by (auto split: option.splits)
qed

lemma driver_inv_cap [simp]: "driver_inv (driver\<lparr>max_in_flight := cap\<rparr>) = driver_inv driver"
  by (auto simp: driver_inv_def session_inv_def split: option.splits)

lemma driver_reach_inv:
  assumes "inj_on (draw_uuid R) {..<N}" "driver_reach E R N trace driver d log ended"
  shows "driver_inv driver \<and> known_ids R d driver \<and> (debug_assertions E \<longrightarrow> under_cap driver) \<and>
    log_ok (map (session_requests E trace) [0..<length (sessions trace)]) driver log ended"
  using assms(2)
proof (induction rule: driver_reach.induct)
  case (driver_start H fin ebs mode driver)
  note n = driver_new_ok [OF into_driver_new [OF driver_start]]
  show ?case using n(1-4) driver_new_log [OF into_driver_new(1) [OF driver_start]] by (simp add: under_cap_def)
next
  case (driver_cap driver d log ended cap driver')
  then have d: "driver' = driver\<lparr>max_in_flight := Some cap\<rparr>" "debug_assertions E \<longrightarrow> dv_in_flight driver = []" by (auto simp: set_max_in_flight_def run_simps)
  then show ?case using driver_cap.IH log_ok_same [of driver' driver] by (auto simp: known_ids_def under_cap_def hm_len_def)
next
  case (driver_pop driver d log ended now limit emitted driver' d')
  have "ids_ok R N (d + length (pending driver))" using assms(1) driver_pop.hyps(2) by (simp add: ids_ok_def)
  from pop_ready_ok [OF conjunct1 [OF driver_pop.IH] _ this, of now limit] driver_pop
  have h: "hands_out R now driver d emitted driver' d'"
    "case max_in_flight driver of None \<Rightarrow> True | Some cap \<Rightarrow> length emitted \<le> cap - hm_len (dv_in_flight driver)" by auto
  have "debug_assertions E \<longrightarrow> under_cap driver'" using driver_pop.IH h by (auto simp: hands_out_def under_cap_def split: option.splits)
  then show ?case using driver_pop.IH h(1) unfolding hands_out_def by blast
next
  case (driver_draw driver d log ended n)
  then show ?case using known_ids_mono [of R d driver "d + n"] by simp
next
  case (driver_complete driver d log ended u now res driver')
  show ?case
  proof (cases "hm_get (dv_in_flight driver) u")
    case None
    then show ?thesis using driver_complete by (simp add: on_complete_unknown)
  next
    case (Some turn)
    obtain driver1 where "on_complete u now driver = (Inr (), driver1)" and c: "driver_inv driver1"
      "dv_in_flight driver1 = hm_remove u (dv_in_flight driver)" "max_in_flight driver1 = max_in_flight driver"
      "\<forall>P H ended. log_ok P driver H ended \<longrightarrow> log_ok P driver1 H ended"
      using on_complete_ok [OF conjunct1 [OF driver_complete.IH] Some] by blast
    then have "driver' = driver1" using driver_complete.hyps by simp
    moreover have "known_ids R d driver1" using known_ids_sub [of R d driver driver1] driver_complete.IH c(2) hm_keys_remove [of u "dv_in_flight driver"] by (simp add: Diff_subset)
    moreover have "debug_assertions E \<longrightarrow> under_cap driver1"
      using driver_complete.IH c(2,3) hm_len_remove_le [of u "dv_in_flight driver"] by (auto simp: under_cap_def split: option.splits)
    ultimately show ?thesis using driver_complete.IH c(1,4) by blast
  qed
next
  case (driver_release driver d log ended u)
  note r = release_cap_slot_ok [OF conjunct1 [OF driver_release.IH], where u = u]
  have "hm_keys (dv_in_flight (release_cap_slot u driver)) \<subseteq> hm_keys (dv_in_flight driver)"
    using r(2) hm_keys_remove [of u "dv_in_flight driver"] by (elim disjE) (simp_all add: Diff_subset)
  then have "known_ids R d (release_cap_slot u driver)" using known_ids_sub driver_release.IH by blast
  moreover have "debug_assertions E \<longrightarrow> under_cap (release_cap_slot u driver)"
    using r(2,3) driver_release.IH hm_len_remove_le [of u "dv_in_flight driver"] by (auto simp: under_cap_def split: option.splits)
  ultimately show ?case using r(1,6) driver_release.IH by blast
next
  case (driver_peek driver d log ended t driver')
  obtain heap where "driver' = driver\<lparr>ready_sessions := heap\<rparr>" "driver_inv driver'"
    using next_ready_ok [OF conjunct1 [OF driver_peek.IH]] driver_peek.hyps(2) by auto
  then show ?case using driver_peek.IH log_ok_same [of driver' driver] by (simp add: known_ids_def under_cap_def split: option.splits)
qed

lemma drained_pending: "is_drained driver \<Longrightarrow> pending driver = []"
  by (auto simp: is_drained_def list_all_iff issued_def pending_def)

text \<open>With nothing in flight some session that is not finished has a time.\<close>

lemma idle_ready:
  assumes "driver_inv driver" "dv_in_flight driver = []" "\<not> is_drained driver"
  obtains session where "session \<in> set (dv_sessions driver)" "next_ready_at_ms session \<noteq> None"
proof -
  obtain session where s: "session \<in> set (dv_sessions driver)" "next_turn_index session < length (sr_turns session)"
    using assms(2,3) by (auto simp: is_drained_def list_all_iff not_le)
  then obtain i where i: "i < length (dv_sessions driver)" "session = dv_sessions driver ! i" by (auto simp: in_set_conv_nth)
  have "session_inv driver i session" using driver_invD(4) [of driver i] assms(1) i by simp
  then have "next_ready_at_ms session \<noteq> None" using s(2) assms(2) by (auto simp: session_inv_def split: option.splits)
  then show thesis using that s(1) by blast
qed

text \<open>Then that time is found, and at that time a turn is handed out.\<close>

lemma idle_pop:
  assumes inv: "driver_inv driver" "known_ids R d driver" "ids_ok R N (d + length (pending driver))"
    and idle: "\<not> is_drained driver" "dv_in_flight driver = []" and cap: "max_in_flight driver \<noteq> Some 0" "0 < limit"
  shows "\<exists>t driver1 rt emitted driver2 d'. next_ready_time_ms driver = Some (Some t, driver1) \<and>
    (\<forall>session \<in> set (dv_sessions driver). \<forall>t'. next_ready_at_ms session = Some t' \<longrightarrow> t \<le> t') \<and>
    pop_ready R t limit driver1 d = Some ((rt # emitted, driver2), d')"
proof -
  have below: "below_cap driver" using idle(2) cap(1) by (auto simp: below_cap_def hm_len_def split: option.splits)
  obtain session where s: "session \<in> set (dv_sessions driver)" and ready: "next_ready_at_ms session \<noteq> None"
    by (rule idle_ready [OF inv(1) idle(2,1)])
  obtain t heap where n: "next_ready_time_ms driver = Some (t, driver\<lparr>ready_sessions := heap\<rparr>)" "driver_inv (driver\<lparr>ready_sessions := heap\<rparr>)"
    "t = None \<Longrightarrow> \<forall>session \<in> set (dv_sessions driver). next_ready_at_ms session = None"
    "\<And>t0. t = Some t0 \<Longrightarrow> (\<exists>session \<in> set (dv_sessions driver). next_ready_at_ms session = Some t0) \<and>
      (\<forall>session \<in> set (dv_sessions driver). \<forall>t'. next_ready_at_ms session = Some t' \<longrightarrow> t0 \<le> t')"
    by (rule next_ready_ok [OF inv(1)]) (use below in blast)
  obtain t0 where t: "t = Some t0" using n(3) s ready by (cases t) auto
  let ?driver1 = "driver\<lparr>ready_sessions := heap\<rparr>"
  have ids: "ids_ok R N (d + length (pending ?driver1))" using inv(3) by (simp add: pending_def)
  have known: "known_ids R d ?driver1" using inv(2) by (simp add: known_ids_def)
  obtain emitted driver2 d' where p: "pop_ready R t0 limit ?driver1 d = Some ((emitted, driver2), d')"
    "length emitted < limit \<and> (case max_in_flight ?driver1 of None \<Rightarrow> True | Some cap \<Rightarrow> length emitted < cap - hm_len (dv_in_flight ?driver1)) \<longrightarrow>
      nothing_ready t0 driver2"
    using pop_ready_ok [OF n(2) known ids, of t0 limit] by blast
  have "emitted \<noteq> []"
  proof
    assume none: "emitted = []"
    then have "nothing_ready t0 driver2" using p(2) idle(2) cap by (auto simp: hm_len_def split: option.splits)
    moreover have "dv_sessions driver2 = dv_sessions driver" using p(1) none by (auto dest: pop_ready_none)
    ultimately show False using n(4) [OF t] by (auto simp: nothing_ready_def)
  qed
  then obtain rt rest where "emitted = rt # rest" by (cases emitted) auto
  then show ?thesis using n(1,4) p(1) t by blast
qed

section \<open>Properties\<close>

text \<open>
  C13 (turns_exactly_once). Whatever calls were made: the turns handed out for a session of the trace are its first turns, in
  order and each once, with the tokens \<open>synthesize_tokens\<close> gives them; the next one to come is the one after
  them. A session that was given up has no turn in flight or to come. When the driver is drained every other
  session has handed out all its turns. In a build with debug assertions no more turns are in flight than
  the cap allows; without them a cap may be set below the number of turns in flight.
\<close>

theorem turns_exactly_once:
  assumes "inj_on (draw_uuid R) {..<N}" and "driver_reach E R N trace driver d log ended"
  shows "(\<forall>e \<in> set log. fst e < length (sessions trace)) \<and>
    (\<forall>i < length (sessions trace). let planned = enumerate 0 (session_requests E trace i); handed = session_log i log; s = dv_sessions driver ! i in
      handed = take (length handed) planned \<and>
      (i \<notin> ended \<longrightarrow> length handed = next_turn_index s + (if sr_in_flight s = None then 0 else 1)) \<and>
      (i \<in> ended \<longrightarrow> sr_in_flight s = None \<and> next_ready_at_ms s = None) \<and>
      (is_drained driver \<and> i \<notin> ended \<longrightarrow> handed = planned)) \<and>
    (debug_assertions E \<longrightarrow> (\<forall>cap. max_in_flight driver = Some cap \<longrightarrow> hm_len (dv_in_flight driver) \<le> cap))"
proof -
  let ?P = "map (session_requests E trace) [0..<length (sessions trace)]"
  note inv = driver_reach_inv [OF assms]
  have log: "log_ok ?P driver log ended" using inv by blast
  note L = log_okD [OF log]
  have "session_log i log = take (length (session_log i log)) (enumerate 0 (session_requests E trace i)) \<and>
      (i \<notin> ended \<longrightarrow> length (session_log i log) = next_turn_index (dv_sessions driver ! i) + (if sr_in_flight (dv_sessions driver ! i) = None then 0 else 1)) \<and>
      (i \<in> ended \<longrightarrow> sr_in_flight (dv_sessions driver ! i) = None \<and> next_ready_at_ms (dv_sessions driver ! i) = None) \<and>
      (is_drained driver \<and> i \<notin> ended \<longrightarrow> session_log i log = enumerate 0 (session_requests E trace i))" if i: "i < length (sessions trace)" for i
  proof -
    let ?s = "dv_sessions driver ! i" and ?p = "session_requests E trace i"
    have i': "i < length (dv_sessions driver)" using L(1) i by simp
    have p: "?p = map turn_request (sr_turns ?s)" using L(2) [OF i'] i by simp
    have ok: "session_log_ok ?p (i \<in> ended) ?s (session_log i log)" using L(3) [OF i'] i by simp
    have si: "session_inv driver i ?s" using inv driver_invD(4) [of driver i] i' by blast
    have short: "issued ?s \<le> length ?p" using si by (auto simp: p session_inv_def issued_def split: option.splits)
    have "is_drained driver \<Longrightarrow> length ?p \<le> issued ?s" using i' by (auto simp: is_drained_def list_all_length issued_def p)
    moreover have "i \<in> ended \<Longrightarrow> next_ready_at_ms ?s = None" using ok si by (auto simp: session_log_ok_def session_inv_def split: option.splits)
    moreover have "min (length ?p) k = length ?p \<or> min (length ?p) k = k" for k by linarith
    ultimately show ?thesis using ok short by (auto simp: session_log_ok_def issued_def min_def split: if_splits)
  qed
  moreover have "\<forall>e \<in> set log. fst e < length (sessions trace)" using L(4) by simp
  ultimately show ?thesis using inv by (auto simp: under_cap_def Let_def)
qed

text \<open>
  C15 (pop_ready_contract). \<open>pop_ready\<close> always returns. It hands out turns that are ready, each the next one of a session with
  none in flight and no two of the same session, in the order of their times and none later than one that is left,
  under new identities, which are then in flight. They are no more than the limit and what the cap leaves,
  and if they are fewer no other turn is ready.
\<close>

theorem pop_ready_contract:
  assumes "inj_on (draw_uuid R) {..<N}" and "driver_reach E R N trace driver d log ended" and "d + length (pending driver) \<le> N"
  shows "\<exists>emitted driver' d'. pop_ready R now limit driver d = Some ((emitted, driver'), d') \<and>
    (\<forall>rt \<in> set emitted. scheduled_ready_at_ms rt \<le> now \<and> hm_get (dv_in_flight driver) (request_uuid rt) = None \<and>
      (\<exists>i. hm_get (dv_in_flight driver') (request_uuid rt) = Some \<lparr>if_session_index = i, if_turn_index = rt_turn_index rt\<rparr> \<and> next_of_session driver i rt)) \<and>
    distinct (map request_uuid emitted) \<and> distinct (map (\<lambda>rt. map_option if_session_index (hm_get (dv_in_flight driver') (request_uuid rt))) emitted) \<and>
    sorted (map scheduled_ready_at_ms emitted) \<and>
    (\<forall>rt \<in> set emitted. \<forall>session \<in> set (dv_sessions driver'). \<forall>t. next_ready_at_ms session = Some t \<longrightarrow> scheduled_ready_at_ms rt \<le> t) \<and>
    hm_len (dv_in_flight driver') = hm_len (dv_in_flight driver) + length emitted \<and>
    length emitted \<le> limit \<and> (\<forall>cap. max_in_flight driver = Some cap \<longrightarrow> length emitted \<le> cap - hm_len (dv_in_flight driver)) \<and>
    (length emitted < limit \<and> below_cap driver' \<longrightarrow> nothing_ready now driver')"
proof -
  note inv = driver_reach_inv [OF assms(1,2)]
  have ids: "ids_ok R N (d + length (pending driver))" using assms(1,3) by (simp add: ids_ok_def)
  obtain emitted driver' d' where p: "pop_ready R now limit driver d = Some ((emitted, driver'), d')" "hands_out R now driver d emitted driver' d'"
    "length emitted \<le> limit" "case max_in_flight driver of None \<Rightarrow> True | Some cap \<Rightarrow> length emitted \<le> cap - hm_len (dv_in_flight driver)"
    "length emitted < limit \<and> (case max_in_flight driver of None \<Rightarrow> True | Some cap \<Rightarrow> length emitted < cap - hm_len (dv_in_flight driver)) \<longrightarrow>
      nothing_ready now driver'"
    using pop_ready_ok [OF _ _ ids, of now limit] inv by blast
  have h: "driver_inv driver'" "d' = d + length emitted" "map request_uuid emitted = map (draw_uuid R) [d..<d']"
    "request_uuid ` set emitted \<inter> hm_keys (dv_in_flight driver) = {}" "hm_len (dv_in_flight driver') = hm_len (dv_in_flight driver) + length emitted"
    "max_in_flight driver' = max_in_flight driver" "sorted (map scheduled_ready_at_ms emitted)"
    "\<forall>rt \<in> set emitted. \<forall>session \<in> set (dv_sessions driver'). \<forall>t. next_ready_at_ms session = Some t \<longrightarrow> scheduled_ready_at_ms rt \<le> t"
    "\<forall>rt \<in> set emitted. scheduled_ready_at_ms rt \<le> now \<and>
      (\<exists>i. hm_get (dv_in_flight driver') (request_uuid rt) = Some \<lparr>if_session_index = i, if_turn_index = rt_turn_index rt\<rparr> \<and> next_of_session driver i rt)"
    "image_mset turn_request (mset (pending driver)) = mset (map emitted_request emitted) + image_mset turn_request (mset (pending driver'))"
    using p(2) by (simp_all add: hands_out_def)
  have "length emitted \<le> length (pending driver)" using arg_cong [OF h(10), of size] by simp
  then have range: "{d..<d'} \<subseteq> {..<N}" using assms(3) h(2) by auto
  have dist: "distinct (map request_uuid emitted)" unfolding h(3) using inj_on_subset [OF assms(1) range] by (simp add: distinct_map)
  have "inj_on (\<lambda>u. map_option if_session_index (hm_get (dv_in_flight driver') u)) (request_uuid ` set emitted)"
  proof (rule inj_onI)
    fix u v
    assume "u \<in> request_uuid ` set emitted" "v \<in> request_uuid ` set emitted"
      and eq: "map_option if_session_index (hm_get (dv_in_flight driver') u) = map_option if_session_index (hm_get (dv_in_flight driver') v)"
    then obtain a b where "hm_get (dv_in_flight driver') u = Some a" "hm_get (dv_in_flight driver') v = Some b" using h(9) by blast
    then show "u = v" using driver_invD(5) [OF h(1)] eq by (metis option.inject option.simps(9))
  qed
  then have sess: "distinct (map (\<lambda>rt. map_option if_session_index (hm_get (dv_in_flight driver') (request_uuid rt))) emitted)"
    using dist by (simp add: distinct_map inj_on_def)
  have "hm_get (dv_in_flight driver) (request_uuid rt) = None" if "rt \<in> set emitted" for rt using h(4) that by (auto simp: hm_get_keys)
  moreover have "\<forall>cap. max_in_flight driver = Some cap \<longrightarrow> length emitted \<le> cap - hm_len (dv_in_flight driver)" using p(4) by (auto split: option.splits)
  moreover have "nothing_ready now driver'" if "length emitted < limit" "below_cap driver'"
    using that p(5) h(5,6) by (auto simp: below_cap_def split: option.splits)
  ultimately show ?thesis
    using p(1,3) h(5,7,8,9) dist sess by (intro exI [of _ emitted] exI [of _ driver'] exI [of _ d'] conjI) simp_all
qed

text \<open>
  C34 (completion_contract). Completing a turn in flight succeeds, and its session's next turn, if there is one, becomes ready after
  its delay. A completion of any other request is reported as unknown and changes nothing; the
  other two errors of \<open>on_complete\<close> cannot occur.
\<close>

theorem completion_contract:
  assumes "inj_on (draw_uuid R) {..<N}" and "driver_reach E R N trace driver d log ended"
  shows "(case hm_get (dv_in_flight driver) u of
      None \<Rightarrow> on_complete u now driver = (Inl (UnknownRequest u), driver)
    | Some turn \<Rightarrow> \<exists>driver'. on_complete u now driver = (Inr (), driver') \<and> dv_in_flight driver' = hm_remove u (dv_in_flight driver) \<and>
        (let i = if_session_index turn; s = dv_sessions driver ! i; s' = dv_sessions driver' ! i in
          i < length (dv_sessions driver) \<and> sr_in_flight s = Some u \<and> next_turn_index s' = next_turn_index s + 1 \<and> sr_in_flight s' = None \<and>
          next_ready_at_ms s' = (if next_turn_index s' < length (sr_turns s)
            then Some (now + tr_delay_after_previous_ms (sr_turns s ! next_turn_index s')) else None)))"
proof (cases "hm_get (dv_in_flight driver) u")
  case (Some turn)
  have inv: "driver_inv driver" using driver_reach_inv [OF assms] by simp
  show ?thesis using on_complete_ok [OF inv Some, of now] driver_invD(5) [OF inv Some] Some by (auto simp: Let_def)
qed (simp add: on_complete_unknown)

text \<open>
  C14 (driver_not_stuck). A driver that is not drained and has nothing in flight always has a next time, which is the earliest
  of all sessions; at that time \<open>pop_ready\<close> hands out a turn. A failed request whose slot is
  released therefore never blocks the others.
\<close>

theorem driver_not_stuck:
  assumes "inj_on (draw_uuid R) {..<N}" and "driver_reach E R N trace driver d log ended" and "d + length (pending driver) \<le> N"
    and "\<not> is_drained driver" and "dv_in_flight driver = []" and "max_in_flight driver \<noteq> Some 0" and "0 < limit"
  shows "\<exists>t driver1 rt emitted driver2 d'. next_ready_time_ms driver = Some (Some t, driver1) \<and>
    (\<forall>session \<in> set (dv_sessions driver). \<forall>t'. next_ready_at_ms session = Some t' \<longrightarrow> t \<le> t') \<and>
    pop_ready R t limit driver1 d = Some ((rt # emitted, driver2), d')"
proof (rule idle_pop [where N = N])
  show "ids_ok R N (d + length (pending driver))" using assms(1,3) by (simp add: ids_ok_def)
qed (use driver_reach_inv [OF assms(1,2)] assms(4-7) in simp_all)

section \<open>Witnesses\<close>

definition demo_hash :: router_hash where
  "demo_hash = \<lparr>compute_block_hash_for_seq = (\<lambda>_ _. []), compute_seq_hash_for_block = (\<lambda>hs. hs)\<rparr>"

lemma demo_into: obtains driver where "into_driver demo_env demo_hash (\<lambda>_. True) 2 TraceMode (demo_trace 3) = Some (Inr driver)"
proof -
  have small: "trace_small (demo_trace 3)" by (simp add: trace_small_def demo_trace_def demo_turn_def usize_max_def)
  have valid: "trace_valid (\<lambda>_. True) False (demo_trace 3)"
    by (simp add: trace_valid_def session_valid_def turn_valid_def demo_trace_def demo_turn_def)
  obtain driver where d: "driver_new demo_env demo_hash (demo_trace 3) 2 TraceMode = Some (Inr driver)"
    using driver_new_total [OF small valid, of 2 demo_env demo_hash TraceMode] by (auto simp: u32_max_def)
  then have "into_driver demo_env demo_hash (\<lambda>_. True) 2 TraceMode (demo_trace 3) = Some (Inr driver)"
    using validate_exact(2) [OF small, of demo_env "\<lambda>_. True" False] valid
    by (simp add: into_driver_def into_trace_driver_with_block_size_def validate_for_trace_mode_def)
  then show thesis by (rule that)
qed

lemma demo_driver:
  obtains driver where "driver_reach demo_env demo_random 100 (demo_trace 3) driver 0 [] {}" "dv_in_flight driver = []" "max_in_flight driver = None"
    "length (pending driver) = 1" "\<not> is_drained driver"
proof -
  obtain driver where into: "into_driver demo_env demo_hash (\<lambda>_. True) 2 TraceMode (demo_trace 3) = Some (Inr driver)" by (rule demo_into)
  note n = driver_new_ok [OF into_driver_new [OF into]]
  have "length (pending driver) = 1"
    using arg_cong [OF n(6), of length] by (simp add: trace_requests_def demo_trace_def demo_turn_def)
  moreover from this have "\<not> is_drained driver" using drained_pending [of driver] by auto
  ultimately show thesis using that [OF driver_reach.driver_start [OF into] n(3,4)] by blast
qed

text \<open>The one turn of the trace is handed out.\<close>

lemma demo_handed:
  obtains driver0 t driver rt rts d where "driver_reach demo_env demo_random 100 (demo_trace 3) driver0 0 [] {}" "length (pending driver0) = 1"
    "pop_ready demo_random t 5 driver0 0 = Some ((rt # rts, driver), d)"
    "driver_reach demo_env demo_random 100 (demo_trace 3) driver d (map (turn_entry driver) (rt # rts)) {}"
    "hm_get (dv_in_flight driver) (request_uuid rt) \<noteq> None"
proof (rule demo_driver)
  fix driver0
  assume r: "driver_reach demo_env demo_random 100 (demo_trace 3) driver0 0 [] {}" and s: "dv_in_flight driver0 = []" "max_in_flight driver0 = None"
    "length (pending driver0) = 1" "\<not> is_drained driver0"
  have ids: "ids_ok demo_random 100 (0 + length (pending driver0))" using demo_ids s(3) by (simp add: ids_ok_def)
  have inv: "driver_inv driver0" "known_ids demo_random 0 driver0" using driver_reach_inv [OF demo_ids r] by simp_all
  obtain t driver1 rt rts driver d where p: "next_ready_time_ms driver0 = Some (Some t, driver1)" "pop_ready demo_random t 5 driver1 0 = Some ((rt # rts, driver), d)"
    using idle_pop [OF inv ids s(4,1), of 5] s(2) by auto
  have r1: "driver_reach demo_env demo_random 100 (demo_trace 3) driver1 0 [] {}" by (rule driver_reach.driver_peek [OF r p(1)])
  obtain heap where d1: "driver1 = driver0\<lparr>ready_sessions := heap\<rparr>" using next_ready_ok [OF inv(1)] p(1) by auto
  have len: "length (pending driver1) = 1" using s(3) by (simp add: d1 pending_def)
  have r2: "driver_reach demo_env demo_random 100 (demo_trace 3) driver d (map (turn_entry driver) (rt # rts)) {}"
    using driver_reach.driver_pop [OF r1 _ p(2)] len by simp
  have inv1: "driver_inv driver1" "known_ids demo_random 0 driver1" "ids_ok demo_random 100 (0 + length (pending driver1))"
    using driver_reach_inv [OF demo_ids r1] demo_ids len by (simp_all add: ids_ok_def)
  have "hands_out demo_random t driver1 0 (rt # rts) driver d" using pop_ready_ok [OF inv1, of t 5] p(2) by auto
  then have "hm_get (dv_in_flight driver) (request_uuid rt) \<noteq> None" by (auto simp: hands_out_def)
  then show thesis using that [OF r1 len p(2) r2] by blast
qed

theorem turns_exactly_once_witness:
  "\<exists>driver d log. driver_reach demo_env demo_random 100 (demo_trace 3) driver d log {} \<and> session_log 0 log = [(0, [3], 1)]"
proof (rule demo_handed)
  fix driver rt rts d
  assume r: "driver_reach demo_env demo_random 100 (demo_trace 3) driver d (map (turn_entry driver) (rt # rts)) {}"
  let ?log = "map (turn_entry driver) (rt # rts)"
  have one: "length (sessions (demo_trace 3)) = 1" "session_requests demo_env (demo_trace 3) 0 = [([3], 1)]"
    by (simp_all add: session_requests_def demo_trace_def demo_turn_def synthesize_tokens_eq usize_max_def turn_tokens_def)
  have "\<forall>e \<in> set ?log. fst e = 0" using turns_exactly_once [OF demo_ids r] by (simp add: one)
  moreover have "0 < length (sessions (demo_trace 3))" by (simp add: one)
  then have "session_log 0 ?log = take (length (session_log 0 ?log)) (enumerate 0 (session_requests demo_env (demo_trace 3) 0))"
    using turns_exactly_once [OF demo_ids r] unfolding Let_def by blast
  ultimately have t: "\<forall>e \<in> set ?log. fst e = 0" "session_log 0 ?log = take (length (session_log 0 ?log)) [(0, [3], 1)]" by (simp_all add: one(2))
  then have "session_log 0 ?log = map snd ?log" by (simp add: session_log_def filter_id_conv)
  then have "session_log 0 ?log = [(0, [3], 1)]" using t(2) by simp
  then show ?thesis using r by blast
qed

theorem pop_ready_contract_witness:
  "\<exists>driver t rt rts driver' d'. driver_reach demo_env demo_random 100 (demo_trace 3) driver 0 [] {} \<and>
     pop_ready demo_random t 5 driver 0 = Some ((rt # rts, driver'), d') \<and> scheduled_ready_at_ms rt \<le> t \<and> length (rt # rts) \<le> 5"
proof (rule demo_handed)
  fix driver t rt rts driver' d'
  assume d: "driver_reach demo_env demo_random 100 (demo_trace 3) driver 0 [] {}" "length (pending driver) = 1"
    and p: "pop_ready demo_random t 5 driver 0 = Some ((rt # rts, driver'), d')"
  have "scheduled_ready_at_ms rt \<le> t" "length (rt # rts) \<le> 5" using pop_ready_contract [OF demo_ids d(1), of t 5] d(2) p by auto
  then show ?thesis using d(1) p by blast
qed

theorem completion_contract_witness:
  "\<exists>driver d log u driver'. driver_reach demo_env demo_random 100 (demo_trace 3) driver d log {} \<and> hm_get (dv_in_flight driver) u \<noteq> None \<and>
     on_complete u 9 driver = (Inr (), driver') \<and> dv_in_flight driver' = hm_remove u (dv_in_flight driver)"
proof (rule demo_handed)
  fix driver rt rts d
  assume r: "driver_reach demo_env demo_random 100 (demo_trace 3) driver d (map (turn_entry driver) (rt # rts)) {}"
    and g: "hm_get (dv_in_flight driver) (request_uuid rt) \<noteq> None"
  obtain driver' where "on_complete (request_uuid rt) 9 driver = (Inr (), driver')" "dv_in_flight driver' = hm_remove (request_uuid rt) (dv_in_flight driver)"
    using completion_contract [OF demo_ids r, of "request_uuid rt" 9] g by auto
  then show ?thesis using r g by blast
qed

theorem driver_not_stuck_witness:
  "\<exists>driver t driver1 rt emitted driver2 d'. driver_reach demo_env demo_random 100 (demo_trace 3) driver 0 [] {} \<and>
     next_ready_time_ms driver = Some (Some t, driver1) \<and> pop_ready demo_random t 5 driver1 0 = Some ((rt # emitted, driver2), d')"
proof (rule demo_driver)
  fix driver
  assume d: "driver_reach demo_env demo_random 100 (demo_trace 3) driver 0 [] {}" and p: "length (pending driver) = 1"
    and s: "dv_in_flight driver = []" "max_in_flight driver = None" "\<not> is_drained driver"
  then show ?thesis using driver_not_stuck [OF demo_ids d _ s(3,1), of 5] s(2) d by auto
qed

end
