(* ===== verification/SingleReplay.thy ===== *)
theory SingleReplay
  imports LoadDriver
begin

text \<open>
  The offline replay of a workload on one worker, \<open>lib/mocker/src/replay/offline/single.rs\<close> with the wrapper
  \<open>core.rs\<close> around the engine. A round lets arrivals into the worker and executes a pass; when the
  worker is idle the clock jumps to the next arrival. The arrivals come from a list of requests or from
  a load driver, which learns of the completions.

  The clock is of an arbitrary ordered type. When a pass that starts at \<open>now\<close> ends is predicted in floating point from
  the numbers in its result: this is the parameter \<open>T\<close>. Of the trace collector only the calls of \<open>on_arrival\<close> are kept,
  of the progress bar only the count.
\<close>

section \<open>The runtime\<close>

datatype SingleReplayMode = ReplayTrace | ReplayConcurrency nat

datatype 't AdmissionSource = RequestSource "'t ArrivingRequest list" | WorkloadSource "'t WorkloadDriver"

record ('t, 'f) SingleRuntime =
  current_time_ms :: 't
  admission :: "'t AdmissionSource"
  worker :: "'f VllmCore"
  collector :: "(Uuid \<times> 't \<times> nat \<times> nat) list"
  replay_mode :: SingleReplayMode
  progress_total :: nat
  progress_completed :: nat

datatype replay_error = IdleWithoutArrival

definition default_publishers :: KvEventPublishers where
  "default_publishers = \<lparr>has_event_sink = False, has_raw_sink = False\<rparr>"

definition new_with_source :: "build_env \<Rightarrow> MockEngineArgs \<Rightarrow> 'f lm_heap \<Rightarrow> ('t::zero) AdmissionSource \<Rightarrow> SingleReplayMode \<Rightarrow> ('t, 'f) SingleRuntime run" where
  "new_with_source E args heap source mode = do {
     let total = (case source of RequestSource queue \<Rightarrow> length queue | WorkloadSource driver \<Rightarrow> total_turns driver);
     core \<leftarrow> core_new E args 0 default_publishers heap;
     Some \<lparr>current_time_ms = 0, admission = source, worker = core, collector = [], replay_mode = mode,
       progress_total = total, progress_completed = 0\<rparr>
   }"

definition record_arrival :: "build_env \<Rightarrow> random_source \<Rightarrow> 't ArrivingRequest \<Rightarrow> 't \<Rightarrow> ('t, 'f) SingleRuntime \<Rightarrow> nat \<Rightarrow> (('t, 'f) SingleRuntime \<times> nat) run" where
  "record_arrival E R request arrival rt d = do {
     ((uuid, core), d1) \<leftarrow> receive E R (DirectRequest.truncate request) (worker rt) d;
     Some (rt\<lparr>worker := core, collector := collector rt @ [(uuid, arrival, length (dr_tokens request), dr_max_output_tokens request)]\<rparr>, d1)
   }"

fun record_arrivals :: "build_env \<Rightarrow> random_source \<Rightarrow> ('t ArrivingRequest \<times> 't) list \<Rightarrow> ('t, 'f) SingleRuntime \<Rightarrow> nat \<Rightarrow> (('t, 'f) SingleRuntime \<times> nat) run" where
  "record_arrivals E R [] rt d = Some (rt, d)"
| "record_arrivals E R ((request, arrival) # rest) rt d = do {
     (rt1, d1) \<leftarrow> record_arrival E R request arrival rt d;
     record_arrivals E R rest rt1 d1
   }"

text \<open>The requests at the front of the queue that have arrived.\<close>

fun pop_arrived :: "('t::linorder) \<Rightarrow> 't ArrivingRequest list \<Rightarrow> ('t ArrivingRequest \<times> 't) list \<times> 't ArrivingRequest list" where
  "pop_arrived now [] = ([], [])"
| "pop_arrived now (request # queue) =
     (case arrival_timestamp_ms request of
        None \<Rightarrow> ([], request # queue)
      | Some next_arrival \<Rightarrow>
          if now < next_arrival then ([], request # queue)
          else (case pop_arrived now queue of (arrived, rest) \<Rightarrow> ((request, next_arrival) # arrived, rest)))"

definition enqueue_trace_arrivals :: "build_env \<Rightarrow> random_source \<Rightarrow> ('t::linorder, 'f) SingleRuntime \<Rightarrow> nat \<Rightarrow> (('t, 'f) SingleRuntime \<times> nat) run" where
  "enqueue_trace_arrivals E R rt d =
     (case admission rt of
        RequestSource queue \<Rightarrow>
          (case pop_arrived (current_time_ms rt) queue of (arrived, rest) \<Rightarrow> record_arrivals E R arrived (rt\<lparr>admission := RequestSource rest\<rparr>) d)
      | WorkloadSource driver \<Rightarrow> do {
          ((emitted, driver1), d1) \<leftarrow> pop_ready R (current_time_ms rt) usize_max driver d;
          record_arrivals E R (map (\<lambda>t. (rt_request t, scheduled_ready_at_ms t)) emitted) (rt\<lparr>admission := WorkloadSource driver1\<rparr>) d1
        })"

definition num_requests :: "('t, 'f) SingleRuntime \<Rightarrow> nat" where
  "num_requests rt = hm_len (requests (vc_state (worker rt)))"

definition enqueue_concurrency_arrivals :: "build_env \<Rightarrow> random_source \<Rightarrow> nat \<Rightarrow> ('t::linorder, 'f) SingleRuntime \<Rightarrow> nat \<Rightarrow> (('t, 'f) SingleRuntime \<times> nat) run" where
  "enqueue_concurrency_arrivals E R cap rt d =
     (let available = cap - num_requests rt; now = current_time_ms rt in
      case admission rt of
        RequestSource queue \<Rightarrow>
          record_arrivals E R (map (\<lambda>r. (r\<lparr>arrival_timestamp_ms := Some now\<rparr>, now)) (take available queue))
            (rt\<lparr>admission := RequestSource (drop available queue)\<rparr>) d
      | WorkloadSource driver \<Rightarrow> do {
          ((emitted, driver1), d1) \<leftarrow> pop_ready R now available driver d;
          record_arrivals E R (map (\<lambda>t. (rt_request t, now)) emitted) (rt\<lparr>admission := WorkloadSource driver1\<rparr>) d1
        })"

definition worker_is_empty :: "('t, 'f) SingleRuntime \<Rightarrow> bool" where
  "worker_is_empty rt = sched_is_empty (vc_state (worker rt))"

definition is_done :: "('t, 'f) SingleRuntime \<Rightarrow> bool" where
  "is_done rt = (worker_is_empty rt \<and> (case admission rt of
     RequestSource queue \<Rightarrow> queue = [] | WorkloadSource driver \<Rightarrow> is_drained driver))"

definition advance_to_next_trace_arrival :: "('t, 'f) SingleRuntime \<Rightarrow> (replay_error + ('t, 'f) SingleRuntime) run" where
  "advance_to_next_trace_arrival rt = do {
     (next_arrival, source) \<leftarrow> (case admission rt of
         RequestSource queue \<Rightarrow> Some ((case queue of [] \<Rightarrow> None | request # _ \<Rightarrow> arrival_timestamp_ms request), admission rt)
       | WorkloadSource driver \<Rightarrow> do { (t, driver1) \<leftarrow> next_ready_time_ms driver; Some (t, WorkloadSource driver1) });
     (case next_arrival of
        None \<Rightarrow> Some (Inl IdleWithoutArrival)
      | Some t \<Rightarrow> Some (Inr (rt\<lparr>admission := source, current_time_ms := t\<rparr>)))
   }"

text \<open>The driver learns of the completions of a pass; one it does not know is a panic.\<close>

fun complete_all :: "('t::{linorder,plus}) \<Rightarrow> Uuid list \<Rightarrow> 't WorkloadDriver \<Rightarrow> 't WorkloadDriver run" where
  "complete_all now [] driver = Some driver"
| "complete_all now (uuid # rest) driver =
     (case on_complete uuid now driver of (Inl _, _) \<Rightarrow> None | (Inr _, driver1) \<Rightarrow> complete_all now rest driver1)"

definition drive_worker :: "build_env \<Rightarrow> random_source \<Rightarrow> (pass_result \<Rightarrow> 't \<Rightarrow> 't) \<Rightarrow> bool \<Rightarrow> ('t::{linorder,plus}, 'f) SingleRuntime \<Rightarrow> nat \<Rightarrow>
    (('t, 'f) SingleRuntime \<times> nat) run" where
  "drive_worker E R T admit_arrivals rt d = do {
     ((pass, _), core, d1) \<leftarrow> execute_pass E R (worker rt) d;
     let now = T pass (current_time_ms rt);
     let completed = completed_ids (output_signals pass);
     source \<leftarrow> (case admission rt of
         RequestSource queue \<Rightarrow> Some (RequestSource queue)
       | WorkloadSource driver \<Rightarrow> map_option WorkloadSource (complete_all now completed driver));
     let rt1 = rt\<lparr>worker := core, current_time_ms := now, admission := source, progress_completed := progress_completed rt + length completed\<rparr>;
     if admit_arrivals then enqueue_trace_arrivals E R rt1 d1 else Some (rt1, d1)
   }"

text \<open>One round of the loop of \<open>run\<close>: an error, the end (\<open>True\<close>) or another round.\<close>

definition replay_round :: "build_env \<Rightarrow> random_source \<Rightarrow> (pass_result \<Rightarrow> 't \<Rightarrow> 't) \<Rightarrow> ('t::{linorder,plus}, 'f) SingleRuntime \<Rightarrow> nat \<Rightarrow>
    ((replay_error + bool \<times> ('t, 'f) SingleRuntime) \<times> nat) run" where
  "replay_round E R T rt d =
     (case replay_mode rt of
        ReplayTrace \<Rightarrow> do {
          (rt1, d1) \<leftarrow> enqueue_trace_arrivals E R rt d;
          if worker_is_empty rt1 then do {
            r \<leftarrow> advance_to_next_trace_arrival rt1;
            (case r of
               Inl e \<Rightarrow> Some (Inl e, d1)
             | Inr rt2 \<Rightarrow> do { (rt3, d3) \<leftarrow> enqueue_trace_arrivals E R rt2 d1; Some (Inr (False, rt3), d3) })
          }
          else do { (rt2, d2) \<leftarrow> drive_worker E R T True rt1 d1; Some (Inr (False, rt2), d2) }
        }
      | ReplayConcurrency cap \<Rightarrow> do {
          (rt1, d1) \<leftarrow> enqueue_concurrency_arrivals E R cap rt d;
          if worker_is_empty rt1 then
            if is_done rt1 then Some (Inr (True, rt1), d1)
            else do {
              r \<leftarrow> advance_to_next_trace_arrival rt1;
              (case r of Inl e \<Rightarrow> Some (Inl e, d1) | Inr rt2 \<Rightarrow> Some (Inr (False, rt2), d1))
            }
          else do { (rt2, d2) \<leftarrow> drive_worker E R T False rt1 d1; Some (Inr (False, rt2), d2) }
        })"

text \<open>
  \<open>run\<close> with a bound on the rounds: \<open>None\<close> in the inner option says that the bound was reached before the loop ended.
\<close>

fun replay_run :: "build_env \<Rightarrow> random_source \<Rightarrow> (pass_result \<Rightarrow> 't \<Rightarrow> 't) \<Rightarrow> nat \<Rightarrow> ('t::{linorder,plus}, 'f) SingleRuntime \<Rightarrow> nat \<Rightarrow>
    ((replay_error + ('t, 'f) SingleRuntime) option \<times> nat) run" where
  "replay_run E R T 0 rt d = Some (None, d)"
| "replay_run E R T (Suc n) rt d =
     (if is_done rt then Some (Some (Inr rt), d)
      else do {
        (r, d1) \<leftarrow> replay_round E R T rt d;
        (case r of
           Inl e \<Rightarrow> Some (Some (Inl e), d1)
         | Inr (True, rt1) \<Rightarrow> Some (Some (Inr rt1), d1)
         | Inr (False, rt1) \<Rightarrow> replay_run E R T n rt1 d1)
      })"

section \<open>The worker\<close>

text \<open>A worker that can finish all it has: its invariant, and no block held by a request that waits.\<close>

definition worker_ok :: "build_env \<Rightarrow> random_source \<Rightarrow> nat \<Rightarrow> 'f VllmCore \<Rightarrow> bool" where
  "worker_ok E R d core = (core_inv E R d core \<and> drainable core \<and> idle_but {} core \<and> max_num_seqs (vc_args core) \<noteq> Some 0 \<and>
     2 \<le> arg_block_size (vc_args core) \<and> arg_block_size (vc_args core) < 4294967296)"

text \<open>The tokens a request came with and those it may get.\<close>

definition rq_size :: "VllmRequestState \<Rightarrow> nat \<times> nat" where
  "rq_size rq = (num_input_tokens (rq_sequence rq), max_output_tokens (rq_sequence rq))"

definition sizes :: "'f VllmCore \<Rightarrow> Uuid \<Rightarrow> (nat \<times> nat) option" where
  "sizes core u = map_option rq_size (hm_get (requests (vc_state core)) u)"

text \<open>A request of \<open>i\<close> tokens that may get \<open>k\<close> more can be finished by a worker.\<close>

definition fits :: "'f VllmCore \<Rightarrow> nat \<times> nat \<Rightarrow> bool" where
  "fits core = (\<lambda>(i, k). 0 < k \<and> (i + k) div arg_block_size (vc_args core) \<le> 16777216 \<and>
     div_ceil (i + k) (arg_block_size (vc_args core)) \<le> max_capacity (vc_kv core))"

definition same_engine :: "'f VllmCore \<Rightarrow> 'f VllmCore \<Rightarrow> bool" where
  "same_engine core core' = (vc_args core' = vc_args core \<and> max_capacity (vc_kv core') = max_capacity (vc_kv core))"

lemma fits_same: "same_engine core core' \<Longrightarrow> fits core' s = fits core s"
  by (simp add: fits_def same_engine_def)

lemma same_engine_refl [simp]: "same_engine core core"
  by (simp add: same_engine_def)

lemma same_engine_trans: "same_engine core core1 \<Longrightarrow> same_engine core1 core2 \<Longrightarrow> same_engine core core2"
  by (simp add: same_engine_def)

lemma cache_blocks_draws: "cache_blocks R caching pos bs d = Some ((us, hs, ps), d') \<Longrightarrow> d' \<le> d + 2 * length bs"
proof (induction bs arbitrary: pos d us hs ps d')
  case (Cons b bs)
  then show ?case by (fastforce simp: run_simps split: if_splits)
qed simp

text \<open>Receiving a request draws at most two numbers for each of its blocks and one for its last one.\<close>

lemma as_new_few:
  assumes "as_new E R ts k (Some n) caching emit d = Some (a, d')" "as_inv E a" "seq_tokens (as_tokens a) = ts"
  shows "d' \<le> d + 2 * length ts + 1"
proof -
  obtain us hs ps d1 where c: "cache_blocks R caching 0 (s_blocks (as_tokens a)) d = Some ((us, hs, ps), d1)" "d' \<le> Suc d1"
    using assms(1) by (auto simp: as_new_def create_sequence_cache_def unique_block_default_def run_simps Let_def split: if_splits)
  have "seq_inv E (as_tokens a)" using assms(2) by (simp add: as_inv_def)
  then have "length (s_blocks (as_tokens a)) \<le> length ts" using seq_inv_blocks(1) [of E "as_tokens a"] assms(3) by simp
  then show ?thesis using cache_blocks_draws [OF c(1)] c(2) by linarith
qed

lemma receive_live:
  assumes ok: "worker_ok E R d core" and new: "dr_uuid request = Some u" "sizes core u = None"
    and size: "fits core (length (dr_tokens request), dr_max_output_tokens request)"
    and ids: "ids_ok R N (d + 2 * length (dr_tokens request) + 1)"
  shows "\<exists>core' d'. receive E R request core d = Some ((u, core'), d') \<and> d \<le> d' \<and> d' \<le> d + 2 * length (dr_tokens request) + 1 \<and>
    worker_ok E R d' core' \<and> same_engine core core' \<and> sizes core' = (sizes core)(u \<mapsto> (length (dr_tokens request), dr_max_output_tokens request)) \<and>
    owed core' = owed core + dr_max_output_tokens request \<and> hm_len (requests (vc_state core')) = Suc (hm_len (requests (vc_state core)))"
proof -
  note inv = ok [unfolded worker_ok_def]
  have get: "hm_get (requests (vc_state core)) u = None" using new(2) by (simp add: sizes_def)
  have acc: "acceptable R request core d" using get new(1) size by (simp add: acceptable_def request_id_def fits_def)
  have id: "request_id R request d = u" using new(1) by (simp add: request_id_def)
  obtain core' d' where r: "receive E R request core d = Some ((u, core'), d')" "d \<le> d'" "\<forall>N. ids_ok R N d' \<longrightarrow> core_inv E R d' core'"
    "vc_args core' = vc_args core" "running (vc_state core') = running (vc_state core)"
    using receive_ok [OF _ acc, of E] inv unfolding id by blast
  let ?n = "arg_block_size (vc_args core)"
  obtain a where a: "as_new E R (dr_tokens request) (dr_max_output_tokens request) (Some ?n) (arg_prefix_caching (vc_args core))
      (zmq_kv_events_port (vc_args core) \<noteq> None) d = Some (a, d')"
    and c: "core' = (set_request u \<lparr>rq_sequence = a, rq_status = Waiting, num_computed_tokens = 0, num_preemptions = 0\<rparr> core)
      \<lparr>vc_state := push_waiting u (vc_state (set_request u \<lparr>rq_sequence = a, rq_status = Waiting, num_computed_tokens = 0, num_preemptions = 0\<rparr> core))\<rparr>"
    using r(1) new(1) by (auto simp: receive_def run_simps Let_def)
  have "length (dr_tokens request) div ?n \<le> (length (dr_tokens request) + dr_max_output_tokens request) div ?n" by (intro div_le_mono) simp
  then have room: "length (dr_tokens request) div ?n \<le> 16777216" using size by (simp add: fits_def)
  have f: "as_inv E a" "seq_tokens (as_tokens a) = dr_tokens request" "as_block_size a = ?n" "num_input_tokens a = length (dr_tokens request)"
    "generated_tokens a = 0" "num_allocated_tokens a = 0" "max_output_tokens a = dr_max_output_tokens request"
    using as_new_ok [OF _ _ room, of E R "dr_max_output_tokens request" "arg_prefix_caching (vc_args core)" "zmq_kv_events_port (vc_args core) \<noteq> None" d] inv a
    by auto
  have d': "d' \<le> d + 2 * length (dr_tokens request) + 1" using as_new_few [OF a f(1,2)] .
  define rq where "rq = \<lparr>rq_sequence = a, rq_status = Waiting, num_computed_tokens = 0, num_preemptions = 0\<rparr>"
  have reqs: "requests (vc_state core') = hm_insert u rq (requests (vc_state core))" "running_members (vc_state core') = running_members (vc_state core)"
    "vc_kv core' = vc_kv core"
    by (simp_all add: c rq_def push_waiting_def set_request_def)
  have held: "held rq = []" using f(3,6) inv by (simp add: rq_def held_def blocks_for_def div_ceil_def)
  have "drainable core'" using inv size f r(4) by (auto simp: drainable_def reqs rq_def fits_def)
  moreover have "idle_but {} core'" using inv held by (auto simp: idle_but_def reqs)
  moreover have "core_inv E R d' core'" using r(3) ids_ok_mono [OF ids d'] by blast
  ultimately have "worker_ok E R d' core'" using inv r(4) by (simp add: worker_ok_def)
  moreover have "sizes core' = (sizes core)(u \<mapsto> (length (dr_tokens request), dr_max_output_tokens request))"
    using f by (auto simp: sizes_def reqs rq_size_def rq_def fun_eq_iff)
  moreover have "owed core' = owed core + dr_max_output_tokens request"
    using f hm_sum_new [OF get] by (simp add: owed_def reqs rq_def)
  moreover have "hm_len (requests (vc_state core')) = Suc (hm_len (requests (vc_state core)))"
    using get hm_len_insert [OF queue_invD(1) [OF core_invD(1) [OF conjunct1 [OF inv]]]] by (simp add: reqs hm_contains_get)
  ultimately show ?thesis using r(1,2,4) d' reqs(3) by (auto simp: same_engine_def)
qed

text \<open>A pass over a worker that has requests.\<close>

lemma sizes_job: "sizes core u = None \<longleftrightarrow> job_of core u = None"
  by (simp add: sizes_def job_of_def)

lemma pass_live:
  assumes ok: "worker_ok E R d core" and ids: "ids_ok R N (d + pass_draws core)" and busy: "requests (vc_state core) \<noteq> []"
    and budget: "demand core \<le> token_limit (vc_args core)"
  shows "\<exists>pass acc core' d'. execute_pass E R core d = Some ((pass, acc), core', d') \<and> d \<le> d' \<and> d' \<le> d + pass_draws core \<and> worker_ok E R d' core' \<and>
    same_engine core core' \<and> owed core' < owed core \<and> distinct (completed_ids (output_signals pass)) \<and>
    (\<forall>u \<in> set (completed_ids (output_signals pass)). sizes core u \<noteq> None) \<and>
    (\<forall>u. sizes core' u = (if u \<in> set (completed_ids (output_signals pass)) then None else sizes core u)) \<and>
    hm_len (requests (vc_state core')) + length (completed_ids (output_signals pass)) = hm_len (requests (vc_state core))"
proof -
  note inv = ok [unfolded worker_ok_def]
  have drains: "drains core" using inv budget by (simp add: drains_def)
  obtain pass acc core' d' where p: "execute_pass E R core d = Some ((pass, acc), core', d')" "d \<le> d'" "d' \<le> d + pass_draws core"
    "core_inv E R d' core'" "drains core'" "advanced core core'" "owed core' < owed core"
    using execute_pass_live [OF conjunct1 [OF inv] ids drains busy] by (metis surj_pair)
  let ?done = "completed_ids (output_signals pass)"
  have "ids_ok R N d" using ids_ok_mono [OF ids] by simp
  note rep = execute_pass_reports [OF conjunct1 [OF inv] this p(1)]
  have eng: "same_engine core core'" using p(6) by (simp add: advanced_def same_engine_def)
  have sz: "sizes core' u = (if u \<in> set ?done then None else sizes core u)" for u
  proof (cases "hm_get (requests (vc_state core')) u")
    case None
    then show ?thesis using rep(3) [of u] by (auto simp: sizes_def job_of_def)
  next
    case (Some rq')
    then obtain rq where "hm_get (requests (vc_state core)) u = Some rq" "ahead rq rq'" using p(6) by (auto simp: advanced_def)
    moreover have "u \<notin> set ?done" using rep(3) [of u] Some by (auto simp: job_of_def)
    ultimately show ?thesis using Some by (simp add: sizes_def rq_size_def ahead_def)
  qed
  have wf: "hm_wf (requests (vc_state core))" "hm_wf (requests (vc_state core'))"
    using queue_invD(1) [OF core_invD(1) [OF p(4)]] queue_invD(1) [OF core_invD(1)] inv by blast+
  have keys: "u \<in> hm_keys (requests (vc_state c)) \<longleftrightarrow> sizes c u \<noteq> None" for u and c :: "'f VllmCore"
    using hm_get_keys [of "requests (vc_state c)" u] by (simp add: sizes_def)
  have "hm_keys (requests (vc_state core)) = hm_keys (requests (vc_state core')) \<union> set ?done"
    "hm_keys (requests (vc_state core')) \<inter> set ?done = {}"
    using sz rep(2) by (auto simp only: set_eq_iff keys Un_iff Int_iff sizes_job empty_iff split: if_splits)
  then have "card (hm_keys (requests (vc_state core))) = card (hm_keys (requests (vc_state core'))) + card (set ?done)"
    by (simp add: card_Un_disjoint)
  then have len: "hm_len (requests (vc_state core')) + length ?done = hm_len (requests (vc_state core))"
    using rep(1) by (simp add: hm_len_card wf distinct_card)
  have "worker_ok E R d' core'" using p(4,5) inv eng by (simp add: worker_ok_def drains_def same_engine_def)
  then show ?thesis using p(1-3,7) eng rep(1,2) sz len by (auto simp: sizes_job)
qed

section \<open>The driver in a replay\<close>

text \<open>The turns of all sessions, which no call changes, and the size of the turn an entry in flight stands for.\<close>

definition plan :: "'t WorkloadDriver \<Rightarrow> 't TurnRuntime list list" where
  "plan driver = map sr_turns (dv_sessions driver)"

definition turn_size :: "'t TurnRuntime \<Rightarrow> nat \<times> nat" where
  "turn_size turn = (length (tr_tokens turn), tr_max_output_tokens turn)"

definition flying :: "'t WorkloadDriver \<Rightarrow> Uuid \<Rightarrow> (nat \<times> nat) option" where
  "flying driver u = map_option (\<lambda>turn. turn_size (plan driver ! if_session_index turn ! if_turn_index turn)) (hm_get (dv_in_flight driver) u)"

lemma pop_loop_flying:
  assumes "pop_loop R now n driver heap d = Some ((emitted, driver'), d')" "inj_on (draw_uuid R) {..<N}" "d' \<le> N"
  shows "d \<le> d' \<and> plan driver' = plan driver \<and> (\<forall>u. u \<notin> request_uuid ` set emitted \<longrightarrow> flying driver' u = flying driver u) \<and>
    (\<forall>rt \<in> set emitted. flying driver' (request_uuid rt) = Some (length (dr_tokens (rt_request rt)), dr_max_output_tokens (rt_request rt)) \<and>
      request_uuid rt \<in> drawn R d d')"
  using assms
proof (induction R now n driver heap d arbitrary: emitted driver' d' rule: pop_loop.induct)
  case (3 R now n driver entry heap d)
  show ?case
  proof (cases "now < ready_at_ms entry")
    case True
    then show ?thesis using 3(3) by (auto simp: flying_def plan_def)
  next
    case due: False
    obtain session where s: "index_run (dv_sessions driver) (rs_session_index entry) = Some session" using 3(3) due by (auto simp: run_simps)
    show ?thesis
    proof (cases "stale session entry")
      case True
      then show ?thesis using 3(1) [OF due s True _ 3(4,5)] 3(3) due s by simp
    next
      case False
      let ?i = "rs_session_index entry" and ?u = "draw_uuid R d"
      obtain turn where t: "index_run (sr_turns session) (next_turn_index session) = Some turn" using 3(3) due s False by (auto simp: run_simps)
      define driver1 where "driver1 = driver\<lparr>dv_sessions := (dv_sessions driver)[?i := session\<lparr>sr_in_flight := Some ?u, next_ready_at_ms := None\<rparr>],
        dv_in_flight := hm_insert ?u \<lparr>if_session_index = ?i, if_turn_index = next_turn_index session\<rparr> (dv_in_flight driver)\<rparr>"
      obtain later where l: "pop_loop R now n driver1 heap (Suc d) = Some ((later, driver'), d')"
        "emitted = ready_turn (dv_mode driver) ?u (ready_at_ms entry) session turn # later"
        using 3(3) due s False t by (auto simp: run_simps Let_def driver1_def)
      have i: "?i < length (dv_sessions driver)" "session = dv_sessions driver ! ?i" "next_turn_index session < length (sr_turns session)"
        "turn = sr_turns session ! next_turn_index session"
        using s t by (auto simp: index_run_def split: if_splits)
      have p1: "plan driver1 = plan driver" using i(1,2) by (simp add: plan_def driver1_def map_update list_update_same_conv)
      have IH: "Suc d \<le> d' \<and> plan driver' = plan driver1 \<and> (\<forall>u. u \<notin> request_uuid ` set later \<longrightarrow> flying driver' u = flying driver1 u) \<and>
          (\<forall>rt \<in> set later. flying driver' (request_uuid rt) = Some (length (dr_tokens (rt_request rt)), dr_max_output_tokens (rt_request rt)) \<and>
            request_uuid rt \<in> drawn R (Suc d) d')"
        using 3(2) [OF due s False t refl _ _ 3(4,5)] l(1) by (simp add: driver1_def)
      have fresh: "?u \<notin> drawn R (Suc d) d'"
        using inj_onD [OF 3(4), of d] IH 3(5) by (fastforce simp: drawn_def)
      then have "?u \<notin> request_uuid ` set later" using IH by auto
      moreover have "flying driver1 u = (if u = ?u then Some (turn_size turn) else flying driver u)" for u
        using p1 i by (simp add: flying_def driver1_def plan_def)
      ultimately show ?thesis using IH p1 l(2) by (auto simp: ready_turn_def turn_size_def drawn_def)
    qed
  qed
qed (auto simp: flying_def plan_def)

lemma pop_ready_flying:
  assumes "driver_inv driver" "known_ids R d driver" "ids_ok R N (d + length (pending driver))" "max_in_flight driver = None" "0 < limit"
  shows "\<exists>emitted driver' d'. pop_ready R now limit driver d = Some ((emitted, driver'), d') \<and> d' = d + length emitted \<and>
    driver_inv driver' \<and> known_ids R d' driver' \<and> plan driver' = plan driver \<and> max_in_flight driver' = None \<and>
    distinct (map request_uuid emitted) \<and> (\<forall>rt \<in> set emitted. flying driver (request_uuid rt) = None \<and> dr_uuid (rt_request rt) = Some (request_uuid rt)) \<and>
    flying driver' = (\<lambda>u. if u \<in> request_uuid ` set emitted then flying driver' u else flying driver u) \<and>
    (\<forall>rt \<in> set emitted. flying driver' (request_uuid rt) = Some (length (dr_tokens (rt_request rt)), dr_max_output_tokens (rt_request rt))) \<and>
    image_mset turn_request (mset (pending driver)) = mset (map emitted_request emitted) + image_mset turn_request (mset (pending driver')) \<and>
    request_uuid ` set emitted \<subseteq> drawn R d d' \<and> (\<forall>P H. log_ok P driver H {} \<longrightarrow> log_ok P driver' (H @ map (turn_entry driver') emitted) {}) \<and>
    (emitted = [] \<longrightarrow> nothing_ready now driver' \<and> dv_sessions driver' = dv_sessions driver)"
proof -
  obtain emitted driver' d' where p: "pop_ready R now limit driver d = Some ((emitted, driver'), d')" "hands_out R now driver d emitted driver' d'"
    "length emitted < limit \<longrightarrow> nothing_ready now driver'"
    using pop_ready_ok [OF assms(1-3), of now limit] assms(4) by auto
  have h: "driver_inv driver'" "known_ids R d' driver'" "d' = d + length emitted" "map request_uuid emitted = map (draw_uuid R) [d..<d']"
    "max_in_flight driver' = None" "image_mset turn_request (mset (pending driver)) = mset (map emitted_request emitted) + image_mset turn_request (mset (pending driver'))"
    "\<And>rt. rt \<in> set emitted \<Longrightarrow> dr_uuid (rt_request rt) = Some (request_uuid rt)"
    "\<forall>P H. log_ok P driver H {} \<longrightarrow> log_ok P driver' (H @ map (turn_entry driver') emitted) {}"
    using hands_outD [OF p(2)] assms(4) by simp_all
  have "size (image_mset turn_request (mset (pending driver))) =
      size (mset (map emitted_request emitted) + image_mset turn_request (mset (pending driver')))" using h(6) by simp
  then have "length emitted \<le> length (pending driver)" by simp
  then have d': "d' \<le> N" and inj: "inj_on (draw_uuid R) {..<N}" using assms(3) h(3) by (simp_all add: ids_ok_def)
  have loop: "pop_loop R now limit driver (ready_sessions driver) d = Some ((emitted, driver'), d')"
    using p(1) assms(4,5) by (simp add: pop_ready_def)
  note f = pop_loop_flying [OF loop inj d']
  have dist: "distinct (map request_uuid emitted)"
  proof -
    have "{d..<d'} \<subseteq> {..<N}" using d' by auto
    then show ?thesis unfolding h(4) using inj_on_subset [OF inj] by (simp add: distinct_map)
  qed
  have none: "flying driver (request_uuid rt) = None" if rt: "rt \<in> set emitted" for rt
  proof -
    have "request_uuid rt \<notin> drawn R 0 d" using drawn_disjoint [of R N d' "request_uuid rt" d] f rt inj d' by (auto simp: ids_ok_def)
    then have "request_uuid rt \<notin> hm_keys (dv_in_flight driver)" using assms(2) unfolding known_ids_def by blast
    then show ?thesis by (simp add: flying_def hm_get_keys)
  qed
  have "flying driver' = (\<lambda>u. if u \<in> request_uuid ` set emitted then flying driver' u else flying driver u)" using f by auto
  moreover have "emitted = [] \<longrightarrow> dv_sessions driver' = dv_sessions driver" using p(1) by (auto dest: pop_ready_none)
  moreover have "request_uuid ` set emitted \<subseteq> drawn R d d'" using f by auto
  ultimately show ?thesis using p(1,3) h f dist none assms(5) by (intro exI [of _ emitted] exI [of _ driver'] exI [of _ d']) auto
qed

lemma complete_all_ok:
  assumes "driver_inv driver" "distinct us" "\<forall>u \<in> set us. flying driver u \<noteq> None"
  shows "\<exists>driver'. complete_all now us driver = Some driver' \<and> driver_inv driver' \<and> pending driver' = pending driver \<and> max_in_flight driver' = max_in_flight driver \<and>
    plan driver' = plan driver \<and> (\<forall>u. flying driver' u = (if u \<in> set us then None else flying driver u)) \<and> hm_keys (dv_in_flight driver') \<subseteq> hm_keys (dv_in_flight driver) \<and>
    (\<forall>P H. log_ok P driver H {} \<longrightarrow> log_ok P driver' H {})"
  using assms
proof (induction us arbitrary: driver)
  case (Cons u us)
  obtain turn where turn: "hm_get (dv_in_flight driver) u = Some turn" using Cons.prems(3) by (auto simp: flying_def)
  obtain driver1 where c: "on_complete u now driver = (Inr (), driver1)" "driver_inv driver1" "dv_in_flight driver1 = hm_remove u (dv_in_flight driver)"
    "pending driver1 = pending driver" "max_in_flight driver1 = max_in_flight driver" "plan driver1 = plan driver"
    "\<forall>P H. log_ok P driver H {} \<longrightarrow> log_ok P driver1 H {}"
    using on_complete_ok [OF Cons.prems(1) turn, of now] by (auto simp: plan_def)
  have f1: "flying driver1 v = (if v = u then None else flying driver v)" for v using c(3,6) by (simp add: flying_def)
  have "\<forall>v \<in> set us. flying driver1 v \<noteq> None" using Cons.prems(2,3) f1 by auto
  then obtain driver' where r: "complete_all now us driver1 = Some driver'" "driver_inv driver'" "pending driver' = pending driver1"
    "max_in_flight driver' = max_in_flight driver1" "plan driver' = plan driver1" "\<forall>v. flying driver' v = (if v \<in> set us then None else flying driver1 v)"
    "hm_keys (dv_in_flight driver') \<subseteq> hm_keys (dv_in_flight driver1)" "\<forall>P H. log_ok P driver1 H {} \<longrightarrow> log_ok P driver' H {}"
    using Cons.IH [OF c(2)] Cons.prems(2) by auto
  have "hm_keys (dv_in_flight driver1) \<subseteq> hm_keys (dv_in_flight driver)" using c(3) hm_keys_remove [of u "dv_in_flight driver"] by auto
  then show ?case using r c f1 by auto
qed simp

text \<open>At most one turn of each session is in flight, so that what is in flight is bounded by the sum over the sessions.\<close>

lemma flight_sum:
  assumes inv: "driver_inv driver" and g: "\<And>turn. if_session_index turn < length (plan driver) \<Longrightarrow> if_turn_index turn < length (plan driver ! if_session_index turn) \<Longrightarrow>
      g turn \<le> h (plan driver ! if_session_index turn)"
  shows "hm_sum g (dv_in_flight driver) \<le> sum_list (map h (plan driver))"
proof -
  let ?keys = "hm_keys (dv_in_flight driver)" and ?at = "\<lambda>u. if_session_index (the (hm_get (dv_in_flight driver) u))"
  have some: "\<exists>turn. hm_get (dv_in_flight driver) u = Some turn" if "u \<in> ?keys" for u
    using that hm_get_keys [of "dv_in_flight driver" u] by (cases "hm_get (dv_in_flight driver) u") auto
  have at: "?at u < length (plan driver)" "sr_in_flight (dv_sessions driver ! ?at u) = Some u"
    "if_turn_index (the (hm_get (dv_in_flight driver) u)) < length (plan driver ! ?at u)" if u: "u \<in> ?keys" for u
  proof -
    obtain turn where t: "hm_get (dv_in_flight driver) u = Some turn" using some [OF u] by blast
    note d = driver_invD(5) [OF inv t]
    then show "?at u < length (plan driver)" "sr_in_flight (dv_sessions driver ! ?at u) = Some u" using t by (auto simp: plan_def)
    have "session_inv driver (if_session_index turn) (dv_sessions driver ! if_session_index turn)" using driver_invD(4) [OF inv] d by blast
    then show "if_turn_index (the (hm_get (dv_in_flight driver) u)) < length (plan driver ! ?at u)" using t d by (auto simp: session_inv_def plan_def)
  qed
  have inj: "inj_on ?at ?keys" by (rule inj_onI) (metis at(2) option.inject)
  have "hm_sum g (dv_in_flight driver) = (\<Sum>u \<in> ?keys. g (the (hm_get (dv_in_flight driver) u)))" using hm_sum_keys [OF driver_invD(1) [OF inv]] .
  also have "\<dots> \<le> (\<Sum>u \<in> ?keys. h (plan driver ! ?at u))" by (intro sum_mono g at) auto
  also have "\<dots> = (\<Sum>i \<in> ?at ` ?keys. h (plan driver ! i))" by (simp add: sum.reindex [OF inj])
  also have "\<dots> \<le> (\<Sum>i < length (plan driver). h (plan driver ! i))" by (intro sum_mono2) (use at(1) in blast)+
  also have "\<dots> = sum_list (map h (plan driver))" by (simp add: sum_list_sum_nth lessThan_atLeast0)
  finally show ?thesis .
qed

section \<open>Arrivals\<close>

definition request_size :: "'a DirectRequest_scheme \<Rightarrow> nat \<times> nat" where
  "request_size r = (length (dr_tokens r), dr_max_output_tokens r)"

definition arrival_size :: "Uuid \<times> 't \<times> nat \<times> nat \<Rightarrow> nat \<times> nat" where
  "arrival_size = (\<lambda>(u, at, size). size)"

lemma record_arrivals_ok:
  assumes "worker_ok E R d (worker rt)" "distinct (map (dr_uuid \<circ> fst) rs)"
    and "\<forall>r \<in> fst ` set rs. (\<exists>u. dr_uuid r = Some u \<and> sizes (worker rt) u = None) \<and> fits (worker rt) (request_size r)"
    and "ids_ok R N (d + (\<Sum>r \<leftarrow> rs. 2 * length (dr_tokens (fst r)) + 1))"
  shows "\<exists>core log d'. record_arrivals E R rs rt d = Some (rt\<lparr>worker := core, collector := collector rt @ log\<rparr>, d') \<and> d \<le> d' \<and>
    d' \<le> d + (\<Sum>r \<leftarrow> rs. 2 * length (dr_tokens (fst r)) + 1) \<and> worker_ok E R d' core \<and> same_engine (worker rt) core \<and>
    map arrival_size log = map (request_size \<circ> fst) rs \<and>
    (\<forall>r \<in> fst ` set rs. sizes core (the (dr_uuid r)) = Some (request_size r)) \<and>
    (\<forall>u. Some u \<notin> dr_uuid ` fst ` set rs \<longrightarrow> sizes core u = sizes (worker rt) u) \<and>
    owed core = owed (worker rt) + (\<Sum>r \<leftarrow> rs. dr_max_output_tokens (fst r)) \<and>
    hm_len (requests (vc_state core)) = hm_len (requests (vc_state (worker rt))) + length rs \<and> map (\<lambda>a. Some (fst a)) log = map (\<lambda>r. dr_uuid (fst r)) rs"
  using assms
proof (induction rs arbitrary: rt d)
  case Nil
  then show ?case by (intro exI [of _ "worker rt"] exI [of _ "[]"] exI [of _ d]) simp
next
  case (Cons x rs)
  obtain r at where x: "x = (r, at)" by (cases x)
  obtain u where u: "dr_uuid r = Some u" "sizes (worker rt) u = None" "fits (worker rt) (request_size r)" using Cons.prems(3) x by auto
  let ?r = "DirectRequest.truncate r"
  have tr: "dr_uuid ?r = Some u" "dr_tokens ?r = dr_tokens r" "dr_max_output_tokens ?r = dr_max_output_tokens r"
    using u(1) by (simp_all add: DirectRequest.truncate_def)
  have "d + 2 * length (dr_tokens r) + 1 \<le> d + (\<Sum>r \<leftarrow> x # rs. 2 * length (dr_tokens (fst r)) + 1)" by (simp add: x)
  then have ids: "ids_ok R N (d + 2 * length (dr_tokens ?r) + 1)" using ids_ok_mono [OF Cons.prems(4)] tr(2) by simp
  obtain core1 d1 where c: "receive E R ?r (worker rt) d = Some ((u, core1), d1)" "d \<le> d1" "d1 \<le> d + 2 * length (dr_tokens r) + 1"
    "worker_ok E R d1 core1" "same_engine (worker rt) core1" "sizes core1 = (sizes (worker rt))(u \<mapsto> request_size r)"
    "owed core1 = owed (worker rt) + dr_max_output_tokens r" "hm_len (requests (vc_state core1)) = Suc (hm_len (requests (vc_state (worker rt))))"
    using receive_live [OF Cons.prems(1) tr(1) u(2) _ ids] u(3) tr by (auto simp: request_size_def)
  define rt1 where "rt1 = rt\<lparr>worker := core1, collector := collector rt @ [(u, at, length (dr_tokens r), dr_max_output_tokens r)]\<rparr>"
  have run: "record_arrivals E R (x # rs) rt d = record_arrivals E R rs rt1 d1"
    using c(1) tr by (simp add: x record_arrival_def rt1_def)
  have other: "dr_uuid r' \<noteq> Some u" if "r' \<in> fst ` set rs" for r' using Cons.prems(2) x u(1) that by force
  have prem: "\<forall>r \<in> fst ` set rs. (\<exists>u. dr_uuid r = Some u \<and> sizes (worker rt1) u = None) \<and> fits (worker rt1) (request_size r)"
  proof
    fix r'
    assume r': "r' \<in> fst ` set rs"
    then obtain v where "dr_uuid r' = Some v" "sizes (worker rt) v = None" "fits (worker rt) (request_size r')" using Cons.prems(3) by auto
    then show "(\<exists>u. dr_uuid r' = Some u \<and> sizes (worker rt1) u = None) \<and> fits (worker rt1) (request_size r')"
      using other [OF r'] c(6) fits_same [OF c(5)] by (auto simp: rt1_def)
  qed
  have sum: "d1 + (\<Sum>r \<leftarrow> rs. 2 * length (dr_tokens (fst r)) + 1) \<le> d + (\<Sum>r \<leftarrow> x # rs. 2 * length (dr_tokens (fst r)) + 1)"
    using c(3) by (simp add: x)
  obtain core log d' where r: "record_arrivals E R rs rt1 d1 = Some (rt1\<lparr>worker := core, collector := collector rt1 @ log\<rparr>, d')" "d1 \<le> d'"
    "d' \<le> d1 + (\<Sum>r \<leftarrow> rs. 2 * length (dr_tokens (fst r)) + 1)" "worker_ok E R d' core" "same_engine (worker rt1) core"
    "map arrival_size log = map (request_size \<circ> fst) rs" "\<forall>r \<in> fst ` set rs. sizes core (the (dr_uuid r)) = Some (request_size r)"
    "\<forall>u. Some u \<notin> dr_uuid ` fst ` set rs \<longrightarrow> sizes core u = sizes (worker rt1) u"
    "owed core = owed (worker rt1) + (\<Sum>r \<leftarrow> rs. dr_max_output_tokens (fst r))"
    "hm_len (requests (vc_state core)) = hm_len (requests (vc_state (worker rt1))) + length rs" "map (\<lambda>a. Some (fst a)) log = map (\<lambda>r. dr_uuid (fst r)) rs"
  proof -
    have "worker_ok E R d1 (worker rt1)" "distinct (map (dr_uuid \<circ> fst) rs)" using c(4) Cons.prems(2) by (simp_all add: rt1_def comp_def)
    from Cons.IH [OF this prem ids_ok_mono [OF Cons.prems(4) sum]] show thesis using that by blast
  qed
  have "Some u \<notin> dr_uuid ` fst ` set rs" using other by fastforce
  then have "sizes core u = Some (request_size r)" using r(8) c(6) by (simp add: rt1_def)
  moreover have "rt1\<lparr>worker := core, collector := collector rt1 @ log\<rparr> =
      rt\<lparr>worker := core, collector := collector rt @ (u, at, length (dr_tokens r), dr_max_output_tokens r) # log\<rparr>" by (simp add: rt1_def)
  moreover have "same_engine (worker rt) core" using same_engine_trans [OF c(5)] r(5) by (simp add: rt1_def)
  moreover have "d' \<le> d + (\<Sum>r \<leftarrow> x # rs. 2 * length (dr_tokens (fst r)) + 1)" using r(3) sum by linarith
  ultimately show ?case
    unfolding run using r c(2,6-8) u(1)
    by (intro exI [of _ core] exI [of _ "(u, at, length (dr_tokens r), dr_max_output_tokens r) # log"] exI [of _ d'])
      (auto simp: rt1_def x arrival_size_def request_size_def)
qed

section \<open>The invariant of a replay\<close>

text \<open>Sums over the turns that are still to come.\<close>

definition to_come :: "(nat \<times> nat \<Rightarrow> nat) \<Rightarrow> 't WorkloadDriver \<Rightarrow> nat" where
  "to_come f driver = sum_list (map (f \<circ> turn_size) (pending driver))"

fun peak :: "(nat \<times> nat) list \<Rightarrow> nat" where
  "peak [] = 0"
| "peak ((i, k) # rest) = max (i + k) (peak rest)"

text \<open>The draws of a pass over at most \<open>n\<close> requests, and those a turn of \<open>i\<close> tokens that gets \<open>k\<close> can cost in all.\<close>

definition pass_cost :: "nat \<Rightarrow> nat" where
  "pass_cost n = 4 * Suc n * n"

definition turn_cost :: "nat \<Rightarrow> nat \<times> nat \<Rightarrow> nat" where
  "turn_cost n = (\<lambda>(i, k). 2 * i + 2 + k * pass_cost n)"

definition rounds_for :: "nat \<times> nat \<Rightarrow> nat" where
  "rounds_for = (\<lambda>(i, k). k + 1)"

text \<open>
  A workload an engine can serve: it can finish every turn, and the budget of a pass covers the largest turn of each session.
\<close>

definition servable :: "'f VllmCore \<Rightarrow> (nat \<times> nat) list list \<Rightarrow> bool" where
  "servable core Z = (list_all (list_all (fits core)) Z \<and> sum_list (map peak Z) \<le> token_limit (vc_args core))"

text \<open>
  What arrived: one turn after the other as the driver handed them out, each under an id of its own. \<open>P\<close> are the requests of
  each session.
\<close>

definition size_of :: "u32 list \<times> nat \<Rightarrow> nat \<times> nat" where
  "size_of = (\<lambda>(ts, k). (length ts, k))"

definition arrived :: "random_source \<Rightarrow> (u32 list \<times> nat) list list \<Rightarrow> 't WorkloadDriver \<Rightarrow> (Uuid \<times> 't \<times> nat \<times> nat) list \<Rightarrow> nat \<Rightarrow> bool" where
  "arrived R P driver arrivals d = (distinct (map fst arrivals) \<and> fst ` set arrivals \<subseteq> drawn R 0 d \<and>
     (\<exists>log. log_ok P driver log {} \<and> map arrival_size arrivals = map (\<lambda>(i, k, request). size_of request) log))"

lemma map_Some_fst: "map (\<lambda>a. Some (fst a)) xs = map Some ys \<Longrightarrow> map fst xs = ys"
  by (induction xs arbitrary: ys) auto

lemma arrived_keep:
  assumes "arrived R P driver arrivals d" "\<forall>H. log_ok P driver H {} \<longrightarrow> log_ok P driver' H {}" "d \<le> d'"
  shows "arrived R P driver' arrivals d'"
proof -
  have "drawn R 0 d \<subseteq> drawn R 0 d'" using assms(3) by (auto simp: drawn_def)
  then show ?thesis using assms(1,2) unfolding arrived_def by blast
qed

lemma arrived_more:
  assumes old: "arrived R P driver arrivals d" and ids: "ids_ok R N d1" "d \<le> d1" "d1 \<le> d'"
    and emitted: "distinct (map request_uuid emitted)" "request_uuid ` set emitted \<subseteq> drawn R d d1"
    and log: "\<forall>H. log_ok P driver H {} \<longrightarrow> log_ok P driver' (H @ map (turn_entry driver') emitted) {}"
    and new: "map fst fresh = map request_uuid emitted" "map arrival_size fresh = map (\<lambda>t. request_size (rt_request t)) emitted"
  shows "arrived R P driver' (arrivals @ fresh) d'"
proof -
  have keys: "fst ` set fresh = request_uuid ` set emitted" using new(1) by (metis set_map)
  have "fst ` set arrivals \<inter> fst ` set fresh = {}" using old emitted(2) drawn_disjoint [OF ids(1)] unfolding keys arrived_def by blast
  then have "distinct (map fst (arrivals @ fresh))" using old emitted(1) new(1) by (simp add: arrived_def keys)
  moreover have "drawn R 0 d \<union> drawn R d d1 \<subseteq> drawn R 0 d'" using ids(2,3) by (auto simp: drawn_def)
  then have "fst ` set (arrivals @ fresh) \<subseteq> drawn R 0 d'" using old emitted(2) unfolding arrived_def set_append image_Un keys by blast
  moreover obtain H where h: "log_ok P driver H {}" "map arrival_size arrivals = map (\<lambda>(i, k, request). size_of request) H" using old by (auto simp: arrived_def)
  have "(\<lambda>(i, k, request). size_of request) (turn_entry driver' t) = request_size (rt_request t)" for t
    by (simp add: turn_entry_def size_of_def emitted_request_def request_size_def)
  then have "map arrival_size (arrivals @ fresh) = map (\<lambda>(i, k, request). size_of request) (H @ map (turn_entry driver') emitted)"
    using h(2) new(2) by simp
  ultimately show ?thesis using log h(1) unfolding arrived_def by blast
qed

definition workload_inv :: "build_env \<Rightarrow> random_source \<Rightarrow> nat \<Rightarrow> (u32 list \<times> nat) list list \<Rightarrow> (nat \<times> nat) list list \<Rightarrow> ('t::linorder) WorkloadDriver \<Rightarrow> ('t, 'f) SingleRuntime \<Rightarrow> nat \<Rightarrow> bool" where
  "workload_inv E R N P Z driver rt d = (admission rt = WorkloadSource driver \<and> driver_inv driver \<and> known_ids R d driver \<and> max_in_flight driver = None \<and>
     map (map turn_size) (plan driver) = Z \<and> sizes (worker rt) = flying driver \<and> worker_ok E R d (worker rt) \<and> servable (worker rt) Z \<and>
     inj_on (draw_uuid R) {..<N} \<and> d + to_come (turn_cost (length Z)) driver + owed (worker rt) * pass_cost (length Z) \<le> N \<and>
     mset (map arrival_size (collector rt)) + mset (map turn_size (pending driver)) = mset (concat Z) \<and>
     progress_completed rt + num_requests rt = length (collector rt) \<and> progress_total rt = length (concat Z) \<and> arrived R P driver (collector rt) d)"

lemma workload_invD:
  assumes "workload_inv E R N P Z driver rt d"
  shows "admission rt = WorkloadSource driver" "driver_inv driver" "known_ids R d driver" "max_in_flight driver = None"
    "map (map turn_size) (plan driver) = Z" "sizes (worker rt) = flying driver" "worker_ok E R d (worker rt)" "servable (worker rt) Z"
    "inj_on (draw_uuid R) {..<N}" "d + to_come (turn_cost (length Z)) driver + owed (worker rt) * pass_cost (length Z) \<le> N"
    "mset (map arrival_size (collector rt)) + mset (map turn_size (pending driver)) = mset (concat Z)"
    "progress_completed rt + num_requests rt = length (collector rt)" "progress_total rt = length (concat Z)" "arrived R P driver (collector rt) d"
  using assms by (simp_all add: workload_inv_def)

definition potential :: "'t WorkloadDriver \<Rightarrow> ('t, 'f) SingleRuntime \<Rightarrow> nat" where
  "potential driver rt = owed (worker rt) + to_come rounds_for driver"

lemma size_request: "size_of (turn_request turn) = turn_size turn" "size_of (emitted_request rt) = request_size (rt_request rt)"
  by (simp_all add: turn_size_def turn_request_def request_size_def emitted_request_def size_of_def)

lemma sum_list_mset: "sum_list (map f xs) = sum_mset (image_mset f (mset xs))"
  by (simp add: sum_mset_sum_list [symmetric])

lemma handed_sizes:
  assumes "image_mset turn_request (mset (pending driver)) = mset (map emitted_request emitted) + image_mset turn_request (mset (pending driver'))"
  shows "mset (map turn_size (pending driver)) = mset (map (\<lambda>t. request_size (rt_request t)) emitted) + mset (map turn_size (pending driver'))"
    "to_come f driver = (\<Sum>rt \<leftarrow> emitted. f (request_size (rt_request rt))) + to_come f driver'"
proof -
  have "image_mset size_of (image_mset turn_request (mset (pending driver))) =
      image_mset size_of (mset (map emitted_request emitted) + image_mset turn_request (mset (pending driver')))"
    using assms by simp
  then have m: "image_mset turn_size (mset (pending driver)) =
      image_mset (\<lambda>t. request_size (rt_request t)) (mset emitted) + image_mset turn_size (mset (pending driver'))"
    by (simp add: size_request multiset.map_comp comp_def)
  then show "mset (map turn_size (pending driver)) = mset (map (\<lambda>t. request_size (rt_request t)) emitted) + mset (map turn_size (pending driver'))"
    by simp
  have "sum_mset (image_mset f (image_mset turn_size (mset (pending driver)))) =
      sum_mset (image_mset f (image_mset (\<lambda>t. request_size (rt_request t)) (mset emitted) + image_mset turn_size (mset (pending driver'))))"
    using m by simp
  then show "to_come f driver = (\<Sum>rt \<leftarrow> emitted. f (request_size (rt_request rt))) + to_come f driver'"
    by (simp add: to_come_def sum_list_mset multiset.map_comp comp_def)
qed

lemma pending_plan: "set (pending driver) \<subseteq> set (concat (plan driver))"
  by (auto simp: pending_def plan_def dest: in_set_dropD)

lemma servable_fits:
  assumes "servable core (map (map turn_size) (plan driver))" "turn \<in> set (pending driver)"
  shows "fits core (turn_size turn)"
proof -
  obtain turns where "turns \<in> set (plan driver)" "turn \<in> set turns" using assms(2) pending_plan [of driver] by auto
  moreover have "\<forall>turns \<in> set (plan driver). \<forall>turn \<in> set turns. fits core (turn_size turn)"
    using assms(1) by (simp add: servable_def list_all_iff)
  ultimately show ?thesis by blast
qed

lemma servable_same:
  assumes "same_engine core core'"
  shows "servable core' Z = servable core Z"
  unfolding servable_def list_all_iff fits_same [OF assms] using assms by (simp add: same_engine_def)

lemma length_le_sum: "(\<And>x. 1 \<le> f x) \<Longrightarrow> length xs \<le> (\<Sum>x \<leftarrow> xs. f x :: nat)"
  by (induction xs) (auto simp: add_le_mono [of 1, simplified])

lemma sum_list_Suc: "(\<Sum>x \<leftarrow> xs. Suc (f x)) = (\<Sum>x \<leftarrow> xs. f x) + length xs"
  by (induction xs) simp_all

lemma worker_ok_mono: "worker_ok E R d core \<Longrightarrow> d \<le> d' \<Longrightarrow> worker_ok E R d' core"
  by (auto simp: worker_ok_def intro: core_inv_mono)

text \<open>The turns a call of \<open>pop_ready\<close> hands out are let into the worker.\<close>

lemma admit_ok:
  assumes inv: "workload_inv E R N P Z driver rt d" and limit: "0 < limit"
  shows "\<exists>emitted driver' d1 rt' d'. pop_ready R now limit driver d = Some ((emitted, driver'), d1) \<and>
    record_arrivals E R (map (\<lambda>t. (rt_request t, at t)) emitted) (rt\<lparr>admission := WorkloadSource driver'\<rparr>) d1 = Some (rt', d') \<and>
    workload_inv E R N P Z driver' rt' d' \<and> potential driver' rt' + length emitted = potential driver rt \<and>
    current_time_ms rt' = current_time_ms rt \<and> replay_mode rt' = replay_mode rt \<and>
    num_requests rt' = num_requests rt + length emitted \<and>
    (emitted = [] \<longrightarrow> nothing_ready now driver' \<and> dv_sessions driver' = dv_sessions driver)"
proof -
  note I = workload_invD [OF inv]
  have "length (pending driver) \<le> to_come (turn_cost (length Z)) driver"
    unfolding to_come_def by (rule length_le_sum) (simp add: turn_cost_def split: prod.splits)
  then have ids: "ids_ok R N (d + length (pending driver))" using I(9,10) by (simp add: ids_ok_def)
  obtain emitted driver' d1 where p: "pop_ready R now limit driver d = Some ((emitted, driver'), d1)" "d1 = d + length emitted"
    "driver_inv driver'" "known_ids R d1 driver'" "plan driver' = plan driver" "max_in_flight driver' = None"
    "distinct (map request_uuid emitted)" "\<And>t. t \<in> set emitted \<Longrightarrow> flying driver (request_uuid t) = None \<and> dr_uuid (rt_request t) = Some (request_uuid t)"
    "flying driver' = (\<lambda>u. if u \<in> request_uuid ` set emitted then flying driver' u else flying driver u)"
    "\<And>t. t \<in> set emitted \<Longrightarrow> flying driver' (request_uuid t) = Some (length (dr_tokens (rt_request t)), dr_max_output_tokens (rt_request t))"
    "image_mset turn_request (mset (pending driver)) = mset (map emitted_request emitted) + image_mset turn_request (mset (pending driver'))"
    "emitted = [] \<longrightarrow> nothing_ready now driver' \<and> dv_sessions driver' = dv_sessions driver"
    "request_uuid ` set emitted \<subseteq> drawn R d d1" "\<forall>P H. log_ok P driver H {} \<longrightarrow> log_ok P driver' (H @ map (turn_entry driver') emitted) {}"
    using pop_ready_flying [OF I(2,3) ids I(4) limit, of now] by (elim exE conjE) (rule that, assumption+, blast+)
  note hs = handed_sizes [OF p(11)]
  let ?rs = "map (\<lambda>t. (rt_request t, at t)) emitted" and ?rt = "rt\<lparr>admission := WorkloadSource driver'\<rparr>"
  have dist: "distinct (map (dr_uuid \<circ> fst) ?rs)"
  proof -
    have "map (dr_uuid \<circ> fst) ?rs = map Some (map request_uuid emitted)" using p(8) by simp
    moreover have "distinct (map Some (map request_uuid emitted))" using p(7) by (subst distinct_map) simp
    ultimately show ?thesis by (simp only:)
  qed
  have fit: "fits (worker rt) (request_size (rt_request t))" if "t \<in> set emitted" for t
  proof -
    have "request_size (rt_request t) \<in># mset (map turn_size (pending driver))" unfolding hs(1) using that by simp
    then obtain turn where "turn \<in> set (pending driver)" "request_size (rt_request t) = turn_size turn" by auto
    then show ?thesis using servable_fits [of "worker rt" driver turn] I(5,8) by simp
  qed
  have sum: "length emitted + (\<Sum>r \<leftarrow> ?rs. 2 * length (dr_tokens (fst r)) + 1) + (\<Sum>t \<leftarrow> emitted. dr_max_output_tokens (rt_request t)) * pass_cost (length Z) +
      to_come (turn_cost (length Z)) driver' = to_come (turn_cost (length Z)) driver"
    unfolding hs(2) [of "turn_cost (length Z)"]
    by (induction emitted) (simp_all add: turn_cost_def request_size_def algebra_simps)
  have le: "d1 + (\<Sum>r \<leftarrow> ?rs. 2 * length (dr_tokens (fst r)) + 1) \<le> N" using sum p(2) I(10) by linarith
  obtain core log d' where r: "record_arrivals E R ?rs ?rt d1 = Some (?rt\<lparr>worker := core, collector := collector ?rt @ log\<rparr>, d')" "d1 \<le> d'"
    "d' \<le> d1 + (\<Sum>r \<leftarrow> ?rs. 2 * length (dr_tokens (fst r)) + 1)" "worker_ok E R d' core" "same_engine (worker ?rt) core"
    "map arrival_size log = map (request_size \<circ> fst) ?rs" "\<forall>r \<in> fst ` set ?rs. sizes core (the (dr_uuid r)) = Some (request_size r)"
    "\<forall>u. Some u \<notin> dr_uuid ` fst ` set ?rs \<longrightarrow> sizes core u = sizes (worker ?rt) u"
    "owed core = owed (worker ?rt) + (\<Sum>r \<leftarrow> ?rs. dr_max_output_tokens (fst r))"
    "hm_len (requests (vc_state core)) = hm_len (requests (vc_state (worker ?rt))) + length ?rs" "map (\<lambda>a. Some (fst a)) log = map (\<lambda>r. dr_uuid (fst r)) ?rs"
  proof -
    have "worker_ok E R d1 (worker ?rt)" using worker_ok_mono [OF I(7)] p(2) by simp
    then show thesis using record_arrivals_ok [of E R d1 ?rt ?rs N] dist p(8) fit I(6,9) le that by (auto simp: ids_ok_def)
  qed
  let ?rt' = "?rt\<lparr>worker := core, collector := collector ?rt @ log\<rparr>"
  have "sizes core u = flying driver' u" for u
  proof (cases "u \<in> request_uuid ` set emitted")
    case True
    then obtain t where t: "t \<in> set emitted" "u = request_uuid t" by blast
    then have "sizes core (the (dr_uuid (rt_request t))) = Some (request_size (rt_request t))" using r(7) by force
    then show ?thesis using p(8) [OF t(1)] p(10) [OF t(1)] t(2) by (simp add: request_size_def)
  next
    case False
    then have "Some u \<notin> dr_uuid ` fst ` set ?rs" using p(8) by force
    then have "sizes core u = sizes (worker rt) u" using r(8) by simp
    then show ?thesis using I(6) fun_cong [OF p(9), of u] False by simp
  qed
  then have sz: "sizes core = flying driver'" by (rule ext)
  have owed: "owed core = owed (worker rt) + (\<Sum>t \<leftarrow> emitted. dr_max_output_tokens (rt_request t))" using r(9) by (simp add: comp_def)
  have cost: "owed core * pass_cost (length Z) = owed (worker rt) * pass_cost (length Z) + (\<Sum>t \<leftarrow> emitted. dr_max_output_tokens (rt_request t)) * pass_cost (length Z)"
    unfolding owed by (simp add: algebra_simps)
  have budget: "d' + to_come (turn_cost (length Z)) driver' + owed core * pass_cost (length Z) \<le> N"
    using sum cost r(3) p(2) I(10) by linarith
  have log: "mset (map arrival_size (collector rt @ log)) + mset (map turn_size (pending driver')) = mset (concat Z)"
    using I(11) hs(1) r(6) by (simp add: comp_def ac_simps)
  have "map (\<lambda>a. Some (fst a)) log = map Some (map request_uuid emitted)" using r(11) p(8) by simp
  then have keys: "map fst log = map request_uuid emitted" by (rule map_Some_fst)
  then have len: "length log = length emitted" by (metis length_map)
  have arr: "arrived R P driver' (collector rt @ log) d'"
  proof (rule arrived_more [OF I(14) _ _ r(2) p(7,13) spec [OF p(14)] keys])
    show "ids_ok R N d1" using I(9) le by (simp add: ids_ok_def)
  qed (use p(2) r(6) in \<open>simp_all add: comp_def\<close>)
  have "workload_inv E R N P Z driver' ?rt' d'"
    unfolding workload_inv_def
    using p(3,5,6) known_ids_mono [OF p(4) r(2)] I(5,8,9,12,13) sz r(4,5,10) servable_same [of "worker rt" core Z] budget log len arr
    by (simp add: num_requests_def)
  moreover have "potential driver' ?rt' + length emitted = potential driver rt"
    using hs(2) [of rounds_for] owed by (simp add: potential_def rounds_for_def request_size_def sum_list_Suc)
  ultimately show ?thesis using p(1,12) r(1,10) by (auto simp: num_requests_def)
qed

section \<open>Rounds\<close>

lemma trace_arrivals_ok:
  assumes "workload_inv E R N P Z driver rt d"
  shows "\<exists>n driver' rt' d'. enqueue_trace_arrivals E R rt d = Some (rt', d') \<and> workload_inv E R N P Z driver' rt' d' \<and>
    potential driver' rt' + n = potential driver rt \<and> current_time_ms rt' = current_time_ms rt \<and> replay_mode rt' = replay_mode rt \<and>
    num_requests rt' = num_requests rt + n \<and>
    (n = 0 \<longrightarrow> nothing_ready (current_time_ms rt) driver' \<and> dv_sessions driver' = dv_sessions driver)"
proof -
  obtain emitted driver' d1 rt' d' where "pop_ready R (current_time_ms rt) usize_max driver d = Some ((emitted, driver'), d1)"
    "record_arrivals E R (map (\<lambda>t. (rt_request t, scheduled_ready_at_ms t)) emitted) (rt\<lparr>admission := WorkloadSource driver'\<rparr>) d1 = Some (rt', d')"
    and r: "workload_inv E R N P Z driver' rt' d'" "potential driver' rt' + length emitted = potential driver rt"
    "current_time_ms rt' = current_time_ms rt" "replay_mode rt' = replay_mode rt" "num_requests rt' = num_requests rt + length emitted"
    "emitted = [] \<longrightarrow> nothing_ready (current_time_ms rt) driver' \<and> dv_sessions driver' = dv_sessions driver"
    using admit_ok [OF assms, of usize_max "current_time_ms rt" scheduled_ready_at_ms] by (auto simp: usize_max_def)
  then have "enqueue_trace_arrivals E R rt d = Some (rt', d')" using workload_invD(1) [OF assms] by (simp add: enqueue_trace_arrivals_def)
  then show ?thesis using r by (intro exI [of _ "length emitted"] exI [of _ driver'] exI [of _ rt'] exI [of _ d']) simp
qed

lemma concurrency_arrivals_ok:
  assumes "workload_inv E R N P Z driver rt d" "0 < cap"
  shows "\<exists>n driver' rt' d'. enqueue_concurrency_arrivals E R cap rt d = Some (rt', d') \<and> workload_inv E R N P Z driver' rt' d' \<and>
    potential driver' rt' + n = potential driver rt \<and> current_time_ms rt' = current_time_ms rt \<and> replay_mode rt' = replay_mode rt \<and>
    num_requests rt' = num_requests rt + n \<and>
    (num_requests rt' = 0 \<longrightarrow> nothing_ready (current_time_ms rt) driver' \<and> dv_sessions driver' = dv_sessions driver)"
proof (cases "num_requests rt < cap")
  case True
  then obtain emitted driver' d1 rt' d' where
    "pop_ready R (current_time_ms rt) (cap - num_requests rt) driver d = Some ((emitted, driver'), d1)"
    "record_arrivals E R (map (\<lambda>t. (rt_request t, current_time_ms rt)) emitted) (rt\<lparr>admission := WorkloadSource driver'\<rparr>) d1 = Some (rt', d')"
    and r: "workload_inv E R N P Z driver' rt' d'" "potential driver' rt' + length emitted = potential driver rt"
    "current_time_ms rt' = current_time_ms rt" "replay_mode rt' = replay_mode rt" "num_requests rt' = num_requests rt + length emitted"
    "emitted = [] \<longrightarrow> nothing_ready (current_time_ms rt) driver' \<and> dv_sessions driver' = dv_sessions driver"
    using admit_ok [OF assms(1), of "cap - num_requests rt" "current_time_ms rt" "\<lambda>_. current_time_ms rt"] by auto
  then have "enqueue_concurrency_arrivals E R cap rt d = Some (rt', d')"
    using workload_invD(1) [OF assms(1)] by (simp add: enqueue_concurrency_arrivals_def Let_def)
  then show ?thesis using r by (intro exI [of _ "length emitted"] exI [of _ driver'] exI [of _ rt'] exI [of _ d']) simp
next
  case False
  then have "enqueue_concurrency_arrivals E R cap rt d = Some (rt, d)"
    using workload_invD(1) [OF assms(1)] by (simp add: enqueue_concurrency_arrivals_def Let_def pop_ready_def split: option.splits)
  then show ?thesis using assms False by (intro exI [of _ 0] exI [of _ driver] exI [of _ rt] exI [of _ d]) simp
qed

lemma idle_flight:
  assumes "workload_inv E R N P Z driver rt d" "num_requests rt = 0"
  shows "dv_in_flight driver = []" "requests (vc_state (worker rt)) = []"
proof -
  note I = workload_invD [OF assms(1)]
  show r: "requests (vc_state (worker rt)) = []" using assms(2) by (simp add: num_requests_def)
  have "flying driver u = None" for u using fun_cong [OF I(6), of u] r by (simp add: sizes_def)
  then have "u \<notin> hm_keys (dv_in_flight driver)" for u by (simp add: flying_def hm_get_keys)
  then show "dv_in_flight driver = []" by (cases "dv_in_flight driver") auto
qed

lemma advance_ok:
  assumes inv: "workload_inv E R N P Z driver rt d" and idle: "num_requests rt = 0" "\<not> is_drained driver"
  shows "\<exists>driver' t rt'. advance_to_next_trace_arrival rt = Some (Inr rt') \<and> workload_inv E R N P Z driver' rt' d \<and>
    potential driver' rt' = potential driver rt \<and> current_time_ms rt' = t \<and> replay_mode rt' = replay_mode rt \<and> num_requests rt' = 0 \<and>
    \<not> nothing_ready t driver'"
proof -
  note I = workload_invD [OF inv]
  obtain session where s: "session \<in> set (dv_sessions driver)" "next_ready_at_ms session \<noteq> None"
    by (rule idle_ready [OF I(2) idle_flight(1) [OF inv idle(1)] idle(2)])
  obtain t heap where n: "next_ready_time_ms driver = Some (t, driver\<lparr>ready_sessions := heap\<rparr>)" "driver_inv (driver\<lparr>ready_sessions := heap\<rparr>)"
    "t = None \<Longrightarrow> \<forall>session \<in> set (dv_sessions driver). next_ready_at_ms session = None"
    "\<And>t0. t = Some t0 \<Longrightarrow> \<exists>session \<in> set (dv_sessions driver). next_ready_at_ms session = Some t0"
    by (rule next_ready_ok [OF I(2)]) (use I(4) in \<open>simp add: below_cap_def\<close>)
  obtain t0 where t: "t = Some t0" using n(3) s by (cases t) auto
  let ?driver = "driver\<lparr>ready_sessions := heap\<rparr>" and ?rt = "rt\<lparr>admission := WorkloadSource (driver\<lparr>ready_sessions := heap\<rparr>), current_time_ms := t0\<rparr>"
  have same: "plan ?driver = plan driver" "flying ?driver = flying driver" "pending ?driver = pending driver" "to_come f ?driver = to_come f driver" for f
    by (simp_all add: plan_def flying_def pending_def to_come_def fun_eq_iff)
  have "arrived R P ?driver (collector rt) d" using arrived_keep [OF I(14)] log_ok_same [of ?driver driver] by auto
  then have "workload_inv E R N P Z ?driver ?rt d"
    using I n(2) by (simp add: workload_inv_def same known_ids_def num_requests_def)
  moreover have "advance_to_next_trace_arrival rt = Some (Inr ?rt)" using I(1) n(1) t by (simp add: advance_to_next_trace_arrival_def)
  moreover have "\<not> nothing_ready t0 ?driver" using n(4) [OF t] by (auto simp: nothing_ready_def)
  ultimately show ?thesis using idle(1) by (intro exI [of _ ?driver] exI [of _ t0] exI [of _ ?rt]) (simp add: potential_def same num_requests_def)
qed

text \<open>What is in flight fits into the budget of a pass, and no pass draws more than \<open>pass_cost\<close> for the number of sessions.\<close>

lemma peak_ge: "(i, k) \<in> set l \<Longrightarrow> i + k \<le> peak l"
  by (induction l rule: peak.induct) auto

lemma aboard_sum:
  assumes inv: "driver_inv driver" "hm_wf (requests (vc_state core))" and aboard: "sizes core \<subseteq>\<^sub>m flying driver" and f: "\<And>l z. z \<in> set l \<Longrightarrow> f z \<le> h l"
  shows "hm_sum (\<lambda>rq. f (rq_size rq)) (requests (vc_state core)) \<le> sum_list (map h (map (map turn_size) (plan driver)))"
proof -
  have "hm_sum (\<lambda>rq. f (rq_size rq)) (requests (vc_state core)) \<le>
      hm_sum (\<lambda>turn. f (turn_size (plan driver ! if_session_index turn ! if_turn_index turn))) (dv_in_flight driver)"
  proof (rule hm_sum_le [OF driver_invD(1) [OF inv(1)] inv(2)])
    fix u rq
    assume "hm_get (requests (vc_state core)) u = Some rq"
    then have "flying driver u = Some (rq_size rq)" using aboard by (auto simp: map_le_def dom_def sizes_def)
    then show "\<exists>turn. hm_get (dv_in_flight driver) u = Some turn \<and>
        f (rq_size rq) \<le> f (turn_size (plan driver ! if_session_index turn ! if_turn_index turn))"
      by (auto simp: flying_def)
  qed
  also have "\<dots> \<le> sum_list (map (h \<circ> map turn_size) (plan driver))"
    by (rule flight_sum [OF inv(1)]) (simp add: f)
  finally show ?thesis by simp
qed

lemma pass_bounds:
  assumes inv: "driver_inv driver" "worker_ok E R d core" and aboard: "sizes core \<subseteq>\<^sub>m flying driver"
    and plan: "map (map turn_size) (plan driver) = Z" and fit: "servable core Z"
  shows "demand core \<le> token_limit (vc_args core)" "pass_draws core \<le> pass_cost (length Z)"
proof -
  have wf: "hm_wf (requests (vc_state core))" using inv(2) queue_invD(1) [OF core_invD(1)] by (auto simp: worker_ok_def)
  note sum = aboard_sum [OF inv(1) wf aboard, unfolded plan]
  have "demand core = hm_sum (\<lambda>rq. (\<lambda>(i, k). i + k) (rq_size rq)) (requests (vc_state core))" by (simp add: demand_def rq_size_def)
  also have "\<dots> \<le> sum_list (map peak Z)" by (rule sum) (auto dest: peak_ge)
  finally show "demand core \<le> token_limit (vc_args core)" using fit by (simp add: servable_def)
  have "hm_len (requests (vc_state core)) = hm_sum (\<lambda>rq. (\<lambda>_. 1) (rq_size rq)) (requests (vc_state core))"
    by (simp add: hm_len_def hm_sum_def case_prod_unfold sum_list_triv)
  also have "\<dots> \<le> sum_list (map (\<lambda>_. 1) Z)" by (rule sum) simp
  finally have "hm_len (requests (vc_state core)) \<le> length Z" by (simp add: sum_list_triv)
  then show "pass_draws core \<le> pass_cost (length Z)" unfolding pass_draws_def pass_cost_def by (intro mult_le_mono) simp_all
qed

lemma owed_pos:
  assumes "worker_ok E R d core" "requests (vc_state core) \<noteq> []"
  shows "0 < owed core"
proof -
  obtain u rq where u: "hm_get (requests (vc_state core)) u = Some rq" by (rule hm_nonempty [OF assms(2)])
  have "0 < max_output_tokens (rq_sequence rq) - generated_tokens (rq_sequence rq)" using assms(1) u by (simp add: worker_ok_def drainable_def)
  also have "\<dots> \<le> owed core" unfolding owed_def by (rule hm_sum_ge [OF u])
  finally show ?thesis .
qed

lemma drive_ok:
  assumes inv: "workload_inv E R N P Z driver rt d" and busy: "num_requests rt \<noteq> 0"
  shows "\<exists>driver' rt' d'. drive_worker E R T admit rt d = Some (rt', d') \<and> workload_inv E R N P Z driver' rt' d' \<and>
    potential driver' rt' < potential driver rt \<and> replay_mode rt' = replay_mode rt"
proof -
  note I = workload_invD [OF inv]
  have "sizes (worker rt) \<subseteq>\<^sub>m flying driver" using I(6) by simp
  note budget = pass_bounds(1) [OF I(2,7) this I(5,8)] and draws = pass_bounds(2) [OF I(2,7) this I(5,8)]
  have req: "requests (vc_state (worker rt)) \<noteq> []" using busy by (simp add: num_requests_def)
  note pos = owed_pos [OF I(7) req]
  have "d + pass_draws (worker rt) \<le> N" using I(10) draws pos by (cases "owed (worker rt)") auto
  then have ids: "ids_ok R N (d + pass_draws (worker rt))" using I(9) by (simp add: ids_ok_def)
  obtain pass acc core d1 where p: "execute_pass E R (worker rt) d = Some ((pass, acc), core, d1)" "d \<le> d1" "d1 \<le> d + pass_draws (worker rt)"
    "worker_ok E R d1 core" "same_engine (worker rt) core" "owed core < owed (worker rt)" "distinct (completed_ids (output_signals pass))"
    "\<forall>u \<in> set (completed_ids (output_signals pass)). sizes (worker rt) u \<noteq> None"
    "\<forall>u. sizes core u = (if u \<in> set (completed_ids (output_signals pass)) then None else sizes (worker rt) u)"
    "hm_len (requests (vc_state core)) + length (completed_ids (output_signals pass)) = hm_len (requests (vc_state (worker rt)))"
    using pass_live [OF I(7) ids req budget] by blast
  let ?done = "completed_ids (output_signals pass)" and ?now = "T pass (current_time_ms rt)"
  obtain driver1 where c: "complete_all ?now ?done driver = Some driver1" "driver_inv driver1" "pending driver1 = pending driver"
    "max_in_flight driver1 = max_in_flight driver" "plan driver1 = plan driver" "\<forall>u. flying driver1 u = (if u \<in> set ?done then None else flying driver u)"
    "hm_keys (dv_in_flight driver1) \<subseteq> hm_keys (dv_in_flight driver)" "\<forall>P H. log_ok P driver H {} \<longrightarrow> log_ok P driver1 H {}"
    using complete_all_ok [OF I(2) p(7), of ?now] p(8) I(6) by auto
  define rt1 where "rt1 = rt\<lparr>worker := core, current_time_ms := ?now, admission := WorkloadSource driver1,
    progress_completed := progress_completed rt + length ?done\<rparr>"
  have "owed core * pass_cost (length Z) + pass_cost (length Z) \<le> owed (worker rt) * pass_cost (length Z)"
    using mult_le_mono1 [of "Suc (owed core)" "owed (worker rt)" "pass_cost (length Z)"] p(6) by simp
  then have room: "d1 + to_come (turn_cost (length Z)) driver1 + owed core * pass_cost (length Z) \<le> N"
    using p(3) draws I(10) c(3) by (simp add: to_come_def)
  have "sizes core = flying driver1" using p(9) c(6) I(6) by auto
  moreover have "arrived R P driver1 (collector rt) d1" using arrived_keep [OF I(14) _ p(2)] c(8) by blast
  ultimately have inv1: "workload_inv E R N P Z driver1 rt1 d1"
    using I c p(4,10) room known_ids_sub [OF known_ids_mono [OF I(3) p(2)] c(7)] servable_same [OF p(5), of Z]
    by (simp add: workload_inv_def rt1_def num_requests_def)
  have pot: "potential driver1 rt1 < potential driver rt" using p(6) c(3) by (simp add: potential_def rt1_def to_come_def)
  have run: "drive_worker E R T admit rt d = (if admit then enqueue_trace_arrivals E R rt1 d1 else Some (rt1, d1))"
    using p(1) c(1) I(1) by (simp add: drive_worker_def rt1_def Let_def)
  show ?thesis
  proof (cases admit)
    case True
    obtain n driver2 rt2 d2 where "enqueue_trace_arrivals E R rt1 d1 = Some (rt2, d2)" "workload_inv E R N P Z driver2 rt2 d2"
      "potential driver2 rt2 + n = potential driver1 rt1" "replay_mode rt2 = replay_mode rt1"
      using trace_arrivals_ok [OF inv1] by blast
    then show ?thesis using run True pot by (intro exI [of _ driver2] exI [of _ rt2] exI [of _ d2]) (simp add: rt1_def)
  next
    case False
    then show ?thesis using run inv1 pot by (intro exI [of _ driver1] exI [of _ rt1] exI [of _ d1]) (simp add: rt1_def)
  qed
qed

text \<open>
  Every round comes closer to the end: it lets turns in, or generates tokens, or in concurrency mode moves an idle clock
  to a time at which a turn is ready.
\<close>

definition rounds_left :: "('t::linorder) WorkloadDriver \<Rightarrow> ('t, 'f) SingleRuntime \<Rightarrow> nat" where
  "rounds_left driver rt = 2 * potential driver rt +
     (if replay_mode rt \<noteq> ReplayTrace \<and> num_requests rt = 0 \<and> nothing_ready (current_time_ms rt) driver then 1 else 0)"

lemma empty_num: "worker_is_empty rt \<longleftrightarrow> num_requests rt = 0"
  by (simp add: worker_is_empty_def num_requests_def sched_is_empty_def)

lemma rounds_left_less:
  assumes "potential driver' rt' < potential driver rt"
  shows "rounds_left driver' rt' < rounds_left driver rt"
  using assms by (auto simp: rounds_left_def)

lemma done_iff: "workload_inv E R N P Z driver rt d \<Longrightarrow> is_done rt \<longleftrightarrow> num_requests rt = 0 \<and> is_drained driver"
  by (simp add: is_done_def empty_num workload_invD(1))

lemma drained_same:
  assumes "workload_inv E R N P Z driver rt d" "workload_inv E R N P Z driver' rt' d'" "num_requests rt = 0" "num_requests rt' = 0"
    and "dv_sessions driver' = dv_sessions driver"
  shows "is_drained driver' = is_drained driver"
  using assms(5) idle_flight(1) [OF assms(1,3)] idle_flight(1) [OF assms(2,4)] by (simp add: is_drained_def)

lemma round_ok:
  assumes inv: "workload_inv E R N P Z driver rt d" and mode: "replay_mode rt \<noteq> ReplayConcurrency 0" and more: "\<not> is_done rt"
  shows "\<exists>driver' rt' d'. replay_round E R T rt d = Some (Inr (False, rt'), d') \<and> workload_inv E R N P Z driver' rt' d' \<and>
    replay_mode rt' = replay_mode rt \<and> rounds_left driver' rt' < rounds_left driver rt"
proof (cases "replay_mode rt")
  case ReplayTrace
  obtain n driver1 rt1 d1 where a: "enqueue_trace_arrivals E R rt d = Some (rt1, d1)" "workload_inv E R N P Z driver1 rt1 d1"
    "potential driver1 rt1 + n = potential driver rt" "replay_mode rt1 = replay_mode rt" "num_requests rt1 = num_requests rt + n"
    "n = 0 \<longrightarrow> dv_sessions driver1 = dv_sessions driver"
    using trace_arrivals_ok [OF inv] by blast
  show ?thesis
  proof (cases "num_requests rt1 = 0")
    case True
    then have n: "n = 0" "num_requests rt = 0" using a(5) by simp_all
    then have "\<not> is_drained driver1" using drained_same [OF inv a(2) _ True] a(6) more done_iff [OF inv] by simp
    then obtain driver2 t rt2 where b: "advance_to_next_trace_arrival rt1 = Some (Inr rt2)" "workload_inv E R N P Z driver2 rt2 d1"
      "potential driver2 rt2 = potential driver1 rt1" "current_time_ms rt2 = t" "replay_mode rt2 = replay_mode rt1" "\<not> nothing_ready t driver2"
      using advance_ok [OF a(2) True] by blast
    obtain k driver3 rt3 d3 where c: "enqueue_trace_arrivals E R rt2 d1 = Some (rt3, d3)" "workload_inv E R N P Z driver3 rt3 d3"
      "potential driver3 rt3 + k = potential driver2 rt2" "replay_mode rt3 = replay_mode rt2"
      "k = 0 \<longrightarrow> nothing_ready (current_time_ms rt2) driver3 \<and> dv_sessions driver3 = dv_sessions driver2"
      using trace_arrivals_ok [OF b(2)] by blast
    have "k \<noteq> 0" using b(4,6) c(5) by (auto simp: nothing_ready_def)
    then have "rounds_left driver3 rt3 < rounds_left driver rt" using a(3) b(3) c(3) n(1) by (intro rounds_left_less) simp
    then show ?thesis using ReplayTrace a(1,4) b(1,5) c(1,2,4) True by (intro exI [of _ driver3] exI [of _ rt3] exI [of _ d3]) (simp add: replay_round_def empty_num)
  next
    case False
    obtain driver2 rt2 d2 where b: "drive_worker E R T True rt1 d1 = Some (rt2, d2)" "workload_inv E R N P Z driver2 rt2 d2"
      "potential driver2 rt2 < potential driver1 rt1" "replay_mode rt2 = replay_mode rt1"
      using drive_ok [OF a(2) False] by blast
    then have "rounds_left driver2 rt2 < rounds_left driver rt" using a(3) by (intro rounds_left_less) simp
    then show ?thesis using ReplayTrace a(1,4) b(1,2,4) False by (intro exI [of _ driver2] exI [of _ rt2] exI [of _ d2]) (simp add: replay_round_def empty_num)
  qed
next
  case (ReplayConcurrency cap)
  have cap: "0 < cap" using mode ReplayConcurrency by (cases cap) auto
  obtain n driver1 rt1 d1 where a: "enqueue_concurrency_arrivals E R cap rt d = Some (rt1, d1)" "workload_inv E R N P Z driver1 rt1 d1"
    "potential driver1 rt1 + n = potential driver rt" "current_time_ms rt1 = current_time_ms rt" "replay_mode rt1 = replay_mode rt"
    "num_requests rt1 = num_requests rt + n"
    "num_requests rt1 = 0 \<longrightarrow> nothing_ready (current_time_ms rt) driver1 \<and> dv_sessions driver1 = dv_sessions driver"
    using concurrency_arrivals_ok [OF inv cap] by (elim exE conjE) (rule that)
  show ?thesis
  proof (cases "num_requests rt1 = 0")
    case True
    then have n: "n = 0" "num_requests rt = 0" using a(6) by simp_all
    then have nd: "\<not> is_drained driver1" using drained_same [OF inv a(2) _ True] a(7) True more done_iff [OF inv] by simp
    then obtain driver2 t rt2 where b: "advance_to_next_trace_arrival rt1 = Some (Inr rt2)" "workload_inv E R N P Z driver2 rt2 d1"
      "potential driver2 rt2 = potential driver1 rt1" "current_time_ms rt2 = t" "replay_mode rt2 = replay_mode rt1" "\<not> nothing_ready t driver2"
      using advance_ok [OF a(2) True] by blast
    have "nothing_ready (current_time_ms rt) driver" using a(7) True by (simp add: nothing_ready_def)
    then have "rounds_left driver2 rt2 < rounds_left driver rt"
      using n a(3) b(3-6) ReplayConcurrency by (simp add: rounds_left_def)
    moreover have "\<not> is_done rt1" using done_iff [OF a(2)] nd by simp
    ultimately show ?thesis using ReplayConcurrency a(1,5) b(1,2,5) True by (intro exI [of _ driver2] exI [of _ rt2] exI [of _ d1]) (simp add: replay_round_def empty_num)
  next
    case False
    obtain driver2 rt2 d2 where b: "drive_worker E R T False rt1 d1 = Some (rt2, d2)" "workload_inv E R N P Z driver2 rt2 d2"
      "potential driver2 rt2 < potential driver1 rt1" "replay_mode rt2 = replay_mode rt1"
      using drive_ok [OF a(2) False] by blast
    then have "rounds_left driver2 rt2 < rounds_left driver rt" using a(3) by (intro rounds_left_less) simp
    then show ?thesis using ReplayConcurrency a(1,5) b(1,2,4) False by (intro exI [of _ driver2] exI [of _ rt2] exI [of _ d2]) (simp add: replay_round_def empty_num)
  qed
qed

lemma replay_run_ends:
  assumes "workload_inv E R N P Z driver rt d" "replay_mode rt \<noteq> ReplayConcurrency 0"
  shows "\<exists>n driver' rt' d'. n \<le> rounds_left driver rt + 1 \<and> replay_run E R T n rt d = Some (Some (Inr rt'), d') \<and> is_done rt' \<and> workload_inv E R N P Z driver' rt' d'"
  using assms
proof (induction "rounds_left driver rt" arbitrary: driver rt d rule: less_induct)
  case less
  show ?case
  proof (cases "is_done rt")
    case True
    then show ?thesis using less.prems(1) by (intro exI [of _ 1] exI [of _ driver] exI [of _ rt] exI [of _ d]) simp
  next
    case False
    obtain driver1 rt1 d1 where r: "replay_round E R T rt d = Some (Inr (False, rt1), d1)" "workload_inv E R N P Z driver1 rt1 d1"
      "replay_mode rt1 = replay_mode rt" "rounds_left driver1 rt1 < rounds_left driver rt"
      using round_ok [OF less.prems False] by blast
    obtain n driver' rt' d' where "n \<le> rounds_left driver1 rt1 + 1" "replay_run E R T n rt1 d1 = Some (Some (Inr rt'), d')" "is_done rt'"
      "workload_inv E R N P Z driver' rt' d'"
      using less.hyps [OF r(4,2)] less.prems(2) r(3) by auto
    then show ?thesis using r(1,4) False by (intro exI [of _ "Suc n"] exI [of _ driver'] exI [of _ rt'] exI [of _ d']) simp
  qed
qed

text \<open>A driver that is drained has handed out all.\<close>

lemma drained_log:
  assumes "log_ok P driver log {}" "is_drained driver" "i < length P"
  shows "session_log i log = enumerate 0 (P ! i)"
proof -
  note L = log_okD [OF assms(1)]
  have i: "i < length (dv_sessions driver)" using L(1) assms(3) by simp
  have "length (P ! i) \<le> issued (dv_sessions driver ! i)" using assms(2) i L(2) [OF i] by (auto simp: is_drained_def list_all_length issued_def)
  then show ?thesis using L(3) [OF i] by (simp add: session_log_ok_def)
qed

section \<open>The start of a replay\<close>

definition trace_sizes :: "'t Trace \<Rightarrow> (nat \<times> nat) list list" where
  "trace_sizes trace = map (\<lambda>s. map (\<lambda>turn. (input_length turn, turn_max_output_tokens turn)) (turns s)) (sessions trace)"

lemma turn_runtime_size:
  assumes "turn_runtime E H bs ebs turn = Some (Inr rt)"
  shows "turn_size rt = (input_length turn, turn_max_output_tokens turn)"
proof -
  have "tr_tokens rt = turn_tokens bs turn" "input_length turn \<le> length (hash_ids turn) * bs" "tr_max_output_tokens rt = turn_max_output_tokens turn"
    using assms by (auto simp: turn_runtime_def run_simps dest: synthesize_tokens_sound)
  then show ?thesis by (simp add: turn_size_def turn_tokens_def length_concat comp_def sum_list_triv)
qed

lemma driver_new_sizes:
  assumes run: "driver_new E H trace ebs mode = Some (Inr driver)"
  shows "map (map turn_size) (plan driver) = trace_sizes trace" "pending driver = concat (plan driver)"
proof -
  have l: "list_all2 (\<lambda>s sr. session_runtime E H (trace_block_size trace) ebs mode s = Some (Inr sr)) (sessions trace) (dv_sessions driver)"
    using run by (auto simp: driver_new_def run_simps each_then_ok)
  have size: "map turn_size (sr_turns sr) = map (\<lambda>turn. (input_length turn, turn_max_output_tokens turn)) (turns s)"
    if "session_runtime E H bs ebs mode s = Some (Inr sr)" for bs s sr
  proof -
    have "list_all2 (\<lambda>turn rt. turn_runtime E H bs ebs turn = Some (Inr rt)) (turns s) (sr_turns sr)"
      using that by (auto simp: session_runtime_def run_simps each_then_ok)
    then show ?thesis by (induction rule: list_all2_induct) (simp_all add: turn_runtime_size)
  qed
  have "map (map turn_size) (map sr_turns ys) = map (\<lambda>s. map (\<lambda>turn. (input_length turn, turn_max_output_tokens turn)) (turns s)) xs"
    if "list_all2 (\<lambda>s sr. session_runtime E H bs ebs mode s = Some (Inr sr)) xs ys" for bs xs ys
    using that by (induction rule: list_all2_induct) (simp_all add: size)
  then show "map (map turn_size) (plan driver) = trace_sizes trace" unfolding plan_def trace_sizes_def using l .
  have start: "issued sr = 0" if "session_runtime E H bs ebs mode s = Some (Inr sr)" for bs s sr
    using session_runtime_ok(2,3) [OF that] by (simp add: issued_def)
  have "concat (map (\<lambda>s. drop (issued s) (sr_turns s)) ys) = concat (map sr_turns ys)"
    if "list_all2 (\<lambda>s sr. session_runtime E H bs ebs mode s = Some (Inr sr)) xs ys" for bs xs ys
    using that by (induction rule: list_all2_induct) (simp_all add: start)
  then show "pending driver = concat (plan driver)" unfolding plan_def pending_def using l .
qed

lemma replay_start:
  assumes driver: "into_driver E H fin ebs mode trace = Some (Inr driver)" and rt: "new_with_source E args heap (WorkloadSource driver) rmode = Some rt"
    and bs: "2 \<le> arg_block_size args" "arg_block_size args < 4294967296" and lifo: "preemption_mode args = Lifo"
    and fit: "servable (worker rt) (trace_sizes trace)" and ids: "inj_on (draw_uuid R) {..<N}" "(\<Sum>z \<leftarrow> concat (trace_sizes trace). turn_cost (length (sessions trace)) z) \<le> N"
  shows "workload_inv E R N (map (session_requests E trace) [0..<length (sessions trace)]) (trace_sizes trace) driver rt 0" "replay_mode rt = rmode"
    "rounds_left driver rt \<le> 2 * (\<Sum>z \<leftarrow> concat (trace_sizes trace). rounds_for z) + 1"
proof -
  note new = into_driver_new [OF driver]
  note n = driver_new_ok [OF new]
  note z = driver_new_sizes [OF new(1)]
  have core: "core_new E args 0 default_publishers heap = Some (worker rt)"
    and f: "admission rt = WorkloadSource driver" "collector rt = []" "progress_completed rt = 0" "progress_total rt = total_turns driver" "replay_mode rt = rmode"
    using rt by (auto simp: new_with_source_def run_simps Let_def)
  note c = core_new_fields [OF core]
  have args: "vc_args (worker rt) = args" using c(3) bs(1) by (auto simp: normalized_def Let_def split: if_splits)
  have empty: "requests (vc_state (worker rt)) = []" using c(1) by (simp add: sched_default_def)
  have w: "worker_ok E R 0 (worker rt)"
    using core_new_inv [OF core, of R] empty bs lifo args normalized_seqs [OF c(3)] by (simp add: worker_ok_def drainable_def idle_but_def)
  have sz: "sizes (worker rt) = flying driver" using empty n(3) by (simp add: sizes_def flying_def fun_eq_iff)
  have conc: "map turn_size (pending driver) = concat (trace_sizes trace)" using z by (simp add: map_concat)
  have come: "to_come g driver = (\<Sum>z \<leftarrow> concat (trace_sizes trace). g z)" for g unfolding to_come_def conc [symmetric] by (simp add: comp_def)
  have owed: "owed (worker rt) = 0" using empty by (simp add: owed_def)
  have arr: "arrived R (map (session_requests E trace) [0..<length (sessions trace)]) driver [] 0" using driver_new_log [OF new(1)] by (simp add: arrived_def)
  have "total_turns driver = length (concat (trace_sizes trace))"
    unfolding conc [symmetric] using z(2) by (simp add: total_turns_def plan_def length_concat comp_def)
  then show "workload_inv E R N (map (session_requests E trace) [0..<length (sessions trace)]) (trace_sizes trace) driver rt 0"
    using f n(1-4) z(1) sz w fit ids owed come conc empty arr by (simp add: workload_inv_def num_requests_def trace_sizes_def hm_len_def)
  show "replay_mode rt = rmode" by (rule f(5))
  show "rounds_left driver rt \<le> 2 * (\<Sum>z \<leftarrow> concat (trace_sizes trace). rounds_for z) + 1"
    using owed come by (simp add: rounds_left_def potential_def)
qed

section \<open>Properties\<close>

text \<open>
  C4 (replay_serves_workload). With preemption of the newest request first, blocks of at least two tokens and a concurrency that is not zero,
  and provided that every turn gets an output token, fits into the cache and the budget of a pass covers the largest turn of all the sessions
  together: a replay of a workload on one worker ends, in both modes, without error after at most two rounds for every token and turn,
  with the driver drained and the worker empty. All turns have been completed. The arrivals are the turns of the trace: the driver handed out
  every turn of every session once and in the order of the session, and each arrived with its size under an id of its own.
\<close>

theorem replay_serves_workload:
  assumes "into_driver E H fin ebs mode trace = Some (Inr driver)" and "new_with_source E args heap (WorkloadSource driver) rmode = Some rt"
    and "rmode \<noteq> ReplayConcurrency 0" and "2 \<le> arg_block_size args" and "arg_block_size args < 4294967296" and "preemption_mode args = Lifo"
    and "servable (worker rt) (trace_sizes trace)" and "inj_on (draw_uuid R) {..<N}"
    and "(\<Sum>z \<leftarrow> concat (trace_sizes trace). turn_cost (length (sessions trace)) z) \<le> N"
  shows "\<exists>n rt' d' log. n \<le> 2 * (\<Sum>z \<leftarrow> concat (trace_sizes trace). rounds_for z) + 2 \<and>
    replay_run E R T n rt 0 = Some (Some (Inr rt'), d') \<and> is_done rt' \<and> progress_completed rt' = progress_total rt' \<and>
    mset (map arrival_size (collector rt')) = mset (concat (trace_sizes trace)) \<and>
    distinct (map fst (collector rt')) \<and> map arrival_size (collector rt') = map (\<lambda>(i, k, request). size_of request) log \<and>
    (\<forall>e \<in> set log. fst e < length (sessions trace)) \<and> (\<forall>i < length (sessions trace). session_log i log = enumerate 0 (session_requests E trace i))"
proof -
  let ?P = "map (session_requests E trace) [0..<length (sessions trace)]"
  note s = replay_start [OF assms(1,2,4-9)]
  obtain n driver' rt' d' where r: "n \<le> rounds_left driver rt + 1" "replay_run E R T n rt 0 = Some (Some (Inr rt'), d')" "is_done rt'"
    "workload_inv E R N ?P (trace_sizes trace) driver' rt' d'"
    using replay_run_ends [OF s(1)] s(2) assms(3) by blast
  note I = workload_invD [OF r(4)]
  have d: "num_requests rt' = 0" "pending driver' = []" "is_drained driver'" using r(3) done_iff [OF r(4)] drained_pending by auto
  then have m: "mset (map arrival_size (collector rt')) = mset (concat (trace_sizes trace))" using I(11) by simp
  then have "length (map arrival_size (collector rt')) = length (concat (trace_sizes trace))" by (metis size_mset)
  then have p: "progress_completed rt' = progress_total rt'" using I(12,13) d(1) by simp
  obtain log where log: "log_ok ?P driver' log {}" "map arrival_size (collector rt') = map (\<lambda>(i, k, request). size_of request) log"
    "distinct (map fst (collector rt'))" using I(14) by (auto simp: arrived_def)
  have all: "session_log i log = enumerate 0 (session_requests E trace i)" if "i < length (sessions trace)" for i
    using drained_log [OF log(1) d(3), of i] that by simp
  have "\<forall>e \<in> set log. fst e < length (sessions trace)" using log_okD(4) [OF log(1)] by simp
  moreover have "n \<le> 2 * (\<Sum>z \<leftarrow> concat (trace_sizes trace). rounds_for z) + 2" using r(1) s(3) by linarith
  ultimately show ?thesis using r(2,3) m p log(2,3) all by blast
qed

section \<open>Witnesses\<close>

theorem replay_serves_workload_witness:
  "\<exists>driver rt n rt' d'. into_driver demo_env demo_hash (\<lambda>_. True) 2 TraceMode (demo_trace 3) = Some (Inr driver) \<and>
     new_with_source demo_env demo_args demo_heap (WorkloadSource driver) ReplayTrace = Some rt \<and>
     replay_run demo_env demo_random (\<lambda>_ t. t + 1) n rt 0 = Some (Some (Inr rt'), d') \<and> is_done rt' \<and> progress_completed rt' = progress_total rt' \<and>
     mset (map arrival_size (collector rt')) = {#(1, 1)#}"
proof (rule demo_into)
  fix driver
  assume driver: "into_driver demo_env demo_hash (\<lambda>_. True) 2 TraceMode (demo_trace 3) = Some (Inr driver)"
  obtain rt where rt: "new_with_source demo_env demo_args demo_heap (WorkloadSource driver) ReplayTrace = Some rt"
    by (simp add: new_with_source_def core_new_def normalized_def demo_args_def kc_new_def Let_def)
  then have core: "core_new demo_env demo_args 0 default_publishers demo_heap = Some (worker rt)"
    by (auto simp: new_with_source_def run_simps Let_def)
  have w: "vc_args (worker rt) = demo_args" "max_capacity (vc_kv (worker rt)) = 2"
    using core by (auto simp: core_new_def normalized_def demo_args_def kc_new_def run_simps Let_def dest!: sym [of _ "worker rt"])
  have z: "trace_sizes (demo_trace 3) = [[(1, 1)]]" "length (sessions (demo_trace 3)) = 1" by (simp_all add: trace_sizes_def demo_trace_def demo_turn_def)
  have fit: "servable (worker rt) (trace_sizes (demo_trace 3))"
    using w by (simp add: z servable_def fits_def div_ceil_def token_limit_def demo_args_def)
  have "(\<Sum>z \<leftarrow> concat (trace_sizes (demo_trace 3)). turn_cost (length (sessions (demo_trace 3))) z) \<le> 100" by (simp add: z turn_cost_def pass_cost_def)
  from replay_serves_workload [OF driver rt _ _ _ _ fit demo_ids this, where T = "\<lambda>_ t. t + 1"]
  obtain n rt' d' where "replay_run demo_env demo_random (\<lambda>_ t. t + 1) n rt 0 = Some (Some (Inr rt'), d')" "is_done rt'" "progress_completed rt' = progress_total rt'"
    "mset (map arrival_size (collector rt')) = {#(1, 1)#}" by (auto simp: demo_args_def z)
  then show ?thesis using driver rt by (intro exI conjI)
qed

end
