(* ===== verification/TwoPart.thy ===== *)
theory TwoPart
  imports RustStd
begin

text \<open>
  The two-part codec of the response plane, \<open>lib/runtime/src/pipeline/network/codec/two_part.rs\<close>: a
  frame is the length of the header, the length of the body and a checksum, each eight bytes in
  big-endian order, followed by header and body. The hash of the checksum (crate \<open>xxhash_rust\<close>) and
  the \<open>debug_assertions\<close> flag of each build are parameters. The lemmas show the round trip, also
  between debug and release builds, that every stream of frames is received as sent, and that an
  oversized or corrupted frame is refused.
\<close>

section \<open>Messages, errors and builds\<close>

record tp_build =
  xxh3_64 :: "u8 list \<Rightarrow> u64"
  tp_debug :: bool

datatype TwoPartCodecError = Io io_error | MessageTooLarge nat nat | InvalidMessage string | ChecksumMismatch

record TwoPartMessage =
  tp_header :: "u8 list"
  tp_data :: "u8 list"

datatype TwoPartMessageType =
  HeaderOnly "u8 list" | DataOnly "u8 list" | HeaderAndData "u8 list" "u8 list" | EmptyMessage

definition FRAME_PREFIX_LEN :: nat where
  "FRAME_PREFIX_LEN = 24"

definition compute_total_len :: "nat \<Rightarrow> nat \<Rightarrow> nat option \<Rightarrow> TwoPartCodecError + nat" where
  "compute_total_len header_len body_len max_message_size =
     (case Option.bind (checked_add FRAME_PREFIX_LEN header_len) (\<lambda>n. checked_add n body_len) of
        Some total_len \<Rightarrow> Inr total_len
      | None \<Rightarrow> Inl (MessageTooLarge usize_max (case max_message_size of None \<Rightarrow> usize_max | Some m \<Rightarrow> m)))"

definition enforce_max :: "nat \<Rightarrow> nat option \<Rightarrow> TwoPartCodecError + unit" where
  "enforce_max total_len max_message_size =
     (case max_message_size of
        Some m \<Rightarrow> if m < total_len then Inl (MessageTooLarge total_len m) else Inr ()
      | None \<Rightarrow> Inr ())"

definition compute_checksum :: "tp_build \<Rightarrow> u8 list \<Rightarrow> u8 list \<Rightarrow> u64" where
  "compute_checksum B header data = xxh3_64 B (header @ data)"

section \<open>The codec\<close>

record TwoPartCodec =
  tp_max_message_size :: "nat option"

definition tp_decode :: "tp_build \<Rightarrow> TwoPartCodec \<Rightarrow> u8 list \<Rightarrow>
    (TwoPartCodecError + TwoPartMessage option) \<times> u8 list" where
  "tp_decode B c src =
     (if length src < FRAME_PREFIX_LEN then (Inr None, src)
      else
        let header_len = be_value (take 8 src);
            body_len = be_value (take 8 (drop 8 src));
            checksum = (word_of_nat (be_value (take 8 (drop 16 src))) :: u64)
        in case compute_total_len header_len body_len (tp_max_message_size c) of
             Inl e \<Rightarrow> (Inl e, src)
           | Inr total_len \<Rightarrow>
               (case enforce_max total_len (tp_max_message_size c) of
                  Inl e \<Rightarrow> (Inl e, src)
                | Inr _ \<Rightarrow>
                    if length src < total_len then (Inr None, src)
                    else
                      let src1 = drop FRAME_PREFIX_LEN src;
                          verdict =
                            (if tp_debug B \<and> checksum \<noteq> 0
                             then (case checked_add header_len body_len of
                                 None \<Rightarrow> Inl (InvalidMessage ''Message exceeds max allowed length.'')
                               | Some bytes_to_hash \<Rightarrow>
                                   if checksum \<noteq> xxh3_64 B (take bytes_to_hash src1) then Inl ChecksumMismatch
                                   else Inr ())
                             else Inr ())
                      in case verdict of
                           Inl e \<Rightarrow> (Inl e, src1)
                         | Inr _ \<Rightarrow> (Inr (Some \<lparr>tp_header = take header_len src1,
                             tp_data = take body_len (drop header_len src1)\<rparr>),
                             drop body_len (drop header_len src1))))"

definition tp_encode :: "tp_build \<Rightarrow> TwoPartCodec \<Rightarrow> TwoPartMessage \<Rightarrow> u8 list \<Rightarrow>
    (TwoPartCodecError + unit) \<times> u8 list" where
  "tp_encode B c item dst =
     (let header_len = length (tp_header item); body_len = length (tp_data item) in
      case compute_total_len header_len body_len (tp_max_message_size c) of
        Inl e \<Rightarrow> (Inl e, dst)
      | Inr total_len \<Rightarrow>
          (case enforce_max total_len (tp_max_message_size c) of
             Inl e \<Rightarrow> (Inl e, dst)
           | Inr _ \<Rightarrow> (Inr (), dst @ be_bytes 8 header_len @ be_bytes 8 body_len @
               be_bytes 8 (if tp_debug B then unat (compute_checksum B (tp_header item) (tp_data item)) else 0) @
               tp_header item @ tp_data item)))"

definition encode_message :: "tp_build \<Rightarrow> TwoPartCodec \<Rightarrow> TwoPartMessage \<Rightarrow> TwoPartCodecError + u8 list" where
  "encode_message B c msg = (case tp_encode B c msg [] of (Inl e, _) \<Rightarrow> Inl e | (Inr _, buf) \<Rightarrow> Inr buf)"

definition decode_message :: "tp_build \<Rightarrow> TwoPartCodec \<Rightarrow> u8 list \<Rightarrow> TwoPartCodecError + TwoPartMessage" where
  "decode_message B c data =
     (case tp_decode B c data of
        (Inl e, _) \<Rightarrow> Inl e
      | (Inr (Some msg), _) \<Rightarrow> Inr msg
      | (Inr None, _) \<Rightarrow> Inl (InvalidMessage ''No message decoded''))"

definition message_header :: "TwoPartMessage \<Rightarrow> u8 list option" where
  "message_header m = (if tp_header m = [] then None else Some (tp_header m))"

definition message_data :: "TwoPartMessage \<Rightarrow> u8 list option" where
  "message_data m = (if tp_data m = [] then None else Some (tp_data m))"

definition optional_parts :: "TwoPartMessage \<Rightarrow> u8 list option \<times> u8 list option" where
  "optional_parts m = (message_header m, message_data m)"

definition into_message_type :: "TwoPartMessage \<Rightarrow> TwoPartMessageType" where
  "into_message_type m =
     (if tp_header m = [] \<and> tp_data m = [] then EmptyMessage
      else if tp_header m = [] then DataOnly (tp_data m)
      else if tp_data m = [] then HeaderOnly (tp_header m)
      else HeaderAndData (tp_header m) (tp_data m))"

section \<open>Frames\<close>

text \<open>The bytes \<open>encode\<close> appends for a message of admissible size.\<close>

definition tp_fits :: "TwoPartCodec \<Rightarrow> TwoPartMessage \<Rightarrow> bool" where
  "tp_fits c m = (24 + length (tp_header m) + length (tp_data m) \<le> usize_max \<and>
     (case tp_max_message_size c of None \<Rightarrow> True
      | Some n \<Rightarrow> 24 + length (tp_header m) + length (tp_data m) \<le> n))"

definition tp_frame :: "tp_build \<Rightarrow> TwoPartMessage \<Rightarrow> u8 list" where
  "tp_frame B m = be_bytes 8 (length (tp_header m)) @ be_bytes 8 (length (tp_data m)) @
     be_bytes 8 (if tp_debug B then unat (compute_checksum B (tp_header m) (tp_data m)) else 0) @
     tp_header m @ tp_data m"

lemma usize_max_256: "n \<le> usize_max \<Longrightarrow> n < 256 ^ 8"
  by (simp add: usize_max_def)

lemma compute_total_len_eq:
  "compute_total_len h b mx = (if 24 + h + b \<le> usize_max then Inr (24 + h + b)
     else Inl (MessageTooLarge usize_max (case mx of None \<Rightarrow> usize_max | Some m \<Rightarrow> m)))"
  by (auto simp: compute_total_len_def checked_add_def FRAME_PREFIX_LEN_def)

lemma tp_encode_eq:
  "tp_encode B c m dst = (if tp_fits c m then (Inr (), dst @ tp_frame B m)
     else (Inl (if 24 + length (tp_header m) + length (tp_data m) \<le> usize_max
        then MessageTooLarge (24 + length (tp_header m) + length (tp_data m)) (the (tp_max_message_size c))
        else MessageTooLarge usize_max (case tp_max_message_size c of None \<Rightarrow> usize_max | Some n \<Rightarrow> n)), dst))"
  by (auto simp: tp_encode_def compute_total_len_eq enforce_max_def tp_fits_def tp_frame_def Let_def
      split: option.splits)

lemma encode_message_eq: "(encode_message B c m = Inr bs) = (tp_fits c m \<and> bs = tp_frame B m)"
  by (auto simp: encode_message_def tp_encode_eq)

lemma tp_frame_length: "length (tp_frame B m) = 24 + length (tp_header m) + length (tp_data m)"
  by (simp add: tp_frame_def)

lemma tp_frame_fields:
  assumes "24 + length (tp_header m) + length (tp_data m) \<le> usize_max" and "prefix buf (tp_frame B m @ rest)" and "24 \<le> length buf"
  shows "be_value (take 8 buf) = length (tp_header m)" and "be_value (take 8 (drop 8 buf)) = length (tp_data m)"
    and "be_value (take 8 (drop 16 buf)) = (if tp_debug B then unat (compute_checksum B (tp_header m) (tp_data m)) else 0)"
proof -
  obtain r where r: "tp_frame B m @ rest = buf @ r" using assms(2) by (auto elim: prefixE)
  have cut: "take 8 (drop n buf) = take 8 (drop n (tp_frame B m @ rest))" if "n \<le> 16" for n
    using assms(3) that unfolding r by simp
  have len: "length (tp_header m) < 256 ^ 8" "length (tp_data m) < 256 ^ 8"
    using assms(1) by (simp_all add: usize_max_def)
  have sum: "(if tp_debug B then unat (compute_checksum B (tp_header m) (tp_data m)) else 0) < 256 ^ 8"
    using unsigned_less [of "compute_checksum B (tp_header m) (tp_data m)", where ?'a = nat] by simp
  show "be_value (take 8 buf) = length (tp_header m)"
    using cut [of 0] be_value_be_bytes [OF len(1)] by (simp add: tp_frame_def)
  show "be_value (take 8 (drop 8 buf)) = length (tp_data m)"
    using cut [of 8] be_value_be_bytes [OF len(2)] by (simp add: tp_frame_def)
  show "be_value (take 8 (drop 16 buf)) = (if tp_debug B then unat (compute_checksum B (tp_header m) (tp_data m)) else 0)"
    using cut [of 16] be_value_be_bytes [OF sum] by (simp add: tp_frame_def)
qed

lemma tp_decode_prefix:
  assumes "tp_fits c m" and "prefix buf (tp_frame B m @ rest)" and "length buf < length (tp_frame B m)"
  shows "tp_decode B' c buf = (Inr None, buf)"
proof (cases "length buf < 24")
  case False
  then show ?thesis
    using assms tp_frame_fields [of m buf B rest]
    by (auto simp: tp_decode_def FRAME_PREFIX_LEN_def compute_total_len_eq enforce_max_def tp_fits_def
        tp_frame_length Let_def split: option.splits)
qed (simp add: tp_decode_def FRAME_PREFIX_LEN_def)

lemma tp_decode_frame:
  assumes "tp_fits c m" and "xxh3_64 B' = xxh3_64 B"
  shows "tp_decode B' c (tp_frame B m @ rest) = (Inr (Some m), rest)"
proof -
  let ?buf = "tp_frame B m @ rest" and ?h = "length (tp_header m)" and ?b = "length (tp_data m)"
  have "24 + ?h + ?b \<le> usize_max" using assms(1) by (simp add: tp_fits_def)
  note fields = tp_frame_fields [OF this, of ?buf B rest]
  have body: "drop 24 ?buf = tp_header m @ tp_data m @ rest" by (simp add: tp_frame_def)
  show ?thesis
    using fields assms unfolding tp_decode_def FRAME_PREFIX_LEN_def body Let_def
    by (auto simp: compute_total_len_eq enforce_max_def tp_fits_def tp_frame_length compute_checksum_def
        checked_add_def split: option.splits)
qed

text \<open>
  Sender and receiver may be built with or without debug assertions, as long as both link the same
  hash: the pair satisfies the contract of a frame codec.
\<close>

interpretation tp: frame_codec "encode_message \<lparr>xxh3_64 = h, tp_debug = d\<rparr> c"
  "tp_decode \<lparr>xxh3_64 = h, tp_debug = d'\<rparr> c" for h d d' c
proof
  show "tp_decode \<lparr>xxh3_64 = h, tp_debug = d'\<rparr> c (bs @ rest) = (Inr (Some m), rest)"
    if "encode_message \<lparr>xxh3_64 = h, tp_debug = d\<rparr> c m = Inr bs" for m bs rest
    using that tp_decode_frame by (auto simp: encode_message_eq)
  show "tp_decode \<lparr>xxh3_64 = h, tp_debug = d'\<rparr> c buf = (Inr None, buf)"
    if "encode_message \<lparr>xxh3_64 = h, tp_debug = d\<rparr> c m = Inr bs" and "strict_prefix buf bs" for m bs buf
    using that tp_decode_prefix [of c m buf _ "[]"] prefix_length_less
    by (auto simp: encode_message_eq strict_prefix_def)
  show "tp_decode \<lparr>xxh3_64 = h, tp_debug = d'\<rparr> c [] = (Inr None, [])"
    by (simp add: tp_decode_def FRAME_PREFIX_LEN_def)
qed

section \<open>Properties\<close>

text \<open>
  C24 (two_part_stream): whatever messages one side encodes, the other side decodes from the
  concatenated frames exactly these messages, in order, however the network cuts the stream into
  chunks, and nothing is left in its buffer; this also holds when one side is a debug build, which
  fills in and checks the checksum, and the other a release build.
\<close>

theorem two_part_stream:
  assumes "sent (encode_message \<lparr>xxh3_64 = h, tp_debug = d\<rparr> c) ms frames"
    and "concat chunks = concat frames"
  shows "feed (tp_decode \<lparr>xxh3_64 = h, tp_debug = d'\<rparr> c) [] chunks = (ms, None, [])"
  by (rule tp.stream_received [OF assms])

definition demo_hash :: "u8 list \<Rightarrow> u64" where
  "demo_hash bs = fold (\<lambda>b acc. 31 * acc + ucast b) bs 7"

definition demo_messages :: "TwoPartMessage list" where
  "demo_messages = [\<lparr>tp_header = [1, 2], tp_data = [3]\<rparr>, \<lparr>tp_header = [], tp_data = []\<rparr>]"

theorem two_part_stream_witness:
  "\<exists>frames chunks. length chunks = 3 \<and>
     sent (encode_message \<lparr>xxh3_64 = demo_hash, tp_debug = True\<rparr> \<lparr>tp_max_message_size = Some 30\<rparr>) demo_messages frames \<and>
     concat chunks = concat frames \<and>
     feed (tp_decode \<lparr>xxh3_64 = demo_hash, tp_debug = False\<rparr> \<lparr>tp_max_message_size = Some 30\<rparr>) [] chunks =
       (demo_messages, None, [])"
proof -
  let ?B = "\<lparr>xxh3_64 = demo_hash, tp_debug = True\<rparr>" and ?c = "\<lparr>tp_max_message_size = Some 30\<rparr>"
  let ?frames = "map (tp_frame ?B) demo_messages"
  let ?chunks = "[take 5 (concat ?frames), take 30 (drop 5 (concat ?frames)), drop 35 (concat ?frames)]"
  have s: "sent (encode_message ?B ?c) demo_messages ?frames"
    by (simp add: sent_def demo_messages_def encode_message_eq tp_fits_def usize_max_def)
  have "drop 5 (concat ?frames) = take 30 (drop 5 (concat ?frames)) @ drop 35 (concat ?frames)"
    using append_take_drop_id [of 30 "drop 5 (concat ?frames)"] by (simp del: append_take_drop_id)
  then have c: "concat ?chunks = concat ?frames"
    using append_take_drop_id [of 5 "concat ?frames"] by (simp del: append_take_drop_id)
  show ?thesis
    using s c two_part_stream [OF s c, of False] by (intro exI [of _ ?frames] exI [of _ ?chunks]) simp
qed

text \<open>
  On a complete prefix, a decoder with a limit refuses an oversized
  frame at once, before any of the payload has arrived and without touching the buffer, with the
  announced size and the limit in the error (the largest size when the announced one overflows);
  a frame within the limit is never refused for its size.
\<close>

lemma two_part_decode_limits:
  assumes "24 \<le> length src" and "tp_max_message_size c = Some n" and "n \<le> usize_max"
  shows "let total_len = 24 + be_value (take 8 src) + be_value (take 8 (drop 8 src)) in
    (n < total_len \<longrightarrow>
       tp_decode B c src = (Inl (MessageTooLarge (if total_len \<le> usize_max then total_len else usize_max) n), src)) \<and>
    (total_len \<le> n \<longrightarrow> (\<forall>a b. fst (tp_decode B c src) \<noteq> Inl (MessageTooLarge a b)))"
  using assms
  by (auto simp: tp_decode_def FRAME_PREFIX_LEN_def compute_total_len_eq enforce_max_def Let_def
      split: if_splits option.splits sum.splits)

text \<open>
  C33 (two_part_corruption): a debug receiver that gets a debug frame whose payload was changed on
  the way, with the same lengths, delivers nothing of it: it reports a checksum mismatch and skips
  the prefix, unless the two payloads collide under the hash or the checksum is zero, the value that
  switches the check off.
\<close>

theorem two_part_corruption:
  assumes "tp_fits c m" and "tp_debug B" and "tp_debug B'" and "xxh3_64 B' = xxh3_64 B"
    and "length payload = length (tp_header m) + length (tp_data m)"
    and "xxh3_64 B payload \<noteq> xxh3_64 B (tp_header m @ tp_data m)"
    and "xxh3_64 B (tp_header m @ tp_data m) \<noteq> 0"
  shows "tp_decode B' c (take 24 (tp_frame B m) @ payload @ rest) = (Inl ChecksumMismatch, payload @ rest)"
proof -
  let ?buf = "take 24 (tp_frame B m) @ payload @ rest" and ?h = "length (tp_header m)" and ?b = "length (tp_data m)"
  have fits: "24 + ?h + ?b \<le> usize_max" using assms(1) by (simp add: tp_fits_def)
  have [simp]: "take 24 (tp_frame B m) = be_bytes 8 ?h @ be_bytes 8 ?b @
      be_bytes 8 (unat (xxh3_64 B (tp_header m @ tp_data m)))"
    using assms(2) by (simp add: tp_frame_def compute_checksum_def)
  have "prefix (take 24 (tp_frame B m)) (tp_frame B m @ [])"
    by (metis append_Nil2 append_take_drop_id prefixI)
  note fields = tp_frame_fields [OF fits this]
  show ?thesis
    using fields fits assms unfolding tp_decode_def FRAME_PREFIX_LEN_def Let_def
    by (auto simp: compute_total_len_eq enforce_max_def tp_fits_def compute_checksum_def
        checked_add_def split: option.splits)
qed

theorem two_part_corruption_witness:
  "tp_decode \<lparr>xxh3_64 = demo_hash, tp_debug = True\<rparr> \<lparr>tp_max_message_size = None\<rparr>
     (take 24 (tp_frame \<lparr>xxh3_64 = demo_hash, tp_debug = True\<rparr> \<lparr>tp_header = [1, 2], tp_data = [3]\<rparr>) @ [1, 2, 4] @ [9]) =
   (Inl ChecksumMismatch, [1, 2, 4, 9])"
  using two_part_corruption [of "\<lparr>tp_max_message_size = None\<rparr>" "\<lparr>tp_header = [1, 2], tp_data = [3]\<rparr>"
      "\<lparr>xxh3_64 = demo_hash, tp_debug = True\<rparr>" "\<lparr>xxh3_64 = demo_hash, tp_debug = True\<rparr>" "[1, 2, 4]" "[9]"]
  by (simp add: tp_fits_def usize_max_def demo_hash_def)

end
