(* ===== verification/TcpCodec.thy ===== *)
theory TcpCodec
  imports RustStd
begin

text \<open>
  The request plane's frames, \<open>lib/runtime/src/pipeline/network/codec.rs\<close>: a cursor that checks every
  read against the buffer, the layout of a request frame (path, headers and payload behind length
  fields of two, two and four bytes), and the framed codec of the responses. The JSON encoding of the
  headers (crate \<open>serde_json\<close>) is a parameter. The lemmas show the round trip of requests, that no
  proper prefix of a frame decodes, that bytes after a frame are ignored, which oversized inputs the
  encoders refuse, and that responses form a frame codec.
\<close>

section \<open>Errors\<close>

definition truncated :: "string \<Rightarrow> io_error" where
  "truncated reason = IoError UnexpectedEof reason"

definition length_overflow :: "string \<Rightarrow> nat \<Rightarrow> io_error" where
  "length_overflow field len = IoError InvalidInput (field @ '': '' @ dec_string len @ '' bytes'')"

definition oversized :: "nat \<Rightarrow> nat \<Rightarrow> io_error" where
  "oversized total_len mx = IoError InvalidData
     (''message too large: '' @ dec_string total_len @ '' bytes (max: '' @ dec_string mx @ '' bytes)'')"

definition invalid_data :: "string \<Rightarrow> io_error" where
  "invalid_data reason = IoError InvalidData reason"

section \<open>The cursor\<close>

definition ENDPOINT_LEN_WIDTH :: nat where "ENDPOINT_LEN_WIDTH = 2"
definition HEADERS_LEN_WIDTH :: nat where "HEADERS_LEN_WIDTH = 2"
definition PAYLOAD_LEN_WIDTH :: nat where "PAYLOAD_LEN_WIDTH = 4"
definition RESPONSE_LEN_WIDTH :: nat where "RESPONSE_LEN_WIDTH = 4"

lemmas widths = ENDPOINT_LEN_WIDTH_def HEADERS_LEN_WIDTH_def PAYLOAD_LEN_WIDTH_def RESPONSE_LEN_WIDTH_def

record FrameCursor =
  fc_buf :: "u8 list"
  fc_pos :: nat

definition cursor_new :: "u8 list \<Rightarrow> FrameCursor" where
  "cursor_new buf = \<lparr>fc_buf = buf, fc_pos = 0\<rparr>"

definition require :: "FrameCursor \<Rightarrow> nat \<Rightarrow> string \<Rightarrow> io_error + unit" where
  "require cur need reason =
     (if length (fc_buf cur) - fc_pos cur < need then Inl (truncated reason) else Inr ())"

definition read_u16_be :: "string \<Rightarrow> FrameCursor \<Rightarrow> io_error + (nat \<times> FrameCursor)" where
  "read_u16_be reason cur =
     sum_bind (require cur ENDPOINT_LEN_WIDTH reason) (\<lambda>_.
     Inr (be_value (take 2 (drop (fc_pos cur) (fc_buf cur))), cur\<lparr>fc_pos := fc_pos cur + ENDPOINT_LEN_WIDTH\<rparr>))"

definition read_u32_be :: "string \<Rightarrow> FrameCursor \<Rightarrow> io_error + (nat \<times> FrameCursor)" where
  "read_u32_be reason cur =
     sum_bind (require cur PAYLOAD_LEN_WIDTH reason) (\<lambda>_.
     Inr (be_value (take 4 (drop (fc_pos cur) (fc_buf cur))), cur\<lparr>fc_pos := fc_pos cur + PAYLOAD_LEN_WIDTH\<rparr>))"

text \<open>A \<open>Range<usize>\<close> is the pair of its bounds.\<close>

definition skip :: "nat \<Rightarrow> string \<Rightarrow> FrameCursor \<Rightarrow> io_error + ((nat \<times> nat) \<times> FrameCursor)" where
  "skip len reason cur =
     sum_bind (require cur len reason) (\<lambda>_.
     Inr ((fc_pos cur, fc_pos cur + len), cur\<lparr>fc_pos := fc_pos cur + len\<rparr>))"

definition byte_range :: "nat \<times> nat \<Rightarrow> u8 list \<Rightarrow> u8 list" where
  "byte_range r bs = take (snd r - fst r) (drop (fst r) bs)"

section \<open>Request frames\<close>

record TcpRequestLayout =
  lay_portname :: "nat \<times> nat"
  lay_headers :: "nat \<times> nat"
  lay_payload :: "nat \<times> nat"
  lay_total_len :: nat

definition validate_request_encode_lengths :: "nat \<Rightarrow> nat \<Rightarrow> nat \<Rightarrow> io_error + nat" where
  "validate_request_encode_lengths portname_len headers_len payload_len =
     (if u16_max < portname_len then Inl (length_overflow ''PortName path too long'' portname_len)
      else if u16_max < headers_len then Inl (length_overflow ''Headers too large'' headers_len)
      else if u32_max < payload_len then Inl (length_overflow ''Payload too large'' payload_len)
      else
        let header_overhead = ENDPOINT_LEN_WIDTH + portname_len + HEADERS_LEN_WIDTH + headers_len + PAYLOAD_LEN_WIDTH
        in case checked_add header_overhead payload_len of
             Some n \<Rightarrow> Inr n
           | None \<Rightarrow> Inl (invalid_data ''TCP request message length overflow''))"

definition parse_request_layout :: "u8 list \<Rightarrow> io_error + TcpRequestLayout" where
  "parse_request_layout bytes =
     sum_bind (read_u16_be ''Not enough bytes for portname path length'' (cursor_new bytes)) (\<lambda>(portname_len, cur).
     sum_bind (skip portname_len ''Not enough bytes for portname path'' cur) (\<lambda>(portname, cur).
     sum_bind (read_u16_be ''Not enough bytes for headers length'' cur) (\<lambda>(headers_len, cur).
     sum_bind (skip headers_len ''Not enough bytes for headers'' cur) (\<lambda>(headers, cur).
     sum_bind (read_u32_be ''Not enough bytes for payload length'' cur) (\<lambda>(payload_len, cur).
     let payload_start = fc_pos cur in
     sum_bind (case checked_add payload_start payload_len of
         Some n \<Rightarrow> Inr n
       | None \<Rightarrow> Inl (invalid_data ''TCP request message length overflow'')) (\<lambda>total_len.
     if length bytes < total_len then
       Inl (truncated (''Not enough bytes for payload: expected '' @ dec_string payload_len @ '', got '' @
         dec_string (length bytes - payload_start)))
     else Inr \<lparr>lay_portname = portname, lay_headers = headers, lay_payload = (payload_start, total_len),
         lay_total_len = total_len\<rparr>))))))"

text \<open>
  Header maps are association lists in the iteration order of the \<open>HashMap\<close>. The JSON library is a
  record of the two functions the code calls; their errors are the texts they display.
\<close>

type_synonym header_map = "(u8 list \<times> u8 list) list"

record json =
  to_vec :: "header_map \<Rightarrow> string + u8 list"
  from_slice :: "u8 list \<Rightarrow> string + header_map"

record TcpRequestMessage =
  portname_path :: "u8 list"
  req_headers :: header_map
  req_payload :: "u8 list"

definition req_new :: "u8 list \<Rightarrow> u8 list \<Rightarrow> TcpRequestMessage" where
  "req_new path payload = \<lparr>portname_path = path, req_headers = [], req_payload = payload\<rparr>"

definition req_with_headers :: "u8 list \<Rightarrow> header_map \<Rightarrow> u8 list \<Rightarrow> TcpRequestMessage" where
  "req_with_headers path headers payload = \<lparr>portname_path = path, req_headers = headers, req_payload = payload\<rparr>"

definition req_encode :: "json \<Rightarrow> TcpRequestMessage \<Rightarrow> io_error + u8 list" where
  "req_encode J m =
     (let portname_len = length (portname_path m) in
      sum_bind (case to_vec J (req_headers m) of
          Inl e \<Rightarrow> Inl (IoError InvalidInput (''Failed to encode headers: '' @ e))
        | Inr js \<Rightarrow> Inr js) (\<lambda>headers_json.
      let headers_len = length headers_json in
      sum_bind (validate_request_encode_lengths portname_len headers_len (length (req_payload m))) (\<lambda>total_len.
      Inr (be_bytes 2 portname_len @ portname_path m @ be_bytes 2 headers_len @ headers_json @
        be_bytes 4 (length (req_payload m)) @ req_payload m))))"

definition req_decode :: "json \<Rightarrow> u8 list \<Rightarrow> io_error + TcpRequestMessage" where
  "req_decode J bytes =
     sum_bind (parse_request_layout bytes) (\<lambda>layout.
     sum_bind (case from_utf8 (byte_range (lay_portname layout) bytes) of
         Inl e \<Rightarrow> Inl (invalid_data (''Invalid UTF-8 in portname path: '' @ utf8_display e))
       | Inr s \<Rightarrow> Inr s) (\<lambda>path.
     sum_bind (case from_slice J (byte_range (lay_headers layout) bytes) of
         Inl e \<Rightarrow> Inl (invalid_data (''Invalid JSON in headers: '' @ e))
       | Inr h \<Rightarrow> Inr h) (\<lambda>headers.
     Inr \<lparr>portname_path = path, req_headers = headers, req_payload = byte_range (lay_payload layout) bytes\<rparr>)))"

section \<open>Response frames\<close>

record TcpResponseMessage =
  resp_data :: "u8 list"

definition resp_empty :: TcpResponseMessage where
  "resp_empty = \<lparr>resp_data = []\<rparr>"

definition resp_encode :: "TcpResponseMessage \<Rightarrow> io_error + u8 list" where
  "resp_encode m =
     (if u32_max < length (resp_data m) then Inl (length_overflow ''Response too large'' (length (resp_data m)))
      else Inr (be_bytes 4 (length (resp_data m)) @ resp_data m))"

definition resp_decode :: "u8 list \<Rightarrow> io_error + TcpResponseMessage" where
  "resp_decode bytes =
     sum_bind (read_u32_be ''Not enough bytes for response length'' (cursor_new bytes)) (\<lambda>(len, cur).
     let data_start = fc_pos cur in
     sum_bind (case checked_add data_start len of
         Some n \<Rightarrow> Inr n
       | None \<Rightarrow> Inl (invalid_data ''Response length overflow'')) (\<lambda>data_end.
     if length bytes < data_end then
       Inl (truncated (''Not enough bytes for response: expected '' @ dec_string len @ '', got '' @
         dec_string (length bytes - data_start)))
     else Inr \<lparr>resp_data = byte_range (data_start, data_end) bytes\<rparr>))"

record TcpResponseCodec =
  rc_max_message_size :: "nat option"

definition rc_enforce_max :: "TcpResponseCodec \<Rightarrow> nat \<Rightarrow> io_error + unit" where
  "rc_enforce_max c total_len =
     (case rc_max_message_size c of
        Some mx \<Rightarrow> if mx < total_len then Inl (oversized total_len mx) else Inr ()
      | None \<Rightarrow> Inr ())"

definition rc_decode :: "TcpResponseCodec \<Rightarrow> u8 list \<Rightarrow> (io_error + TcpResponseMessage option) \<times> u8 list" where
  "rc_decode c src =
     (if length src < RESPONSE_LEN_WIDTH then (Inr None, src)
      else
        let data_len = be_value (take 4 src); total_len = RESPONSE_LEN_WIDTH + data_len in
        case rc_enforce_max c total_len of
          Inl e \<Rightarrow> (Inl e, src)
        | Inr _ \<Rightarrow>
            if length src < total_len then (Inr None, src)
            else
              let src1 = drop RESPONSE_LEN_WIDTH src in
              (Inr (Some \<lparr>resp_data = take data_len src1\<rparr>), drop data_len src1))"

definition rc_encode :: "TcpResponseCodec \<Rightarrow> TcpResponseMessage \<Rightarrow> u8 list \<Rightarrow> (io_error + unit) \<times> u8 list" where
  "rc_encode c item dst =
     (if u32_max < length (resp_data item)
      then (Inl (length_overflow ''Response too large'' (length (resp_data item))), dst)
      else
        let total_len = RESPONSE_LEN_WIDTH + length (resp_data item) in
        case rc_enforce_max c total_len of
          Inl e \<Rightarrow> (Inl e, dst)
        | Inr _ \<Rightarrow> (Inr (), dst @ be_bytes 4 (length (resp_data item)) @ resp_data item))"

section \<open>Frame headers for the incremental reader\<close>

record TcpRequestWireHeader =
  wh_portname_len :: nat
  wh_headers_len :: nat
  wh_payload_len :: nat
  wh_header_size :: nat
  wh_total_len :: nat

definition portname_start :: "TcpRequestWireHeader \<Rightarrow> nat" where
  "portname_start h = ENDPOINT_LEN_WIDTH"

definition portname_end :: "TcpRequestWireHeader \<Rightarrow> nat" where
  "portname_end h = portname_start h + wh_portname_len h"

definition headers_start :: "TcpRequestWireHeader \<Rightarrow> nat" where
  "headers_start h = portname_end h + HEADERS_LEN_WIDTH"

definition headers_end :: "TcpRequestWireHeader \<Rightarrow> nat" where
  "headers_end h = headers_start h + wh_headers_len h"

definition payload_start :: "TcpRequestWireHeader \<Rightarrow> nat" where
  "payload_start h = wh_header_size h"

definition tcp_request_portname_len :: "u8 list \<Rightarrow> io_error + nat" where
  "tcp_request_portname_len bytes =
     sum_bind (read_u16_be ''Not enough bytes for portname path length'' (cursor_new bytes)) (\<lambda>(n, _). Inr n)"

definition tcp_request_headers_len :: "u8 list \<Rightarrow> nat \<Rightarrow> io_error + nat" where
  "tcp_request_headers_len bytes portname_len =
     sum_bind (read_u16_be ''Not enough bytes for portname path length'' (cursor_new bytes)) (\<lambda>(_, cur).
     sum_bind (skip portname_len ''Not enough bytes for portname path'' cur) (\<lambda>(_, cur).
     sum_bind (read_u16_be ''Not enough bytes for headers length'' cur) (\<lambda>(v, _). Inr v)))"

definition tcp_request_header_size :: "nat \<Rightarrow> nat \<Rightarrow> nat" where
  "tcp_request_header_size portname_len headers_len =
     ENDPOINT_LEN_WIDTH + portname_len + HEADERS_LEN_WIDTH + headers_len + PAYLOAD_LEN_WIDTH"

definition parse_tcp_request_frame_header :: "u8 list \<Rightarrow> io_error + TcpRequestWireHeader" where
  "parse_tcp_request_frame_header bytes =
     sum_bind (read_u16_be ''Not enough bytes for portname path length'' (cursor_new bytes)) (\<lambda>(portname_len, cur).
     sum_bind (skip portname_len ''Not enough bytes for portname path'' cur) (\<lambda>(_, cur).
     sum_bind (read_u16_be ''Not enough bytes for headers length'' cur) (\<lambda>(headers_len, cur).
     sum_bind (skip headers_len ''Not enough bytes for headers'' cur) (\<lambda>(_, cur).
     sum_bind (read_u32_be ''Not enough bytes for payload length'' cur) (\<lambda>(payload_len, cur).
     let header_size = fc_pos cur in
     sum_bind (case checked_add header_size payload_len of
         Some n \<Rightarrow> Inr n
       | None \<Rightarrow> Inl (invalid_data ''TCP request message length overflow'')) (\<lambda>total_len.
     Inr \<lparr>wh_portname_len = portname_len, wh_headers_len = headers_len, wh_payload_len = payload_len,
       wh_header_size = header_size, wh_total_len = total_len\<rparr>))))))"

definition check_tcp_request_max_message_size :: "nat \<Rightarrow> nat \<Rightarrow> io_error + unit" where
  "check_tcp_request_max_message_size total_len max_message_size =
     (if max_message_size < total_len then Inl (oversized total_len max_message_size) else Inr ())"

section \<open>How the parsers unfold\<close>

definition req_frame :: "u8 list \<Rightarrow> u8 list \<Rightarrow> u8 list \<Rightarrow> u8 list" where
  "req_frame path hj payload = be_bytes 2 (length path) @ path @ be_bytes 2 (length hj) @ hj @
     be_bytes 4 (length payload) @ payload"

definition req_fits :: "u8 list \<Rightarrow> u8 list \<Rightarrow> u8 list \<Rightarrow> bool" where
  "req_fits path hj payload = (length path \<le> u16_max \<and> length hj \<le> u16_max \<and> length payload \<le> u32_max)"

text \<open>The three length fields, at the places where the cursor reads them.\<close>

definition path_field :: "u8 list \<Rightarrow> nat" where
  "path_field bs = be_value (take 2 bs)"

definition headers_field :: "u8 list \<Rightarrow> nat" where
  "headers_field bs = be_value (take 2 (drop (2 + path_field bs) bs))"

definition payload_field :: "u8 list \<Rightarrow> nat" where
  "payload_field bs = be_value (take 4 (drop (4 + path_field bs + headers_field bs) bs))"

definition header_end :: "u8 list \<Rightarrow> nat" where
  "header_end bs = 8 + path_field bs + headers_field bs"

lemmas field_defs = path_field_def headers_field_def payload_field_def

lemmas cursor_defs = read_u16_be_def read_u32_be_def skip_def require_def cursor_new_def widths

lemma be_value_take_less: "be_value (take k xs) < 256 ^ k"
  by (rule less_le_trans [OF be_value_bound]) (simp add: power_increasing)

lemma field_bounds: "path_field bs \<le> u16_max" "headers_field bs \<le> u16_max" "payload_field bs \<le> u32_max"
  using be_value_take_less [of 2] be_value_take_less [of 4]
  by (simp_all add: field_defs u16_max_def u32_max_def less_Suc_eq_le [symmetric])

lemma fields_no_overflow: "header_end bs + payload_field bs \<le> usize_max"
  using field_bounds [of bs] by (simp add: header_end_def u16_max_def u32_max_def usize_max_def)

text \<open>One step of the cursor at a position inside the buffer.\<close>

lemma read_u16_at:
  "read_u16_be r \<lparr>fc_buf = bs, fc_pos = p\<rparr> =
     (if length bs < p + 2 then Inl (truncated r)
      else Inr (be_value (take 2 (drop p bs)), \<lparr>fc_buf = bs, fc_pos = p + 2\<rparr>))"
  by (auto simp: cursor_defs)

lemma read_u32_at:
  "read_u32_be r \<lparr>fc_buf = bs, fc_pos = p\<rparr> =
     (if length bs < p + 4 then Inl (truncated r)
      else Inr (be_value (take 4 (drop p bs)), \<lparr>fc_buf = bs, fc_pos = p + 4\<rparr>))"
  by (auto simp: cursor_defs)

lemma skip_at:
  "p \<le> length bs \<Longrightarrow> skip n r \<lparr>fc_buf = bs, fc_pos = p\<rparr> =
     (if length bs < p + n then Inl (truncated r) else Inr ((p, p + n), \<lparr>fc_buf = bs, fc_pos = p + n\<rparr>))"
  by (auto simp: cursor_defs)

lemma parse_frame_header_eq:
  "parse_tcp_request_frame_header bs =
     (if length bs < 2 then Inl (truncated ''Not enough bytes for portname path length'')
      else if length bs < 2 + path_field bs then Inl (truncated ''Not enough bytes for portname path'')
      else if length bs < 4 + path_field bs then Inl (truncated ''Not enough bytes for headers length'')
      else if length bs < 4 + path_field bs + headers_field bs then Inl (truncated ''Not enough bytes for headers'')
      else if length bs < header_end bs then Inl (truncated ''Not enough bytes for payload length'')
      else Inr \<lparr>wh_portname_len = path_field bs, wh_headers_len = headers_field bs, wh_payload_len = payload_field bs,
        wh_header_size = header_end bs, wh_total_len = header_end bs + payload_field bs\<rparr>)"
proof -
  have p: "be_value (take 2 (drop 0 bs)) = path_field bs" by (simp add: path_field_def)
  have h: "be_value (take 2 (drop (0 + 2 + path_field bs) bs)) = headers_field bs" by (simp add: headers_field_def)
  have n: "be_value (take 4 (drop (0 + 2 + path_field bs + 2 + headers_field bs) bs)) = payload_field bs"
    by (simp add: payload_field_def add.commute add.left_commute numeral_eq_Suc)
  have e: "0 + 2 + path_field bs + 2 + headers_field bs + 4 = header_end bs" by (simp add: header_end_def)
  consider "length bs < 2" | "2 \<le> length bs" "length bs < 2 + path_field bs"
    | "2 + path_field bs \<le> length bs" "length bs < 4 + path_field bs"
    | "4 + path_field bs \<le> length bs" "length bs < 4 + path_field bs + headers_field bs"
    | "4 + path_field bs + headers_field bs \<le> length bs" "length bs < header_end bs"
    | "header_end bs \<le> length bs" by linarith
  then show ?thesis
    unfolding parse_tcp_request_frame_header_def cursor_new_def
    by cases (simp_all add: read_u16_at read_u32_at skip_at p [simplified] h [simplified] n [simplified]
        e [simplified] header_end_def checked_add_def Let_def fields_no_overflow [unfolded header_end_def])
qed

lemma parse_layout_eq:
  "parse_request_layout bs =
     sum_bind (parse_tcp_request_frame_header bs) (\<lambda>h.
       if length bs < wh_total_len h then
         Inl (truncated (''Not enough bytes for payload: expected '' @ dec_string (wh_payload_len h) @ '', got '' @
           dec_string (length bs - wh_header_size h)))
       else Inr \<lparr>lay_portname = (portname_start h, portname_end h), lay_headers = (headers_start h, headers_end h),
         lay_payload = (payload_start h, wh_total_len h), lay_total_len = wh_total_len h\<rparr>)"
  unfolding parse_request_layout_def parse_tcp_request_frame_header_def
  by (auto simp: cursor_defs portname_start_def portname_end_def headers_start_def headers_end_def
      payload_start_def Let_def sum_bind_def split: option.splits sum.splits)

section \<open>Frames\<close>

text \<open>Reading the length fields of a frame, of a prefix of it that holds them, and what they say.\<close>

lemma be_field: "v < 256 ^ k \<Longrightarrow> be_value (take k (be_bytes k v @ ys)) = v"
  by (simp add: be_value_be_bytes)

lemma length_req_frame: "length (req_frame path hj payload) = 8 + length path + length hj + length payload"
  by (simp add: req_frame_def)

lemma req_frame_fields:
  assumes "req_fits path hj payload"
  shows "path_field (req_frame path hj payload @ rest) = length path"
    and "headers_field (req_frame path hj payload @ rest) = length hj"
    and "payload_field (req_frame path hj payload @ rest) = length payload"
proof -
  have small: "length path < 256 ^ 2" "length hj < 256 ^ 2" "length payload < 256 ^ 4"
    using assms by (simp_all add: req_fits_def u16_max_def u32_max_def)
  show p: "path_field (req_frame path hj payload @ rest) = length path"
    using be_field [OF small(1)] by (simp add: path_field_def req_frame_def)
  show h: "headers_field (req_frame path hj payload @ rest) = length hj"
    using be_field [OF small(2)] unfolding headers_field_def p by (simp add: req_frame_def)
  show "payload_field (req_frame path hj payload @ rest) = length payload"
    using be_field [OF small(3)] unfolding payload_field_def p h by (simp add: req_frame_def)
qed

lemma field_append:
  "2 \<le> length bs \<Longrightarrow> path_field (bs @ xs) = path_field bs"
  "4 + path_field bs \<le> length bs \<Longrightarrow> headers_field (bs @ xs) = headers_field bs"
  "header_end bs \<le> length bs \<Longrightarrow> payload_field (bs @ xs) = payload_field bs"
proof -
  show p: "path_field (bs @ xs) = path_field bs" if "2 \<le> length bs" for bs
    using that by (simp add: path_field_def)
  show h: "headers_field (bs @ xs) = headers_field bs" if "4 + path_field bs \<le> length bs" for bs
    using that by (simp add: headers_field_def p)
  show "payload_field (bs @ xs) = payload_field bs" if "header_end bs \<le> length bs" for bs
    using that by (simp add: payload_field_def header_end_def p h)
qed

text \<open>Any buffer with a complete frame in front is that frame and a rest.\<close>

lemma cut_field:
  assumes "p + k = q" and "q \<le> length bs"
  shows "drop p bs = be_bytes k (be_value (take k (drop p bs))) @ drop q bs"
proof -
  have "length (take k (drop p bs)) = k" using assms by simp
  then have "be_bytes k (be_value (take k (drop p bs))) = take k (drop p bs)"
    using be_bytes_be_value [of "take k (drop p bs)"] by simp
  then show ?thesis using append_take_drop_id [of k "drop p bs"] assms(1) by (auto simp: add.commute)
qed

lemma frame_split:
  assumes "header_end bs + payload_field bs \<le> length bs"
  defines "path \<equiv> byte_range (2, 2 + path_field bs) bs"
    and "hj \<equiv> byte_range (4 + path_field bs, 4 + path_field bs + headers_field bs) bs"
    and "payload \<equiv> byte_range (header_end bs, header_end bs + payload_field bs) bs"
  shows "bs = req_frame path hj payload @ drop (header_end bs + payload_field bs) bs"
    and "req_fits path hj payload" and "length path = path_field bs" and "length hj = headers_field bs"
    and "length payload = payload_field bs"
proof -
  let ?p = "path_field bs" and ?h = "headers_field bs" and ?n = "payload_field bs"
  have len: "8 + ?p + ?h + ?n \<le> length bs" using assms(1) by (simp add: header_end_def)
  show l: "length path = ?p" "length hj = ?h" "length payload = ?n"
    using len by (simp_all add: path_def hj_def payload_def byte_range_def header_end_def)
  then show "req_fits path hj payload" using field_bounds [of bs] by (simp add: req_fits_def)
  have "bs = be_bytes 2 ?p @ drop 2 bs"
    using cut_field [of 0 2 2 bs] len by (simp add: path_field_def)
  also have "drop 2 bs = path @ drop (2 + ?p) bs"
    using append_take_drop_id [of ?p "drop 2 bs"] by (simp add: path_def byte_range_def add.commute)
  also have "drop (2 + ?p) bs = be_bytes 2 ?h @ drop (4 + ?p) bs"
    using cut_field [of "2 + ?p" 2 "4 + ?p" bs] len by (simp add: headers_field_def)
  also have "drop (4 + ?p) bs = hj @ drop (4 + ?p + ?h) bs"
    using append_take_drop_id [of ?h "drop (4 + ?p) bs"] by (simp add: hj_def byte_range_def add.commute add.left_commute)
  also have "drop (4 + ?p + ?h) bs = be_bytes 4 ?n @ drop (header_end bs) bs"
    using cut_field [of "4 + ?p + ?h" 4 "header_end bs" bs] len by (simp add: payload_field_def header_end_def)
  also have "drop (header_end bs) bs = payload @ drop (header_end bs + ?n) bs"
    using append_take_drop_id [of ?n "drop (header_end bs) bs"]
    by (simp add: payload_def byte_range_def add.commute)
  finally show "bs = req_frame path hj payload @ drop (header_end bs + ?n) bs"
    by (simp add: req_frame_def l)
qed

section \<open>Decoding\<close>

definition frame_complete :: "u8 list \<Rightarrow> bool" where
  "frame_complete bs = (2 \<le> length bs \<and> 4 + path_field bs \<le> length bs \<and> header_end bs + payload_field bs \<le> length bs)"

lemma frame_complete_iff: "frame_complete bs = (header_end bs + payload_field bs \<le> length bs)"
  by (auto simp: frame_complete_def header_end_def)

lemmas wire_header_defs = portname_start_def portname_end_def headers_start_def headers_end_def payload_start_def widths

lemma parse_layout_complete:
  "frame_complete bs \<Longrightarrow> parse_request_layout bs = Inr \<lparr>lay_portname = (2, 2 + path_field bs),
     lay_headers = (4 + path_field bs, 4 + path_field bs + headers_field bs),
     lay_payload = (header_end bs, header_end bs + payload_field bs), lay_total_len = header_end bs + payload_field bs\<rparr>"
  by (simp add: frame_complete_def parse_layout_eq parse_frame_header_eq header_end_def wire_header_defs)

lemma parse_layout_incomplete: "\<not> frame_complete bs \<Longrightarrow> \<exists>reason. parse_request_layout bs = Inl (truncated reason)"
  by (auto simp: frame_complete_iff parse_layout_eq parse_frame_header_eq header_end_def)

lemma frame_complete_frame: "req_fits path hj payload \<Longrightarrow> frame_complete (req_frame path hj payload @ rest)"
  by (simp add: frame_complete_iff header_end_def req_frame_fields length_req_frame)

text \<open>What decoding a frame, followed by anything, amounts to.\<close>

lemma slices_of_frame:
  "byte_range (2, 2 + length path) (req_frame path hj payload @ rest) = path"
  "byte_range (4 + length path, 4 + length path + length hj) (req_frame path hj payload @ rest) = hj"
  "byte_range (8 + length path + length hj, 8 + length path + length hj + length payload)
     (req_frame path hj payload @ rest) = payload"
  by (simp_all add: byte_range_def req_frame_def)

lemma req_decode_frame:
  assumes "req_fits path hj payload"
  shows "req_decode J (req_frame path hj payload @ rest) =
     (case from_utf8 path of
        Inl e \<Rightarrow> Inl (invalid_data (''Invalid UTF-8 in portname path: '' @ utf8_display e))
      | Inr s \<Rightarrow> (case from_slice J hj of
          Inl e \<Rightarrow> Inl (invalid_data (''Invalid JSON in headers: '' @ e))
        | Inr h \<Rightarrow> Inr \<lparr>portname_path = s, req_headers = h, req_payload = payload\<rparr>))"
  unfolding req_decode_def parse_layout_complete [OF frame_complete_frame [OF assms]] header_end_def
    req_frame_fields [OF assms] sum_bind_simps TcpRequestLayout.simps slices_of_frame
  by (simp split: sum.splits)

lemma req_encode_ok:
  "req_encode J m = Inr bs \<Longrightarrow> \<exists>hj. to_vec J (req_headers m) = Inr hj \<and>
     req_fits (portname_path m) hj (req_payload m) \<and> bs = req_frame (portname_path m) hj (req_payload m)"
  by (auto simp: req_encode_def sum_bind_Inr validate_request_encode_lengths_def req_frame_def req_fits_def Let_def
      split: sum.splits if_splits option.splits)

lemma req_encode_fits:
  "to_vec J (req_headers m) = Inr hj \<Longrightarrow> req_fits (portname_path m) hj (req_payload m) \<Longrightarrow>
     req_encode J m = Inr (req_frame (portname_path m) hj (req_payload m))"
  by (simp add: req_encode_def validate_request_encode_lengths_def req_frame_def req_fits_def checked_add_def
      widths u16_max_def u32_max_def usize_max_def)

lemma strict_prefix_incomplete:
  assumes "req_fits path hj payload" and "strict_prefix bs (req_frame path hj payload)"
  shows "\<not> frame_complete bs"
proof
  assume complete: "frame_complete bs"
  obtain r where r: "req_frame path hj payload = bs @ r" "r \<noteq> []"
    using assms(2) by (auto simp: strict_prefix_def prefix_def)
  have "length bs < 8 + length path + length hj + length payload"
    using assms(2) length_req_frame prefix_length_less by metis
  moreover have "path_field bs = length path" "headers_field bs = length hj" "payload_field bs = length payload"
    using complete field_append [of bs r] req_frame_fields [OF assms(1), of "[]"] r(1)
    by (simp_all add: frame_complete_def)
  ultimately show False using complete by (simp add: frame_complete_iff header_end_def)
qed

section \<open>Properties of requests\<close>

text \<open>
  C22 (tcp_request_roundtrip): a request that encodes is decoded from its frame, whatever bytes
  follow it, to the same path and payload and an equal header map. Needed of the JSON library is
  only that it reads back the headers it wrote; the path is a Rust string, hence valid UTF-8.
\<close>

theorem tcp_request_roundtrip:
  assumes "req_encode J m = Inr bs" and "utf8_valid (portname_path m)"
    and "\<And>hj. to_vec J (req_headers m) = Inr hj \<Longrightarrow>
      \<exists>h. from_slice J hj = Inr h \<and> map_of h = map_of (req_headers m)"
  shows "\<exists>h. req_decode J (bs @ rest) = Inr (m\<lparr>req_headers := h\<rparr>) \<and> map_of h = map_of (req_headers m)"
proof -
  obtain hj where hj: "to_vec J (req_headers m) = Inr hj" "req_fits (portname_path m) hj (req_payload m)"
    "bs = req_frame (portname_path m) hj (req_payload m)"
    using req_encode_ok [OF assms(1)] by blast
  obtain h where h: "from_slice J hj = Inr h" "map_of h = map_of (req_headers m)"
    using assms(3) [OF hj(1)] by blast
  have "req_decode J (bs @ rest) = Inr (m\<lparr>req_headers := h\<rparr>)"
    using req_decode_frame [OF hj(2), of J rest] assms(2) h(1) hj(3) by simp
  then show ?thesis using h(2) by blast
qed

text \<open>A JSON library for single entries with one-byte texts, enough to run the codec.\<close>

definition demo_json :: json where
  "demo_json = \<lparr>
     to_vec = (\<lambda>h. case h of [] \<Rightarrow> Inr [123, 125] | [([k], [v])] \<Rightarrow> Inr [123, k, 58, v, 125] | _ \<Rightarrow> Inl ''unsupported''),
     from_slice = (\<lambda>bs. if bs = [123, 125] then Inr [] else if length bs = 5 then Inr [([bs ! 1], [bs ! 3])] else Inl ''expected value'')\<rparr>"

definition demo_request :: TcpRequestMessage where
  "demo_request = \<lparr>portname_path = [103, 101, 110], req_headers = [([107], [118])], req_payload = [1, 2, 3, 255]\<rparr>"

lemma demo_request_encode:
  "req_encode demo_json demo_request = Inr (req_frame [103, 101, 110] [123, 107, 58, 118, 125] [1, 2, 3, 255])"
  using req_encode_fits [of demo_json demo_request "[123, 107, 58, 118, 125]"]
  by (simp add: demo_json_def demo_request_def req_fits_def u16_max_def u32_max_def)

theorem tcp_request_roundtrip_witness:
  "\<exists>bs h. req_encode demo_json demo_request = Inr bs \<and>
     req_decode demo_json (bs @ [7, 7]) = Inr (demo_request\<lparr>req_headers := h\<rparr>) \<and> map_of h = map_of (req_headers demo_request)"
proof -
  have "utf8_valid (portname_path demo_request)"
    by (rule utf8_ascii) (simp add: demo_request_def)
  moreover have "\<exists>h. from_slice demo_json hj = Inr h \<and> map_of h = map_of (req_headers demo_request)"
    if "to_vec demo_json (req_headers demo_request) = Inr hj" for hj
    using that by (auto simp: demo_json_def demo_request_def)
  ultimately show ?thesis
    using tcp_request_roundtrip [OF demo_request_encode, of "[7, 7]"] demo_request_encode by blast
qed

text \<open>
  No proper prefix of an encoded request decodes; every one is reported
  as an unexpected end of the input, never as bad data.
\<close>

lemma tcp_request_truncation:
  assumes "req_encode J m = Inr bs" and "strict_prefix part bs"
  shows "\<exists>reason. req_decode J part = Inl (IoError UnexpectedEof reason)"
proof -
  obtain hj where hj: "req_fits (portname_path m) hj (req_payload m)" "bs = req_frame (portname_path m) hj (req_payload m)"
    using req_encode_ok [OF assms(1)] by blast
  then have "\<not> frame_complete part" using strict_prefix_incomplete assms(2) by blast
  then show ?thesis using parse_layout_incomplete [of part] by (auto simp: req_decode_def truncated_def)
qed

text \<open>
  C32 (tcp_request_decode_sound): whatever bytes arrive, decoding never accepts anything but a
  complete frame, possibly followed by more bytes: the path it returns is valid UTF-8, path and
  payload are the bytes of the frame, the headers are what the JSON library reads there, and every
  other input is an error of one of two kinds.
\<close>

theorem tcp_request_decode_sound:
  "case req_decode J bytes of
     Inr m \<Rightarrow> utf8_valid (portname_path m) \<and>
       (\<exists>hj rest. req_fits (portname_path m) hj (req_payload m) \<and> from_slice J hj = Inr (req_headers m) \<and>
          bytes = req_frame (portname_path m) hj (req_payload m) @ rest)
   | Inl e \<Rightarrow> io_kind e = UnexpectedEof \<and> \<not> frame_complete bytes \<or> io_kind e = InvalidData \<and> frame_complete bytes"
proof (cases "frame_complete bytes")
  case False
  then show ?thesis using parse_layout_incomplete [of bytes] by (auto simp: req_decode_def truncated_def)
next
  case True
  then have "header_end bytes + payload_field bytes \<le> length bytes" by (simp add: frame_complete_iff)
  note split = frame_split [OF this]
  let ?path = "byte_range (2, 2 + path_field bytes) bytes"
    and ?hj = "byte_range (4 + path_field bytes, 4 + path_field bytes + headers_field bytes) bytes"
    and ?payload = "byte_range (header_end bytes, header_end bytes + payload_field bytes) bytes"
    and ?rest = "drop (header_end bytes + payload_field bytes) bytes"
  have "req_decode J bytes = req_decode J (req_frame ?path ?hj ?payload @ ?rest)"
    using split(1) by (rule arg_cong)
  note dec = this [unfolded req_decode_frame [OF split(2)]]
  show ?thesis
  proof (cases "req_decode J bytes")
    case (Inl e)
    then show ?thesis using dec True by (auto simp: invalid_data_def split: sum.splits)
  next
    case (Inr m)
    then have "from_utf8 ?path = Inr (portname_path m)" "from_slice J ?hj = Inr (req_headers m)"
      "req_payload m = ?payload"
      using dec by (auto split: sum.splits)
    moreover from this(1) have "portname_path m = ?path" "utf8_valid ?path" using from_utf8_ok by auto
    ultimately show ?thesis using Inr split(1,2) by auto
  qed
qed

text \<open>
  When the headers serialise, a request encodes exactly when its
  path and headers have at most 65535 bytes and its payload at most 4294967295, so that no length
  field is ever truncated; the first field over its limit is named in an invalid-input error.
\<close>

lemma tcp_request_encode_limits:
  assumes "to_vec J (req_headers m) = Inr hj"
  shows "req_encode J m =
    (if u16_max < length (portname_path m)
     then Inl (IoError InvalidInput (''PortName path too long: '' @ dec_string (length (portname_path m)) @ '' bytes''))
     else if u16_max < length hj
     then Inl (IoError InvalidInput (''Headers too large: '' @ dec_string (length hj) @ '' bytes''))
     else if u32_max < length (req_payload m)
     then Inl (IoError InvalidInput (''Payload too large: '' @ dec_string (length (req_payload m)) @ '' bytes''))
     else Inr (req_frame (portname_path m) hj (req_payload m)))"
proof (cases "req_fits (portname_path m) hj (req_payload m)")
  case True
  then show ?thesis using req_encode_fits [OF assms True] by (simp add: req_fits_def)
next
  case False
  then show ?thesis
    using assms by (auto simp: req_fits_def req_encode_def validate_request_encode_lengths_def length_overflow_def)
qed

section \<open>Responses\<close>

definition resp_fits :: "TcpResponseCodec \<Rightarrow> TcpResponseMessage \<Rightarrow> bool" where
  "resp_fits c m = (length (resp_data m) \<le> u32_max \<and>
     (case rc_max_message_size c of None \<Rightarrow> True | Some n \<Rightarrow> 4 + length (resp_data m) \<le> n))"

definition resp_frame :: "TcpResponseMessage \<Rightarrow> u8 list" where
  "resp_frame m = be_bytes 4 (length (resp_data m)) @ resp_data m"

definition rc_encode_message :: "TcpResponseCodec \<Rightarrow> TcpResponseMessage \<Rightarrow> io_error + u8 list" where
  "rc_encode_message c m = (case rc_encode c m [] of (Inl e, _) \<Rightarrow> Inl e | (Inr _, buf) \<Rightarrow> Inr buf)"

lemma rc_encode_appends:
  "resp_fits c m \<Longrightarrow> rc_encode c m dst = (Inr (), dst @ resp_frame m)"
  "\<not> resp_fits c m \<Longrightarrow> \<exists>e. rc_encode c m dst = (Inl e, dst)"
  by (auto simp: rc_encode_def rc_enforce_max_def resp_fits_def resp_frame_def widths Let_def split: option.splits)

lemma rc_encode_message_ok: "(rc_encode_message c m = Inr bs) = (resp_fits c m \<and> bs = resp_frame m)"
  using rc_encode_appends [of c m "[]"] by (cases "resp_fits c m") (auto simp: rc_encode_message_def)

lemma resp_frame_field:
  assumes "length (resp_data m) \<le> u32_max" and "prefix buf (resp_frame m @ rest)" and "4 \<le> length buf"
  shows "be_value (take 4 buf) = length (resp_data m)"
proof -
  have "take 4 buf = take 4 (resp_frame m @ rest)"
    using assms(2,3) by (auto simp: prefix_def) (metis append_take_drop_id append_eq_append_conv_if take_append take_all_iff append_Nil2 diff_is_0_eq take0 length_take min.absorb2)
  then show ?thesis using assms(1) be_field [of "length (resp_data m)" 4] by (simp add: resp_frame_def u32_max_def)
qed

lemma rc_decode_frame:
  assumes "resp_fits c m"
  shows "rc_decode c (resp_frame m @ rest) = (Inr (Some m), rest)"
proof -
  have "be_value (take 4 (resp_frame m @ rest)) = length (resp_data m)"
    using assms by (intro resp_frame_field [of m _ rest]) (auto simp: resp_fits_def resp_frame_def)
  moreover have "drop 4 (resp_frame m @ rest) = resp_data m @ rest" by (simp add: resp_frame_def)
  ultimately show ?thesis
    using assms unfolding rc_decode_def widths Let_def
    by (auto simp: rc_enforce_max_def resp_fits_def resp_frame_def split: option.splits)
qed

lemma rc_decode_prefix:
  assumes "resp_fits c m" and "strict_prefix buf (resp_frame m)"
  shows "rc_decode c buf = (Inr None, buf)"
proof (cases "length buf < 4")
  case False
  have "length buf < 4 + length (resp_data m)"
    using assms(2) prefix_length_less by (fastforce simp: resp_frame_def)
  moreover have "be_value (take 4 buf) = length (resp_data m)"
    using assms False by (intro resp_frame_field [of m buf "[]"]) (auto simp: resp_fits_def strict_prefix_def)
  ultimately show ?thesis
    using assms(1) False
    by (auto simp: rc_decode_def widths Let_def rc_enforce_max_def resp_fits_def split: option.splits)
qed (simp add: rc_decode_def widths)

interpretation resp: frame_codec "rc_encode_message c" "rc_decode c" for c
proof
  show "rc_decode c (bs @ rest) = (Inr (Some m), rest)" if "rc_encode_message c m = Inr bs" for m bs rest
    using that rc_decode_frame by (auto simp: rc_encode_message_ok)
  show "rc_decode c buf = (Inr None, buf)" if "rc_encode_message c m = Inr bs" "strict_prefix buf bs" for m bs buf
    using that rc_decode_prefix by (auto simp: rc_encode_message_ok)
  show "rc_decode c [] = (Inr None, [])" by (simp add: rc_decode_def widths)
qed

text \<open>
  The responses a server writes through the codec reach the client as
  written and in order, however the stream is cut, with nothing left over; the one-shot path of
  \<open>TcpResponseMessage\<close> writes the same frames and reads the same data.
\<close>

lemma tcp_response_stream:
  assumes "sent (rc_encode_message c) ms frames" and "concat chunks = concat frames"
  shows "feed (rc_decode c) [] chunks = (ms, None, []) \<and> map resp_encode ms = map Inr frames \<and>
    map resp_decode frames = map Inr ms"
proof (intro conjI)
  show "feed (rc_decode c) [] chunks = (ms, None, [])" by (rule resp.stream_received [OF assms])
  have one: "resp_encode m = Inr bs \<and> resp_decode bs = Inr m" if "rc_encode_message c m = Inr bs" for m bs
  proof -
    have m: "length (resp_data m) \<le> u32_max" "bs = resp_frame m"
      using that by (auto simp: rc_encode_message_ok resp_fits_def)
    have "be_value (take 4 bs) = length (resp_data m)"
      using m by (intro resp_frame_field [of m bs "[]"]) (auto simp: resp_frame_def)
    then show ?thesis
      using m by (auto simp: resp_encode_def resp_decode_def resp_frame_def cursor_defs byte_range_def checked_add_def
          u32_max_def usize_max_def Let_def)
  qed
  show "map resp_encode ms = map Inr frames" "map resp_decode frames = map Inr ms"
    using assms(1) one by (auto simp: sent_def list_all2_conv_all_nth intro: nth_equalityI)
qed

text \<open>
  With a limit set, the codec accepts a response on both sides exactly when
  its frame has at most that many bytes: the encoder leaves its buffer untouched otherwise, and the
  decoder refuses an announced size over the limit from the four length bytes alone.
\<close>

lemma tcp_response_limit:
  assumes "rc_max_message_size c = Some n" and "n \<le> u32_max"
  shows "rc_encode c m dst = (if 4 + length (resp_data m) \<le> n then (Inr (), dst @ resp_frame m)
      else (Inl (if length (resp_data m) \<le> u32_max then oversized (4 + length (resp_data m)) n
         else length_overflow ''Response too large'' (length (resp_data m))), dst)) \<and>
    (4 \<le> length src \<longrightarrow> n < 4 + be_value (take 4 src) \<longrightarrow>
       rc_decode c src = (Inl (oversized (4 + be_value (take 4 src)) n), src)) \<and>
    (4 + be_value (take 4 src) \<le> n \<longrightarrow> (\<exists>r. fst (rc_decode c src) = Inr r))"
proof (intro conjI impI)
  show "rc_encode c m dst = (if 4 + length (resp_data m) \<le> n then (Inr (), dst @ resp_frame m)
      else (Inl (if length (resp_data m) \<le> u32_max then oversized (4 + length (resp_data m)) n
         else length_overflow ''Response too large'' (length (resp_data m))), dst))"
    using assms by (simp add: rc_encode_def rc_enforce_max_def widths resp_frame_def Let_def)
  show "rc_decode c src = (Inl (oversized (4 + be_value (take 4 src)) n), src)"
    if "4 \<le> length src" "n < 4 + be_value (take 4 src)"
    using that assms by (simp add: rc_decode_def rc_enforce_max_def widths Let_def)
  show "\<exists>r. fst (rc_decode c src) = Inr r" if "4 + be_value (take 4 src) \<le> n"
    using that assms by (simp add: rc_decode_def rc_enforce_max_def widths Let_def)
qed

end
