(* ===== verification/ZeroCopy.thy ===== *)
theory ZeroCopy
  imports TcpCodec
begin

text \<open>
  The request plane's incremental reader, \<open>lib/runtime/src/pipeline/network/codec/zero_copy_decoder.rs\<close>:
  it fills a reusable buffer from a connection in four stages, checks the announced size before it
  waits for the payload, splits the frame off and shrinks an empty oversized buffer. A connection is
  the list of results its reads will give. How the \<open>bytes\<close> crate sizes a buffer is a parameter. The
  lemmas show that each read gives the next frame for every fragmentation and leaves the bytes that
  follow, what every early end and read error reports, and that the view agrees with the one-shot
  decoder.
\<close>

section \<open>Limits\<close>

definition DEFAULT_TCP_MAX_MESSAGE_SIZE :: nat where
  "DEFAULT_TCP_MAX_MESSAGE_SIZE = 32 * 1024 * 1024"

definition INITIAL_BUFFER_SIZE :: nat where
  "INITIAL_BUFFER_SIZE = 262144"

definition DEFAULT_SHRINK_SIZE :: nat where
  "DEFAULT_SHRINK_SIZE = 8 * 1024 * 1024"

text \<open>
  The two process-wide settings: a \<open>OnceLock\<close> is an optional value, an environment variable the text
  it is set to, if any.
\<close>

definition get_tcp_max_message_size :: "string option \<Rightarrow> nat option \<Rightarrow> nat \<times> nat option" where
  "get_tcp_max_message_size env cell =
     (case cell of
        Some n \<Rightarrow> (n, cell)
      | None \<Rightarrow>
          let n = (case Option.bind env parse_usize of Some v \<Rightarrow> v | None \<Rightarrow> DEFAULT_TCP_MAX_MESSAGE_SIZE)
          in (n, Some n))"

definition resolve_shrink_message_size :: "nat \<Rightarrow> nat option \<Rightarrow> nat" where
  "resolve_shrink_message_size max_size env_shrink_size =
     (let configured_size = (case env_shrink_size of Some v \<Rightarrow> v | None \<Rightarrow> DEFAULT_SHRINK_SIZE)
      in max (min configured_size max_size) INITIAL_BUFFER_SIZE)"

record tcp_settings =
  env_max_size :: "string option"
  env_shrink_size :: "string option"
  max_size_cell :: "nat option"
  shrink_size_cell :: "nat option"

definition get_shrink_message_size :: "tcp_settings \<Rightarrow> nat \<times> tcp_settings" where
  "get_shrink_message_size g =
     (case shrink_size_cell g of
        Some n \<Rightarrow> (n, g)
      | None \<Rightarrow>
          let (max_size, cell) = get_tcp_max_message_size (env_max_size g) (max_size_cell g);
              resolved = resolve_shrink_message_size max_size (Option.bind (env_shrink_size g) parse_usize)
          in (resolved, g\<lparr>max_size_cell := cell, shrink_size_cell := Some resolved\<rparr>))"

section \<open>The decoder\<close>

datatype FillStage = PortNameLen | PortNameAndHeadersLen | FullHeader | FullMessage nat

definition into_eof_error :: "FillStage \<Rightarrow> nat \<Rightarrow> io_error" where
  "into_eof_error stage buffered_now =
     (case stage of
        PortNameLen \<Rightarrow>
          if buffered_now = 0 then IoError UnexpectedEof ''connection closed''
          else IoError UnexpectedEof ''incomplete message header''
      | PortNameAndHeadersLen \<Rightarrow> IoError UnexpectedEof ''incomplete message header''
      | FullHeader \<Rightarrow> IoError UnexpectedEof ''incomplete message header''
      | FullMessage n \<Rightarrow> IoError UnexpectedEof
          (''incomplete message: expected '' @ dec_string n @ '' bytes, got '' @ dec_string buffered_now))"

text \<open>
  A \<open>BytesMut\<close> is its bytes and its capacity; the capacity after an allocation, a read and a split is
  up to the \<open>bytes\<close> crate.
\<close>

record BytesMut =
  bm_bytes :: "u8 list"
  bm_capacity :: nat

record bytes_crate =
  cap_new :: "nat \<Rightarrow> nat"
  cap_read :: "BytesMut \<Rightarrow> u8 list \<Rightarrow> nat"
  cap_split :: "BytesMut \<Rightarrow> nat \<Rightarrow> nat"

definition bm_with_capacity :: "bytes_crate \<Rightarrow> nat \<Rightarrow> BytesMut" where
  "bm_with_capacity A n = \<lparr>bm_bytes = [], bm_capacity = cap_new A n\<rparr>"

definition bm_split_to :: "bytes_crate \<Rightarrow> nat \<Rightarrow> BytesMut \<Rightarrow> u8 list \<times> BytesMut" where
  "bm_split_to A n b = (take n (bm_bytes b), \<lparr>bm_bytes = drop n (bm_bytes b), bm_capacity = cap_split A b n\<rparr>)"

record ZeroCopyTcpDecoder =
  read_buffer :: BytesMut
  max_message_size :: nat
  shrink_threshold :: nat

definition zc_with_capacity :: "bytes_crate \<Rightarrow> tcp_settings \<Rightarrow> nat \<Rightarrow> ZeroCopyTcpDecoder \<times> tcp_settings" where
  "zc_with_capacity A g capacity =
     (let (mx, cell) = get_tcp_max_message_size (env_max_size g) (max_size_cell g);
          (sh, g') = get_shrink_message_size (g\<lparr>max_size_cell := cell\<rparr>)
      in (\<lparr>read_buffer = bm_with_capacity A capacity, max_message_size = mx, shrink_threshold = sh\<rparr>, g'))"

definition zc_new :: "bytes_crate \<Rightarrow> tcp_settings \<Rightarrow> ZeroCopyTcpDecoder \<times> tcp_settings" where
  "zc_new A g = zc_with_capacity A g INITIAL_BUFFER_SIZE"

definition buffered_len :: "ZeroCopyTcpDecoder \<Rightarrow> nat" where
  "buffered_len d = length (bm_bytes (read_buffer d))"

text \<open>
  A connection is the list of what its next reads give: an error, or the bytes that arrive, none at
  the end of the stream; an exhausted list is an ended stream. \<open>read_buf\<close> appends to the buffer.
\<close>

type_synonym reader = "(io_error + u8 list) list"

definition read_buf :: "bytes_crate \<Rightarrow> reader \<Rightarrow> BytesMut \<Rightarrow> (io_error + nat) \<times> reader \<times> BytesMut" where
  "read_buf A r b =
     (case r of
        [] \<Rightarrow> (Inr 0, [], b)
      | Inl e # r' \<Rightarrow> (Inl e, r', b)
      | Inr bs # r' \<Rightarrow> (Inr (length bs), r', \<lparr>bm_bytes = bm_bytes b @ bs, bm_capacity = cap_read A b bs\<rparr>))"

function fill_at_least :: "bytes_crate \<Rightarrow> nat \<Rightarrow> FillStage \<Rightarrow> reader \<Rightarrow> ZeroCopyTcpDecoder \<Rightarrow>
    (io_error + unit) \<times> reader \<times> ZeroCopyTcpDecoder" where
  "fill_at_least A need stage r d =
     (if need \<le> buffered_len d then (Inr (), r, d)
      else case read_buf A r (read_buffer d) of
        (Inl e, r', b) \<Rightarrow> (Inl e, r', d\<lparr>read_buffer := b\<rparr>)
      | (Inr n, r', b) \<Rightarrow>
          if n = 0 then (Inl (into_eof_error stage (length (bm_bytes b))), r', d\<lparr>read_buffer := b\<rparr>)
          else fill_at_least A need stage r' (d\<lparr>read_buffer := b\<rparr>))"
  by pat_completeness auto
termination
  by (relation "measure (\<lambda>(A, need, stage, r, d). length r)") (auto simp: read_buf_def split: list.splits sum.splits)

declare fill_at_least.simps [simp del]

definition try_shrink_after_split :: "bytes_crate \<Rightarrow> ZeroCopyTcpDecoder \<Rightarrow> ZeroCopyTcpDecoder" where
  "try_shrink_after_split A d =
     (if bm_bytes (read_buffer d) = [] \<and> shrink_threshold d < bm_capacity (read_buffer d)
      then d\<lparr>read_buffer := bm_with_capacity A INITIAL_BUFFER_SIZE\<rparr> else d)"

section \<open>The message view\<close>

record TcpRequestMessageZeroCopy =
  zc_raw :: "u8 list"
  zc_parsed :: TcpRequestWireHeader

definition portname_path_bytes :: "TcpRequestMessageZeroCopy \<Rightarrow> u8 list" where
  "portname_path_bytes z = byte_range (portname_start (zc_parsed z), portname_end (zc_parsed z)) (zc_raw z)"

definition zc_portname_path :: "TcpRequestMessageZeroCopy \<Rightarrow> Utf8Error + u8 list" where
  "zc_portname_path z = from_utf8 (portname_path_bytes z)"

definition headers_bytes :: "TcpRequestMessageZeroCopy \<Rightarrow> u8 list" where
  "headers_bytes z = byte_range (headers_start (zc_parsed z), headers_end (zc_parsed z)) (zc_raw z)"

definition zc_headers :: "json \<Rightarrow> TcpRequestMessageZeroCopy \<Rightarrow> header_map" where
  "zc_headers J z =
     (let hb = headers_bytes z in
      if hb = [] then [] else case from_slice J hb of Inr h \<Rightarrow> h | Inl _ \<Rightarrow> [])"

definition zc_payload :: "TcpRequestMessageZeroCopy \<Rightarrow> u8 list" where
  "zc_payload z = drop (payload_start (zc_parsed z)) (zc_raw z)"

definition total_size :: "TcpRequestMessageZeroCopy \<Rightarrow> nat" where
  "total_size z = length (zc_raw z)"

text \<open>
  One read: each stage either fails, leaving what was read in the buffer, or goes on.
\<close>

definition zc_bind :: "(io_error + 'a) \<times> reader \<times> ZeroCopyTcpDecoder \<Rightarrow>
    ('a \<Rightarrow> reader \<Rightarrow> ZeroCopyTcpDecoder \<Rightarrow> (io_error + 'b) \<times> reader \<times> ZeroCopyTcpDecoder) \<Rightarrow>
    (io_error + 'b) \<times> reader \<times> ZeroCopyTcpDecoder" where
  "zc_bind x f = (case x of (Inl e, r, d) \<Rightarrow> (Inl e, r, d) | (Inr v, r, d) \<Rightarrow> f v r d)"

definition read_message :: "bytes_crate \<Rightarrow> reader \<Rightarrow> ZeroCopyTcpDecoder \<Rightarrow>
    (io_error + TcpRequestMessageZeroCopy) \<times> reader \<times> ZeroCopyTcpDecoder" where
  "read_message A r d =
     zc_bind (fill_at_least A ENDPOINT_LEN_WIDTH PortNameLen r d) (\<lambda>_ r d.
     zc_bind (tcp_request_portname_len (bm_bytes (read_buffer d)), r, d) (\<lambda>path_len r d.
     zc_bind (fill_at_least A (ENDPOINT_LEN_WIDTH + path_len + HEADERS_LEN_WIDTH) PortNameAndHeadersLen r d) (\<lambda>_ r d.
     zc_bind (tcp_request_headers_len (bm_bytes (read_buffer d)) path_len, r, d) (\<lambda>headers_len r d.
     zc_bind (fill_at_least A (tcp_request_header_size path_len headers_len) FullHeader r d) (\<lambda>_ r d.
     zc_bind (parse_tcp_request_frame_header (bm_bytes (read_buffer d)), r, d) (\<lambda>parsed r d.
     zc_bind (check_tcp_request_max_message_size (wh_total_len parsed) (max_message_size d), r, d) (\<lambda>_ r d.
     zc_bind (fill_at_least A (wh_total_len parsed) (FullMessage (wh_total_len parsed)) r d) (\<lambda>_ r d.
     case bm_split_to A (wh_total_len parsed) (read_buffer d) of
       (message_bytes, b) \<Rightarrow>
         (Inr \<lparr>zc_raw = message_bytes, zc_parsed = parsed\<rparr>, r, try_shrink_after_split A (d\<lparr>read_buffer := b\<rparr>))))))))))"

section \<open>What a connection delivers\<close>

text \<open>The bytes that arrive before the stream ends or a read fails, and the failure, if any.\<close>

fun avail :: "reader \<Rightarrow> u8 list" where
  "avail [] = []"
| "avail (Inl e # r) = []"
| "avail (Inr bs # r) = (if bs = [] then [] else bs @ avail r)"

fun fate :: "reader \<Rightarrow> io_error option" where
  "fate [] = None"
| "fate (Inl e # r) = Some e"
| "fate (Inr bs # r) = (if bs = [] then None else fate r)"

definition short_error :: "FillStage \<Rightarrow> u8 list \<Rightarrow> io_error option \<Rightarrow> io_error" where
  "short_error st t f = (case f of None \<Rightarrow> into_eof_error st (length t) | Some e \<Rightarrow> e)"

abbreviation zc_bytes :: "ZeroCopyTcpDecoder \<Rightarrow> u8 list" where
  "zc_bytes d \<equiv> bm_bytes (read_buffer d)"

definition keeps :: "ZeroCopyTcpDecoder \<Rightarrow> ZeroCopyTcpDecoder \<Rightarrow> bool" where
  "keeps d d' = (max_message_size d' = max_message_size d \<and> shrink_threshold d' = shrink_threshold d)"

lemma keeps_simps [simp]: "keeps d d" "keeps d (d\<lparr>read_buffer := b\<rparr>)" "keeps d (try_shrink_after_split A d)"
  by (simp_all add: keeps_def try_shrink_after_split_def)

lemma keeps_trans [trans]: "keeps d d' \<Longrightarrow> keeps d' d'' \<Longrightarrow> keeps d d''"
  by (simp add: keeps_def)

lemma fill_enough: "need \<le> buffered_len d \<Longrightarrow> fill_at_least A need st r d = (Inr (), r, d)"
  by (subst fill_at_least.simps) simp

lemma fill_read: "\<not> need \<le> buffered_len d \<Longrightarrow> bs \<noteq> [] \<Longrightarrow>
  fill_at_least A need st (Inr bs # r) d =
    fill_at_least A need st r (d\<lparr>read_buffer := \<lparr>bm_bytes = zc_bytes d @ bs, bm_capacity = cap_read A (read_buffer d) bs\<rparr>\<rparr>)"
  by (subst fill_at_least.simps) (simp add: read_buf_def)

lemma fill_ends: "\<not> need \<le> buffered_len d \<Longrightarrow> avail r = [] \<Longrightarrow>
  \<exists>r' d'. fill_at_least A need st r d = (Inl (short_error st (zc_bytes d) (fate r)), r', d') \<and>
    zc_bytes d' = zc_bytes d \<and> keeps d d'"
  by (subst fill_at_least.simps)
    (auto simp: read_buf_def short_error_def buffered_len_def keeps_def split: list.splits sum.splits if_splits)

lemma fill_spec:
  assumes "t = zc_bytes d @ avail r"
  shows "(need \<le> length t \<longrightarrow> (\<exists>r' d'. fill_at_least A need st r d = (Inr (), r', d') \<and> need \<le> length (zc_bytes d') \<and>
      zc_bytes d' @ avail r' = t \<and> fate r' = fate r \<and> keeps d d')) \<and>
    (length t < need \<longrightarrow> (\<exists>r' d'. fill_at_least A need st r d = (Inl (short_error st t (fate r)), r', d') \<and>
      zc_bytes d' = t \<and> keeps d d'))"
  using assms
proof (induction r arbitrary: d)
  case Nil
  then show ?case
    using fill_enough [of need d] fill_ends [of need d "[]"] by (auto simp: buffered_len_def)
next
  case (Cons x r)
  show ?case
  proof (cases "need \<le> buffered_len d")
    case True
    then show ?thesis using Cons.prems fill_enough [of need d] by (auto simp: buffered_len_def)
  next
    case False
    show ?thesis
    proof (cases "\<exists>bs. x = Inr bs \<and> bs \<noteq> []")
      case True
      then obtain bs where bs: "x = Inr bs" "bs \<noteq> []" by blast
      let ?d = "d\<lparr>read_buffer := \<lparr>bm_bytes = zc_bytes d @ bs, bm_capacity = cap_read A (read_buffer d) bs\<rparr>\<rparr>"
      have "keeps ?d d' \<Longrightarrow> keeps d d'" for d' by (simp add: keeps_def)
      then show ?thesis using Cons.IH [of ?d] Cons.prems bs fill_read [OF False bs(2)] by fastforce
    next
      case no: False
      then have "avail (x # r) = []" by (cases x) auto
      then show ?thesis using False Cons.prems fill_ends [OF False, of "x # r"] by (auto simp: buffered_len_def)
    qed
  qed
qed

lemma fill_ok:
  assumes "need \<le> length t" and "t = zc_bytes d @ avail r"
  obtains r' d' where "fill_at_least A need st r d = (Inr (), r', d')" and "need \<le> length (zc_bytes d')"
    and "t = zc_bytes d' @ avail r'" and "fate r' = fate r" and "keeps d d'"
  using fill_spec [OF assms(2), of need A st] assms(1) by auto

lemma fill_short:
  assumes "length t < need" and "t = zc_bytes d @ avail r"
  obtains r' d' where "fill_at_least A need st r d = (Inl (short_error st t (fate r)), r', d')"
    and "zc_bytes d' = t" and "keeps d d'"
  using fill_spec [OF assms(2), of need A st] assms(1) by auto

section \<open>What a read returns\<close>

definition wire_header :: "u8 list \<Rightarrow> TcpRequestWireHeader" where
  "wire_header t = \<lparr>wh_portname_len = path_field t, wh_headers_len = headers_field t, wh_payload_len = payload_field t,
     wh_header_size = header_end t, wh_total_len = header_end t + payload_field t\<rparr>"

definition frame_size :: "u8 list \<Rightarrow> nat" where
  "frame_size t = header_end t + payload_field t"

definition read_outcome :: "nat \<Rightarrow> u8 list \<Rightarrow> io_error option \<Rightarrow> io_error + TcpRequestMessageZeroCopy" where
  "read_outcome mx t f =
     (if length t < 2 then Inl (short_error PortNameLen t f)
      else if length t < 4 + path_field t then Inl (short_error PortNameAndHeadersLen t f)
      else if length t < header_end t then Inl (short_error FullHeader t f)
      else if mx < frame_size t then Inl (oversized (frame_size t) mx)
      else if length t < frame_size t then Inl (short_error (FullMessage (frame_size t)) t f)
      else Inr \<lparr>zc_raw = take (frame_size t) t, zc_parsed = wire_header t\<rparr>)"

text \<open>What is left for the next read.\<close>

definition left_over :: "u8 list \<Rightarrow> reader \<Rightarrow> (io_error + TcpRequestMessageZeroCopy) \<times> reader \<times> ZeroCopyTcpDecoder \<Rightarrow> bool" where
  "left_over t r x = (case x of (res, r', d') \<Rightarrow>
     case res of
       Inr z \<Rightarrow> zc_bytes d' @ avail r' = drop (length (zc_raw z)) t \<and> fate r' = fate r
     | Inl e \<Rightarrow> zc_bytes d' = t \<or> zc_bytes d' @ avail r' = t \<and> fate r' = fate r)"

lemma portname_len_eq: "2 \<le> length bs \<Longrightarrow> tcp_request_portname_len bs = Inr (path_field bs)"
  by (simp add: tcp_request_portname_len_def cursor_new_def read_u16_at path_field_def)

lemma headers_len_eq: "4 + path_field bs \<le> length bs \<Longrightarrow> tcp_request_headers_len bs (path_field bs) = Inr (headers_field bs)"
  by (simp add: tcp_request_headers_len_def cursor_new_def read_u16_at skip_at headers_field_def)

lemma frame_header_ok: "header_end bs \<le> length bs \<Longrightarrow> parse_tcp_request_frame_header bs = Inr (wire_header bs)"
  by (simp add: parse_frame_header_eq wire_header_def header_end_def)

lemma zc_bind_simps [simp]: "zc_bind (Inl e, r, d) f = (Inl e, r, d)" "zc_bind (Inr v, r, d) f = f v r d"
  by (simp_all add: zc_bind_def)

lemma prefix_fields:
  assumes "t = bs @ xs"
  shows "2 \<le> length bs \<Longrightarrow> path_field bs = path_field t"
    and "4 + path_field t \<le> length bs \<Longrightarrow> headers_field bs = headers_field t"
    and "header_end t \<le> length bs \<Longrightarrow> header_end bs = header_end t \<and> wire_header bs = wire_header t"
proof -
  show p: "path_field bs = path_field t" if "2 \<le> length bs" using that assms field_append(1) by metis
  show h: "headers_field bs = headers_field t" if "4 + path_field t \<le> length bs"
    using that assms field_append(2) [of bs xs] p by simp
  show "header_end bs = header_end t \<and> wire_header bs = wire_header t" if l: "header_end t \<le> length bs"
  proof -
    have "header_end bs = header_end t" using p h l by (simp add: header_end_def)
    then show ?thesis using p h l field_append(3) [of bs xs] assms by (simp add: wire_header_def header_end_def)
  qed
qed

text \<open>
  The stages in turn. After stage one the path length is known, after stage two the header length,
  after stage three the whole header, and the last stage waits for the payload.
\<close>

lemma read_payload:
  assumes t: "t = zc_bytes d @ avail r" and got: "header_end t \<le> length (zc_bytes d)"
    and fits: "frame_size t \<le> max_message_size d"
  shows "\<exists>r' d'. zc_bind (fill_at_least A (frame_size t) (FullMessage (frame_size t)) r d) (\<lambda>_ r d.
       case bm_split_to A (frame_size t) (read_buffer d) of
         (message_bytes, b) \<Rightarrow>
           (Inr \<lparr>zc_raw = message_bytes, zc_parsed = wire_header t\<rparr>, r, try_shrink_after_split A (d\<lparr>read_buffer := b\<rparr>)))
     = (read_outcome (max_message_size d) t (fate r), r', d') \<and>
     left_over t r (read_outcome (max_message_size d) t (fate r), r', d') \<and> keeps d d'"
proof -
  have "length (zc_bytes d) \<le> length t" using t by simp
  then have out: "read_outcome (max_message_size d) t (fate r) =
      (if length t < frame_size t then Inl (short_error (FullMessage (frame_size t)) t (fate r))
       else Inr \<lparr>zc_raw = take (frame_size t) t, zc_parsed = wire_header t\<rparr>)"
    using got fits by (auto simp: read_outcome_def header_end_def)
  show ?thesis
  proof (cases "length t < frame_size t")
    case True
    obtain r' d' where "fill_at_least A (frame_size t) (FullMessage (frame_size t)) r d =
        (Inl (short_error (FullMessage (frame_size t)) t (fate r)), r', d')" "zc_bytes d' = t" "keeps d d'"
      by (rule fill_short [OF True t])
    then show ?thesis using True unfolding out by (simp add: left_over_def)
  next
    case False
    then have "frame_size t \<le> length t" by simp
    then show ?thesis
    proof (rule fill_ok [OF _ t, of _ A])
      fix r' d'
      assume f: "fill_at_least A (frame_size t) (FullMessage (frame_size t)) r d = (Inr (), r', d')"
        and l: "frame_size t \<le> length (zc_bytes d')" and t': "t = zc_bytes d' @ avail r'"
        and fate: "fate r' = fate r" and k: "keeps d d'"
      let ?b = "\<lparr>bm_bytes = drop (frame_size t) (zc_bytes d'), bm_capacity = cap_split A (read_buffer d') (frame_size t)\<rparr>"
      have "zc_bytes (try_shrink_after_split A (d'\<lparr>read_buffer := ?b\<rparr>)) = drop (frame_size t) (zc_bytes d')"
        by (simp add: try_shrink_after_split_def bm_with_capacity_def)
      moreover have "drop (frame_size t) t = drop (frame_size t) (zc_bytes d') @ avail r'"
        using l by (subst (2) t') simp
      moreover have "take (frame_size t) t = take (frame_size t) (zc_bytes d')" using l by (subst (2) t') simp
      moreover have "length (take (frame_size t) t) = frame_size t" using False by simp
      moreover have "keeps d (try_shrink_after_split A (d'\<lparr>read_buffer := ?b\<rparr>))"
        using k by (simp add: keeps_def try_shrink_after_split_def)
      ultimately show ?thesis using False f fate unfolding out by (simp add: bm_split_to_def left_over_def)
    qed
  qed
qed

lemma short_left: "zc_bytes d' = t \<Longrightarrow> left_over t r (Inl e, r', d')"
  by (simp add: left_over_def)

lemma read_message_spec:
  assumes t: "t = zc_bytes d @ avail r"
  shows "\<exists>r' d'. read_message A r d = (read_outcome (max_message_size d) t (fate r), r', d') \<and>
    left_over t r (read_outcome (max_message_size d) t (fate r), r', d') \<and> keeps d d'"
proof (cases "length t < 2")
  case True
  obtain r' d' where "fill_at_least A 2 PortNameLen r d = (Inl (short_error PortNameLen t (fate r)), r', d')"
    "zc_bytes d' = t" "keeps d d'"
    by (rule fill_short [OF True t])
  then show ?thesis using True unfolding read_message_def widths by (simp add: read_outcome_def short_left)
next
  case False
  then have "2 \<le> length t" by simp
  then obtain r1 d1 where f1: "fill_at_least A 2 PortNameLen r d = (Inr (), r1, d1)" and l1: "2 \<le> length (zc_bytes d1)"
    and t1: "t = zc_bytes d1 @ avail r1" and k1: "fate r1 = fate r" "keeps d d1"
    by (rule fill_ok [OF _ t, of _ A PortNameLen])
  note p1 = portname_len_eq [OF l1, unfolded prefix_fields(1) [OF t1 l1]]
  show ?thesis
  proof (cases "length t < 2 + path_field t + 2")
    case True
    then show ?thesis
    proof (rule fill_short [OF _ t1, of _ A PortNameAndHeadersLen])
      fix r' d'
      assume "fill_at_least A (2 + path_field t + 2) PortNameAndHeadersLen r1 d1 =
          (Inl (short_error PortNameAndHeadersLen t (fate r1)), r', d')" and "zc_bytes d' = t" and "keeps d1 d'"
      then show ?thesis
        using False True k1 p1 f1 unfolding read_message_def widths
        by (auto simp: read_outcome_def short_left intro: keeps_trans)
    qed
  next
    case h: False
    then have "2 + path_field t + 2 \<le> length t" by simp
    then obtain r2 d2 where f2: "fill_at_least A (2 + path_field t + 2) PortNameAndHeadersLen r1 d1 = (Inr (), r2, d2)"
      and l2: "2 + path_field t + 2 \<le> length (zc_bytes d2)" and t2: "t = zc_bytes d2 @ avail r2"
      and k2: "fate r2 = fate r1" "keeps d1 d2"
      by (rule fill_ok [OF _ t1, of _ A PortNameAndHeadersLen])
    have q2: "path_field (zc_bytes d2) = path_field t" "headers_field (zc_bytes d2) = headers_field t"
      using l2 prefix_fields(1,2) [OF t2] by auto
    have p2: "tcp_request_headers_len (zc_bytes d2) (path_field t) = Inr (headers_field t)"
      using headers_len_eq [of "zc_bytes d2"] l2 q2 by simp
    have size: "tcp_request_header_size (path_field t) (headers_field t) = header_end t"
      by (simp add: tcp_request_header_size_def widths header_end_def)
    show ?thesis
    proof (cases "length t < header_end t")
      case True
      then show ?thesis
      proof (rule fill_short [OF _ t2, of _ A FullHeader])
        fix r' d'
        assume "fill_at_least A (header_end t) FullHeader r2 d2 = (Inl (short_error FullHeader t (fate r2)), r', d')"
          and "zc_bytes d' = t" and "keeps d2 d'"
        then show ?thesis
          using False h True k1 k2 p1 p2 f1 f2 size unfolding read_message_def widths
          by (auto simp: read_outcome_def short_left intro: keeps_trans)
      qed
    next
      case full: False
      then have "header_end t \<le> length t" by simp
      then obtain r3 d3 where f3: "fill_at_least A (header_end t) FullHeader r2 d2 = (Inr (), r3, d3)"
        and l3: "header_end t \<le> length (zc_bytes d3)" and t3: "t = zc_bytes d3 @ avail r3"
        and k3: "fate r3 = fate r2" "keeps d2 d3"
        by (rule fill_ok [OF _ t2, of _ A FullHeader])
      have p3: "parse_tcp_request_frame_header (zc_bytes d3) = Inr (wire_header t)"
        using frame_header_ok [of "zc_bytes d3"] prefix_fields(3) [OF t3 l3] l3 by simp
      have k: "fate r3 = fate r" "keeps d d3" using k1 k2 k3 by (auto intro: keeps_trans)
      then have mx: "max_message_size d3 = max_message_size d" by (simp add: keeps_def)
      have tot: "wh_total_len (wire_header t) = frame_size t" by (simp add: wire_header_def frame_size_def)
      note steps = read_message_def widths f1 zc_bind_simps p1 f2 p2 size f3 p3 tot mx
      show ?thesis
      proof (cases "max_message_size d < frame_size t")
        case True
        then have "read_outcome (max_message_size d) t (fate r) = Inl (oversized (frame_size t) (max_message_size d))"
          using False h full by (simp add: read_outcome_def)
        then show ?thesis
          using True k t3 unfolding steps by (simp add: check_tcp_request_max_message_size_def left_over_def)
      next
        case fits: False
        have "left_over t r3 x = left_over t r x" for x using k(1) by (simp add: left_over_def split: prod.splits sum.splits)
        then show ?thesis
          using fits read_payload [OF t3 l3, of A] k unfolding steps mx
          by (auto simp: check_tcp_request_max_message_size_def intro: keeps_trans)
      qed
    qed
  qed
qed

section \<open>Properties\<close>

text \<open>
  C25 (zero_copy_read): what a read returns depends only on the buffered bytes and those the
  connection delivers before it ends or fails, never on how they are split into reads: the next
  complete frame, leaving exactly the bytes behind it; or, when the bytes end early, the error of the
  stage that was waiting (a failed read is passed on); or, for a frame over the limit, a refusal as
  soon as its header is complete. No byte is lost on an error.
\<close>

theorem zero_copy_read:
  "let t = zc_bytes d @ avail r in
   \<exists>r' d'. read_message A r d = (read_outcome (max_message_size d) t (fate r), r', d') \<and>
     left_over t r (read_outcome (max_message_size d) t (fate r), r', d') \<and> keeps d d'"
  using read_message_spec [of "zc_bytes d @ avail r" d r A] by (simp add: Let_def)

text \<open>Reading a connection to its end.\<close>

fun read_many :: "bytes_crate \<Rightarrow> nat \<Rightarrow> reader \<Rightarrow> ZeroCopyTcpDecoder \<Rightarrow> (io_error + TcpRequestMessageZeroCopy) list" where
  "read_many A 0 r d = []"
| "read_many A (Suc n) r d = (case read_message A r d of (res, r', d') \<Rightarrow> res # read_many A n r' d')"

definition frame_view :: "u8 list \<Rightarrow> TcpRequestMessageZeroCopy" where
  "frame_view bs = \<lparr>zc_raw = bs, zc_parsed = wire_header bs\<rparr>"

lemma read_outcome_frame:
  assumes "req_encode J m = Inr bs" and "length bs \<le> mx"
  shows "read_outcome mx (bs @ rest) f = Inr (frame_view bs)"
proof -
  obtain hj where hj: "req_fits (portname_path m) hj (req_payload m)" "bs = req_frame (portname_path m) hj (req_payload m)"
    using req_encode_ok [OF assms(1)] by blast
  have fields: "path_field (bs @ rest') = length (portname_path m)" "headers_field (bs @ rest') = length hj"
    "payload_field (bs @ rest') = length (req_payload m)" for rest'
    using req_frame_fields [OF hj(1)] hj(2) by simp_all
  have len: "length bs = 8 + length (portname_path m) + length hj + length (req_payload m)"
    using hj(2) length_req_frame by simp
  have size: "frame_size (bs @ rest') = length bs" "wire_header (bs @ rest') = wire_header bs" for rest'
    using fields [of rest'] fields [of "[]"] len by (simp_all add: frame_size_def header_end_def wire_header_def)
  have "read_outcome mx (bs @ rest) f = Inr \<lparr>zc_raw = take (length bs) (bs @ rest), zc_parsed = wire_header bs\<rparr>"
    using assms(2) size [of rest] fields [of rest] len by (simp add: read_outcome_def header_end_def)
  then show ?thesis by (simp add: frame_view_def)
qed

lemma read_many_frames:
  assumes "list_all2 (\<lambda>m bs. req_encode J m = Inr bs \<and> length bs \<le> max_message_size d) ms frames"
    and "zc_bytes d @ avail r = concat frames @ rest"
  shows "\<exists>r' d'. read_many A (length ms + k) r d = map (Inr \<circ> frame_view) frames @ read_many A k r' d' \<and>
    zc_bytes d' @ avail r' = rest \<and> fate r' = fate r \<and> keeps d d'"
  using assms
proof (induction ms arbitrary: frames r d)
  case Nil
  then show ?case by fastforce
next
  case (Cons m ms)
  obtain bs frames' where fr: "frames = bs # frames'" "req_encode J m = Inr bs" "length bs \<le> max_message_size d"
    "list_all2 (\<lambda>m bs. req_encode J m = Inr bs \<and> length bs \<le> max_message_size d) ms frames'"
    using Cons.prems(1) by (auto simp: list_all2_Cons1)
  have t: "bs @ concat frames' @ rest = zc_bytes d @ avail r" using Cons.prems(2) fr(1) by simp
  obtain r' d' where rd: "read_message A r d = (Inr (frame_view bs), r', d')"
    "zc_bytes d' @ avail r' = concat frames' @ rest" "fate r' = fate r" "keeps d d'"
    using read_message_spec [OF t, of A] read_outcome_frame [OF fr(2,3)] by (auto simp: left_over_def frame_view_def)
  have "list_all2 (\<lambda>m bs. req_encode J m = Inr bs \<and> length bs \<le> max_message_size d') ms frames'"
    using fr(4) rd(4) by (simp add: keeps_def)
  from Cons.IH [OF this rd(2)] obtain r'' d'' where
    "read_many A (length ms + k) r' d' = map (Inr \<circ> frame_view) frames' @ read_many A k r'' d''"
    "zc_bytes d'' @ avail r'' = rest" "fate r'' = fate r'" "keeps d' d''" by blast
  then show ?case using rd fr(1) by (auto intro: keeps_trans)
qed

text \<open>
  C21 (zero_copy_stream): a client that writes encoded requests within the limit and closes the
  connection is served exactly these frames in order, for every fragmentation of the stream, also
  when the decoder still buffers some of the bytes from before; the read after the last one reports
  the orderly close and not a broken frame.
\<close>

theorem zero_copy_stream:
  assumes "list_all2 (\<lambda>m bs. req_encode J m = Inr bs \<and> length bs \<le> max_message_size d) ms frames"
    and "zc_bytes d @ avail r = concat frames" and "fate r = None"
  shows "read_many A (length ms + 1) r d =
    map (Inr \<circ> frame_view) frames @ [Inl (IoError UnexpectedEof ''connection closed'')]"
proof -
  obtain r' d' where rd: "read_many A (length ms + 1) r d = map (Inr \<circ> frame_view) frames @ read_many A 1 r' d'"
    "[] = zc_bytes d' @ avail r'" "fate r' = None"
    using read_many_frames [OF assms(1), of r "[]" A 1] assms(2,3) by auto
  have "fst (read_message A r' d') = Inl (IoError UnexpectedEof ''connection closed'')"
    using read_message_spec [OF rd(2), of A] rd(3) by (auto simp: read_outcome_def short_error_def into_eof_error_def)
  then show ?thesis using rd(1) by (simp split: prod.splits)
qed

definition demo_crate :: bytes_crate where
  "demo_crate = \<lparr>cap_new = (\<lambda>n. n), cap_read = (\<lambda>b bs. max (bm_capacity b) (length (bm_bytes b @ bs))),
     cap_split = (\<lambda>b n. bm_capacity b - n)\<rparr>"

definition demo_decoder :: ZeroCopyTcpDecoder where
  "demo_decoder = \<lparr>read_buffer = bm_with_capacity demo_crate 64, max_message_size = 100, shrink_threshold = 40\<rparr>"

theorem zero_copy_stream_witness:
  "let frame = req_frame [103, 101, 110] [123, 107, 58, 118, 125] [1, 2, 3, 255];
       r = [Inr (take 1 (frame @ frame)), Inr (drop 1 (frame @ frame)), Inr []]
   in read_many demo_crate 3 r demo_decoder =
        [Inr (frame_view frame), Inr (frame_view frame), Inl (IoError UnexpectedEof ''connection closed'')]"
proof -
  let ?frame = "req_frame [103, 101, 110] [123, 107, 58, 118, 125] [1, 2, 3, 255]"
  let ?r = "[Inr (take 1 (?frame @ ?frame)), Inr (drop 1 (?frame @ ?frame)), Inr []] :: reader"
  have len: "length ?frame = 20" by (simp add: length_req_frame)
  then have ne: "take 1 (?frame @ ?frame) \<noteq> []" "drop 1 (?frame @ ?frame) \<noteq> []" by auto
  have "zc_bytes demo_decoder @ avail ?r = concat [?frame, ?frame]"
    using ne append_take_drop_id [of 1 "?frame @ ?frame"]
    by (simp add: demo_decoder_def bm_with_capacity_def del: append_take_drop_id)
  moreover have "fate ?r = None" using ne by simp
  moreover have "list_all2 (\<lambda>m bs. req_encode demo_json m = Inr bs \<and> length bs \<le> max_message_size demo_decoder)
      [demo_request, demo_request] [?frame, ?frame]"
    using demo_request_encode len by (simp add: demo_decoder_def)
  ultimately have "read_many demo_crate (length [demo_request, demo_request] + 1) ?r demo_decoder =
      map (Inr \<circ> frame_view) [?frame, ?frame] @ [Inl (IoError UnexpectedEof ''connection closed'')]"
    by (intro zero_copy_stream)
  then show ?thesis by (simp only: Let_def list.map comp_apply append.simps) (simp add: numeral_3_eq_3)
qed

lemma view_of_frame:
  assumes "zc_raw z = req_frame path hj payload" and "wh_portname_len (zc_parsed z) = length path"
    and "wh_headers_len (zc_parsed z) = length hj" and "wh_header_size (zc_parsed z) = 8 + length path + length hj"
  shows "portname_path_bytes z = path" and "headers_bytes z = hj" and "zc_payload z = payload"
  using assms
  by (simp_all add: portname_path_bytes_def headers_bytes_def zc_payload_def wire_header_defs byte_range_def req_frame_def)

text \<open>
  C26 (zero_copy_agrees): the view of a frame that was read agrees with the one-shot decoder on the
  same bytes: whenever that one accepts them, path, headers and payload are the same; when it does
  not, the view either refuses the path for the same reason or, where only the headers are not
  JSON, shows no headers. The JSON library is only required to reject the empty text.
\<close>

theorem zero_copy_agrees:
  assumes "read_message A r d = (Inr z, r', d')" and "from_slice J [] = Inl e"
  shows "case req_decode J (zc_raw z) of
      Inr m \<Rightarrow> zc_portname_path z = Inr (portname_path m) \<and> zc_headers J z = req_headers m \<and> zc_payload z = req_payload m
    | Inl err \<Rightarrow> io_kind err = InvalidData \<and>
        ((\<exists>u. zc_portname_path z = Inl u) \<or> (\<exists>je. from_slice J (headers_bytes z) = Inl je) \<and> zc_headers J z = [])"
proof -
  let ?t = "zc_bytes d @ avail r"
  have out: "read_outcome (max_message_size d) ?t (fate r) = Inr z"
    using read_message_spec [of ?t d r A] assms(1) by auto
  then have size: "header_end ?t + payload_field ?t \<le> length ?t" and raw: "zc_raw z = take (frame_size ?t) ?t"
    and wh: "zc_parsed z = wire_header ?t"
    by (auto simp: read_outcome_def frame_size_def split: if_splits)
  note split = frame_split [OF size]
  define path hj payload where "path = byte_range (2, 2 + path_field ?t) ?t"
    and "hj = byte_range (4 + path_field ?t, 4 + path_field ?t + headers_field ?t) ?t"
    and "payload = byte_range (header_end ?t, header_end ?t + payload_field ?t) ?t"
  note f = split [folded path_def hj_def payload_def]
  have len: "frame_size ?t = length (req_frame path hj payload)"
    using f(3-5) by (simp add: length_req_frame frame_size_def header_end_def)
  have "zc_raw z = req_frame path hj payload"
    unfolding raw len using f(1) by (metis append_eq_conv_conj)
  note dec = req_decode_frame [OF f(2), of J "[]"] this
  have rng: "portname_path_bytes z = path" "headers_bytes z = hj" "zc_payload z = payload"
    using view_of_frame [OF dec(2)] f(3-5) by (simp_all add: wh wire_header_def header_end_def)
  show ?thesis
    using dec rng assms(2) from_utf8_ok
    by (auto simp: zc_portname_path_def zc_headers_def invalid_data_def Let_def split: sum.splits)
qed

lemma demo_read:
  "\<exists>r' d'. read_message demo_crate [Inr (req_frame [103, 101, 110] [123, 107, 58, 118, 125] [1, 2, 3, 255])] demo_decoder =
     (Inr (frame_view (req_frame [103, 101, 110] [123, 107, 58, 118, 125] [1, 2, 3, 255])), r', d')"
proof -
  let ?frame = "req_frame [103, 101, 110] [123, 107, 58, 118, 125] [1, 2, 3, 255]"
  have "length ?frame = 20" by (simp add: length_req_frame)
  then have t: "?frame = zc_bytes demo_decoder @ avail [Inr ?frame]" and "length ?frame \<le> max_message_size demo_decoder"
    by (auto simp: demo_decoder_def bm_with_capacity_def)
  from read_message_spec [OF t, of demo_crate] read_outcome_frame [OF demo_request_encode this(2), of "[]"]
  show ?thesis by auto
qed

theorem zero_copy_agrees_witness:
  "\<exists>z r' d'. read_message demo_crate [Inr (req_frame [103, 101, 110] [123, 107, 58, 118, 125] [1, 2, 3, 255])] demo_decoder =
     (Inr z, r', d') \<and> zc_portname_path z = Inr [103, 101, 110] \<and> zc_headers demo_json z = [([107], [118])] \<and>
     zc_payload z = [1, 2, 3, 255]"
proof -
  let ?frame = "req_frame [103, 101, 110] [123, 107, 58, 118, 125] [1, 2, 3, 255]"
  obtain r' d' where rd: "read_message demo_crate [Inr ?frame] demo_decoder = (Inr (frame_view ?frame), r', d')"
    using demo_read by blast
  have "req_fits [103, 101, 110] [123, 107, 58, 118, 125] [1, 2, 3, 255]"
    by (simp add: req_fits_def u16_max_def u32_max_def)
  from req_decode_frame [OF this, of demo_json "[]"]
  have "req_decode demo_json ?frame = Inr demo_request"
    using from_utf8_valid [OF utf8_ascii [of "[103, 101, 110]" 0]] by (simp add: demo_json_def demo_request_def)
  moreover have "from_slice demo_json [] = Inl ''expected value''" by (simp add: demo_json_def)
  from zero_copy_agrees [OF rd this]
  have "case req_decode demo_json (zc_raw (frame_view ?frame)) of
      Inr m \<Rightarrow> zc_portname_path (frame_view ?frame) = Inr (portname_path m) \<and>
        zc_headers demo_json (frame_view ?frame) = req_headers m \<and> zc_payload (frame_view ?frame) = req_payload m
    | Inl err \<Rightarrow> io_kind err = InvalidData \<and> ((\<exists>u. zc_portname_path (frame_view ?frame) = Inl u) \<or>
        (\<exists>je. from_slice demo_json (headers_bytes (frame_view ?frame)) = Inl je) \<and> zc_headers demo_json (frame_view ?frame) = [])" .
  ultimately show ?thesis using rd by (auto simp: frame_view_def demo_request_def)
qed

lemma zc_with_capacity_first:
  assumes "shrink_size_cell g = None"
  defines "mx \<equiv> fst (get_tcp_max_message_size (env_max_size g) (max_size_cell g))"
  defines "sh \<equiv> resolve_shrink_message_size mx (Option.bind (env_shrink_size g) parse_usize)"
  shows "zc_with_capacity A g cap = (\<lparr>read_buffer = bm_with_capacity A cap, max_message_size = mx, shrink_threshold = sh\<rparr>,
     g\<lparr>max_size_cell := Some mx, shrink_size_cell := Some sh\<rparr>)"
  using assms(1)
  by (cases "max_size_cell g")
    (simp_all add: zc_with_capacity_def get_shrink_message_size_def get_tcp_max_message_size_def mx_def sh_def Let_def)

text \<open>
  The shrink threshold a decoder gets is never below the initial
  buffer size, is at most the message limit whenever that limit is not below the initial size, and
  is the configured value when that lies in between; for a limit below the initial size it is the
  initial size, above the limit. Once resolved, both settings stay what they are for every later
  decoder, whatever becomes of the environment.
\<close>

lemma shrink_threshold_bounds:
  assumes "zc_with_capacity A g cap = (d, g')" and "shrink_size_cell g = None"
  shows "INITIAL_BUFFER_SIZE \<le> shrink_threshold d \<and>
    shrink_threshold d \<le> max (max_message_size d) INITIAL_BUFFER_SIZE \<and>
    (max_message_size d < INITIAL_BUFFER_SIZE \<longrightarrow> max_message_size d < shrink_threshold d) \<and>
    (Option.bind (env_shrink_size g) parse_usize = Some v \<longrightarrow> INITIAL_BUFFER_SIZE \<le> v \<longrightarrow> v \<le> max_message_size d \<longrightarrow>
       shrink_threshold d = v) \<and>
    fst (zc_with_capacity A (g'\<lparr>env_max_size := e1, env_shrink_size := e2\<rparr>) cap) = d"
proof -
  let ?mx = "fst (get_tcp_max_message_size (env_max_size g) (max_size_cell g))"
  let ?sh = "resolve_shrink_message_size ?mx (Option.bind (env_shrink_size g) parse_usize)"
  have dg: "d = \<lparr>read_buffer = bm_with_capacity A cap, max_message_size = ?mx, shrink_threshold = ?sh\<rparr>"
    "g' = g\<lparr>max_size_cell := Some ?mx, shrink_size_cell := Some ?sh\<rparr>"
    using zc_with_capacity_first [OF assms(2), of A cap] assms(1) by simp_all
  have "fst (zc_with_capacity A (g'\<lparr>env_max_size := e1, env_shrink_size := e2\<rparr>) cap) = d"
    by (simp add: dg zc_with_capacity_def get_tcp_max_message_size_def get_shrink_message_size_def)
  moreover have "INITIAL_BUFFER_SIZE \<le> ?sh" "?sh \<le> max ?mx INITIAL_BUFFER_SIZE"
    by (simp_all add: resolve_shrink_message_size_def Let_def split: option.splits)
  moreover have "Option.bind (env_shrink_size g) parse_usize = Some v \<longrightarrow> INITIAL_BUFFER_SIZE \<le> v \<longrightarrow> v \<le> ?mx \<longrightarrow> ?sh = v"
    by (simp add: resolve_shrink_message_size_def Let_def)
  ultimately show ?thesis by (simp add: dg(1))
qed

text \<open>
  After a successful read that leaves nothing buffered, the capacity of the
  buffer is at most the shrink threshold or that of a fresh buffer of the initial size; bytes that
  follow the frame are never dropped to shrink it.
\<close>

lemma zero_copy_shrink:
  assumes "read_message A r d = (Inr z, r', d')"
  shows "zc_bytes d' @ avail r' = drop (total_size z) (zc_bytes d @ avail r) \<and>
    (zc_bytes d' = [] \<longrightarrow> bm_capacity (read_buffer d') \<le> max (shrink_threshold d) (cap_new A INITIAL_BUFFER_SIZE))"
proof -
  obtain d1 where d': "d' = try_shrink_after_split A d1"
    using assms by (auto simp: read_message_def zc_bind_def split: prod.splits sum.splits)
  obtain r'' d'' where "read_message A r d = (read_outcome (max_message_size d) (zc_bytes d @ avail r) (fate r), r'', d'')"
    "left_over (zc_bytes d @ avail r) r (read_outcome (max_message_size d) (zc_bytes d @ avail r) (fate r), r'', d'')"
    "keeps d d''"
    using read_message_spec [OF refl] by blast
  then have lo: "zc_bytes d' @ avail r' = drop (total_size z) (zc_bytes d @ avail r)" and k: "keeps d d'"
    using assms by (auto simp: left_over_def total_size_def dest: sym)
  have "shrink_threshold d1 = shrink_threshold d" using d' k by (auto simp: keeps_def try_shrink_after_split_def split: if_splits)
  then have "zc_bytes d' = [] \<longrightarrow> bm_capacity (read_buffer d') \<le> max (shrink_threshold d) (cap_new A INITIAL_BUFFER_SIZE)"
    using d' by (auto simp: try_shrink_after_split_def bm_with_capacity_def)
  then show ?thesis using lo by blast
qed

end
