(* ===== verification/TraceFiles.thy ===== *)
theory TraceFiles
  imports Workload
begin

text \<open>
  The loaders of \<open>lib/mocker/src/loadgen/trace.rs\<close>: the Mooncake format, one line per turn with the name of its
  session, and the agentic format, one line per session. A loader gets the lines as they were read and
  parsed. The settings of the agentic loader that are computed in floating point are fields of
  \<open>agentic_settings\<close>.
\<close>

unbundle bit_operations_syntax

section \<open>The Mooncake format\<close>

record 't RawMooncakeRecord =
  raw_session_id :: "string option"
  raw_timestamp :: "'t option"
  raw_created_time :: "'t option"
  raw_input_length :: "nat option"
  raw_output_length :: "nat option"
  raw_hash_ids :: "u64 list option"
  raw_delay :: "'t option"
  raw_delay_ms :: "'t option"

text \<open>A line of a trace file as it was read and parsed.\<close>

datatype 'r file_line = Unread | Blank | Unparsed | Line 'r

record 't mooncake_state =
  mc_sessions :: "'t SessionTrace list"
  session_indices :: "(string, nat) hmap"
  last_timestamps :: "'t option list"

definition or_else :: "'a option \<Rightarrow> 'a option \<Rightarrow> 'a option" where
  "or_else a b = (case a of Some x \<Rightarrow> Some x | None \<Rightarrow> b)"

text \<open>The session of a record: found under its name, or a new one at the end.\<close>

definition mooncake_session :: "string \<Rightarrow> 't option \<Rightarrow> 't mooncake_state \<Rightarrow> nat \<times> 't mooncake_state" where
  "mooncake_session sid timestamp st =
     (case hm_get (session_indices st) sid of
        Some i \<Rightarrow> (i, st)
      | None \<Rightarrow> (length (mc_sessions st),
          \<lparr>mc_sessions = mc_sessions st @ [\<lparr>session_id = sid, first_arrival_timestamp_ms = timestamp, turns = []\<rparr>],
           session_indices = hm_insert sid (length (mc_sessions st)) (session_indices st),
           last_timestamps = last_timestamps st @ [timestamp]\<rparr>))"

definition mooncake_delay :: "nat \<Rightarrow> string \<Rightarrow> nat \<Rightarrow> ('t::{linorder,zero,minus}) option \<Rightarrow> 't option \<Rightarrow> 't option \<Rightarrow> (load_error + 't) run" where
  "mooncake_delay line sid turn_idx explicit timestamp last_timestamp =
     (if turn_idx = 0
      then and_then (ensure (explicit = None \<or> explicit = Some 0) (LineFirstTurnDelay line sid)) (\<lambda>_. Some (Inr 0))
      else case explicit of
          Some delay \<Rightarrow> Some (Inr delay)
        | None \<Rightarrow> (case timestamp of
              None \<Rightarrow> Some (Inr 0)
            | Some t \<Rightarrow> (case last_timestamp of
                  None \<Rightarrow> Some (Inl (NoPreviousTimestamp line sid))
                | Some previous \<Rightarrow> Some (Inr (t - previous)))))"

definition mooncake_record :: "('t::{linorder,zero,minus} \<Rightarrow> bool) \<Rightarrow> nat \<Rightarrow> nat \<Rightarrow> 't RawMooncakeRecord \<Rightarrow> 't mooncake_state \<Rightarrow>
    (load_error + 't mooncake_state) run" where
  "mooncake_record fin bs line raw st =
     (let sid = (case raw_session_id raw of Some s \<Rightarrow> s | None \<Rightarrow> ''request_'' @ dec_string line) in
      case raw_hash_ids raw of
        None \<Rightarrow> Some (Inl (MissingHashIds line))
      | Some ids \<Rightarrow>
          let capacity = length ids * bs in
          and_then (ensure (capacity \<le> usize_max) (CapacityOverflow line)) (\<lambda>_.
          let input = min (case raw_input_length raw of Some n \<Rightarrow> n | None \<Rightarrow> capacity) capacity in
          case raw_output_length raw of
            None \<Rightarrow> Some (Inl (MissingOutputLength line))
          | Some output \<Rightarrow>
              let timestamp = or_else (raw_timestamp raw) (raw_created_time raw);
                  explicit = or_else (raw_delay raw) (raw_delay_ms raw);
                  (i, st1) = mooncake_session sid timestamp st
              in do {
                session \<leftarrow> index_run (mc_sessions st1) i;
                last_timestamp \<leftarrow> index_run (last_timestamps st1) i;
                and_then (mooncake_delay line (session_id session) (length (turns session)) explicit timestamp last_timestamp) (\<lambda>delay.
                and_then (ensure (fin delay \<and> 0 \<le> delay) (LineInvalidDelay line)) (\<lambda>_.
                and_then (ensure (input \<le> capacity) (LineExceedsCapacity line input capacity)) (\<lambda>_.
                let turn = \<lparr>input_length = input, turn_max_output_tokens = output, hash_ids = ids, delay_after_previous_ms = delay\<rparr> in
                Some (Inr (st1\<lparr>mc_sessions := (mc_sessions st1)[i := session\<lparr>turns := turns session @ [turn]\<rparr>],
                  last_timestamps := (case timestamp of
                     Some t \<Rightarrow> (last_timestamps st1)[i := Some t] | None \<Rightarrow> last_timestamps st1)\<rparr>)))))
              }))"

fun mooncake_lines :: "('t::{linorder,zero,minus} \<Rightarrow> bool) \<Rightarrow> nat \<Rightarrow> nat \<Rightarrow> 't RawMooncakeRecord file_line list \<Rightarrow> 't mooncake_state \<Rightarrow>
    (load_error + 't mooncake_state) run" where
  "mooncake_lines fin bs line_idx [] st = Some (Inr st)"
| "mooncake_lines fin bs line_idx (line # rest) st =
     (case line of
        Unread \<Rightarrow> Some (Inl (UnreadableLine (line_idx + 1)))
      | Blank \<Rightarrow> mooncake_lines fin bs (line_idx + 1) rest st
      | Unparsed \<Rightarrow> Some (Inl (BadJson (line_idx + 1)))
      | Line raw \<Rightarrow> and_then (mooncake_record fin bs (line_idx + 1) raw st) (mooncake_lines fin bs (line_idx + 1) rest))"

definition from_mooncake :: "('t::{linorder,zero,minus} \<Rightarrow> bool) \<Rightarrow> nat \<Rightarrow> 't RawMooncakeRecord file_line list \<Rightarrow> (load_error + 't Trace) run" where
  "from_mooncake fin bs file =
     (if bs = 0 then Some (Inl TraceBlockSizeZero)
      else and_then (mooncake_lines fin bs 0 file \<lparr>mc_sessions = [], session_indices = [], last_timestamps = []\<rparr>) (\<lambda>st.
        if mc_sessions st = [] then Some (Inl NoRequests)
        else Some (Inr \<lparr>trace_block_size = bs, sessions = mc_sessions st\<rparr>)))"

section \<open>The agentic format\<close>

record 't RawAppliedComputeAgenticRecord =
  num_turns :: nat
  input_prompt_length :: nat
  assistant_response_length :: "nat list"
  tool_call_output_length :: "nat list"
  tool_call_latency :: "'t list"
  final_assistant_response_length :: nat

text \<open>
  The settings of the loader: \<open>initial_blocks n\<close> stands for the rounded product of \<open>n\<close> blocks and the shared prefix
  ratio, \<open>latency_ms\<close> for the product of a latency in seconds and \<open>1000.0\<close>, which may overflow: nothing is assumed of it.
\<close>

record 't agentic_settings =
  ratio_in_range :: bool
  ratio_positive :: bool
  num_prefix_groups :: nat
  initial_blocks :: "nat \<Rightarrow> nat"
  latency_ms :: "'t \<Rightarrow> 't"

definition shared_hash_id :: "nat \<Rightarrow> nat \<Rightarrow> u64" where
  "shared_hash_id group_id block_idx = (0xA63E000000000000 OR push_bit 32 (of_nat group_id)) OR of_nat block_idx"

function extend_agentic_ids :: "nat \<Rightarrow> nat \<Rightarrow> nat option \<Rightarrow> u64 list \<Rightarrow> u64 \<Rightarrow> load_error + (u64 list \<times> u64)" where
  "extend_agentic_ids target shared grp ids unique =
     (if target \<le> length ids then Inr (ids, unique)
      else case (if length ids < shared then grp else None) of
          Some g \<Rightarrow> extend_agentic_ids target shared grp (ids @ [shared_hash_id g (length ids)]) unique
        | None \<Rightarrow> (case u64_checked_add unique 1 of
              None \<Rightarrow> Inl HashIdOverflow
            | Some unique1 \<Rightarrow> extend_agentic_ids target shared grp (ids @ [unique]) unique1))"
  by pat_completeness auto
termination
  by (relation "measure (\<lambda>(target, shared, grp, ids, unique). target - length ids)") auto

declare extend_agentic_ids.simps [simp del]

definition extend_applied_compute_agentic_hash_ids :: "nat \<Rightarrow> nat \<Rightarrow> nat \<Rightarrow> nat option \<Rightarrow> u64 list \<Rightarrow> u64 \<Rightarrow> load_error + (u64 list \<times> u64)" where
  "extend_applied_compute_agentic_hash_ids input bs shared grp ids unique =
     extend_agentic_ids (div_ceil input bs) shared grp ids unique"

text \<open>The turns with a tool call, one after the other; the final turn closes the session.\<close>

fun agentic_turns :: "('t::{linorder,zero} \<Rightarrow> bool) \<Rightarrow> ('t \<Rightarrow> 't) \<Rightarrow> nat \<Rightarrow> nat \<Rightarrow> nat option \<Rightarrow> nat \<Rightarrow> nat \<Rightarrow> (nat \<times> nat \<times> 't) list \<Rightarrow> nat \<Rightarrow>
    nat \<Rightarrow> u64 list \<Rightarrow> 't \<Rightarrow> u64 \<Rightarrow> load_error + ('t TurnTrace list \<times> u64)" where
  "agentic_turns fin ms bs shared grp line turn_idx [] final input ids delay unique =
     Inr ([\<lparr>input_length = input, turn_max_output_tokens = final, hash_ids = ids, delay_after_previous_ms = delay\<rparr>], unique)"
| "agentic_turns fin ms bs shared grp line turn_idx ((response, outlen, latency) # rest) final input ids delay unique =
     (if \<not> fin latency \<or> latency < 0 then Inl (BadLatency line turn_idx)
      else
        res_then (ok_or (Option.bind (checked_add input response) (\<lambda>n. checked_add n outlen)) (LengthOverflow line)) (\<lambda>input1.
        res_then (extend_applied_compute_agentic_hash_ids input1 bs shared grp ids unique) (\<lambda>(ids1, unique1).
        res_then (agentic_turns fin ms bs shared grp line (Suc turn_idx) rest final input1 ids1 (ms latency) unique1) (\<lambda>(later, unique2).
          Inr (\<lparr>input_length = input, turn_max_output_tokens = response, hash_ids = ids, delay_after_previous_ms = delay\<rparr> # later,
            unique2)))))"

definition agentic_record :: "('t::{linorder,zero} \<Rightarrow> bool) \<Rightarrow> 't agentic_settings \<Rightarrow> nat \<Rightarrow> nat \<Rightarrow> 't RawAppliedComputeAgenticRecord \<Rightarrow> u64 \<Rightarrow>
    load_error + ('t SessionTrace \<times> u64)" where
  "agentic_record fin S bs line_idx raw unique =
     (if length (assistant_response_length raw) \<noteq> num_turns raw
      then Inl (FieldLength (line_idx + 1) ''assistant_response_length'' (length (assistant_response_length raw)) (num_turns raw))
      else if length (tool_call_output_length raw) \<noteq> num_turns raw
      then Inl (FieldLength (line_idx + 1) ''tool_call_output_length'' (length (tool_call_output_length raw)) (num_turns raw))
      else if length (tool_call_latency raw) \<noteq> num_turns raw
      then Inl (FieldLength (line_idx + 1) ''tool_call_latency'' (length (tool_call_latency raw)) (num_turns raw))
      else if input_prompt_length raw = 0 then Inl (ZeroPromptLength (line_idx + 1))
      else
        let grp = (if ratio_positive S \<and> 0 < num_prefix_groups S then Some (line_idx mod num_prefix_groups S) else None);
            input = input_prompt_length raw;
            shared = initial_blocks S (div_ceil input bs)
        in res_then (extend_applied_compute_agentic_hash_ids input bs shared grp [] unique) (\<lambda>(ids, unique1).
           res_then (agentic_turns fin (latency_ms S) bs shared grp (line_idx + 1) 0
             (zip (assistant_response_length raw) (zip (tool_call_output_length raw) (tool_call_latency raw)))
             (final_assistant_response_length raw) input ids 0 unique1) (\<lambda>(ts, unique2).
             Inr (\<lparr>session_id = ''applied_compute_agentic_session_'' @ dec_string (line_idx + 1),
               first_arrival_timestamp_ms = None, turns = ts\<rparr>, unique2))))"

fun agentic_lines :: "('t::{linorder,zero} \<Rightarrow> bool) \<Rightarrow> 't agentic_settings \<Rightarrow> nat \<Rightarrow> nat \<Rightarrow> 't RawAppliedComputeAgenticRecord file_line list \<Rightarrow> u64 \<Rightarrow>
    load_error + 't SessionTrace list" where
  "agentic_lines fin S bs line_idx [] unique = Inr []"
| "agentic_lines fin S bs line_idx (line # rest) unique =
     (case line of
        Unread \<Rightarrow> Inl (UnreadableLine (line_idx + 1))
      | Blank \<Rightarrow> agentic_lines fin S bs (line_idx + 1) rest unique
      | Unparsed \<Rightarrow> Inl (BadJson (line_idx + 1))
      | Line raw \<Rightarrow> res_then (agentic_record fin S bs line_idx raw unique) (\<lambda>(session, unique1).
          res_then (agentic_lines fin S bs (line_idx + 1) rest unique1) (\<lambda>later. Inr (session # later))))"

definition from_applied_compute_agentic :: "('t::{linorder,zero} \<Rightarrow> bool) \<Rightarrow> 't agentic_settings \<Rightarrow> nat \<Rightarrow>
    't RawAppliedComputeAgenticRecord file_line list \<Rightarrow> load_error + 't Trace" where
  "from_applied_compute_agentic fin S bs file =
     (if bs = 0 then Inl TraceBlockSizeZero
      else if \<not> ratio_in_range S then Inl BadPrefixRatio
      else res_then (agentic_lines fin S bs 0 file 1) (\<lambda>ss.
        if ss = [] then Inl NoRequests else Inr \<lparr>trace_block_size = bs, sessions = ss\<rparr>))"

section \<open>What the loaders produce\<close>

subsection \<open>Agentic sessions\<close>

lemma u64_checked_add_Some: "u64_checked_add a b = Some c \<longleftrightarrow> c = a + b \<and> unat a + unat b < 2 ^ 64"
  by (auto simp: u64_checked_add_def)

lemma extend_agentic_ids_prefix:
  "extend_agentic_ids target shared grp ids unique = Inr (ids', unique') \<Longrightarrow>
     take (length ids) ids' = ids \<and> length ids' = max target (length ids)"
proof (induction target shared grp ids unique rule: extend_agentic_ids.induct)
  case (1 target shared grp ids unique)
  consider "target \<le> length ids"
    | g where "length ids < target" "(if length ids < shared then grp else None) = Some g"
    | "length ids < target" "(if length ids < shared then grp else None) = None"
    by (cases "if length ids < shared then grp else None") (auto simp: not_le [symmetric])
  then show ?case
  proof cases
    case 2
    then have "extend_agentic_ids target shared grp (ids @ [shared_hash_id g (length ids)]) unique = Inr (ids', unique')"
      using "1.prems" by (subst (asm) extend_agentic_ids.simps) simp
    from "1.IH"(2) [OF _ 2(2) this] 2(1) show ?thesis by (auto dest: arg_cong [where f = "take (length ids)"])
  next
    case 3
    then obtain unique1 where u: "u64_checked_add unique 1 = Some unique1"
      "extend_agentic_ids target shared grp (ids @ [unique]) unique1 = Inr (ids', unique')"
      using "1.prems" by (subst (asm) extend_agentic_ids.simps) (auto split: option.splits)
    from "1.IH"(1) [OF _ 3(2) u] 3(1) show ?thesis by (auto dest: arg_cong [where f = "take (length ids)"])
  qed (use "1.prems" in \<open>subst (asm) extend_agentic_ids.simps, simp\<close>)
qed

lemma extend_agentic_ids_first:
  "extend_agentic_ids target shared (Some g) [] unique = Inr (ids', unique') \<Longrightarrow> 0 < target \<Longrightarrow> 0 < shared \<Longrightarrow> ids' ! 0 = shared_hash_id g 0"
proof -
  assume r: "extend_agentic_ids target shared (Some g) [] unique = Inr (ids', unique')" and pos: "0 < target" "0 < shared"
  have "extend_agentic_ids target shared (Some g) [shared_hash_id g 0] unique = Inr (ids', unique')"
    using r pos by (subst (asm) extend_agentic_ids.simps) simp
  from extend_agentic_ids_prefix [OF this] show ?thesis by (cases ids') auto
qed

lemma agentic_turns_first:
  "agentic_turns fin ms bs shared grp line i calls final input ids delay unique = Inr (ts, unique') \<Longrightarrow> hash_ids (hd ts) = ids"
  by (cases calls) (auto simp: run_simps split: if_splits)

definition agentic_turn_ok :: "nat \<Rightarrow> 't TurnTrace \<Rightarrow> bool" where
  "agentic_turn_ok bs turn = (0 < input_length turn \<and> length (hash_ids turn) = div_ceil (input_length turn) bs)"

text \<open>A later prompt of a conversation begins with an earlier one.\<close>

definition continues :: "'t TurnTrace \<Rightarrow> 't TurnTrace \<Rightarrow> bool" where
  "continues turn turn' = (input_length turn \<le> input_length turn' \<and> take (length (hash_ids turn)) (hash_ids turn') = hash_ids turn)"

lemma continues_trans: "continues a b \<Longrightarrow> continues b c \<Longrightarrow> continues a c"
proof -
  assume a: "continues a b" "continues b c"
  have "length (hash_ids a) \<le> length (hash_ids b)" using a(1) unfolding continues_def by (metis length_take min.cobounded1)
  then have "take (length (hash_ids a)) (hash_ids c) = take (length (hash_ids a)) (take (length (hash_ids b)) (hash_ids c))"
    by (simp add: min_def)
  also have "\<dots> = hash_ids a" using a by (simp add: continues_def)
  finally show ?thesis using a by (simp add: continues_def)
qed

lemma continues_tokens:
  assumes "continues turn turn'" "input_length turn \<le> length (hash_ids turn) * bs"
  shows "take (input_length turn) (turn_tokens bs turn') = turn_tokens bs turn"
proof -
  let ?f = "\<lambda>ids. concat (map (\<lambda>h. replicate bs (ucast h :: u32)) ids)"
  obtain rest where r: "hash_ids turn' = hash_ids turn @ rest" using assms(1) unfolding continues_def by (metis append_take_drop_id)
  have "take (input_length turn) (turn_tokens bs turn') = take (input_length turn) (?f (hash_ids turn'))"
    using assms(1) by (simp add: turn_tokens_def continues_def min_def)
  also have "\<dots> = take (input_length turn) (?f (hash_ids turn))" using assms(2) by (simp add: r)
  finally show ?thesis by (simp add: turn_tokens_def)
qed

lemma agentic_turns_ok:
  assumes "agentic_turns fin ms bs shared grp line i rest final input ids delay unique = Inr (ts, unique')"
    and "0 < bs" "0 < input" "length ids = div_ceil input bs"
  shows "ts \<noteq> [] \<and> input_length (hd ts) = input \<and> hash_ids (hd ts) = ids \<and> list_all (agentic_turn_ok bs) ts \<and> sorted_wrt continues ts"
  using assms
proof (induction rest arbitrary: i input ids delay unique ts)
  case Nil
  then show ?case by (auto simp: agentic_turn_ok_def)
next
  case (Cons call rest)
  obtain response outlen latency where call: "call = (response, outlen, latency)" by (cases call)
  obtain input1 ids1 unique1 later where s: "fin latency" "0 \<le> latency"
    "Option.bind (checked_add input response) (\<lambda>n. checked_add n outlen) = Some input1"
    "extend_applied_compute_agentic_hash_ids input1 bs shared grp ids unique = Inr (ids1, unique1)"
    "agentic_turns fin ms bs shared grp line (Suc i) rest final input1 ids1 (ms latency) unique1 = Inr (later, unique')"
    "ts = \<lparr>input_length = input, turn_max_output_tokens = response, hash_ids = ids, delay_after_previous_ms = delay\<rparr> # later"
    using Cons.prems(1) call by (auto simp: not_less run_simps split: if_splits)
  have input: "input \<le> input1" using s(3) by (auto simp: checked_add_def run_simps split: if_splits)
  have ids: "take (length ids) ids1 = ids" "length ids1 = max (div_ceil input1 bs) (length ids)"
    using extend_agentic_ids_prefix [OF s(4) [unfolded extend_applied_compute_agentic_hash_ids_def]] by auto
  have "length ids1 = div_ceil input1 bs" using ids(2) Cons.prems(4) div_ceil_mono [OF input, of bs] by simp
  then have later: "later \<noteq> []" "input_length (hd later) = input1" "hash_ids (hd later) = ids1"
    "list_all (agentic_turn_ok bs) later" "sorted_wrt continues later"
    using Cons.IH [OF s(5) Cons.prems(2)] Cons.prems(3) input by auto
  let ?t = "\<lparr>input_length = input, turn_max_output_tokens = response, hash_ids = ids, delay_after_previous_ms = delay\<rparr>"
  have first: "continues ?t (hd later)" using later(2,3) input ids by (simp add: continues_def)
  have "continues ?t t" if "t \<in> set later" for t
  proof (cases "t = hd later")
    case False
    then have "continues (hd later) t" using later(1,5) that by (cases later) auto
    then show ?thesis using continues_trans first by blast
  qed (use first in simp)
  moreover have "agentic_turn_ok bs ?t" using Cons.prems(3,4) by (simp add: agentic_turn_ok_def)
  ultimately show ?case using later(1,4,5) unfolding s(6) by simp
qed

lemma div_ceil_covers: "0 < b \<Longrightarrow> n \<le> div_ceil n b * b"
  using div_ceil_le_iff [of b n "div_ceil n b"] by simp

text \<open>
  What a file says: its records with the index of their lines, and for a record the lengths and delays of the turns. The prompt
  of a turn is the first prompt with all that was said since.
\<close>

fun agentic_records :: "nat \<Rightarrow> 'r file_line list \<Rightarrow> (nat \<times> 'r) list" where
  "agentic_records line_idx [] = []"
| "agentic_records line_idx (line # rest) = (case line of Line raw \<Rightarrow> [(line_idx, raw)] | _ \<Rightarrow> []) @ agentic_records (line_idx + 1) rest"

definition prompt_lengths :: "nat \<Rightarrow> nat list \<Rightarrow> nat list \<Rightarrow> nat list" where
  "prompt_lengths input responses outlens = map (\<lambda>i. input + sum_list (take i responses) + sum_list (take i outlens)) [0..<Suc (length responses)]"

definition session_of_record :: "('t::zero) agentic_settings \<Rightarrow> nat \<times> 't RawAppliedComputeAgenticRecord \<Rightarrow> 't SessionTrace \<Rightarrow> bool" where
  "session_of_record S r session = (case r of (line_idx, raw) \<Rightarrow>
     session_id session = ''applied_compute_agentic_session_'' @ dec_string (line_idx + 1) \<and> first_arrival_timestamp_ms session = None \<and>
     map input_length (turns session) = prompt_lengths (input_prompt_length raw) (assistant_response_length raw) (tool_call_output_length raw) \<and>
     map turn_max_output_tokens (turns session) = assistant_response_length raw @ [final_assistant_response_length raw] \<and>
     map delay_after_previous_ms (turns session) = 0 # map (latency_ms S) (tool_call_latency raw))"

lemma prompt_lengths_Cons: "length outlens = length responses \<Longrightarrow>
    prompt_lengths input (response # responses) (outlen # outlens) = input # prompt_lengths (input + response + outlen) responses outlens"
  unfolding prompt_lengths_def by (subst upt_conv_Cons, simp, simp add: map_Suc_upt [symmetric] o_def del: upt_Suc)

lemma agentic_turns_plan:
  "agentic_turns fin ms bs shared grp line i calls final input ids delay unique = Inr (ts, unique') \<Longrightarrow>
     map input_length ts = prompt_lengths input (map fst calls) (map (fst \<circ> snd) calls) \<and>
     map turn_max_output_tokens ts = map fst calls @ [final] \<and> map delay_after_previous_ms ts = delay # map (ms \<circ> snd \<circ> snd) calls"
proof (induction calls arbitrary: i input ids delay unique ts)
  case Nil
  then show ?case by (auto simp: prompt_lengths_def)
next
  case (Cons call calls)
  obtain response outlen latency where call: "call = (response, outlen, latency)" by (cases call)
  obtain ids1 unique1 later where
    "agentic_turns fin ms bs shared grp line (Suc i) calls final (input + response + outlen) ids1 (ms latency) unique1 = Inr (later, unique')"
    "ts = \<lparr>input_length = input, turn_max_output_tokens = response, hash_ids = ids, delay_after_previous_ms = delay\<rparr> # later"
    using Cons.prems(1) call by (auto simp: not_less checked_add_def run_simps split: if_splits)
  then show ?case using Cons.IH call by (simp add: prompt_lengths_Cons)
qed

lemma agentic_record_ok:
  assumes "agentic_record fin S bs line raw unique = Inr (session, unique')" "0 < bs"
  shows "session_of_record S (line, raw) session" "turns session \<noteq> []" "list_all (agentic_turn_ok bs) (turns session)"
    "sorted_wrt continues (turns session)"
proof -
  let ?input = "input_prompt_length raw"
  let ?calls = "zip (assistant_response_length raw) (zip (tool_call_output_length raw) (tool_call_latency raw))"
  obtain grp shared ids unique1 ts where e: "0 < ?input" "extend_applied_compute_agentic_hash_ids ?input bs shared grp [] unique = Inr (ids, unique1)"
    and len: "length (assistant_response_length raw) = num_turns raw" "length (tool_call_output_length raw) = num_turns raw"
      "length (tool_call_latency raw) = num_turns raw"
    and t: "agentic_turns fin (latency_ms S) bs shared grp (line + 1) 0 ?calls (final_assistant_response_length raw) ?input ids 0 unique1 = Inr (ts, unique')"
    and s: "session = \<lparr>session_id = ''applied_compute_agentic_session_'' @ dec_string (line + 1), first_arrival_timestamp_ms = None, turns = ts\<rparr>"
    using assms(1) by (auto simp: agentic_record_def Let_def run_simps split: if_splits)
  have "map fst ?calls = assistant_response_length raw" "map (fst \<circ> snd) ?calls = tool_call_output_length raw"
    "map (latency_ms S \<circ> snd \<circ> snd) ?calls = map (latency_ms S) (tool_call_latency raw)"
    using len by (simp_all flip: map_map)
  then show "session_of_record S (line, raw) session" using agentic_turns_plan [OF t] by (simp add: session_of_record_def s)
  have "length ids = div_ceil ?input bs"
    using extend_agentic_ids_prefix [OF e(2) [unfolded extend_applied_compute_agentic_hash_ids_def]] by simp
  then show "turns session \<noteq> []" "list_all (agentic_turn_ok bs) (turns session)" "sorted_wrt continues (turns session)"
    using agentic_turns_ok [OF t assms(2) e(1)] by (simp_all add: s)
qed

lemma agentic_lines_sessions:
  "agentic_lines fin S bs l0 ls unique = Inr ss \<Longrightarrow>
     list_all2 (\<lambda>r session. \<exists>unique unique'. agentic_record fin S bs (fst r) (snd r) unique = Inr (session, unique')) (agentic_records l0 ls) ss"
proof (induction ls arbitrary: l0 unique ss)
  case (Cons l ls)
  show ?case
  proof (cases l)
    case (Line raw)
    then obtain first unique1 later where r: "agentic_record fin S bs l0 raw unique = Inr (first, unique1)"
      "agentic_lines fin S bs (l0 + 1) ls unique1 = Inr later" "ss = first # later"
      using Cons.prems(1) by (auto simp: run_simps)
    then show ?thesis using Cons.IH [OF r(2)] Line by auto
  qed (use Cons in auto)
qed simp

lemma agentic_session_valid:
  assumes r: "session_of_record S (line, raw) session" and t: "turns session \<noteq> []" "list_all (agentic_turn_ok bs) (turns session)"
    and "0 < bs" "fin 0"
  shows "session_valid fin True bs session \<longleftrightarrow> (\<forall>l \<in> set (tool_call_latency raw). fin (latency_ms S l) \<and> 0 \<le> latency_ms S l)"
proof -
  have d: "map delay_after_previous_ms (turns session) = 0 # map (latency_ms S) (tool_call_latency raw)"
    and none: "first_arrival_timestamp_ms session = None" using r by (simp_all add: session_of_record_def)
  have zero: "delay_after_previous_ms (turns session ! 0) = 0" using d t(1) by (cases "turns session") auto
  have "(\<forall>i < length (turns session). turn_valid fin bs i (turns session ! i)) \<longleftrightarrow>
      (\<forall>i < length (turns session). fin (delay_after_previous_ms (turns session ! i)) \<and> 0 \<le> delay_after_previous_ms (turns session ! i))"
    using t(2) zero div_ceil_covers [OF assms(4)] by (auto simp: turn_valid_def agentic_turn_ok_def list_all_length)
  also have "\<dots> \<longleftrightarrow> (\<forall>x \<in> set (map delay_after_previous_ms (turns session)). fin x \<and> 0 \<le> x)" by (auto simp: all_set_conv_all_nth)
  also have "\<dots> \<longleftrightarrow> (\<forall>l \<in> set (tool_call_latency raw). fin (latency_ms S l) \<and> 0 \<le> latency_ms S l)" unfolding d using assms(5) by auto
  finally show ?thesis using t(1) none by (simp add: session_valid_def)
qed

subsection \<open>Hash ids and tokens\<close>

text \<open>The group can be read off a shared hash id, as long as it fits into sixteen bits.\<close>

lemma shared_hash_id_group:
  assumes "shared_hash_id g 0 = shared_hash_id h 0" "g < 2 ^ 16" "h < 2 ^ 16"
  shows "g = h"
proof -
  have "take_bit 16 (drop_bit 32 (shared_hash_id k 0)) = (of_nat k :: u64)" if "k < 2 ^ 16" for k
  proof -
    have c: "(0xA63E000000000000 :: u64) = push_bit 48 0xA63E" by simp
    have k: "take_bit 16 (of_nat k :: u64) = of_nat k" using that by (simp add: take_bit_of_nat take_bit_nat_eq_self)
    have "take_bit 16 (drop_bit 32 (shared_hash_id k 0)) = take_bit 16 (of_nat k :: u64)"
      unfolding shared_hash_id_def c by (rule bit_word_eqI) (auto simp: bit_simps)
    then show ?thesis using k by simp
  qed
  then have "(of_nat g :: u64) = of_nat h" using assms by metis
  then show ?thesis using assms(2,3) by (simp add: word_of_nat_eq_iff take_bit_nat_eq_self)
qed

lemma ucast_shared_hash_id: "(ucast (shared_hash_id g i) :: u32) = of_nat i"
proof -
  have 1: "ucast (push_bit 32 (of_nat g :: u64)) = (0 :: u32)" by (rule bit_word_eqI) (simp add: bit_simps)
  have 2: "ucast (0xA63E000000000000 :: u64) = (0 :: u32)" by simp
  have 3: "ucast (of_nat i :: u64) = (of_nat i :: u32)" by (rule bit_word_eqI) (simp add: bit_simps)
  show ?thesis unfolding shared_hash_id_def unsigned_or_eq 1 2 3 by simp
qed

lemma extend_agentic_ids_groups:
  "map (ucast :: u64 \<Rightarrow> u32) ids = map ucast ids2 \<Longrightarrow>
   extend_agentic_ids target shared (Some g) ids unique = Inr (ids', unique') \<Longrightarrow>
     \<exists>ids2'. extend_agentic_ids target shared (Some g2) ids2 unique = Inr (ids2', unique') \<and> map (ucast :: u64 \<Rightarrow> u32) ids' = map ucast ids2'"
proof (induction target shared "Some g" ids unique arbitrary: ids2 rule: extend_agentic_ids.induct)
  case (1 target shared ids unique)
  have len: "length ids2 = length ids" using "1.prems"(1) by (metis length_map)
  consider "target \<le> length ids" | "length ids < target" "length ids < shared" | "length ids < target" "shared \<le> length ids" by linarith
  then show ?case
  proof cases
    case 1
    then show ?thesis using "1.prems" len by (subst (asm) extend_agentic_ids.simps, subst extend_agentic_ids.simps) auto
  next
    case 2
    have "extend_agentic_ids target shared (Some g) (ids @ [shared_hash_id g (length ids)]) unique = Inr (ids', unique')"
      using "1.prems"(2) 2 by (subst (asm) extend_agentic_ids.simps) simp
    then have "\<exists>ids2'. extend_agentic_ids target shared (Some g2) (ids2 @ [shared_hash_id g2 (length ids)]) unique = Inr (ids2', unique') \<and>
        map (ucast :: u64 \<Rightarrow> u32) ids' = map ucast ids2'"
      using 2 "1.prems"(1) by (intro "1.hyps"(2)) (simp_all add: ucast_shared_hash_id)
    then show ?thesis using 2 len by (subst extend_agentic_ids.simps) simp
  next
    case 3
    then obtain unique1 where u: "u64_checked_add unique 1 = Some unique1"
      "extend_agentic_ids target shared (Some g) (ids @ [unique]) unique1 = Inr (ids', unique')"
      using "1.prems"(2) by (subst (asm) extend_agentic_ids.simps) (auto split: option.splits)
    then have "\<exists>ids2'. extend_agentic_ids target shared (Some g2) (ids2 @ [unique]) unique1 = Inr (ids2', unique') \<and>
        map (ucast :: u64 \<Rightarrow> u32) ids' = map ucast ids2'"
      using 3 "1.prems"(1) by (intro "1.hyps"(1) [OF _ _ u(1)]) simp_all
    then show ?thesis using 3 len u(1) by (subst extend_agentic_ids.simps) simp
  qed
qed

subsection \<open>Sessions of a Mooncake file\<close>

definition record_session :: "nat \<Rightarrow> 't RawMooncakeRecord \<Rightarrow> string" where
  "record_session line raw = (case raw_session_id raw of Some s \<Rightarrow> s | None \<Rightarrow> ''request_'' @ dec_string line)"

text \<open>The part of a turn that is read off its line: input and output length and hash ids.\<close>

definition turn_job :: "'t TurnTrace \<Rightarrow> nat \<times> nat \<times> u64 list" where
  "turn_job turn = (input_length turn, turn_max_output_tokens turn, hash_ids turn)"

definition record_job :: "nat \<Rightarrow> 't RawMooncakeRecord \<Rightarrow> nat \<times> nat \<times> u64 list" where
  "record_job bs raw = (let ids = the (raw_hash_ids raw) in
     (min (case raw_input_length raw of Some n \<Rightarrow> n | None \<Rightarrow> length ids * bs) (length ids * bs), the (raw_output_length raw), ids))"

fun file_records :: "nat \<Rightarrow> nat \<Rightarrow> 't RawMooncakeRecord file_line list \<Rightarrow> (string \<times> nat \<times> nat \<times> u64 list) list" where
  "file_records bs line_idx [] = []"
| "file_records bs line_idx (line # rest) =
     (case line of Line raw \<Rightarrow> [(record_session (line_idx + 1) raw, record_job bs raw)] | _ \<Rightarrow> []) @ file_records bs (line_idx + 1) rest"

text \<open>The distinct elements of a list in the order of their first occurrence.\<close>

definition firsts :: "'a list \<Rightarrow> 'a list" where
  "firsts xs = rev (remdups (rev xs))"

lemma firsts_simps [simp]: "firsts [] = []" "set (firsts xs) = set xs" "distinct (firsts xs)"
  "firsts (xs @ [x]) = (if x \<in> set xs then firsts xs else firsts xs @ [x])"
  by (simp_all add: firsts_def)

definition delay_ok :: "('t::{linorder,zero} \<Rightarrow> bool) \<Rightarrow> 't TurnTrace list \<Rightarrow> bool" where
  "delay_ok fin ts = ((\<forall>turn \<in> set ts. fin (delay_after_previous_ms turn) \<and> 0 \<le> delay_after_previous_ms turn) \<and>
     (ts \<noteq> [] \<longrightarrow> delay_after_previous_ms (hd ts) = 0))"

definition mooncake_inv :: "('t::{linorder,zero} \<Rightarrow> bool) \<Rightarrow> (string \<times> nat \<times> nat \<times> u64 list) list \<Rightarrow> 't mooncake_state \<Rightarrow> bool" where
  "mooncake_inv fin recs st = (map session_id (mc_sessions st) = firsts (map fst recs) \<and>
     length (last_timestamps st) = length (mc_sessions st) \<and>
     (\<forall>sid i. hm_get (session_indices st) sid = Some i \<longleftrightarrow> i < length (mc_sessions st) \<and> session_id (mc_sessions st ! i) = sid) \<and>
     (\<forall>session \<in> set (mc_sessions st). map turn_job (turns session) = map snd (filter (\<lambda>r. fst r = session_id session) recs) \<and>
       delay_ok fin (turns session)))"

lemma delay_ok_snoc:
  "delay_ok fin ts \<Longrightarrow> fin (delay_after_previous_ms t) \<Longrightarrow> 0 \<le> delay_after_previous_ms t \<Longrightarrow> (ts = [] \<longrightarrow> delay_after_previous_ms t = 0) \<Longrightarrow> delay_ok fin (ts @ [t])"
  by (cases ts) (auto simp: delay_ok_def)

lemma mooncake_session_ok:
  assumes inv: "mooncake_inv fin recs st" and "mooncake_session sid ts st = (i, st1)"
  shows "i < length (mc_sessions st1)" "session_id (mc_sessions st1 ! i) = sid" "length (last_timestamps st1) = length (mc_sessions st1)"
    "map session_id (mc_sessions st1) = firsts (map fst recs @ [sid])"
    "\<forall>sid i. hm_get (session_indices st1) sid = Some i \<longleftrightarrow> i < length (mc_sessions st1) \<and> session_id (mc_sessions st1 ! i) = sid"
    "\<forall>session \<in> set (mc_sessions st1). map turn_job (turns session) = map snd (filter (\<lambda>r. fst r = session_id session) recs) \<and> delay_ok fin (turns session)"
proof -
  have ids: "set (map fst recs) = session_id ` set (mc_sessions st)"
    using inv unfolding mooncake_inv_def by (metis firsts_simps(2) set_map)
  have get: "hm_get (session_indices st) s = Some j \<longleftrightarrow> j < length (mc_sessions st) \<and> session_id (mc_sessions st ! j) = s" for s j
    using inv by (simp add: mooncake_inv_def)
  have known: "hm_get (session_indices st) sid = None \<longleftrightarrow> sid \<notin> set (map fst recs)"
  proof -
    have "hm_get (session_indices st) sid \<noteq> None \<longleftrightarrow> (\<exists>j < length (mc_sessions st). session_id (mc_sessions st ! j) = sid)"
      unfolding not_None_eq get by blast
    also have "\<dots> \<longleftrightarrow> sid \<in> session_id ` set (mc_sessions st)" by (auto simp: set_conv_nth image_def)
    finally show ?thesis unfolding ids by blast
  qed
  show "i < length (mc_sessions st1)" "session_id (mc_sessions st1 ! i) = sid" "length (last_timestamps st1) = length (mc_sessions st1)"
    using assms get by (auto simp: mooncake_session_def mooncake_inv_def nth_append split: option.splits)
  show "map session_id (mc_sessions st1) = firsts (map fst recs @ [sid])"
    using assms known by (auto simp: mooncake_session_def mooncake_inv_def split: option.splits)
  show "\<forall>sid i. hm_get (session_indices st1) sid = Some i \<longleftrightarrow> i < length (mc_sessions st1) \<and> session_id (mc_sessions st1 ! i) = sid"
  proof (cases "hm_get (session_indices st) sid")
    case None
    then have new: "session_id (mc_sessions st ! j) \<noteq> sid" if "j < length (mc_sessions st)" for j
      using get [of sid j] that by simp
    have "st1 = \<lparr>mc_sessions = mc_sessions st @ [\<lparr>session_id = sid, first_arrival_timestamp_ms = ts, turns = []\<rparr>],
        session_indices = hm_insert sid (length (mc_sessions st)) (session_indices st), last_timestamps = last_timestamps st @ [ts]\<rparr>"
      using assms(2) None by (auto simp: mooncake_session_def)
    then show ?thesis using get new by (auto simp: nth_append less_Suc_eq split: if_splits)
  next
    case (Some j)
    then have "st1 = st" using assms(2) by (simp add: mooncake_session_def)
    then show ?thesis using get by simp
  qed
  have "filter (\<lambda>r. fst r = sid) recs = []" if "hm_get (session_indices st) sid = None"
    using known that by (auto simp: filter_empty_conv)
  then show "\<forall>session \<in> set (mc_sessions st1). map turn_job (turns session) = map snd (filter (\<lambda>r. fst r = session_id session) recs) \<and> delay_ok fin (turns session)"
    using assms by (auto simp: mooncake_session_def mooncake_inv_def delay_ok_def split: option.splits)
qed

lemma mooncake_record_ok:
  assumes inv: "mooncake_inv fin recs st" and "fin 0"
  shows "returns (mooncake_record fin bs line raw st)"
    and "mooncake_record fin bs line raw st = Some (Inr st') \<Longrightarrow> mooncake_inv fin (recs @ [(record_session line raw, record_job bs raw)]) st'"
proof -
  let ?sid = "record_session line raw" and ?ts = "or_else (raw_timestamp raw) (raw_created_time raw)"
  obtain i st1 where m: "mooncake_session ?sid ?ts st = (i, st1)" by (cases "mooncake_session ?sid ?ts st")
  note s = mooncake_session_ok [OF inv m]
  let ?session = "mc_sessions st1 ! i"
  have idx: "index_run (mc_sessions st1) i = Some ?session" "index_run (last_timestamps st1) i = Some (last_timestamps st1 ! i)"
    using s(1,3) by (simp_all add: index_run_def)
  have d: "returns (mooncake_delay line sid n e t p)" for sid n e t p
    by (auto simp: mooncake_delay_def ensure_def and_then_def split: option.splits)
  show "returns (mooncake_record fin bs line raw st)"
  proof (cases "raw_hash_ids raw = None \<or> raw_output_length raw = None")
    case True
    then show ?thesis by (auto simp: mooncake_record_def ensure_def and_then_def Let_def split: option.splits)
  next
    case False
    then obtain ids n where raw: "raw_hash_ids raw = Some ids" "raw_output_length raw = Some n" by auto
    show ?thesis
      unfolding mooncake_record_def record_session_def [symmetric] Let_def raw option.case m prod.case idx bind.bind_lunit
      by (intro and_then_returns d) simp_all
  qed
  show "mooncake_inv fin (recs @ [(?sid, record_job bs raw)]) st'" if r: "mooncake_record fin bs line raw st = Some (Inr st')"
  proof -
    obtain ids n where raw: "raw_hash_ids raw = Some ids" "raw_output_length raw = Some n"
      using r by (auto simp: mooncake_record_def run_simps Let_def split: option.splits)
    define turn where "turn delay = \<lparr>input_length = min (case raw_input_length raw of Some n \<Rightarrow> n | None \<Rightarrow> length ids * bs) (length ids * bs),
      turn_max_output_tokens = n, hash_ids = ids, delay_after_previous_ms = delay\<rparr>" for delay :: 'a
    obtain delay where d: "mooncake_delay line (session_id ?session) (length (turns ?session)) (or_else (raw_delay raw) (raw_delay_ms raw)) ?ts
        (last_timestamps st1 ! i) = Some (Inr delay)" "fin delay" "0 \<le> delay"
      and st': "st' = st1\<lparr>mc_sessions := (mc_sessions st1)[i := ?session\<lparr>turns := turns ?session @ [turn delay]\<rparr>],
        last_timestamps := (case ?ts of Some t \<Rightarrow> (last_timestamps st1)[i := Some t] | None \<Rightarrow> last_timestamps st1)\<rparr>"
      using r unfolding mooncake_record_def record_session_def [symmetric] Let_def raw option.case m prod.case idx bind.bind_lunit turn_def
      by (auto simp: run_simps)
    have t: "turn_job (turn delay) = record_job bs raw" "delay_after_previous_ms (turn delay) = delay" "fin delay" "0 \<le> delay"
      "turns ?session = [] \<longrightarrow> delay = 0"
      using d raw by (auto simp: turn_def turn_job_def record_job_def mooncake_delay_def run_simps)
    have sid: "map session_id (mc_sessions st') = map session_id (mc_sessions st1)"
      using s(1) by (simp add: st' map_update) (metis list_update_id map_update)
    have len: "length (mc_sessions st') = length (mc_sessions st1)" by (simp add: st')
    have nth: "session_id (mc_sessions st' ! j) = session_id (mc_sessions st1 ! j)" if "j < length (mc_sessions st1)" for j
      using that by (cases "j = i") (simp_all add: st')
    have "map turn_job (turns session) = map snd (filter (\<lambda>r. fst r = session_id session) (recs @ [(?sid, record_job bs raw)])) \<and> delay_ok fin (turns session)"
      if "session \<in> set (mc_sessions st')" for session
    proof -
      from that obtain j where "j < length (mc_sessions st')" "mc_sessions st' ! j = session" unfolding in_set_conv_nth by blast
      then have j: "j < length (mc_sessions st1)" "session = mc_sessions st' ! j" unfolding len by simp_all
      have old: "map turn_job (turns (mc_sessions st1 ! j)) = map snd (filter (\<lambda>r. fst r = session_id (mc_sessions st1 ! j)) recs)"
        "delay_ok fin (turns (mc_sessions st1 ! j))" using s(6) j(1) nth_mem by blast+
      show ?thesis
      proof (cases "j = i")
        case True
        then show ?thesis using old t s(2) j delay_ok_snoc [OF old(2), of "turn delay"] by (auto simp: st')
      next
        case False
        have "distinct (map session_id (mc_sessions st1))" using s(4) by (metis firsts_simps(3))
        then have "session_id (mc_sessions st1 ! j) \<noteq> ?sid" using False j(1) s(1,2) nth_eq_iff_index_eq [of "map session_id (mc_sessions st1)" j i] by simp
        then show ?thesis using old False j by (simp add: st')
      qed
    qed
    moreover have "hm_get (session_indices st') v = Some j \<longleftrightarrow> j < length (mc_sessions st') \<and> session_id (mc_sessions st' ! j) = v" for v j
    proof -
      have "hm_get (session_indices st') v = Some j \<longleftrightarrow> j < length (mc_sessions st1) \<and> session_id (mc_sessions st1 ! j) = v"
        using s(5) by (simp add: st')
      then show ?thesis using nth [of j] unfolding len by auto
    qed
    moreover have "length (last_timestamps st') = length (mc_sessions st')" unfolding len using s(3) by (simp add: st' split: option.splits)
    ultimately show ?thesis using s(4) sid unfolding mooncake_inv_def by simp
  qed
qed

lemma mooncake_lines_ok:
  assumes "mooncake_inv fin recs st" "fin 0"
  shows "returns (mooncake_lines fin bs line_idx ls st)"
    and "mooncake_lines fin bs line_idx ls st = Some (Inr st') \<Longrightarrow> mooncake_inv fin (recs @ file_records bs line_idx ls) st'"
proof -
  have "returns (mooncake_lines fin bs line_idx ls st) \<and>
    (mooncake_lines fin bs line_idx ls st = Some (Inr st') \<longrightarrow> mooncake_inv fin (recs @ file_records bs line_idx ls) st')"
    using assms(1)
  proof (induction ls arbitrary: line_idx recs st)
    case (Cons l ls)
    show ?case
    proof (cases l)
      case (Line raw)
      note rec = mooncake_record_ok [OF Cons.prems assms(2), of bs "line_idx + 1" raw]
      show ?thesis
      proof (cases "mooncake_record fin bs (line_idx + 1) raw st")
        case (Some res)
        show ?thesis
        proof (cases res)
          case (Inr st1)
          then show ?thesis using Cons.IH [OF rec(2), of st1 "line_idx + 1"] Some Line by simp
        qed (use Some Line in simp)
      qed (use rec in simp)
    qed (use Cons in simp_all)
  qed auto
  then show "returns (mooncake_lines fin bs line_idx ls st)"
    and "mooncake_lines fin bs line_idx ls st = Some (Inr st') \<Longrightarrow> mooncake_inv fin (recs @ file_records bs line_idx ls) st'" by auto
qed

lemma turn_tokens_cong:
  assumes "map (ucast :: u64 \<Rightarrow> u32) (hash_ids a) = map ucast (hash_ids b)" "input_length a = input_length b"
  shows "turn_tokens bs a = turn_tokens bs b"
proof -
  have "map (\<lambda>h. replicate bs (ucast h :: u32)) (hash_ids c) = map (replicate bs) (map ucast (hash_ids c))" for c :: "('t, 'z) TurnTrace_scheme"
    by simp
  then show ?thesis unfolding turn_tokens_def using assms by metis
qed

lemma synthesize_tokens_cong:
  assumes "map (ucast :: u64 \<Rightarrow> u32) (hash_ids a) = map ucast (hash_ids b)" "input_length a = input_length b"
  shows "synthesize_tokens E bs a = synthesize_tokens E bs b"
proof -
  have len: "length (hash_ids a) = length (hash_ids b)" using arg_cong [OF assms(1), of length] by simp
  have "synthesize_loop bs (input_length a) (hash_ids a) [] = synthesize_loop bs (input_length b) (hash_ids b) []"
    using turn_tokens_cong [OF assms, of bs] by (simp add: synthesize_loop_eq turn_tokens_def)
  then show ?thesis unfolding synthesize_tokens_def validate_block_size_and_capacity_def by (simp only: len assms(2))
qed

definition same_prompt :: "'t TurnTrace \<Rightarrow> 't TurnTrace \<Rightarrow> bool" where
  "same_prompt a b = (input_length a = input_length b \<and> map (ucast :: u64 \<Rightarrow> u32) (hash_ids a) = map ucast (hash_ids b))"

lemma agentic_turns_groups:
  "agentic_turns fin ms bs shared (Some g) line i rest final input ids delay unique = Inr (ts, unique') \<Longrightarrow>
   map (ucast :: u64 \<Rightarrow> u32) ids = map ucast ids2 \<Longrightarrow>
     \<exists>ts2. agentic_turns fin ms bs shared (Some g2) line2 i rest final input ids2 delay unique = Inr (ts2, unique') \<and> list_all2 same_prompt ts ts2"
proof (induction rest arbitrary: i input ids ids2 delay unique ts)
  case Nil
  then show ?case by (auto simp: same_prompt_def)
next
  case (Cons call rest)
  obtain response outlen latency where call: "call = (response, outlen, latency)" by (cases call)
  obtain input1 ids1 unique1 later where s: "fin latency" "0 \<le> latency"
    "Option.bind (checked_add input response) (\<lambda>n. checked_add n outlen) = Some input1"
    "extend_applied_compute_agentic_hash_ids input1 bs shared (Some g) ids unique = Inr (ids1, unique1)"
    "agentic_turns fin ms bs shared (Some g) line (Suc i) rest final input1 ids1 (ms latency) unique1 = Inr (later, unique')"
    "ts = \<lparr>input_length = input, turn_max_output_tokens = response, hash_ids = ids, delay_after_previous_ms = delay\<rparr> # later"
    using Cons.prems(1) call by (auto simp: not_less run_simps split: if_splits)
  obtain ids1' where e: "extend_applied_compute_agentic_hash_ids input1 bs shared (Some g2) ids2 unique = Inr (ids1', unique1)"
    "map (ucast :: u64 \<Rightarrow> u32) ids1 = map ucast ids1'"
    using extend_agentic_ids_groups [OF Cons.prems(2) s(4) [unfolded extend_applied_compute_agentic_hash_ids_def]]
    by (auto simp: extend_applied_compute_agentic_hash_ids_def)
  obtain later2 where "agentic_turns fin ms bs shared (Some g2) line2 (Suc i) rest final input1 ids1' (ms latency) unique1 = Inr (later2, unique')"
    "list_all2 same_prompt later later2"
    using Cons.IH [OF s(5) e(2)] by blast
  moreover have "same_prompt \<lparr>input_length = input, turn_max_output_tokens = response, hash_ids = ids, delay_after_previous_ms = delay\<rparr>
      \<lparr>input_length = input, turn_max_output_tokens = response, hash_ids = ids2, delay_after_previous_ms = delay\<rparr>"
    using Cons.prems(2) by (simp add: same_prompt_def)
  ultimately show ?case using s(1-3,6) e(1) call by (simp add: ok_or_def not_less)
qed

section \<open>Properties\<close>

text \<open>
  C36 (mooncake_sessions). Loading a Mooncake file never panics. When it succeeds, the sessions stand in the
  order in which their names first occur, and the turns of a session are exactly the lines that name
  it, in the order of the file, with their lengths and hash ids; delays are finite and not negative, and
  the first turn of a session has none.
\<close>

theorem mooncake_sessions:
  assumes "fin (0 :: 't :: {linorder,zero,minus})"
  shows "returns (from_mooncake fin bs lns) \<and> (\<forall>trace. from_mooncake fin bs lns = Some (Inr trace) \<longrightarrow>
    map session_id (sessions trace) = firsts (map fst (file_records bs 0 lns)) \<and>
    (\<forall>session \<in> set (sessions trace). turns session \<noteq> [] \<and> delay_ok fin (turns session) \<and>
      map turn_job (turns session) = map snd (filter (\<lambda>r. fst r = session_id session) (file_records bs 0 lns))))"
proof -
  let ?st0 = "\<lparr>mc_sessions = [], session_indices = [], last_timestamps = []\<rparr> :: 't mooncake_state"
  have inv0: "mooncake_inv fin [] ?st0" by (simp add: mooncake_inv_def)
  note l = mooncake_lines_ok [OF inv0 assms, of bs 0 lns]
  have "returns (from_mooncake fin bs lns)"
    using l(1) by (auto simp: from_mooncake_def and_then_def split: sum.splits)
  moreover have "map session_id (sessions trace) = firsts (map fst (file_records bs 0 lns)) \<and>
      (\<forall>session \<in> set (sessions trace). turns session \<noteq> [] \<and> delay_ok fin (turns session) \<and>
        map turn_job (turns session) = map snd (filter (\<lambda>r. fst r = session_id session) (file_records bs 0 lns)))"
    if ok: "from_mooncake fin bs lns = Some (Inr trace)" for trace
  proof -
    obtain st where st: "mooncake_lines fin bs 0 lns ?st0 = Some (Inr st)" "sessions trace = mc_sessions st"
      using ok by (auto simp: from_mooncake_def run_simps split: if_splits)
    have inv: "mooncake_inv fin (file_records bs 0 lns) st" using l(2) [OF st(1)] by simp
    have "turns session \<noteq> []" if "session \<in> set (mc_sessions st)" for session
    proof -
      have "session_id session \<in> set (map fst (file_records bs 0 lns))"
        using inv that unfolding mooncake_inv_def by (metis firsts_simps(2) image_eqI set_map)
      then have "filter (\<lambda>r. fst r = session_id session) (file_records bs 0 lns) \<noteq> []" by (force simp: filter_empty_conv)
      then show ?thesis using inv that by (auto simp: mooncake_inv_def)
    qed
    then show ?thesis using inv st(2) by (auto simp: mooncake_inv_def)
  qed
  ultimately show ?thesis by blast
qed

text \<open>
  C35 (agentic_conversations). A file that the agentic loader accepts gives one session for every record, in the order of the lines and
  named after them, with the prompts, outputs and delays of the record. It passes the check for replay at a
  given concurrency exactly when all its latencies are still finite and not negative in milliseconds, which the loader does
  not look at: it checks them in seconds. The sessions are conversations: the tokens of a prompt are the beginning of the
  tokens of all later prompts, so that their blocks can be reused.
\<close>

theorem agentic_conversations:
  assumes load: "from_applied_compute_agentic fin S bs lns = Inr trace" and "fin (0 :: 't :: {linorder,zero})"
  shows "trace_block_size trace = bs \<and> list_all2 (session_of_record S) (agentic_records 0 lns) (sessions trace) \<and>
    (trace_small trace \<longrightarrow> (validate_for_concurrency_mode E fin trace = Some (Inr ()) \<longleftrightarrow>
      (\<forall>r \<in> set (agentic_records 0 lns). \<forall>l \<in> set (tool_call_latency (snd r)). fin (latency_ms S l) \<and> 0 \<le> latency_ms S l))) \<and>
    (\<forall>session \<in> set (sessions trace). \<forall>j < length (turns session). \<forall>i < j. length (hash_ids (turns session ! j)) * bs \<le> usize_max \<longrightarrow>
      (\<exists>tokens. synthesize_tokens E bs (turns session ! j) = Some (Inr tokens) \<and>
        synthesize_tokens E bs (turns session ! i) = Some (Inr (take (input_length (turns session ! i)) tokens))))"
proof -
  obtain ss where bs: "0 < bs" and l: "agentic_lines fin S bs 0 lns 1 = Inr ss" "ss \<noteq> []"
    and t: "trace = \<lparr>trace_block_size = bs, sessions = ss\<rparr>"
    using load by (auto simp: from_applied_compute_agentic_def run_simps split: if_splits)
  define good where "good r session \<longleftrightarrow> session_of_record S r session \<and> turns session \<noteq> [] \<and> list_all (agentic_turn_ok bs) (turns session) \<and>
    sorted_wrt continues (turns session)" for r and session :: "'t SessionTrace"
  have good: "list_all2 good (agentic_records 0 lns) ss"
  proof (rule list_all2_mono [OF agentic_lines_sessions [OF l(1)]])
    fix r and session :: "'t SessionTrace"
    assume "\<exists>unique unique'. agentic_record fin S bs (fst r) (snd r) unique = Inr (session, unique')"
    then obtain unique unique' where "agentic_record fin S bs (fst r) (snd r) unique = Inr (session, unique')" by blast
    from agentic_record_ok [OF this bs] show "good r session" by (simp add: good_def)
  qed
  have sess: "list_all2 (session_of_record S) (agentic_records 0 lns) ss" by (rule list_all2_mono [OF good]) (simp add: good_def)
  let ?fine = "\<lambda>r. \<forall>l \<in> set (tool_call_latency (snd r)). fin (latency_ms S l) \<and> 0 \<le> latency_ms S l"
  have "list_all2 (\<lambda>r session. ?fine r \<longleftrightarrow> session_valid fin True bs session) (agentic_records 0 lns) ss"
    by (rule list_all2_mono [OF good])
      (use agentic_session_valid [where fin = fin and bs = bs and S = S] bs assms(2) in \<open>force simp: good_def\<close>)
  then have "(\<forall>r \<in> set (agentic_records 0 lns). ?fine r) \<longleftrightarrow> (\<forall>session \<in> set ss. session_valid fin True bs session)"
    by (auto simp: list_all2_conv_all_nth all_set_conv_all_nth)
  then have valid: "trace_small trace \<longrightarrow> (validate_for_concurrency_mode E fin trace = Some (Inr ()) \<longleftrightarrow> (\<forall>r \<in> set (agentic_records 0 lns). ?fine r))"
    using validate_exact(2) [of trace E fin True] l(2) bs by (simp add: validate_for_concurrency_mode_def t trace_valid_def)
  have "\<exists>tokens. synthesize_tokens E bs (turns session ! j) = Some (Inr tokens) \<and>
      synthesize_tokens E bs (turns session ! i) = Some (Inr (take (input_length (turns session ! i)) tokens))"
    if s: "session \<in> set ss" "i < j" "j < length (turns session)" and small: "length (hash_ids (turns session ! j)) * bs \<le> usize_max" for session i j
  proof -
    obtain r where "good r session" using good s(1) unfolding list_all2_conv_all_nth in_set_conv_nth by metis
    then have c: "continues (turns session ! i) (turns session ! j)" and ok: "agentic_turn_ok bs (turns session ! i)" "agentic_turn_ok bs (turns session ! j)"
      using s(2,3) by (simp_all add: good_def sorted_wrt_iff_nth_less list_all_length)
    have "length (hash_ids (turns session ! i)) \<le> length (hash_ids (turns session ! j))" using c unfolding continues_def by (metis length_take min.cobounded1)
    then have small': "length (hash_ids (turns session ! i)) * bs \<le> usize_max" using small by (meson le_trans mult_le_mono1)
    have fits: "input_length (turns session ! k) \<le> length (hash_ids (turns session ! k)) * bs" if "k = i \<or> k = j" for k
      using ok that div_ceil_covers [OF bs] by (auto simp: agentic_turn_ok_def)
    show ?thesis
      using synthesize_tokens_eq [OF small, of E] synthesize_tokens_eq [OF small', of E] bs fits [of i] fits [of j] continues_tokens [OF c, of bs] by simp
  qed
  then show ?thesis using sess valid by (simp add: t)
qed

text \<open>
  C37 (prefix_groups_collapse). The prefix groups of an agentic trace have no effect on the prompts: a record read on
  any other line, and so in any other group, gives turns from which \<open>synthesize_tokens\<close> makes the very same
  tokens, although the hash ids of the two groups differ. The group is stored in the upper half of a hash id, and a token is its lower half.
\<close>

theorem prefix_groups_collapse:
  assumes "agentic_record fin S bs line raw unique = Inr (session, unique')" and "0 < bs"
    and "ratio_positive S" and "0 < num_prefix_groups S"
  shows "\<exists>session'. agentic_record fin S bs line' raw unique = Inr (session', unique') \<and>
    map (synthesize_tokens E bs) (turns session') = map (synthesize_tokens E bs) (turns session) \<and>
    (num_prefix_groups S \<le> 2 ^ 16 \<and> line' mod num_prefix_groups S \<noteq> line mod num_prefix_groups S \<and>
      0 < initial_blocks S (div_ceil (input_prompt_length raw) bs) \<longrightarrow> hash_ids (hd (turns session')) \<noteq> hash_ids (hd (turns session)))"
proof -
  let ?input = "input_prompt_length raw" and ?g = "line mod num_prefix_groups S" and ?g' = "line' mod num_prefix_groups S"
  let ?shared = "initial_blocks S (div_ceil ?input bs)"
  let ?calls = "zip (assistant_response_length raw) (zip (tool_call_output_length raw) (tool_call_latency raw))"
  obtain ids unique1 ts where e: "extend_applied_compute_agentic_hash_ids ?input bs ?shared (Some ?g) [] unique = Inr (ids, unique1)"
    and t: "agentic_turns fin (latency_ms S) bs ?shared (Some ?g) (line + 1) 0 ?calls
      (final_assistant_response_length raw) ?input ids 0 unique1 = Inr (ts, unique')" and s: "turns session = ts"
    and c: "length (assistant_response_length raw) = num_turns raw" "length (tool_call_output_length raw) = num_turns raw"
      "length (tool_call_latency raw) = num_turns raw" "?input \<noteq> 0"
    using assms by (auto simp: agentic_record_def Let_def run_simps split: if_splits)
  obtain ids' where e': "extend_applied_compute_agentic_hash_ids ?input bs ?shared (Some ?g') [] unique = Inr (ids', unique1)"
    "map (ucast :: u64 \<Rightarrow> u32) ids = map ucast ids'"
    using extend_agentic_ids_groups [OF refl e [unfolded extend_applied_compute_agentic_hash_ids_def], of ?g']
    by (auto simp: extend_applied_compute_agentic_hash_ids_def)
  obtain ts' where t': "agentic_turns fin (latency_ms S) bs ?shared (Some ?g') (line' + 1) 0 ?calls
      (final_assistant_response_length raw) ?input ids' 0 unique1 = Inr (ts', unique')" "list_all2 same_prompt ts ts'"
    using agentic_turns_groups [OF t e'(2)] by blast
  have "agentic_record fin S bs line' raw unique = Inr (\<lparr>session_id = ''applied_compute_agentic_session_'' @ dec_string (line' + 1),
      first_arrival_timestamp_ms = None, turns = ts'\<rparr>, unique')"
    using assms(3,4) c e'(1) t'(1) by (simp add: agentic_record_def Let_def)
  moreover have "map (synthesize_tokens E bs) ts' = map (synthesize_tokens E bs) ts"
    using t'(2) by (induction rule: list_all2_induct) (auto simp: same_prompt_def intro: synthesize_tokens_cong)
  moreover have "hash_ids (hd ts') \<noteq> hash_ids (hd ts)" if "num_prefix_groups S \<le> 2 ^ 16" "?g' \<noteq> ?g" "0 < ?shared"
  proof -
    have g: "?g < 2 ^ 16" "?g' < 2 ^ 16" using assms(4) that(1) by (meson less_le_trans mod_less_divisor)+
    have "0 < div_ceil ?input bs" using c(4) div_ceil_covers [OF assms(2), of ?input] by (cases "div_ceil ?input bs") auto
    then have "ids ! 0 = shared_hash_id ?g 0" "ids' ! 0 = shared_hash_id ?g' 0"
      using extend_agentic_ids_first [OF e [unfolded extend_applied_compute_agentic_hash_ids_def]]
        extend_agentic_ids_first [OF e'(1) [unfolded extend_applied_compute_agentic_hash_ids_def]] that(3) by simp_all
    then have "ids' \<noteq> ids" using shared_hash_id_group g that(2) by metis
    moreover have "hash_ids (hd ts) = ids" "hash_ids (hd ts') = ids'" using agentic_turns_first t t'(1) by blast+
    ultimately show ?thesis by simp
  qed
  ultimately show ?thesis using s by simp
qed

section \<open>Witnesses\<close>

definition demo_record :: "string \<Rightarrow> int \<Rightarrow> u64 list \<Rightarrow> int RawMooncakeRecord" where
  "demo_record sid t ids = \<lparr>raw_session_id = Some sid, raw_timestamp = Some t, raw_created_time = None, raw_input_length = Some 3,
     raw_output_length = Some 1, raw_hash_ids = Some ids, raw_delay = None, raw_delay_ms = None\<rparr>"

definition demo_file :: "int RawMooncakeRecord file_line list" where
  "demo_file = [Line (demo_record ''a'' 0 [7, 8]), Blank, Line (demo_record ''b'' 1 [7]), Line (demo_record ''a'' 5 [7, 8, 9])]"

lemmas demo_load = from_mooncake_def demo_file_def demo_record_def mooncake_record_def mooncake_session_def mooncake_delay_def ensure_def
  or_else_def usize_max_def hm_get_def hm_insert_def index_run_def Let_def

theorem mooncake_sessions_witness:
  "\<exists>trace. from_mooncake (\<lambda>_ :: int. True) 2 demo_file = Some (Inr trace) \<and> map session_id (sessions trace) = [''a'', ''b''] \<and>
     (\<forall>session \<in> set (sessions trace). session_id session = ''a'' \<longrightarrow> map turn_job (turns session) = [(3, 1, [7, 8]), (3, 1, [7, 8, 9])])"
proof -
  have "\<exists>trace. from_mooncake (\<lambda>_ :: int. True) 2 demo_file = Some (Inr trace)" by (simp add: demo_load)
  then obtain trace where t: "from_mooncake (\<lambda>_ :: int. True) 2 demo_file = Some (Inr trace)" by blast
  have r: "file_records 2 0 demo_file = [(''a'', 3, 1, [7, 8]), (''b'', 2, 1, [7]), (''a'', 3, 1, [7, 8, 9])]"
    by (simp add: demo_file_def demo_record_def record_session_def record_job_def)
  show ?thesis
    using mooncake_sessions [of "\<lambda>_. True" 2 demo_file] t by (auto simp: r firsts_def)
qed

definition demo_agentic :: "int RawAppliedComputeAgenticRecord" where
  "demo_agentic = \<lparr>num_turns = 1, input_prompt_length = 3, assistant_response_length = [1], tool_call_output_length = [2],
     tool_call_latency = [4], final_assistant_response_length = 1\<rparr>"

definition demo_settings :: "int agentic_settings" where
  "demo_settings = \<lparr>ratio_in_range = True, ratio_positive = True, num_prefix_groups = 2, initial_blocks = (\<lambda>n. n), latency_ms = (\<lambda>t. t * 1000)\<rparr>"

lemmas demo_agentic_load = agentic_record_def demo_agentic_def demo_settings_def extend_applied_compute_agentic_hash_ids_def div_ceil_def
  extend_agentic_ids.simps ok_or_def checked_add_def usize_max_def Let_def u64_checked_add_def

theorem agentic_conversations_witness:
  "\<exists>trace tokens. from_applied_compute_agentic (\<lambda>l. l < 9000) demo_settings 2 [Blank, Line demo_agentic] = Inr trace \<and>
     map session_id (sessions trace) = [''applied_compute_agentic_session_'' @ dec_string 2] \<and>
     validate_for_concurrency_mode demo_env (\<lambda>l. l < 9000) trace = Some (Inr ()) \<and>
     synthesize_tokens demo_env 2 (turns (hd (sessions trace)) ! 1) = Some (Inr tokens) \<and>
     synthesize_tokens demo_env 2 (turns (hd (sessions trace)) ! 0) = Some (Inr (take 3 tokens))"
proof -
  let ?fin = "\<lambda>l::int. l < 9000"
  have "\<exists>trace. from_applied_compute_agentic ?fin demo_settings 2 [Blank, Line demo_agentic] = Inr trace \<and> length (sessions trace) = 1 \<and>
      (let session = hd (sessions trace) in length (turns session) = 2 \<and> input_length (turns session ! 0) = 3 \<and>
       length (hash_ids (turns session ! 1)) = 3 \<and> trace_small trace)"
    by (simp add: from_applied_compute_agentic_def demo_agentic_load trace_small_def)
  then obtain trace where t: "from_applied_compute_agentic ?fin demo_settings 2 [Blank, Line demo_agentic] = Inr trace"
    and s: "length (sessions trace) = 1" "length (turns (hd (sessions trace))) = 2" "input_length (turns (hd (sessions trace)) ! 0) = 3"
      "length (hash_ids (turns (hd (sessions trace)) ! 1)) = 3" "trace_small trace" unfolding Let_def by blast
  obtain session where one: "sessions trace = [session]" using s(1) by (auto simp: length_Suc_conv)
  note c = agentic_conversations [OF t, of demo_env]
  have "map session_id (sessions trace) = [''applied_compute_agentic_session_'' @ dec_string 2]"
    using c by (simp add: one session_of_record_def numeral_2_eq_2)
  moreover have "validate_for_concurrency_mode demo_env ?fin trace = Some (Inr ())"
    using c s(5) by (simp add: demo_agentic_def demo_settings_def)
  moreover have "\<exists>tokens. synthesize_tokens demo_env 2 (turns session ! 1) = Some (Inr tokens) \<and>
      synthesize_tokens demo_env 2 (turns session ! 0) = Some (Inr (take (input_length (turns session ! 0)) tokens))"
    using c [THEN conjunct2, THEN conjunct2, THEN conjunct2] s(2,4) by (simp add: one usize_max_def)
  then have "\<exists>tokens. synthesize_tokens demo_env 2 (turns session ! 1) = Some (Inr tokens) \<and>
      synthesize_tokens demo_env 2 (turns session ! 0) = Some (Inr (take 3 tokens))" using s(3) by (simp add: one)
  ultimately show ?thesis using t by (auto simp: one)
qed

theorem prefix_groups_collapse_witness:
  "\<exists>session session' u. agentic_record (\<lambda>_. True) demo_settings 2 0 demo_agentic 1 = Inr (session, u) \<and>
     agentic_record (\<lambda>_. True) demo_settings 2 1 demo_agentic 1 = Inr (session', u) \<and>
     map (synthesize_tokens demo_env 2) (turns session') = map (synthesize_tokens demo_env 2) (turns session) \<and>
     hash_ids (hd (turns session')) \<noteq> hash_ids (hd (turns session))"
proof -
  have "\<exists>session u. agentic_record (\<lambda>_. True) demo_settings 2 0 demo_agentic 1 = Inr (session, u)"
    by (simp add: demo_agentic_load)
  then obtain session u where r: "agentic_record (\<lambda>_. True) demo_settings 2 0 demo_agentic 1 = Inr (session, u)" by blast
  then show ?thesis using prefix_groups_collapse [OF r, of 1 demo_env] by (auto simp: demo_settings_def demo_agentic_def div_ceil_def)
qed

end
