(* ===== verification/Spec2Isabelle.thy ===== *)
theory Spec2Isabelle
  imports SingleReplay TwoPart ZeroCopy TraceFiles
begin

text \<open>
  A verification of the core of Pagoda, a distributed serving runtime for language models in Rust.

  \<^bold>\<open>The program.\<close> A request is a list of tokens. The crate \<open>lib/tokens\<close> cuts it into blocks of equal size and
  gives every block hashes that name it together with all that precedes it. A simulated worker (crate
  \<open>lib/mocker\<close>) keeps the blocks of its running requests in a paged KV cache, reuses blocks that other
  requests left there, takes blocks from a cache that all workers share, publishes events from which a
  router learns what is cached where, and runs a scheduler that admits, advances, preempts and completes
  requests. The crate \<open>lib/runtime\<close> carries requests and responses between processes as length-prefixed
  frames over TCP.

  \<^bold>\<open>Theories, from the bottom up.\<close>
  \<^item> \<open>Prelude\<close>: machine integers, calls that may panic (type \<open>run\<close>), lists, division, bytes. \<open>HashTables\<close>: hash
    maps as association lists and the interface \<open>stamped_pool\<close> of the two caches. \<open>RustStd\<close>: decimal text, UTF-8 and I/O errors.
  \<^item> \<open>PositionalHash\<close>: \<open>PositionalSequenceHash\<close> and \<open>PositionalLineageHash\<close> of \<open>lib/tokens/src/lib.rs\<close>, their bit
    layouts at the width of the machine words, order and serialisation.
  \<^item> \<open>TokenBlocks\<close>: \<open>PartialTokenBlock\<close>, \<open>TokenBlock\<close> and \<open>TokenBlockSequence\<close> of the same file. The operations refine
    those on plain token lists: the state after any of them is the one \<open>new\<close> builds from the resulting list.
  \<^item> \<open>ActiveSeq\<close>: \<open>ActiveSequence\<close> (\<open>lib/mocker/src/common/sequence.rs\<close>), the sequence of a running request, and the
    signals \<open>Use\<close>, \<open>Promote\<close> and \<open>Deref\<close> it sends to the cache.
  \<^item> \<open>LmCache\<close>: the shared cache (\<open>lib/mocker/src/kv_cache/lmcache_adapter.rs\<close>) with its two FIFO tiers.
  \<^item> \<open>LocalKvCache\<close>: the cache of a worker (\<open>lib/mocker/src/kv_cache/local_vllm_cache.rs\<close>, \<open>events.rs\<close>): reference
    counts, LRU reuse, registration, events. \<open>Cluster\<close>: several workers on one shared cache.
  \<^item> \<open>KvLedger\<close>: the worker's cache as its clients see it, the locales \<open>block_ledger\<close> and \<open>bounded_ledger\<close>, interpreted on
    \<open>LocalKvCache\<close>.
  \<^item> \<open>SchedQueues\<close>, \<open>VllmCore\<close>: the queues and the scheduler (\<open>lib/mocker/src/scheduler/vllm/core.rs\<close>). \<open>VllmBudget\<close>
    bounds the work of a pass, \<open>VllmInv\<close> has the invariant and shows that no call panics, \<open>VllmLive\<close> that every
    pass makes progress, \<open>VllmJobs\<close> what a pass leaves unchanged, \<open>Scheduler\<close> the properties of the component.
  \<^item> \<open>Workload\<close>: traces of conversations (\<open>lib/mocker/src/loadgen/types.rs\<close>, \<open>trace.rs\<close>): turns, sessions, the hash identities
    that stand for tokens, their synthesis, partition and expansion. \<open>TraceFiles\<close>: the readers of trace files over lines
    that are already parsed. \<open>LoadDriver\<close> (\<open>loadgen/driver.rs\<close>): the driver that releases the turns of each session one at a
    time, a heap of ready sessions and the turns in flight.
  \<^item> \<open>SingleReplay\<close>: the replay of a workload on one worker (\<open>lib/mocker/src/replay/offline/single.rs\<close>), the composition of
    driver and scheduler under a simulated clock.
  \<^item> \<open>FrameCodec\<close>: the interface \<open>frame_codec\<close> of a framing, and that messages survive every fragmentation.
    \<open>TwoPart\<close> (\<open>codec/two_part.rs\<close>), \<open>TcpCodec\<close> (\<open>codec.rs\<close>) and \<open>ZeroCopy\<close> (\<open>codec/zero_copy_decoder.rs\<close>) interpret it
    for the three wire formats of \<open>lib/runtime/src/pipeline/network\<close>.

  \<^bold>\<open>What is shown.\<close> The token and hash layer computes what its definition on lists says, with every panic
  characterised. The caches keep their capacity, evict the right block, and the events of a worker describe
  its cache exactly. The scheduler never panics, keeps the reference counts of the cache exact, respects its
  limits, and finishes its requests under stated conditions; where the code does not do what it means to,
  a theorem says so. A driver hands out the turns of every session in order, each once and after the completion of the one before it, and is
  never stuck while turns remain. A replay ends without error after a number of rounds that is computed from the trace, under LIFO
  preemption and when every turn fits into the cache and the budget of a pass covers the largest turns of all sessions together. The codecs are round trips that reject everything
  else.

  \<^bold>\<open>Parameters.\<close> xxh3, \<open>bytemuck\<close>, the JSON library, random numbers and the growth of buffers are arguments of the
  definitions, as are the clock of a replay (any linearly ordered type with addition), the end \<open>T\<close> of a pass as a
  function of what the pass did and when it began, and the hash \<open>router_hash\<close> of the router crate. Random identities are numbered draws of a source; theorems ask that the first \<open>N\<close> of them are
  distinct, with \<open>N\<close> bounding what the run in question draws. No theorem assumes that hashes do not
  collide, except where its statement says so.

  \<^bold>\<open>Bounds and fuel.\<close> Loops are structural or have a measure (the length of the running queue, of a buffer,
  of a list). The one fuel is the length of the receive buffer plus one in the drain loops of \<open>FrameCodec\<close>: every
  frame takes at least one byte. \<open>run_passes n\<close> runs a given number of passes, and \<open>worker_drains\<close> bounds it. The loop of a replay is
  bounded by twice the output tokens owed, plus two for each request and two in all (\<open>replay_serves_workload\<close>); each
  round of it serves a token or releases a turn.

  \<^bold>\<open>Not modelled.\<close> Floating-point durations (a pass returns the integers they are predicted from), log and metric
  output, the generator of synthetic traces, the derivation of router hashes from a whole trace, routing by cached
  prefixes (a crate that is not part of the sources), and the asynchronous tasks, sockets and external services around the modelled parts; the manifest
  lists them with reasons.
\<close>

end
